(* ===== verification/Prelude.thy ===== *)
theory Prelude
  imports Main "HOL-Library.Word" "HOL-Library.Sublist"
begin

text \<open>
  Shared vocabulary of the development: bytes and machine words, the target ABI, memory as byte
  lists (reading a slice, copying a block over another), the byte order of 16 and 32 bit fields,
  C strings inside a buffer, and the two number conversions of the C library that the modelled
  programs use (\<open>strtoul\<close> and \<open>printf\<close>'s hexadecimal conversion).
\<close>

unbundle bit_operations_syntax

section \<open>Types\<close>

type_synonym byte = "8 word"
type_synonym u16 = "16 word"
type_synonym u32 = "32 word"
type_synonym u64 = "64 word"
type_synonym bytes = "byte list"

text \<open>
  What the programs depend on of the machine they are compiled for: the byte order, whether a plain
  \<open>char\<close> is signed, and the width of \<open>unsigned long\<close>. OpenWrt builds the same sources for big endian
  MIPS (ar71xx), little endian MIPS (ramips, brcm47xx), ARM and x86.
\<close>

record abi =
  big_endian :: bool
  signed_char :: bool
  ulong_bits :: nat

definition mips_be :: abi where
  "mips_be = \<lparr>big_endian = True, signed_char = True, ulong_bits = 32\<rparr>"

definition mips_le :: abi where
  "mips_le = \<lparr>big_endian = False, signed_char = True, ulong_bits = 32\<rparr>"

definition x86_64 :: abi where
  "x86_64 = \<lparr>big_endian = False, signed_char = True, ulong_bits = 64\<rparr>"

text \<open>
  \<open>layout\<close> collects the equations that describe where a field sits in a byte buffer; \<open>abi_defs\<close>
  the definitions of the concrete machines, for evaluation.
\<close>

named_theorems layout
named_theorems abi_defs

section \<open>Memory as byte lists\<close>

text \<open>\<open>slice off n m\<close> is the block of \<open>n\<close> bytes at \<open>off\<close>; \<open>put off b m\<close> is \<open>m\<close> after
  \<open>memcpy(m + off, b, length b)\<close> with the block inside the buffer.\<close>

definition slice :: "nat \<Rightarrow> nat \<Rightarrow> 'a list \<Rightarrow> 'a list" where
  "slice off n m = take n (drop off m)"

definition put :: "nat \<Rightarrow> 'a list \<Rightarrow> 'a list \<Rightarrow> 'a list" where
  "put off b m = take off m @ b @ drop (off + length b) m"

section \<open>Byte order\<close>

definition le32_enc :: "u32 \<Rightarrow> bytes" where
  "le32_enc w = [ucast w, ucast (drop_bit 8 w), ucast (drop_bit 16 w), ucast (drop_bit 24 w)]"

definition be32_enc :: "u32 \<Rightarrow> bytes" where
  "be32_enc w = rev (le32_enc w)"

fun le32_dec :: "bytes \<Rightarrow> u32" where
  "le32_dec [a, b, c, d] =
     ucast a OR push_bit 8 (ucast b) OR push_bit 16 (ucast c) OR push_bit 24 (ucast d)"
| "le32_dec _ = 0"

definition be32_dec :: "bytes \<Rightarrow> u32" where
  "be32_dec b = le32_dec (rev b)"

definition bswap_32 :: "u32 \<Rightarrow> u32" where
  "bswap_32 w = le32_dec (be32_enc w)"

definition le16_enc :: "u16 \<Rightarrow> bytes" where
  "le16_enc w = [ucast w, ucast (drop_bit 8 w)]"

fun le16_dec :: "bytes \<Rightarrow> u16" where
  "le16_dec [a, b] = ucast a OR push_bit 8 (ucast b)"
| "le16_dec _ = 0"

definition be16_dec :: "bytes \<Rightarrow> u16" where
  "be16_dec b = le16_dec (rev b)"

text \<open>The memory image of a \<open>uint32_t\<close> and of a \<open>uint16_t\<close> on a machine, and the value of one.\<close>

definition native32_enc :: "abi \<Rightarrow> u32 \<Rightarrow> bytes" where
  "native32_enc A w = (if big_endian A then be32_enc w else le32_enc w)"

definition native32_dec :: "abi \<Rightarrow> bytes \<Rightarrow> u32" where
  "native32_dec A b = (if big_endian A then be32_dec b else le32_dec b)"

definition native16_enc :: "abi \<Rightarrow> u16 \<Rightarrow> bytes" where
  "native16_enc A w = (if big_endian A then rev (le16_enc w) else le16_enc w)"

definition native16_dec :: "abi \<Rightarrow> bytes \<Rightarrow> u16" where
  "native16_dec A b = (if big_endian A then be16_dec b else le16_dec b)"

text \<open>\<open>le32_to_cpu\<close>/\<open>cpu_to_le32\<close> and \<open>htonl\<close>/\<open>ntohl\<close>: byte swaps or nothing, by machine.\<close>

definition le32_to_cpu :: "abi \<Rightarrow> u32 \<Rightarrow> u32" where
  "le32_to_cpu A w = (if big_endian A then bswap_32 w else w)"

definition htonl :: "abi \<Rightarrow> u32 \<Rightarrow> u32" where
  "htonl A w = (if big_endian A then w else bswap_32 w)"

section \<open>C strings\<close>

text \<open>The string that starts at the front of a buffer: \<open>None\<close> when the buffer ends before a NUL,
  where the C program would read past it.\<close>

definition cstr :: "bytes \<Rightarrow> bytes option" where
  "cstr m = (if 0 \<in> set m then Some (takeWhile (\<lambda>b. b \<noteq> 0) m) else None)"

definition lit :: "string \<Rightarrow> bytes" where
  "lit s = map of_char s"

definition isspace :: "byte \<Rightarrow> bool" where
  "isspace c \<longleftrightarrow> c = 32 \<or> 9 \<le> c \<and> c \<le> 13"

definition digit_of :: "byte \<Rightarrow> nat" where
  "digit_of c =
     (if 48 \<le> c \<and> c \<le> 57 then unat c - 48
      else if 97 \<le> c \<and> c \<le> 122 then unat c - 87
      else if 65 \<le> c \<and> c \<le> 90 then unat c - 55
      else 99)"

definition digits_value :: "nat \<Rightarrow> bytes \<Rightarrow> nat" where
  "digits_value b ds = foldl (\<lambda>a c. a * b + digit_of c) 0 ds"

text \<open>
  \<open>strtoul(s, &r, base)\<close>: the value and \<open>r - s\<close>. White space and a sign are skipped; base 0 reads a
  \<open>0x\<close> prefix followed by a hexadecimal digit as base 16, a leading 0 as base 8; a value that does not
  fit is \<open>ULONG_MAX\<close>; a minus sign negates in the unsigned type; no digit means no conversion.
\<close>

definition strtoul_sign :: "bytes \<Rightarrow> bool \<times> nat" where
  "strtoul_sign s =
     (case s of [] \<Rightarrow> (False, 0)
      | c # _ \<Rightarrow> if c = 45 then (True, 1) else if c = 43 then (False, 1) else (False, 0))"

definition strtoul_hex :: "nat \<Rightarrow> bytes \<Rightarrow> bool" where
  "strtoul_hex base s \<longleftrightarrow>
     (base = 0 \<or> base = 16) \<and>
     (case s of z # x # d # _ \<Rightarrow> z = 48 \<and> (x = 120 \<or> x = 88) \<and> digit_of d < 16 | _ \<Rightarrow> False)"

definition strtoul_base :: "nat \<Rightarrow> bytes \<Rightarrow> nat" where
  "strtoul_base base s =
     (if base \<noteq> 0 then base else if strtoul_hex base s then 16
      else case s of c # _ \<Rightarrow> if c = 48 then 8 else 10 | [] \<Rightarrow> 10)"

definition strtoul :: "abi \<Rightarrow> nat \<Rightarrow> bytes \<Rightarrow> nat \<times> nat" where
  "strtoul A base s =
     (let ws = length (takeWhile isspace s); s1 = drop ws s;
          (neg, sg) = strtoul_sign s1; s2 = drop sg s1;
          hex = strtoul_hex base s2; b = strtoul_base base s2;
          pre = (if hex then 2 else 0);
          ds = takeWhile (\<lambda>c. digit_of c < b) (drop pre s2);
          v = digits_value b ds; top = 2 ^ ulong_bits A
      in if ds = [] then (0, 0)
         else (if top \<le> v then top - 1 else if neg then (top - v) mod top else v,
               ws + sg + pre + length ds))"

text \<open>\<open>printf("%0kX", v)\<close> for a value of at most \<open>k\<close> hexadecimal digits.\<close>

definition hex_char :: "nat \<Rightarrow> byte" where
  "hex_char d = (if d < 10 then of_nat (48 + d) else of_nat (55 + d))"

fun fmt_0X :: "nat \<Rightarrow> nat \<Rightarrow> bytes" where
  "fmt_0X 0 v = []"
| "fmt_0X (Suc k) v = fmt_0X k (v div 16) @ [hex_char (v mod 16)]"

section \<open>Lemmas on memory\<close>

lemma length_slice: "length (slice off n m) = min n (length m - off)"
  by (simp add: slice_def)

lemma length_slice_eq [simp]: "off + n \<le> length m \<Longrightarrow> length (slice off n m) = n"
  by (simp add: slice_def)

lemma length_put [simp]: "off + length b \<le> length m \<Longrightarrow> length (put off b m) = length m"
  by (simp add: put_def)

lemma slice_put_same [layout]:
  "off + length b \<le> length m \<Longrightarrow> n = length b \<Longrightarrow> slice off n (put off b m) = b"
  by (simp add: slice_def put_def)

lemma slice_put_before [layout]: "o2 + n \<le> off \<Longrightarrow> off \<le> length m \<Longrightarrow> slice o2 n (put off b m) = slice o2 n m"
  by (auto simp: slice_def put_def drop_take min_def)

lemma slice_put_after [layout]:
  "off + length b \<le> o2 \<Longrightarrow> off + length b \<le> length m \<Longrightarrow> slice o2 n (put off b m) = slice o2 n m"
  by (simp add: slice_def put_def)

lemma slice_append_left [layout]: "off + n \<le> length xs \<Longrightarrow> slice off n (xs @ ys) = slice off n xs"
  by (simp add: slice_def)

lemma slice_append_right [layout]:
  "length xs \<le> off \<Longrightarrow> slice off n (xs @ ys) = slice (off - length xs) n ys"
  by (simp add: slice_def)

lemma slice_all [layout]: "length m \<le> n \<Longrightarrow> slice 0 n m = m"
  by (simp add: slice_def)

lemma slice_slice: "i + k \<le> n \<Longrightarrow> slice i k (slice off n m) = slice (off + i) k m"
  by (simp add: slice_def drop_take ac_simps)

lemma slice_take_drop: "take n m @ slice n k m = take (n + k) m"
  by (simp add: slice_def take_add)

lemma slice_split: "i \<le> n \<Longrightarrow> slice off n m = slice off i m @ slice (off + i) (n - i) m"
  unfolding slice_def by (metis add.commute drop_drop le_add_diff_inverse take_add)

lemma take_put: "off + length b \<le> n \<Longrightarrow> off \<le> length m \<Longrightarrow> take n (put off b m) = put off b (take n m)"
  by (simp add: put_def drop_take)

section \<open>Lemmas on byte order\<close>

lemma length_enc [simp]:
  "length (le32_enc w) = 4" "length (be32_enc w) = 4" "length (native32_enc A w) = 4"
  "length (le16_enc v) = 2" "length (native16_enc A v) = 2"
  by (simp_all add: le32_enc_def be32_enc_def native32_enc_def le16_enc_def native16_enc_def)

lemma le32_dec_enc [simp]: "le32_dec (le32_enc w) = w"
proof (rule bit_word_eqI)
  fix n assume "n < LENGTH(32)"
  then consider "n < 8" | "8 \<le> n" "n < 16" | "16 \<le> n" "n < 24" | "24 \<le> n" "n < 32"
    by fastforce
  then show "bit (le32_dec (le32_enc w)) n = bit w n"
    by cases (auto simp: le32_enc_def bit_simps)
qed

lemma le32_enc_dec: "length b = 4 \<Longrightarrow> le32_enc (le32_dec b) = b"
proof -
  assume "length b = 4"
  then obtain p q r s where "b = [p, q, r, s]"
    by (auto simp: numeral_eq_Suc length_Suc_conv)
  moreover have "ucast (le32_dec [p, q, r, s]) = p" "ucast (drop_bit 8 (le32_dec [p, q, r, s])) = q"
    "ucast (drop_bit 16 (le32_dec [p, q, r, s])) = r" "ucast (drop_bit 24 (le32_dec [p, q, r, s])) = s"
    unfolding le32_dec.simps
    by (rule bit_word_eqI, auto simp: bit_simps dest: bit_imp_le_length)+
  ultimately show ?thesis by (simp add: le32_enc_def del: le32_dec.simps)
qed

lemma be32_dec_enc [simp]: "be32_dec (be32_enc w) = w"
  by (simp add: be32_dec_def be32_enc_def)

lemma be32_enc_dec: "length b = 4 \<Longrightarrow> be32_enc (be32_dec b) = b"
  by (simp add: be32_dec_def be32_enc_def le32_enc_dec)

lemma native32_dec_enc [simp]: "native32_dec A (native32_enc A w) = w"
  by (simp add: native32_dec_def native32_enc_def)

lemma native32_enc_dec: "length b = 4 \<Longrightarrow> native32_enc A (native32_dec A b) = b"
  by (simp add: native32_dec_def native32_enc_def le32_enc_dec be32_enc_dec)

lemma le16_dec_enc [simp]: "le16_dec (le16_enc w) = w"
  unfolding le16_enc_def le16_dec.simps
  by (rule bit_word_eqI) (auto simp: bit_simps)

lemma native16_dec_enc [simp]: "native16_dec A (native16_enc A w) = w"
  by (simp add: native16_dec_def native16_enc_def be16_dec_def)

lemma bswap_bswap [simp]: "bswap_32 (bswap_32 w) = w"
  by (simp add: bswap_32_def be32_enc_def le32_enc_dec)

lemma htonl_htonl [simp]: "htonl A (htonl A w) = w"
  by (simp add: htonl_def)

lemma le32_to_cpu_le32_to_cpu [simp]: "le32_to_cpu A (le32_to_cpu A w) = w"
  by (simp add: le32_to_cpu_def)

lemma bswap_dec: "length b = 4 \<Longrightarrow> bswap_32 (le32_dec b) = be32_dec b"
  by (simp add: bswap_32_def be32_dec_def be32_enc_def le32_enc_dec)

lemma le32_to_cpu_native: "length b = 4 \<Longrightarrow> le32_to_cpu A (native32_dec A b) = le32_dec b"
  by (simp add: le32_to_cpu_def native32_dec_def bswap_dec [symmetric])

lemma htonl_native: "length b = 4 \<Longrightarrow> htonl A (native32_dec A b) = be32_dec b"
  by (simp add: htonl_def native32_dec_def bswap_dec)

lemma native32_enc_le: "native32_enc A (le32_to_cpu A w) = le32_enc w"
  by (simp add: native32_enc_def le32_to_cpu_def bswap_32_def be32_enc_def le32_enc_dec)

lemma native32_enc_htonl: "native32_enc A (htonl A w) = be32_enc w"
  by (simp add: native32_enc_def htonl_def bswap_32_def le32_enc_dec)

section \<open>Lemmas on strings\<close>

lemma put_put_append:
  "off + length a + length b \<le> length m \<Longrightarrow> put (off + length a) b (put off a m) = put off (a @ b) m"
  by (simp add: put_def ac_simps)

lemma drop_put_same: "off \<le> length m \<Longrightarrow> drop off (put off b m) = b @ drop (off + length b) m"
  by (simp add: put_def)

lemma drop_put_after:
  "off + length b \<le> n \<Longrightarrow> off + length b \<le> length m \<Longrightarrow> drop n (put off b m) = drop n m"
  by (simp add: put_def)

lemma take_put_before: "n \<le> off \<Longrightarrow> off + length b \<le> length m \<Longrightarrow> take n (put off b m) = take n m"
  by (simp add: put_def min_def)

lemma put_Nil [simp]: "put off [] m = m"
  by (simp add: put_def)

lemma cstr_append [simp]: "0 \<notin> set s \<Longrightarrow> cstr (s @ 0 # r) = Some s"
proof -
  assume "0 \<notin> set s"
  then have "takeWhile (\<lambda>b. b \<noteq> 0) (s @ 0 # r) = s" by (induction s) auto
  then show ?thesis by (simp add: cstr_def)
qed

lemma length_fmt_0X [simp]: "length (fmt_0X k v) = k"
  by (induction k arbitrary: v) simp_all

lemma hex_char_digit: "d < 16 \<Longrightarrow> digit_of (hex_char d) = d"
  by (auto simp: hex_char_def digit_of_def word_le_nat_alt unat_of_nat simp del: of_nat_add)

lemma hex_char_nonzero: "d < 16 \<Longrightarrow> hex_char d \<noteq> 0"
  using hex_char_digit [of d] by (auto simp: digit_of_def)

lemma fmt_0X_chars: "c \<in> set (fmt_0X k v) \<Longrightarrow> digit_of c < 16 \<and> c \<noteq> 0"
proof (induction k arbitrary: v)
  case (Suc k)
  then show ?case using hex_char_digit [of "v mod 16"] hex_char_nonzero [of "v mod 16"] by auto
qed simp

lemma fmt_0X_value: "v < 16 ^ k \<Longrightarrow> digits_value 16 (fmt_0X k v) = v"
proof (induction k arbitrary: v)
  case (Suc k)
  then have "digits_value 16 (fmt_0X k (v div 16)) = v div 16" by (intro Suc.IH) auto
  then show ?case by (simp add: digits_value_def hex_char_digit)
qed (simp add: digits_value_def)

text \<open>\<open>strtoul\<close> reads back what \<open>0x%0kX\<close> printed.\<close>

lemma strtoul_fmt_0X:
  assumes "v < 16 ^ k" "0 < k" "v < 2 ^ ulong_bits A"
  shows "strtoul A 0 (48 # 120 # fmt_0X k v) = (v, k + 2)"
proof -
  have all: "takeWhile (\<lambda>c. digit_of c < 16) (fmt_0X k v) = fmt_0X k v"
    by (simp add: takeWhile_eq_all_conv fmt_0X_chars)
  obtain d ds where d: "fmt_0X k v = d # ds" using assms(2)
    by (metis length_fmt_0X length_greater_0_conv list.exhaust)
  then have "strtoul_hex 0 (48 # 120 # fmt_0X k v)"
    using fmt_0X_chars [of d k v] by (simp add: strtoul_hex_def)
  moreover have "fmt_0X k v \<noteq> []" using d by simp
  ultimately show ?thesis using assms(1,3)
    by (simp add: strtoul_def strtoul_sign_def strtoul_base_def isspace_def all fmt_0X_value Let_def)
qed

section \<open>Sublists and association lists\<close>

lemma subseq_subset: "subseq xs ys \<Longrightarrow> set xs \<subseteq> set ys"
  by (induction rule: list_emb.induct) auto

lemma subseq_distinct: "subseq xs ys \<Longrightarrow> distinct ys \<Longrightarrow> distinct xs"
  by (induction rule: list_emb.induct) (auto dest: subseq_subset)

lemma map_of_rev_distinct: "distinct (map fst xs) \<Longrightarrow> map_of (rev xs) = map_of xs"
proof (induction xs)
  case (Cons x xs)
  then have "map_of xs (fst x) = None" by (simp add: map_of_eq_None_iff)
  with Cons show ?case by (auto simp: map_add_def fun_eq_iff split: option.splits)
qed simp

end
