(* ===== verification/Stdio.thy ===== *)
theory Stdio
  imports Prelude
begin

text \<open>
  The part of C's \<open>stdio\<close> the image tools use: a stream on a regular file, with its content, its position and
  the size the file cannot exceed (the space on its device), at which \<open>fwrite\<close> comes short. Streams are taken as unbuffered:
  a write that fails does so at once. A seek past the end is allowed; a write there fills the gap
  with zeros. Also \<open>strtol\<close> and the conversions between \<open>size_t\<close>, a number below \<open>2 ^ ulong_bits\<close>, and \<open>ssize_t\<close>.
\<close>

record cfile =
  content :: bytes
  fpos :: nat
  fcap :: nat

definition fseek :: "nat \<Rightarrow> cfile \<Rightarrow> cfile" where
  "fseek p f = f\<lparr>fpos := p\<rparr>"

definition fread :: "nat \<Rightarrow> cfile \<Rightarrow> bytes \<times> cfile" where
  "fread n f = (let b = slice (fpos f) n (content f) in (b, f\<lparr>fpos := fpos f + length b\<rparr>))"

definition fwrite :: "bytes \<Rightarrow> cfile \<Rightarrow> nat \<times> cfile" where
  "fwrite b f =
     (let n = min (length b) (fcap f - fpos f);
          c = content f @ replicate (fpos f - length (content f)) 0
      in if n = 0 then (0, f)
         else (n, f\<lparr>content := put (fpos f) (take n b) c, fpos := fpos f + n\<rparr>))"

definition size_sub :: "abi \<Rightarrow> nat \<Rightarrow> nat \<Rightarrow> nat" where
  "size_sub A x y = (x + (2 ^ ulong_bits A - y mod 2 ^ ulong_bits A)) mod 2 ^ ulong_bits A"

definition size_add :: "abi \<Rightarrow> nat \<Rightarrow> nat \<Rightarrow> nat" where
  "size_add A x y = (x + y) mod 2 ^ ulong_bits A"

definition ssize_of :: "abi \<Rightarrow> nat \<Rightarrow> int" where
  "ssize_of A n = (if n < 2 ^ (ulong_bits A - 1) then int n else int n - 2 ^ ulong_bits A)"

definition size_of_int :: "abi \<Rightarrow> int \<Rightarrow> nat" where
  "size_of_int A i = nat (i mod 2 ^ ulong_bits A)"

text \<open>\<open>strtol(s, NULL, base)\<close>: as \<open>strtoul\<close>, but signed and clamped to \<open>long\<close>.\<close>

definition strtol :: "abi \<Rightarrow> nat \<Rightarrow> bytes \<Rightarrow> int" where
  "strtol A base s =
     (let s1 = dropWhile isspace s; (neg, sg) = strtoul_sign s1; s2 = drop sg s1;
          b = strtoul_base base s2;
          ds = takeWhile (\<lambda>c. digit_of c < b) (drop (if strtoul_hex base s2 then 2 else 0) s2);
          v = int (digits_value b ds); top = 2 ^ (ulong_bits A - 1)
      in if neg then max (- top) (- v) else min (top - 1) v)"

text \<open>\<open>atoi\<close>, as glibc has it: the \<open>long\<close> as an \<open>int\<close>.\<close>

definition atoi :: "abi \<Rightarrow> bytes \<Rightarrow> int" where
  "atoi A s = sint (word_of_int (strtol A 10 s) :: u32)"

section \<open>Lemmas\<close>

lemma fseek_simps [simp]: "content (fseek p f) = content f" "fpos (fseek p f) = p" "fcap (fseek p f) = fcap f"
  by (simp_all add: fseek_def)

lemma fread_slice: "fst (fread n f) = slice (fpos f) n (content f)"
  by (simp add: fread_def Let_def)

text \<open>Writing at the end of a file that has room, and over its start.\<close>

lemma fwrite_append:
  assumes "fpos f + length b \<le> fcap f" "length (content f) \<le> fpos f"
  shows "fwrite b f = (length b, f\<lparr>content := (if b = [] then content f
      else content f @ replicate (fpos f - length (content f)) 0 @ b), fpos := fpos f + length b\<rparr>)"
  using assms by (auto simp: fwrite_def Let_def put_def min_def)

lemma fwrite_inside:
  assumes "fpos f + length b \<le> fcap f" "fpos f + length b \<le> length (content f)"
  shows "fwrite b f = (length b, f\<lparr>content := put (fpos f) b (content f), fpos := fpos f + length b\<rparr>)"
  using assms by (auto simp: fwrite_def Let_def min_def)

lemma size_add_small: "x + y < 2 ^ ulong_bits A \<Longrightarrow> size_add A x y = x + y"
  by (simp add: size_add_def)

lemma size_sub_small: "y \<le> x \<Longrightarrow> x < 2 ^ ulong_bits A \<Longrightarrow> size_sub A x y = x - y"
proof -
  assume a: "y \<le> x" "x < 2 ^ ulong_bits A"
  then have "x + (2 ^ ulong_bits A - y mod 2 ^ ulong_bits A) = (x - y) + 2 ^ ulong_bits A" by simp
  then have "size_sub A x y = (x - y) mod 2 ^ ulong_bits A" by (simp only: size_sub_def mod_add_self2)
  then show ?thesis using a by simp
qed

end
