(* ===== verification/Ptgen.thy ===== *)
theory Ptgen
  imports Stdio "HOL-Library.Signed_Division"
begin

text \<open>
  The generator of partition tables for disk images, \<^verbatim>\<open>tools/firmware-utils/src/ptgen.c\<close>. An \<open>int\<close> is a number that every assignment brings into its range
  (\<open>to_int\<close>), an \<open>unsigned long\<close> a number modulo \<open>2 ^ ulong_bits\<close>; division rounds towards zero. The numbers printed to the standard output are a list, one for each line.
\<close>

section \<open>Numbers\<close>

definition to_int :: "int \<Rightarrow> int" where
  "to_int x = sint (word_of_int x :: u32)"

definition to_ulong :: "abi \<Rightarrow> int \<Rightarrow> int" where
  "to_ulong A x = x mod 2 ^ ulong_bits A"

definition to_long :: "abi \<Rightarrow> int \<Rightarrow> int" where
  "to_long A x = (x + 2 ^ (ulong_bits A - 1)) mod 2 ^ ulong_bits A - 2 ^ (ulong_bits A - 1)"

definition to_kbytes :: "abi \<Rightarrow> bytes \<Rightarrow> int" where
  "to_kbytes A s =
     (let (result, n) = strtoul A 0 s; rest = drop n s; value = to_long A (int result);
          c = (case rest of [] \<Rightarrow> 0 | c # _ \<Rightarrow> if 65 \<le> c \<and> c \<le> 90 then c + 32 else c);
          after = (if rest = [] then [] else tl rest)
      in if c \<notin> {0x6b, 0, 0x6d, 0x67} then 0
         else if after \<noteq> [] then 0
         else if c = 0x6d then to_long A (value * 1024)
         else if c = 0x67 then to_long A (value * 1048576)
         else value)"

text \<open>The partition table entry, and the globals.\<close>

record pte =
  pt_active :: byte
  pt_chs_start :: bytes
  pt_type :: byte
  pt_chs_end :: bytes
  pt_start :: u32
  pt_length :: u32

record partinfo =
  p_size :: int
  p_type :: int

record ptgen =
  active :: int
  heads :: int
  sectors :: int
  kb_align :: int
  parts :: "partinfo list"
  filename :: "bytes option"
  signature :: u32
  cur_type :: int

definition to_chs :: "ptgen \<Rightarrow> int \<Rightarrow> bytes" where
  "to_chs g sect =
     (let s = to_int (sect smod sectors g + 1); sect1 = sect sdiv sectors g; h = to_int (sect1 smod heads g); c = to_int (sect1 sdiv heads g)
      in [word_of_int h, word_of_int (s OR (drop_bit 2 c AND 0xc0)), word_of_int (c AND 0xff)])"

definition round_to_cyl :: "abi \<Rightarrow> ptgen \<Rightarrow> int \<Rightarrow> int" where
  "round_to_cyl A g sect = (let cyl_size = to_int (heads g * sectors g) in to_ulong A (sect + cyl_size - sect smod cyl_size))"

definition round_to_kb :: "abi \<Rightarrow> ptgen \<Rightarrow> int \<Rightarrow> int" where
  "round_to_kb A g sect = to_ulong A (((sect - 1) sdiv kb_align g + 1) * kb_align g)"

section \<open>The table\<close>

text \<open>One round of the loop: the entry, and the sector behind the partition.\<close>

definition gen_part :: "abi \<Rightarrow> ptgen \<Rightarrow> nat \<Rightarrow> int \<Rightarrow> partinfo \<Rightarrow> pte \<times> int" where
  "gen_part A g i sect p =
     (let start0 = to_int (sect + sectors g);
          start = (if kb_align g \<noteq> 0 then to_int (round_to_kb A g start0) else start0);
          sect1 = to_ulong A (start + p_size p * 2);
          sect2 = (if kb_align g = 0 then round_to_cyl A g (to_long A sect1) else sect1);
          len = to_int (sect2 - start)
      in (\<lparr>pt_active = (if int i + 1 = active g then 0x80 else 0), pt_chs_start = to_chs g start, pt_type = word_of_int (p_type p),
           pt_chs_end = to_chs g (start + len - 1), pt_start = word_of_int start, pt_length = word_of_int len\<rparr>, sect2))"

text \<open>The loop: the entries, \<open>None\<close> after a partition without a size, and what was printed.\<close>

fun gen_loop :: "abi \<Rightarrow> ptgen \<Rightarrow> nat \<Rightarrow> int \<Rightarrow> partinfo list \<Rightarrow> pte list option \<times> int list" where
  "gen_loop A g i sect [] = (Some [], [])"
| "gen_loop A g i sect (p # ps) =
     (if p_size p = 0 then (None, [])
      else let (e, sect') = gen_part A g i sect p; (r, out) = gen_loop A g (Suc i) sect' ps
           in (case r of None \<Rightarrow> None | Some es \<Rightarrow> Some (e # es), to_long A (sint (pt_start e) * 512) # to_long A (sint (pt_length e) * 512) # out))"

definition pte_enc :: "pte \<Rightarrow> bytes" where
  "pte_enc e = pt_active e # pt_chs_start e @ pt_type e # pt_chs_end e @ le32_enc (pt_start e) @ le32_enc (pt_length e)"

definition write_at :: "nat \<Rightarrow> bytes \<Rightarrow> cfile \<Rightarrow> bool \<times> cfile" where
  "write_at off b f = (let (n, f') = fwrite b (fseek off f) in (n = length b, f'))"

text \<open>\<open>gen_ptable\<close>; \<open>room\<close> is the space for the file, \<open>None\<close> if it cannot be opened. The signature is written in the order of the machine.\<close>

definition gen_ptable :: "abi \<Rightarrow> nat option \<Rightarrow> ptgen \<Rightarrow> int \<times> int list \<times> bytes option" where
  "gen_ptable A room g =
     (case gen_loop A g 0 0 (parts g) of
        (None, out) \<Rightarrow> (-1, out, None)
      | (Some es, out) \<Rightarrow>
          (case room of
             None \<Rightarrow> (-1, out, None)
           | Some cap \<Rightarrow>
               let table = concat (map pte_enc es) @ replicate (16 * (4 - length es)) 0;
                   (ok1, f1) = write_at 440 (native32_enc A (signature g)) \<lparr>content = [], fpos = 0, fcap = cap\<rparr>;
                   (ok2, f2) = write_at 446 table f1;
                   (ok3, f3) = write_at 510 [0x55, 0xaa] f2
               in if \<not> ok1 then (-1, out, Some (content f1))
                  else if \<not> ok2 then (-1, out, Some (content f2))
                  else if \<not> ok3 then (-1, out, Some (content f3))
                  else (0, out, Some (content f3))))"

text \<open>The options, as \<open>getopt\<close> gives them; \<open>None\<close> where the program exits with an error.\<close>

definition option_int :: "abi \<Rightarrow> bytes \<Rightarrow> int" where
  "option_int A s = to_int (int (fst (strtoul A 0 s)))"

definition ptgen_option :: "abi \<Rightarrow> char \<times> bytes \<Rightarrow> ptgen \<Rightarrow> ptgen option" where
  "ptgen_option A oa g =
     (let (ch, optarg) = oa
      in if ch = CHR ''o'' then Some (g\<lparr>filename := Some optarg\<rparr>)
         else if ch = CHR ''v'' then Some g
         else if ch = CHR ''h'' then Some (g\<lparr>heads := option_int A optarg\<rparr>)
         else if ch = CHR ''s'' then Some (g\<lparr>sectors := option_int A optarg\<rparr>)
         else if ch = CHR ''p'' then
           (if length (parts g) > 3 then None
            else Some (g\<lparr>parts := parts g @ [\<lparr>p_size = to_ulong A (to_kbytes A optarg), p_type = cur_type g\<rparr>]\<rparr>))
         else if ch = CHR ''t'' then Some (g\<lparr>cur_type := sint (word_of_nat (fst (strtoul A 16 optarg)) :: byte)\<rparr>)
         else if ch = CHR ''a'' then
           (let a = option_int A optarg in Some (g\<lparr>active := (if a < 0 \<or> a > 4 then 0 else a)\<rparr>))
         else if ch = CHR ''l'' then Some (g\<lparr>kb_align := to_int (option_int A optarg * 2)\<rparr>)
         else if ch = CHR ''S'' then Some (g\<lparr>signature := word_of_nat (fst (strtoul A 0 optarg))\<rparr>)
         else None)"

fun ptgen_options :: "abi \<Rightarrow> (char \<times> bytes) list \<Rightarrow> ptgen \<Rightarrow> ptgen option" where
  "ptgen_options A [] g = Some g"
| "ptgen_options A (oa # oas) g = (case ptgen_option A oa g of None \<Rightarrow> None | Some g' \<Rightarrow> ptgen_options A oas g')"

definition ptgen_start :: ptgen where
  "ptgen_start = \<lparr>active = 1, heads = -1, sectors = -1, kb_align = 0, parts = [], filename = None, signature = 0x5452574f, cur_type = sint (0x83 :: byte)\<rparr>"

definition ptgen_main :: "abi \<Rightarrow> (bytes \<Rightarrow> nat option) \<Rightarrow> (char \<times> bytes) list \<Rightarrow> bytes list \<Rightarrow> int \<times> int list \<times> bytes option" where
  "ptgen_main A room opts args =
     (case ptgen_options A opts ptgen_start of
        None \<Rightarrow> (1, [], None)
      | Some g \<Rightarrow>
          (case filename g of
             None \<Rightarrow> (1, [], None)
           | Some name \<Rightarrow>
               if args \<noteq> [] \<or> heads g \<le> 0 \<or> sectors g \<le> 0 then (1, [], None)
               else let (r, out, file) = gen_ptable A (room name) g in (if r \<noteq> 0 then 1 else 0, out, file)))"

section \<open>Numbers in range\<close>

lemma to_int_id: "- (2 ^ 31) \<le> x \<Longrightarrow> x < 2 ^ 31 \<Longrightarrow> to_int x = x"
  by (simp add: to_int_def sint_sbintrunc' signed_take_bit_int_eq_self)

lemma to_ulong_id: "0 \<le> x \<Longrightarrow> x < 2 ^ ulong_bits A \<Longrightarrow> to_ulong A x = x"
  by (simp add: to_ulong_def)

lemma to_long_id: "0 \<le> x \<Longrightarrow> x < 2 ^ (ulong_bits A - 1) \<Longrightarrow> 0 < ulong_bits A \<Longrightarrow> to_long A x = x"
  by (cases "ulong_bits A") (simp_all add: to_long_def)

lemma sdiv_pos: "0 \<le> k \<Longrightarrow> 0 < l \<Longrightarrow> k sdiv l = k div l" "0 \<le> k \<Longrightarrow> 0 < l \<Longrightarrow> k smod l = k mod l" for k l :: int
  by (cases "k = 0"; simp add: signed_divide_int_def signed_modulo_int_def)+

lemma uint_small: "0 \<le> x \<Longrightarrow> x < 2 ^ 31 \<Longrightarrow> uint (word_of_int x :: u32) = x" "0 \<le> x \<Longrightarrow> x < 2 ^ 31 \<Longrightarrow> sint (word_of_int x :: u32) = x"
  using to_int_id [of x] by (simp_all add: to_int_def uint_word_of_int)

section \<open>The partitions\<close>

text \<open>The next partition, in sectors: where it starts and ends.\<close>

definition next_part :: "ptgen \<Rightarrow> int \<Rightarrow> partinfo \<Rightarrow> int \<times> int" where
  "next_part g sect p =
     (let cyl = heads g * sectors g; start = (if kb_align g = 0 then sect + sectors g else ((sect + sectors g - 1) div kb_align g + 1) * kb_align g); fin = start + 2 * p_size p
      in (start, if kb_align g = 0 then fin + cyl - fin mod cyl else fin))"

lemma round_up: "0 < k \<Longrightarrow> 0 < x \<Longrightarrow> x \<le> ((x - 1) div k + 1) * k \<and> ((x - 1) div k + 1) * k < x + k" for x k :: int
proof -
  assume k: "0 < k" "0 < x"
  have "(x - 1) div k * k + (x - 1) mod k = x - 1" by (rule div_mult_mod_eq)
  moreover have "0 \<le> (x - 1) mod k" "(x - 1) mod k < k" using k by simp_all
  ultimately show ?thesis unfolding distrib_right by linarith
qed

lemma gen_part_next:
  assumes "0 \<le> sect" "0 < heads g" "0 < sectors g" "0 \<le> kb_align g" "0 < p_size p" "32 \<le> ulong_bits A"
    and small: "sect + sectors g + kb_align g + 2 * p_size p + heads g * sectors g < 2 ^ 31" and "next_part g sect p = (start, fin)"
  shows "gen_part A g i sect p = (\<lparr>pt_active = (if int i + 1 = active g then 0x80 else 0), pt_chs_start = to_chs g start, pt_type = word_of_int (p_type p),
      pt_chs_end = to_chs g (fin - 1), pt_start = word_of_int start, pt_length = word_of_int (fin - start)\<rparr>, fin)"
    "sect + sectors g \<le> start" "start \<le> sect + sectors g + kb_align g" "start + 2 * p_size p \<le> fin" "fin \<le> start + 2 * p_size p + heads g * sectors g"
proof -
  have cyl: "0 < heads g * sectors g" using assms(2,3) by simp
  have W: "(2 :: int) ^ 31 \<le> 2 ^ (ulong_bits A - 1)" "(2 :: int) ^ 31 \<le> 2 ^ ulong_bits A" using assms(6) by (intro power_increasing; simp)+
  let ?s0 = "sect + sectors g" and ?k = "kb_align g" and ?c = "heads g * sectors g"
  have st: "start = (if ?k = 0 then ?s0 else ((?s0 - 1) div ?k + 1) * ?k)" and fn: "fin = (if ?k = 0 then start + 2 * p_size p + ?c - (start + 2 * p_size p) mod ?c else start + 2 * p_size p)"
    using assms(8) by (auto simp: next_part_def Let_def)
  have b: "?s0 \<le> start" "start \<le> ?s0 + ?k" using round_up [of ?k ?s0] assms(1,3,4) st by (auto split: if_splits)
  have f: "start + 2 * p_size p \<le> fin" "fin \<le> start + 2 * p_size p + ?c"
    using fn less_imp_le [OF pos_mod_bound [OF cyl, of "start + 2 * p_size p"]] pos_mod_sign [OF cyl, of "start + 2 * p_size p"] cyl by (auto split: if_splits)
  show "?s0 \<le> start" "start \<le> ?s0 + ?k" "start + 2 * p_size p \<le> fin" "fin \<le> start + 2 * p_size p + ?c" using b f by blast+
  have i1: "to_int ?s0 = ?s0" "to_int ?c = ?c" using assms small cyl by (intro to_int_id; linarith)+
  have i2: "?k \<noteq> 0 \<Longrightarrow> to_int (round_to_kb A g ?s0) = start"
    using st b assms(1,3,4,5) small cyl W by (simp add: round_to_kb_def sdiv_pos to_ulong_id to_int_id)
  have i3: "to_ulong A (start + p_size p * 2) = start + 2 * p_size p" using b assms(1,3,5) small cyl W assms(4) by (subst to_ulong_id) linarith+
  have i4: "to_long A (start + 2 * p_size p) = start + 2 * p_size p" using b assms(1,3-6) small cyl W by (intro to_long_id) linarith+
  have "to_ulong A fin = fin" using b f assms(1,3-5) small W by (intro to_ulong_id) linarith+
  then have i5: "?k = 0 \<Longrightarrow> round_to_cyl A g (start + 2 * p_size p) = fin"
    using fn b(1) assms(1,3,5) cyl by (simp add: round_to_cyl_def i1 sdiv_pos Let_def)
  have i6: "to_int (fin - start) = fin - start" using b f assms(1,3-5) small by (intro to_int_id) linarith+
  have c1: "(if ?k \<noteq> 0 then to_int (round_to_kb A g ?s0) else ?s0) = start" using i2 st by auto
  have c2: "(if ?k = 0 then round_to_cyl A g (start + 2 * p_size p) else start + 2 * p_size p) = fin" using i5 fn by auto
  show "gen_part A g i sect p = (\<lparr>pt_active = (if int i + 1 = active g then 0x80 else 0), pt_chs_start = to_chs g start, pt_type = word_of_int (p_type p),
      pt_chs_end = to_chs g (fin - 1), pt_start = word_of_int start, pt_length = word_of_int (fin - start)\<rparr>, fin)"
    unfolding gen_part_def Let_def i1(1) c1 i3 i4 c2 i6 by simp
qed

text \<open>What the entries of a table have to be: the partitions follow each other, each has its size, and it starts or ends as the alignment demands. \<open>lo\<close> is the first free sector.\<close>

fun placed :: "ptgen \<Rightarrow> nat \<Rightarrow> int \<Rightarrow> partinfo list \<Rightarrow> pte list \<Rightarrow> bool" where
  "placed g i lo [] es = (es = [])"
| "placed g i lo (p # ps) [] = False"
| "placed g i lo (p # ps) (e # es) =
     (let s = uint (pt_start e); l = uint (pt_length e)
      in lo + sectors g \<le> s \<and> 2 * p_size p \<le> l \<and>
         (if kb_align g = 0 then s = lo + sectors g \<and> (s + l) mod (heads g * sectors g) = 0 \<and> l \<le> 2 * p_size p + heads g * sectors g
          else s mod kb_align g = 0 \<and> s \<le> lo + sectors g + kb_align g \<and> l = 2 * p_size p) \<and>
         pt_type e = word_of_int (p_type p) \<and> pt_active e = (if int i + 1 = active g then 0x80 else 0) \<and>
         pt_chs_start e = to_chs g s \<and> pt_chs_end e = to_chs g (s + l - 1) \<and> placed g (Suc i) (s + l) ps es)"

definition part_room :: "ptgen \<Rightarrow> partinfo \<Rightarrow> int" where
  "part_room g p = sectors g + kb_align g + 2 * p_size p + heads g * sectors g"

lemma round_mod: "(x + c - x mod c) mod c = 0" for x c :: int
proof -
  have "x + c - x mod c = (x div c + 1) * c" by (simp add: distrib_right minus_mod_eq_div_mult [symmetric])
  then show ?thesis by simp
qed

lemma gen_loop_placed:
  assumes g: "0 < heads g" "0 < sectors g" "0 \<le> kb_align g" "32 \<le> ulong_bits A"
  shows "0 \<le> sect \<Longrightarrow> (\<And>p. p \<in> set ps \<Longrightarrow> 0 < p_size p) \<Longrightarrow> sect + sum_list (map (part_room g) ps) < 2 ^ 31 \<Longrightarrow>
    \<exists>es out. gen_loop A g i sect ps = (Some es, out) \<and> placed g i sect ps es"
proof (induction ps arbitrary: i sect)
  case (Cons p ps)
  obtain start fin where nx: "next_part g sect p = (start, fin)" by force
  have cyl: "0 < heads g * sectors g" using g by simp
  have "0 \<le> part_room g q" if "q \<in> set ps" for q using Cons.prems(2) [of q] that g cyl by (simp add: part_room_def)
  then have "0 \<le> sum_list (map (part_room g) ps)" by (intro sum_list_nonneg) auto
  then have small: "sect + sectors g + kb_align g + 2 * p_size p + heads g * sectors g < 2 ^ 31" 
    using Cons.prems(3) part_room_def [of g p] by simp
  have pz: "0 < p_size p" using Cons.prems(2) by simp
  note gp = gen_part_next [OF Cons.prems(1) g(1-3) pz g(4) small nx]
  have r: "fin + sum_list (map (part_room g) ps) < 2 ^ 31" "0 \<le> fin" using gp(2-5) Cons.prems(1,3) pz g part_room_def [of g p] by simp_all
  obtain es out where IH: "gen_loop A g (Suc i) fin ps = (Some es, out)" "placed g (Suc i) fin ps es" using Cons.IH [OF r(2) _ r(1)] Cons.prems(2) by fastforce
  have u: "uint (word_of_int start :: u32) = start" "uint (word_of_int (fin - start) :: u32) = fin - start"
    using gp(2-5) Cons.prems(1) pz g small by (intro uint_small(1); linarith)+
  let ?e = "fst (gen_part A g i sect p)"
  have "gen_loop A g i sect (p # ps) = (Some (?e # es), to_long A (sint (pt_start ?e) * 512) # to_long A (sint (pt_length ?e) * 512) # out)"
    using pz by (simp add: gp(1) [of i] IH(1))
  moreover have al: "if kb_align g = 0 then start = sect + sectors g \<and> fin mod (heads g * sectors g) = 0 \<and> fin - start \<le> 2 * p_size p + heads g * sectors g
      else start mod kb_align g = 0 \<and> start \<le> sect + sectors g + kb_align g \<and> fin - start = 2 * p_size p"
    using nx gp(3,5) round_mod [of "sect + sectors g + 2 * p_size p" "heads g * sectors g"] by (auto simp: next_part_def Let_def split: if_splits)
  have e: "uint (pt_start ?e) = start" "uint (pt_length ?e) = fin - start" "pt_type ?e = word_of_int (p_type p)" "pt_active ?e = (if int i + 1 = active g then 0x80 else 0)"
      "pt_chs_start ?e = to_chs g start" "pt_chs_end ?e = to_chs g (fin - 1)" "start + (fin - start) = fin" "start + (fin - start) - 1 = fin - 1"
    by (simp_all only: gp(1) [of i] fst_conv pte.simps u)
  have "placed g i sect (p # ps) (?e # es)"
    unfolding placed.simps Let_def e using gp(2,4) al IH(2) by (auto split: if_splits)
  ultimately show ?case by blast
qed simp

section \<open>The file\<close>

definition pte_dec :: "bytes \<Rightarrow> pte" where
  "pte_dec b = \<lparr>pt_active = b ! 0, pt_chs_start = slice 1 3 b, pt_type = b ! 4, pt_chs_end = slice 5 3 b, pt_start = le32_dec (slice 8 4 b), pt_length = le32_dec (slice 12 4 b)\<rparr>"

definition table_entry :: "bytes \<Rightarrow> nat \<Rightarrow> pte" where
  "table_entry m i = pte_dec (slice (446 + 16 * i) 16 m)"

definition pte_ok :: "pte \<Rightarrow> bool" where
  "pte_ok e \<longleftrightarrow> length (pt_chs_start e) = 3 \<and> length (pt_chs_end e) = 3"

lemma pte_dec_enc: "pte_ok e \<Longrightarrow> pte_dec (pte_enc e) = e" "pte_ok e \<Longrightarrow> length (pte_enc e) = 16"
proof -
  have three: "length xs = 3 \<Longrightarrow> \<exists>a b c. xs = [a, b, c]" for xs :: bytes by (auto simp: numeral_eq_Suc length_Suc_conv)
  show "pte_ok e \<Longrightarrow> pte_dec (pte_enc e) = e" "pte_ok e \<Longrightarrow> length (pte_enc e) = 16"
    by (cases e; auto simp: pte_ok_def pte_dec_def pte_enc_def slice_def dest!: three)+
qed

lemma placed_ok: "placed g i lo ps es \<Longrightarrow> length es = length ps \<and> (\<forall>e\<in>set es. pte_ok e)"
  by (induction g i lo ps es rule: placed.induct) (auto simp: Let_def pte_ok_def to_chs_def)

lemma concat_nth: "(\<And>e. e \<in> set es \<Longrightarrow> length e = 16) \<Longrightarrow> i < length es \<Longrightarrow> slice (16 * i) 16 (concat es @ r) = es ! i" for es :: "bytes list"
proof (induction es arbitrary: i)
  case (Cons e es)
  have l: "length e = 16" using Cons.prems by simp
  show ?case
  proof (cases i)
    case 0
    then show ?thesis using l by (simp add: slice_def)
  next
    case (Suc k)
    then have "slice (16 * i) 16 (concat (e # es) @ r) = slice (16 * k) 16 (concat es @ r)" using l by (simp add: slice_def)
    then show ?thesis using Cons Suc by simp
  qed
qed simp

lemma ptgen_file:
  assumes "512 \<le> cap" "length table = 64"
  shows "write_at 440 (native32_enc A sig) \<lparr>content = [], fpos = 0, fcap = cap\<rparr> = (True, \<lparr>content = replicate 440 0 @ native32_enc A sig, fpos = 444, fcap = cap\<rparr>)"
    "write_at 446 table \<lparr>content = replicate 440 0 @ native32_enc A sig, fpos = 444, fcap = cap\<rparr> =
      (True, \<lparr>content = replicate 440 0 @ native32_enc A sig @ [0, 0] @ table, fpos = 510, fcap = cap\<rparr>)"
    "write_at 510 [0x55, 0xaa] \<lparr>content = replicate 440 0 @ native32_enc A sig @ [0, 0] @ table, fpos = 510, fcap = cap\<rparr> =
      (True, \<lparr>content = replicate 440 0 @ native32_enc A sig @ [0, 0] @ table @ [0x55, 0xaa], fpos = 512, fcap = cap\<rparr>)"
  using assms by (auto simp: write_at_def fseek_def fwrite_append numeral_eq_Suc [of "num.Bit0 num.One"] native32_enc_def le32_enc_def be32_enc_def)

text \<open>C26. \<open>ptgen\<close> with at most four partitions whose sizes are given, and which are small enough for the 32 bit numbers of the program: it exits with 0 and writes a boot sector of 512 bytes with the
  signature, the partitions and the magic number. The partitions read from it have the types and at least the sizes asked for, start behind the end of the one before with one track in between, and are
  aligned: to the number of sectors of \<open>-l\<close> at the start, or else to a cylinder at the end.\<close>

theorem ptgen_boot_sector:
  assumes "ptgen_options A opts ptgen_start = Some g" "filename g = Some name" "room name = Some cap" "512 \<le> cap"
    and "0 < heads g" "0 < sectors g" "0 \<le> kb_align g" "32 \<le> ulong_bits A" "length (parts g) \<le> 4"
    and "\<And>p. p \<in> set (parts g) \<Longrightarrow> 0 < p_size p" "sum_list (map (part_room g) (parts g)) < 2 ^ 31"
  shows "\<exists>out m. ptgen_main A room opts [] = (0, out, Some m) \<and> length m = 512 \<and> slice 440 4 m = native32_enc A (signature g) \<and> slice 510 2 m = [0x55, 0xaa] \<and>
    placed g 0 0 (parts g) (map (table_entry m) [0..<length (parts g)])"
proof -
  obtain es out where es: "gen_loop A g 0 0 (parts g) = (Some es, out)" "placed g 0 0 (parts g) es"
    using gen_loop_placed [OF assms(5-8) order_refl assms(10), where ps = "parts g" and i = 0] assms(11) by auto
  have ok: "length es = length (parts g)" "\<And>e. e \<in> set es \<Longrightarrow> pte_ok e" using placed_ok [OF es(2)] by auto
  define table where "table = concat (map pte_enc es) @ replicate (16 * (4 - length es)) 0"
  have "length (concat (map pte_enc xs)) = 16 * length xs" if "\<And>e. e \<in> set xs \<Longrightarrow> pte_ok e" for xs using that by (induction xs) (simp_all add: pte_dec_enc)
  then have lt: "length table = 64" using ok assms(9) by (simp add: table_def)
  define m where "m = replicate 440 0 @ native32_enc A (signature g) @ [0, 0] @ table @ [0x55, 0xaa]"
  have run: "ptgen_main A room opts [] = (0, out, Some m)"
    using assms(1-6) es(1) ptgen_file [OF assms(4) lt, of A "signature g"]
    by (simp add: ptgen_main_def gen_ptable_def table_def [symmetric] m_def Let_def)
  have lm: "length m = 512" "slice 440 4 m = native32_enc A (signature g)" "slice 510 2 m = [0x55, 0xaa]"
    using lt by (simp_all add: m_def slice_def)
  have "table_entry m i = es ! i" if "i < length es" for i
  proof -
    have "slice (446 + 16 * i) 16 m = slice (16 * i) 16 (table @ [0x55, 0xaa])" by (simp add: m_def slice_def)
    also have "\<dots> = map pte_enc es ! i"
      unfolding table_def append_assoc using that ok(2) by (intro concat_nth) (auto simp: pte_dec_enc)
    finally show ?thesis using that ok(2) by (simp add: table_entry_def pte_dec_enc)
  qed
  then have "map (table_entry m) [0..<length (parts g)] = es" using ok(1) by (intro nth_equalityI) simp_all
  then show ?thesis using run lm es(2) by auto
qed

text \<open>Two partitions, aligned to cylinders of 16 heads and 63 sectors.\<close>

definition demo_opts_ptgen :: "(char \<times> bytes) list" where
  "demo_opts_ptgen = [(CHR ''h'', lit ''16''), (CHR ''s'', lit ''63''), (CHR ''o'', lit ''img''), (CHR ''p'', lit ''4m''), (CHR ''t'', lit ''82''), (CHR ''p'', lit ''512'')]"

definition demo_ptgen :: ptgen where
  "demo_ptgen = \<lparr>active = 1, heads = 16, sectors = 63, kb_align = 0, parts = [\<lparr>p_size = 4096, p_type = sint (0x83 :: byte)\<rparr>, \<lparr>p_size = 512, p_type = sint (0x82 :: byte)\<rparr>],
     filename = Some (lit ''img''), signature = 0x5452574f, cur_type = sint (0x82 :: byte)\<rparr>"

lemma demo_ptgen_options: "ptgen_options x86_64 demo_opts_ptgen ptgen_start = Some demo_ptgen"
proof -
  have n: "fst (strtoul x86_64 0 (lit ''16'')) = 16" "fst (strtoul x86_64 0 (lit ''63'')) = 63" "strtoul x86_64 0 (lit ''4m'') = (4, 1)" "strtoul x86_64 0 (lit ''512'') = (512, 3)"
      "fst (strtoul x86_64 16 (lit ''82'')) = 0x82"
    by (simp_all add: strtoul_def strtoul_sign_def strtoul_base_def strtoul_hex_def isspace_def digits_value_def digit_of_def x86_64_def lit_def)
  have d: "drop 1 (lit ''4m'') = [0x6d]" "drop 3 (lit ''512'') = []" by (simp_all add: lit_def)
  have "to_long x86_64 4 = 4" "to_long x86_64 512 = 512" "to_long x86_64 4096 = 4096" by (simp_all add: to_long_def x86_64_def)
  then have k: "to_kbytes x86_64 (lit ''4m'') = 4096" "to_kbytes x86_64 (lit ''512'') = 512"
    using d by (simp_all add: to_kbytes_def n)
  have u: "to_ulong x86_64 4096 = 4096" "to_ulong x86_64 512 = 512" by (simp_all add: to_ulong_def x86_64_def)
  show ?thesis
    unfolding demo_opts_ptgen_def ptgen_options.simps ptgen_option_def
    by (simp add: option_int_def n k u to_int_def ptgen_start_def demo_ptgen_def)
qed

theorem ptgen_boot_sector_witness:
  "\<exists>out m. ptgen_main x86_64 (\<lambda>_. Some 1000) demo_opts_ptgen [] = (0, out, Some m) \<and> length m = 512 \<and> slice 510 2 m = [0x55, 0xaa] \<and>
    placed demo_ptgen 0 0 (parts demo_ptgen) (map (table_entry m) [0..<2])"
proof -
  have g: "filename demo_ptgen = Some (lit ''img'')" "0 < heads demo_ptgen" "0 < sectors demo_ptgen" "0 \<le> kb_align demo_ptgen" "length (parts demo_ptgen) = 2"
      "p \<in> set (parts demo_ptgen) \<Longrightarrow> 0 < p_size p" "sum_list (map (part_room demo_ptgen) (parts demo_ptgen)) < 2 ^ 31" "32 \<le> ulong_bits x86_64" for p
    by (auto simp: demo_ptgen_def part_room_def x86_64_def)
  show ?thesis
    using ptgen_boot_sector [where room = "\<lambda>_. Some 1000", OF demo_ptgen_options g(1) refl _ g(2-4,8) _ g(6,7)] g(5) by auto
qed

section \<open>Cylinders, heads and sectors\<close>

definition chs_sector :: "ptgen \<Rightarrow> bytes \<Rightarrow> int" where
  "chs_sector g b = ((uint (b ! 1) div 64 * 256 + uint (b ! 2)) * heads g + uint (b ! 0)) * sectors g + uint (b ! 1) mod 64 - 1"

lemma chs_bits:
  fixes c s q :: int
  shows "0 \<le> c \<Longrightarrow> c < 1024 \<Longrightarrow> drop_bit 2 c AND 0xc0 = 64 * (c div 256)" "0 \<le> s \<Longrightarrow> s < 64 \<Longrightarrow> 0 \<le> q \<Longrightarrow> q < 4 \<Longrightarrow> s OR 64 * q = s + 64 * q"
proof -
  have small: "bit x n \<Longrightarrow> 0 \<le> x \<Longrightarrow> x < 2 ^ k \<Longrightarrow> n < k" for x :: int and n k by (metis bit_take_bit_iff take_bit_int_eq_self)
  have "drop_bit 2 c AND push_bit 6 (mask 2) = push_bit 6 (drop_bit 8 c)" if c: "0 \<le> c" "c < 2 ^ 10"
    by (rule bit_eqI) (auto simp: bit_simps dest: small [OF _ c])
  then show "0 \<le> c \<Longrightarrow> c < 1024 \<Longrightarrow> drop_bit 2 c AND 0xc0 = 64 * (c div 256)"
    by (simp add: mask_eq_exp_minus_1 push_bit_eq_mult drop_bit_eq_div)
  have "s + push_bit 6 q = s OR push_bit 6 q" if "0 \<le> s" "s < 2 ^ 6" by (rule disjunctive_add) (auto simp: bit_simps dest: small [OF _ that])
  then show "0 \<le> s \<Longrightarrow> s < 64 \<Longrightarrow> 0 \<le> q \<Longrightarrow> q < 4 \<Longrightarrow> s OR 64 * q = s + 64 * q" by (simp add: push_bit_eq_mult mult.commute)
qed

lemma div_less_bound: "x div k < m" if "0 < k" "x < m * k" for x k m :: int
proof (rule ccontr)
  assume "\<not> x div k < m"
  then have "m * k \<le> x div k * k" using that(1) by (intro mult_right_mono) simp_all
  moreover have "x div k * k + x mod k = x" by (rule div_mult_mod_eq)
  ultimately show False using that pos_mod_sign [OF that(1), of x] by linarith
qed

text \<open>The cylinder, head and sector that \<open>ptgen\<close> stores for a sector stand for it again, on disks of up to 256 heads, 63 sectors and 1024 cylinders. Behind them the cylinder
  wraps around.\<close>

theorem ptgen_chs_roundtrip:
  assumes "0 < heads g" "heads g \<le> 256" "0 < sectors g" "sectors g \<le> 63" "0 \<le> sect" "sect < 1024 * heads g * sectors g"
  shows "length (to_chs g sect) = 3 \<and> chs_sector g (to_chs g sect) = sect"
proof -
  define s h c where "s = sect mod sectors g + 1" and "h = sect div sectors g mod heads g" and "c = sect div sectors g div heads g"
  have s: "1 \<le> s" "s < 64" unfolding s_def using assms(3,4) pos_mod_bound [OF assms(3), of sect] pos_mod_sign [OF assms(3), of sect] by linarith+
  have h: "0 \<le> h" "h < 256" unfolding h_def using assms(1,2) pos_mod_bound [OF assms(1), of "sect div sectors g"] pos_mod_sign [OF assms(1), of "sect div sectors g"] by linarith+
  have "sect div sectors g < 1024 * heads g" using assms(3,6) by (intro div_less_bound)
  then have c: "0 \<le> c" "c < 1024" using assms(1,3,5) by (simp_all add: c_def div_less_bound pos_imp_zdiv_nonneg_iff)
  have q: "0 \<le> c div 256" "c div 256 < 4" using c by simp_all
  have "c AND 0xff = take_bit 8 c" by (simp add: take_bit_eq_mask mask_eq_exp_minus_1)
  then have ca: "c AND 0xff = c mod 256" by (simp add: take_bit_eq_mod)
  have ti: "to_int s = s" "to_int h = h" "to_int c = c" using s h c by (intro to_int_id; simp)+
  have dv: "0 \<le> sect div sectors g" using assms(3,5) by (simp add: pos_imp_zdiv_nonneg_iff)
  have chs: "to_chs g sect = [word_of_int h, word_of_int (s + 64 * (c div 256)), word_of_int (c mod 256)]"
    unfolding to_chs_def Let_def sdiv_pos [OF assms(5,3)] sdiv_pos [OF dv assms(1)] s_def [symmetric] h_def [symmetric] c_def [symmetric] ti ca chs_bits(1) [OF c]
    using chs_bits(2) [of s "c div 256"] s q by simp
  have u: "uint (word_of_int h :: byte) = h" "uint (word_of_int (s + 64 * (c div 256)) :: byte) = s + 64 * (c div 256)" "uint (word_of_int (c mod 256) :: byte) = c mod 256"
    using h s q unfolding uint_word_of_int by simp_all
  have "(s + 64 * (c div 256)) div 64 = c div 256" "(s + 64 * (c div 256)) mod 64 = s" using s by simp_all
  then have "chs_sector g (to_chs g sect) = (c * heads g + h) * sectors g + s - 1"
    unfolding chs chs_sector_def nth_Cons_0 nth_Cons_Suc One_nat_def numeral_2_eq_2 u by simp
  also have "\<dots> = sect" by (simp add: s_def h_def c_def)
  finally show ?thesis by (simp add: chs)
qed

theorem ptgen_chs_roundtrip_witness:
  "length (to_chs demo_ptgen 8255) = 3 \<and> chs_sector demo_ptgen (to_chs demo_ptgen 8255) = 8255"
  using ptgen_chs_roundtrip [of demo_ptgen 8255] by (simp add: demo_ptgen_def)

end
