(* ===== verification/Crc.thy ===== *)
theory Crc
  imports Prelude
begin

text \<open>
  The cyclic redundancy checks of the image and flash tools: the CRC-8 of nvram
  (\<^verbatim>\<open>package/utils/nvram/src/crc.c\<close>), the CRC-32 of otrx (\<^verbatim>\<open>package/utils/otrx/src/otrx.c\<close>) and the
  CRC-32 of mtd (\<^verbatim>\<open>package/system/mtd/src/crc32.c\<close>, \<^verbatim>\<open>crc32.h\<close>). All three are table driven. The locale
  \<open>table_crc\<close> states what a table has to be for a polynomial and proves, once, that the table driven
  step is eight steps of the bit serial shift register, that it can be run over a buffer piecewise
  and that the check value changes whenever a single byte of the data changes. The three tables are
  interpretations of it; \<open>streaming\<close> is the part of that contract the file readers rely on.
\<close>

section \<open>The tables and loops of the sources\<close>

definition crc8_table :: "byte list" where
  "crc8_table = [
     0x00, 0xf7, 0xb9, 0x4e, 0x25, 0xd2, 0x9c, 0x6b,
     0x4a, 0xbd, 0xf3, 0x04, 0x6f, 0x98, 0xd6, 0x21,
     0x94, 0x63, 0x2d, 0xda, 0xb1, 0x46, 0x08, 0xff,
     0xde, 0x29, 0x67, 0x90, 0xfb, 0x0c, 0x42, 0xb5,
     0x7f, 0x88, 0xc6, 0x31, 0x5a, 0xad, 0xe3, 0x14,
     0x35, 0xc2, 0x8c, 0x7b, 0x10, 0xe7, 0xa9, 0x5e,
     0xeb, 0x1c, 0x52, 0xa5, 0xce, 0x39, 0x77, 0x80,
     0xa1, 0x56, 0x18, 0xef, 0x84, 0x73, 0x3d, 0xca,
     0xfe, 0x09, 0x47, 0xb0, 0xdb, 0x2c, 0x62, 0x95,
     0xb4, 0x43, 0x0d, 0xfa, 0x91, 0x66, 0x28, 0xdf,
     0x6a, 0x9d, 0xd3, 0x24, 0x4f, 0xb8, 0xf6, 0x01,
     0x20, 0xd7, 0x99, 0x6e, 0x05, 0xf2, 0xbc, 0x4b,
     0x81, 0x76, 0x38, 0xcf, 0xa4, 0x53, 0x1d, 0xea,
     0xcb, 0x3c, 0x72, 0x85, 0xee, 0x19, 0x57, 0xa0,
     0x15, 0xe2, 0xac, 0x5b, 0x30, 0xc7, 0x89, 0x7e,
     0x5f, 0xa8, 0xe6, 0x11, 0x7a, 0x8d, 0xc3, 0x34,
     0xab, 0x5c, 0x12, 0xe5, 0x8e, 0x79, 0x37, 0xc0,
     0xe1, 0x16, 0x58, 0xaf, 0xc4, 0x33, 0x7d, 0x8a,
     0x3f, 0xc8, 0x86, 0x71, 0x1a, 0xed, 0xa3, 0x54,
     0x75, 0x82, 0xcc, 0x3b, 0x50, 0xa7, 0xe9, 0x1e,
     0xd4, 0x23, 0x6d, 0x9a, 0xf1, 0x06, 0x48, 0xbf,
     0x9e, 0x69, 0x27, 0xd0, 0xbb, 0x4c, 0x02, 0xf5,
     0x40, 0xb7, 0xf9, 0x0e, 0x65, 0x92, 0xdc, 0x2b,
     0x0a, 0xfd, 0xb3, 0x44, 0x2f, 0xd8, 0x96, 0x61,
     0x55, 0xa2, 0xec, 0x1b, 0x70, 0x87, 0xc9, 0x3e,
     0x1f, 0xe8, 0xa6, 0x51, 0x3a, 0xcd, 0x83, 0x74,
     0xc1, 0x36, 0x78, 0x8f, 0xe4, 0x13, 0x5d, 0xaa,
     0x8b, 0x7c, 0x32, 0xc5, 0xae, 0x59, 0x17, 0xe0,
     0x2a, 0xdd, 0x93, 0x64, 0x0f, 0xf8, 0xb6, 0x41,
     0x60, 0x97, 0xd9, 0x2e, 0x45, 0xb2, 0xfc, 0x0b,
     0xbe, 0x49, 0x07, 0xf0, 0x9b, 0x6c, 0x22, 0xd5,
     0xf4, 0x03, 0x4d, 0xba, 0xd1, 0x26, 0x68, 0x9f]"

definition hndcrc8 :: "bytes \<Rightarrow> byte \<Rightarrow> byte" where
  "hndcrc8 pdata crc = foldl (\<lambda>c b. crc8_table ! unat ((c XOR b) AND 0xff)) crc pdata"

definition crc32_tbl :: "u32 list" where
  "crc32_tbl = [
     0x00000000, 0x77073096, 0xee0e612c, 0x990951ba,
     0x076dc419, 0x706af48f, 0xe963a535, 0x9e6495a3,
     0x0edb8832, 0x79dcb8a4, 0xe0d5e91e, 0x97d2d988,
     0x09b64c2b, 0x7eb17cbd, 0xe7b82d07, 0x90bf1d91,
     0x1db71064, 0x6ab020f2, 0xf3b97148, 0x84be41de,
     0x1adad47d, 0x6ddde4eb, 0xf4d4b551, 0x83d385c7,
     0x136c9856, 0x646ba8c0, 0xfd62f97a, 0x8a65c9ec,
     0x14015c4f, 0x63066cd9, 0xfa0f3d63, 0x8d080df5,
     0x3b6e20c8, 0x4c69105e, 0xd56041e4, 0xa2677172,
     0x3c03e4d1, 0x4b04d447, 0xd20d85fd, 0xa50ab56b,
     0x35b5a8fa, 0x42b2986c, 0xdbbbc9d6, 0xacbcf940,
     0x32d86ce3, 0x45df5c75, 0xdcd60dcf, 0xabd13d59,
     0x26d930ac, 0x51de003a, 0xc8d75180, 0xbfd06116,
     0x21b4f4b5, 0x56b3c423, 0xcfba9599, 0xb8bda50f,
     0x2802b89e, 0x5f058808, 0xc60cd9b2, 0xb10be924,
     0x2f6f7c87, 0x58684c11, 0xc1611dab, 0xb6662d3d,
     0x76dc4190, 0x01db7106, 0x98d220bc, 0xefd5102a,
     0x71b18589, 0x06b6b51f, 0x9fbfe4a5, 0xe8b8d433,
     0x7807c9a2, 0x0f00f934, 0x9609a88e, 0xe10e9818,
     0x7f6a0dbb, 0x086d3d2d, 0x91646c97, 0xe6635c01,
     0x6b6b51f4, 0x1c6c6162, 0x856530d8, 0xf262004e,
     0x6c0695ed, 0x1b01a57b, 0x8208f4c1, 0xf50fc457,
     0x65b0d9c6, 0x12b7e950, 0x8bbeb8ea, 0xfcb9887c,
     0x62dd1ddf, 0x15da2d49, 0x8cd37cf3, 0xfbd44c65,
     0x4db26158, 0x3ab551ce, 0xa3bc0074, 0xd4bb30e2,
     0x4adfa541, 0x3dd895d7, 0xa4d1c46d, 0xd3d6f4fb,
     0x4369e96a, 0x346ed9fc, 0xad678846, 0xda60b8d0,
     0x44042d73, 0x33031de5, 0xaa0a4c5f, 0xdd0d7cc9,
     0x5005713c, 0x270241aa, 0xbe0b1010, 0xc90c2086,
     0x5768b525, 0x206f85b3, 0xb966d409, 0xce61e49f,
     0x5edef90e, 0x29d9c998, 0xb0d09822, 0xc7d7a8b4,
     0x59b33d17, 0x2eb40d81, 0xb7bd5c3b, 0xc0ba6cad,
     0xedb88320, 0x9abfb3b6, 0x03b6e20c, 0x74b1d29a,
     0xead54739, 0x9dd277af, 0x04db2615, 0x73dc1683,
     0xe3630b12, 0x94643b84, 0x0d6d6a3e, 0x7a6a5aa8,
     0xe40ecf0b, 0x9309ff9d, 0x0a00ae27, 0x7d079eb1,
     0xf00f9344, 0x8708a3d2, 0x1e01f268, 0x6906c2fe,
     0xf762575d, 0x806567cb, 0x196c3671, 0x6e6b06e7,
     0xfed41b76, 0x89d32be0, 0x10da7a5a, 0x67dd4acc,
     0xf9b9df6f, 0x8ebeeff9, 0x17b7be43, 0x60b08ed5,
     0xd6d6a3e8, 0xa1d1937e, 0x38d8c2c4, 0x4fdff252,
     0xd1bb67f1, 0xa6bc5767, 0x3fb506dd, 0x48b2364b,
     0xd80d2bda, 0xaf0a1b4c, 0x36034af6, 0x41047a60,
     0xdf60efc3, 0xa867df55, 0x316e8eef, 0x4669be79,
     0xcb61b38c, 0xbc66831a, 0x256fd2a0, 0x5268e236,
     0xcc0c7795, 0xbb0b4703, 0x220216b9, 0x5505262f,
     0xc5ba3bbe, 0xb2bd0b28, 0x2bb45a92, 0x5cb36a04,
     0xc2d7ffa7, 0xb5d0cf31, 0x2cd99e8b, 0x5bdeae1d,
     0x9b64c2b0, 0xec63f226, 0x756aa39c, 0x026d930a,
     0x9c0906a9, 0xeb0e363f, 0x72076785, 0x05005713,
     0x95bf4a82, 0xe2b87a14, 0x7bb12bae, 0x0cb61b38,
     0x92d28e9b, 0xe5d5be0d, 0x7cdcefb7, 0x0bdbdf21,
     0x86d3d2d4, 0xf1d4e242, 0x68ddb3f8, 0x1fda836e,
     0x81be16cd, 0xf6b9265b, 0x6fb077e1, 0x18b74777,
     0x88085ae6, 0xff0f6a70, 0x66063bca, 0x11010b5c,
     0x8f659eff, 0xf862ae69, 0x616bffd3, 0x166ccf45,
     0xa00ae278, 0xd70dd2ee, 0x4e048354, 0x3903b3c2,
     0xa7672661, 0xd06016f7, 0x4969474d, 0x3e6e77db,
     0xaed16a4a, 0xd9d65adc, 0x40df0b66, 0x37d83bf0,
     0xa9bcae53, 0xdebb9ec5, 0x47b2cf7f, 0x30b5ffe9,
     0xbdbdf21c, 0xcabac28a, 0x53b39330, 0x24b4a3a6,
     0xbad03605, 0xcdd70693, 0x54de5729, 0x23d967bf,
     0xb3667a2e, 0xc4614ab8, 0x5d681b02, 0x2a6f2b94,
     0xb40bbe37, 0xc30c8ea1, 0x5a05df1b, 0x2d02ef8d]"

definition otrx_crc32 :: "u32 \<Rightarrow> bytes \<Rightarrow> u32" where
  "otrx_crc32 crc buf =
     foldl (\<lambda>c b. crc32_tbl ! unat ((c XOR ucast b) AND 0xff) XOR drop_bit 8 c) crc buf"

definition crc32_table :: "u32 list" where
  "crc32_table = [
     0x00000000, 0x77073096, 0xee0e612c, 0x990951ba, 0x076dc419,
     0x706af48f, 0xe963a535, 0x9e6495a3, 0x0edb8832, 0x79dcb8a4,
     0xe0d5e91e, 0x97d2d988, 0x09b64c2b, 0x7eb17cbd, 0xe7b82d07,
     0x90bf1d91, 0x1db71064, 0x6ab020f2, 0xf3b97148, 0x84be41de,
     0x1adad47d, 0x6ddde4eb, 0xf4d4b551, 0x83d385c7, 0x136c9856,
     0x646ba8c0, 0xfd62f97a, 0x8a65c9ec, 0x14015c4f, 0x63066cd9,
     0xfa0f3d63, 0x8d080df5, 0x3b6e20c8, 0x4c69105e, 0xd56041e4,
     0xa2677172, 0x3c03e4d1, 0x4b04d447, 0xd20d85fd, 0xa50ab56b,
     0x35b5a8fa, 0x42b2986c, 0xdbbbc9d6, 0xacbcf940, 0x32d86ce3,
     0x45df5c75, 0xdcd60dcf, 0xabd13d59, 0x26d930ac, 0x51de003a,
     0xc8d75180, 0xbfd06116, 0x21b4f4b5, 0x56b3c423, 0xcfba9599,
     0xb8bda50f, 0x2802b89e, 0x5f058808, 0xc60cd9b2, 0xb10be924,
     0x2f6f7c87, 0x58684c11, 0xc1611dab, 0xb6662d3d, 0x76dc4190,
     0x01db7106, 0x98d220bc, 0xefd5102a, 0x71b18589, 0x06b6b51f,
     0x9fbfe4a5, 0xe8b8d433, 0x7807c9a2, 0x0f00f934, 0x9609a88e,
     0xe10e9818, 0x7f6a0dbb, 0x086d3d2d, 0x91646c97, 0xe6635c01,
     0x6b6b51f4, 0x1c6c6162, 0x856530d8, 0xf262004e, 0x6c0695ed,
     0x1b01a57b, 0x8208f4c1, 0xf50fc457, 0x65b0d9c6, 0x12b7e950,
     0x8bbeb8ea, 0xfcb9887c, 0x62dd1ddf, 0x15da2d49, 0x8cd37cf3,
     0xfbd44c65, 0x4db26158, 0x3ab551ce, 0xa3bc0074, 0xd4bb30e2,
     0x4adfa541, 0x3dd895d7, 0xa4d1c46d, 0xd3d6f4fb, 0x4369e96a,
     0x346ed9fc, 0xad678846, 0xda60b8d0, 0x44042d73, 0x33031de5,
     0xaa0a4c5f, 0xdd0d7cc9, 0x5005713c, 0x270241aa, 0xbe0b1010,
     0xc90c2086, 0x5768b525, 0x206f85b3, 0xb966d409, 0xce61e49f,
     0x5edef90e, 0x29d9c998, 0xb0d09822, 0xc7d7a8b4, 0x59b33d17,
     0x2eb40d81, 0xb7bd5c3b, 0xc0ba6cad, 0xedb88320, 0x9abfb3b6,
     0x03b6e20c, 0x74b1d29a, 0xead54739, 0x9dd277af, 0x04db2615,
     0x73dc1683, 0xe3630b12, 0x94643b84, 0x0d6d6a3e, 0x7a6a5aa8,
     0xe40ecf0b, 0x9309ff9d, 0x0a00ae27, 0x7d079eb1, 0xf00f9344,
     0x8708a3d2, 0x1e01f268, 0x6906c2fe, 0xf762575d, 0x806567cb,
     0x196c3671, 0x6e6b06e7, 0xfed41b76, 0x89d32be0, 0x10da7a5a,
     0x67dd4acc, 0xf9b9df6f, 0x8ebeeff9, 0x17b7be43, 0x60b08ed5,
     0xd6d6a3e8, 0xa1d1937e, 0x38d8c2c4, 0x4fdff252, 0xd1bb67f1,
     0xa6bc5767, 0x3fb506dd, 0x48b2364b, 0xd80d2bda, 0xaf0a1b4c,
     0x36034af6, 0x41047a60, 0xdf60efc3, 0xa867df55, 0x316e8eef,
     0x4669be79, 0xcb61b38c, 0xbc66831a, 0x256fd2a0, 0x5268e236,
     0xcc0c7795, 0xbb0b4703, 0x220216b9, 0x5505262f, 0xc5ba3bbe,
     0xb2bd0b28, 0x2bb45a92, 0x5cb36a04, 0xc2d7ffa7, 0xb5d0cf31,
     0x2cd99e8b, 0x5bdeae1d, 0x9b64c2b0, 0xec63f226, 0x756aa39c,
     0x026d930a, 0x9c0906a9, 0xeb0e363f, 0x72076785, 0x05005713,
     0x95bf4a82, 0xe2b87a14, 0x7bb12bae, 0x0cb61b38, 0x92d28e9b,
     0xe5d5be0d, 0x7cdcefb7, 0x0bdbdf21, 0x86d3d2d4, 0xf1d4e242,
     0x68ddb3f8, 0x1fda836e, 0x81be16cd, 0xf6b9265b, 0x6fb077e1,
     0x18b74777, 0x88085ae6, 0xff0f6a70, 0x66063bca, 0x11010b5c,
     0x8f659eff, 0xf862ae69, 0x616bffd3, 0x166ccf45, 0xa00ae278,
     0xd70dd2ee, 0x4e048354, 0x3903b3c2, 0xa7672661, 0xd06016f7,
     0x4969474d, 0x3e6e77db, 0xaed16a4a, 0xd9d65adc, 0x40df0b66,
     0x37d83bf0, 0xa9bcae53, 0xdebb9ec5, 0x47b2cf7f, 0x30b5ffe9,
     0xbdbdf21c, 0xcabac28a, 0x53b39330, 0x24b4a3a6, 0xbad03605,
     0xcdd70693, 0x54de5729, 0x23d967bf, 0xb3667a2e, 0xc4614ab8,
     0x5d681b02, 0x2a6f2b94, 0xb40bbe37, 0xc30c8ea1, 0x5a05df1b,
     0x2d02ef8d]"

definition mtd_crc32 :: "u32 \<Rightarrow> bytes \<Rightarrow> u32" where
  "mtd_crc32 val ss =
     foldl (\<lambda>v s. crc32_table ! unat ((v XOR ucast s) AND 0xff) XOR drop_bit 8 v) val ss"

definition crc32buf :: "bytes \<Rightarrow> u32" where
  "crc32buf buf = mtd_crc32 0xffffffff buf"

section \<open>The bit serial reference\<close>

text \<open>One step of the reflected shift register, the step for a byte, and the check value of a buffer.\<close>

definition crc_bit :: "'a::len word \<Rightarrow> 'a word \<Rightarrow> 'a word" where
  "crc_bit p c = (if bit c 0 then drop_bit 1 c XOR p else drop_bit 1 c)"

definition crc_byte :: "'a::len word \<Rightarrow> 'a word \<Rightarrow> byte \<Rightarrow> 'a word" where
  "crc_byte p c b = (crc_bit p ^^ 8) (c XOR ucast b)"

definition crc_ref :: "'a::len word \<Rightarrow> 'a word \<Rightarrow> bytes \<Rightarrow> 'a word" where
  "crc_ref p c bs = foldl (crc_byte p) c bs"

text \<open>The xor span of a list of words: the table of a linear map, from its values on the powers of two.\<close>

fun xor_span :: "'a::len word list \<Rightarrow> 'a word list" where
  "xor_span [] = [0]"
| "xor_span (b # bs) = (let t = xor_span bs in t @ map (\<lambda>x. b XOR x) t)"

section \<open>Linearity and injectivity of the register\<close>

lemma crc_bit_xor: "crc_bit p (x XOR y) = crc_bit p x XOR crc_bit p y"
  by (simp add: crc_bit_def bit_simps ac_simps)

lemma crc_bits_xor: "(crc_bit p ^^ n) (x XOR y) = (crc_bit p ^^ n) x XOR (crc_bit p ^^ n) y"
  by (induction n) (simp_all add: crc_bit_xor)

lemma crc_bits_0 [simp]: "(crc_bit p ^^ n) 0 = 0"
  by (induction n) (simp_all add: crc_bit_def)

text \<open>While the low bits are clear the register only shifts.\<close>

lemma crc_bits_shift:
  fixes x :: "'a::len word"
  assumes "\<And>i. i < n \<Longrightarrow> \<not> bit x i"
  shows "(crc_bit p ^^ n) x = drop_bit n x"
  using assms
proof (induction n)
  case (Suc n)
  then have "(crc_bit p ^^ n) x = drop_bit n x" by simp
  moreover from Suc.prems have "\<not> bit x n" by simp
  ultimately show ?case by (simp add: crc_bit_def [of p "drop_bit n x"] bit_simps)
qed simp

lemma crc_bit_inj:
  fixes p :: "'a::len word"
  assumes top: "bit p (LENGTH('a) - 1)" and eq: "crc_bit p x = crc_bit p y"
  shows "x = y"
proof (rule bit_word_eqI)
  have shifted: "\<not> bit (drop_bit 1 z) (LENGTH('a) - 1)" for z :: "'a word"
    by (auto simp: bit_simps dest: bit_imp_le_length)
  have low: "bit (crc_bit p z) (LENGTH('a) - 1) \<longleftrightarrow> bit z 0" for z
    using top shifted [of z] by (simp add: crc_bit_def bit_xor_iff)
  have x0: "bit x 0 = bit y 0" using low [of x] low [of y] eq by simp
  moreover have "(drop_bit 1 x XOR p) XOR p = (drop_bit 1 y XOR p) XOR p \<or> drop_bit 1 x = drop_bit 1 y"
    using x0 eq by (auto simp: crc_bit_def split: if_splits)
  ultimately have "drop_bit 1 x = drop_bit 1 y"
    by (simp add: xor.assoc)
  then have up: "bit x (Suc k) = bit y (Suc k)" for k
    by (metis bit_drop_bit_eq comp_apply plus_1_eq_Suc)
  fix n
  show "bit x n = bit y n" using x0 up by (cases n) auto
qed

lemma crc_bits_inj:
  fixes p :: "'a::len word"
  assumes "bit p (LENGTH('a) - 1)" and "(crc_bit p ^^ n) x = (crc_bit p ^^ n) y"
  shows "x = y"
  using assms(2) by (induction n) (auto dest: crc_bit_inj [OF assms(1)])

section \<open>Tables of linear maps\<close>

lemma length_xor_span [simp]: "length (xor_span bs) = 2 ^ length bs"
  by (induction bs) (simp_all add: Let_def)

lemma of_nat_add_xor:
  assumes "i < 2 ^ k" and "k < LENGTH('a::len)"
  shows "(of_nat (2 ^ k + i) :: 'a word) = 2 ^ k XOR of_nat i"
proof -
  have "\<not> bit i k" using assms(1)
    by (metis bit_take_bit_iff order_less_irrefl take_bit_nat_eq_self)
  then have "(2 ^ k :: 'a word) AND of_nat i = 0"
    by (intro bit_word_eqI) (auto simp: bit_simps)
  then have "(2 ^ k :: 'a word) + of_nat i = 2 ^ k XOR of_nat i"
    by (metis disjunctive_xor_eq_or disjunctive_add_eq_or)
  then show ?thesis by simp
qed

lemma xor_span_nth:
  fixes f :: "'a::len word \<Rightarrow> 'a word"
  assumes lin: "\<And>x y. f (x XOR y) = f x XOR f y" and zero: "f 0 = 0"
  shows "n \<le> LENGTH('a) \<Longrightarrow> i < 2 ^ n \<Longrightarrow> xor_span (map (\<lambda>k. f (2 ^ k)) (rev [0..<n])) ! i = f (of_nat i)"
proof (induction n arbitrary: i)
  case 0
  then show ?case by (simp add: zero)
next
  case (Suc n)
  show ?case
  proof (cases "i < 2 ^ n")
    case True
    with Suc show ?thesis by (simp add: Let_def nth_append)
  next
    case False
    with Suc.prems have "i - 2 ^ n < 2 ^ n" and "n < LENGTH('a)" by auto
    moreover have "(of_nat i :: 'a word) = 2 ^ n XOR of_nat (i - 2 ^ n)"
      using of_nat_add_xor [OF calculation] False by simp
    moreover from this have "f (of_nat i) = f (2 ^ n) XOR f (of_nat (i - 2 ^ n))"
      by (simp only: lin)
    ultimately show ?thesis
      using Suc.IH [of "i - 2 ^ n"] False by (simp add: Let_def nth_append del: of_nat_diff)
  qed
qed

section \<open>The contract of a streaming checksum\<close>

text \<open>
  \<open>upd\<close> runs the checksum over a buffer. The loops of the file tools that read a block at a time,
  \<open>while ((n = read(buf)) > 0) crc = upd(crc, buf, n)\<close>, compute the value of the whole
  range, whatever the blocks are.
\<close>

locale streaming =
  fixes upd :: "'s \<Rightarrow> bytes \<Rightarrow> 's"
  assumes upd_Nil: "upd s [] = s"
    and upd_append: "upd s (xs @ ys) = upd (upd s xs) ys"
begin

lemma upd_concat: "foldl upd s chunks = upd s (concat chunks)"
  by (induction chunks arbitrary: s) (simp_all add: upd_Nil upd_append)

end

section \<open>Table driven CRCs\<close>

locale table_crc =
  fixes poly :: "'a::len word" and tbl :: "'a word list"
  assumes wide: "8 \<le> LENGTH('a)"
    and top: "bit poly (LENGTH('a) - 1)"
    and tbl: "tbl = xor_span (map (\<lambda>k. (crc_bit poly ^^ 8) (2 ^ k)) [7, 6, 5, 4, 3, 2, 1, 0])"
begin

lemma tbl_nth: "i < 256 \<Longrightarrow> tbl ! i = (crc_bit poly ^^ 8) (of_nat i)"
  using xor_span_nth [of "crc_bit poly ^^ 8" 8 i] wide by (simp add: tbl crc_bits_xor upt_rec)

text \<open>The table lookup is eight steps of the register.\<close>

lemma table_step: "tbl ! unat ((c XOR ucast b) AND 0xff) XOR drop_bit 8 c = crc_byte poly c b"
proof -
  let ?x = "c XOR ucast b"
  let ?lo = "?x AND 0xff" and ?hi = "?x AND NOT (mask 8)"
  have ff: "(0xff :: 'a word) = mask 8" by (simp add: mask_eq_exp_minus_1)
  have x: "?x = ?lo XOR ?hi" unfolding ff by (rule bit_word_eqI) (auto simp: bit_simps)
  have "?lo \<le> of_nat 255" using word_and_le1 [of ?x "0xff"] by simp
  then have "unat ?lo \<le> unat (of_nat 255 :: 'a word)" by (simp only: word_le_nat_alt)
  also have "\<dots> \<le> 255" by (simp only: unat_of_nat mod_less_eq_dividend)
  finally have "unat ?lo < 256" by simp
  then have "tbl ! unat ?lo = (crc_bit poly ^^ 8) ?lo" by (simp add: tbl_nth)
  moreover have "(crc_bit poly ^^ 8) ?hi = drop_bit 8 ?hi"
    using wide by (intro crc_bits_shift) (simp add: bit_simps)
  moreover have "drop_bit 8 ?hi = drop_bit 8 c"
    by (rule bit_word_eqI) (auto simp: bit_simps dest: bit_imp_le_length)
  ultimately show ?thesis
    unfolding crc_byte_def by (subst x) (simp add: crc_bits_xor)
qed

lemma table_loop:
  "foldl (\<lambda>c b. tbl ! unat ((c XOR ucast b) AND 0xff) XOR drop_bit 8 c) c bs = crc_ref poly c bs"
  by (simp add: crc_ref_def table_step cong: foldl_cong)

text \<open>Two registers that differ stay different, and a changed byte makes them differ: no change that is
  confined to one byte goes unnoticed.\<close>

lemma ref_inj: "crc_ref poly c bs = crc_ref poly d bs \<Longrightarrow> c = d"
proof (induction bs arbitrary: c d)
  case (Cons b bs)
  then have "crc_byte poly c b = crc_byte poly d b" by (simp add: crc_ref_def)
  then have "(c XOR ucast b) XOR ucast b = (d XOR ucast b) XOR ucast b"
    unfolding crc_byte_def using crc_bits_inj [OF top] by metis
  then show ?case by (simp add: xor.assoc)
qed (simp add: crc_ref_def)

lemma byte_inj:
  assumes "crc_byte poly c x = crc_byte poly c y" shows "x = y"
proof -
  from assms have "c XOR (c XOR ucast x) = c XOR (c XOR ucast y)"
    unfolding crc_byte_def using crc_bits_inj [OF top] by metis
  then have "(ucast x :: 'a word) = ucast y" by (simp add: xor.assoc [symmetric])
  then have "bit (ucast x :: 'a word) n = bit (ucast y :: 'a word) n" for n by simp
  then show ?thesis using wide by (intro bit_word_eqI) (simp add: bit_simps, meson order_less_le_trans)
qed

lemma detects_byte:
  assumes "crc_ref poly c (xs @ x # ys) = crc_ref poly c (xs @ y # ys)" shows "x = y"
proof -
  let ?d = "crc_ref poly c xs"
  have "crc_ref poly (crc_byte poly ?d x) ys = crc_ref poly (crc_byte poly ?d y) ys"
    using assms by (simp add: crc_ref_def)
  then show ?thesis by (metis ref_inj byte_inj)
qed

lemma ref_streaming: "streaming (crc_ref poly)"
  by unfold_locales (simp_all add: crc_ref_def)

end

section \<open>The three checks are table driven CRCs\<close>

lemma funpow_8: "(f ^^ 8) x = f (f (f (f (f (f (f (f x)))))))"
  by (simp add: numeral_eq_Suc)

lemma crc8_basis: "map (\<lambda>k. (crc_bit (0xab :: byte) ^^ 8) (2 ^ k)) [7, 6, 5, 4, 3, 2, 1, 0] =
    [0xab, 0xfe, 0x7f, 0x94, 0x4a, 0x25, 0xb9, 0xf7]"
  unfolding list.map by (simp add: crc_bit_def funpow_8)

lemma crc32_basis: "map (\<lambda>k. (crc_bit (0xedb88320 :: u32) ^^ 8) (2 ^ k)) [7, 6, 5, 4, 3, 2, 1, 0] =
    [0xedb88320, 0x76dc4190, 0x3b6e20c8, 0x1db71064, 0x0edb8832, 0x076dc419, 0xee0e612c, 0x77073096]"
  unfolding list.map by (simp add: crc_bit_def funpow_8)

interpretation crc8: table_crc "0xab :: byte" crc8_table
  by (unfold_locales, simp, simp, unfold crc8_basis, simp add: crc8_table_def Let_def)

interpretation otrx: table_crc "0xedb88320 :: u32" crc32_tbl
  by (unfold_locales, simp, simp, unfold crc32_basis, simp add: crc32_tbl_def Let_def)

interpretation mtd: table_crc "0xedb88320 :: u32" crc32_table
  by (unfold_locales, simp, simp, unfold crc32_basis, simp add: crc32_table_def Let_def)

lemma hndcrc8_ref: "hndcrc8 bs c = crc_ref 0xab c bs"
proof -
  have "drop_bit 8 x = 0" for x :: byte
    by (rule bit_word_eqI) (auto simp: bit_simps dest: bit_imp_le_length)
  then show ?thesis using crc8.table_loop [of c bs] by (simp add: hndcrc8_def)
qed

lemma otrx_crc32_ref: "otrx_crc32 c bs = crc_ref 0xedb88320 c bs"
  using otrx.table_loop [of c bs] by (simp add: otrx_crc32_def)

lemma mtd_crc32_ref: "mtd_crc32 c bs = crc_ref 0xedb88320 c bs"
  using mtd.table_loop [of c bs] by (simp add: mtd_crc32_def)

interpretation otrx_stream: streaming otrx_crc32
  by unfold_locales (simp_all add: otrx_crc32_def)

interpretation mtd_stream: streaming mtd_crc32
  by unfold_locales (simp_all add: mtd_crc32_def)

interpretation crc8_stream: streaming "\<lambda>c bs. hndcrc8 bs c"
  by unfold_locales (simp_all add: hndcrc8_def)

section \<open>Properties\<close>

text \<open>C38. The three table driven checks are cyclic redundancy checks: \<open>hndcrc8\<close> of nvram is the bit serial register with
  the reflected polynomial 0xab, and the CRC-32 of otrx and the CRC-32 of mtd, with their two separately written
  tables, are both the one with polynomial 0xedb88320, so each tool accepts what the other wrote. No change confined to one byte of the data
  goes unnoticed, by any of the three checks, whatever the length of the data and the start value.\<close>

theorem crc_loops_bit_serial:
  "hndcrc8 bs c = crc_ref 0xab c bs \<and> otrx_crc32 v bs = crc_ref 0xedb88320 v bs \<and> mtd_crc32 v bs = otrx_crc32 v bs \<and>
    (x \<noteq> y \<longrightarrow> hndcrc8 (xs @ x # ys) c \<noteq> hndcrc8 (xs @ y # ys) c \<and>
      otrx_crc32 v (xs @ x # ys) \<noteq> otrx_crc32 v (xs @ y # ys) \<and> mtd_crc32 v (xs @ x # ys) \<noteq> mtd_crc32 v (xs @ y # ys))"
  using crc8.detects_byte mtd.detects_byte by (auto simp: hndcrc8_ref otrx_crc32_ref mtd_crc32_ref)

theorem crc_loops_bit_serial_witness:
  "(0 :: byte) \<noteq> 1 \<and> hndcrc8 ([7] @ 0 # [9]) 0xff \<noteq> hndcrc8 ([7] @ 1 # [9]) 0xff"
  using crc_loops_bit_serial [of "[]" "0xff" 0 0 1 "[7]" "[9]"] by simp

end
