(* ===== verification/Otrx.thy ===== *)
theory Otrx
  imports Crc Stdio
begin

text \<open>
  The TRX image tool, \<^verbatim>\<open>package/utils/otrx/src/otrx.c\<close>: create, check and extract. The image is a stream of \<open>Stdio\<close>.
  The options are the list \<open>getopt\<close> returns, option character and argument. The environment gives the other
  files by path, the sizes for which \<open>malloc\<close> succeeds and the space on the device of the image. A result is
  the exit status and the image; \<open>None\<close> is a crash (division by the alignment 0). The offset of \<open>-o\<close> is a natural number, where the code
  converts an \<open>int\<close> to \<open>size_t\<close> and \<open>long\<close>: negative ones are not covered.
\<close>

section \<open>The header\<close>

record trx_header =
  th_magic :: u32
  th_length :: u32
  th_crc32 :: u32
  th_flags :: u16
  th_version :: u16
  th_offset :: "u32 list"

definition TRX_MAGIC :: u32 where "TRX_MAGIC = 0x30524448"
definition TRX_FLAGS_OFFSET :: nat where "TRX_FLAGS_OFFSET = 12"
definition TRX_MAX_PARTS :: nat where "TRX_MAX_PARTS = 3"

definition hdr_size :: nat where "hdr_size = 28"

definition trx_enc :: "abi \<Rightarrow> trx_header \<Rightarrow> bytes" where
  "trx_enc A hdr = native32_enc A (th_magic hdr) @ native32_enc A (th_length hdr) @ native32_enc A (th_crc32 hdr) @
     native16_enc A (th_flags hdr) @ native16_enc A (th_version hdr) @
     native32_enc A (th_offset hdr ! 0) @ native32_enc A (th_offset hdr ! 1) @ native32_enc A (th_offset hdr ! 2)"

definition trx_dec :: "abi \<Rightarrow> bytes \<Rightarrow> trx_header" where
  "trx_dec A b = \<lparr>th_magic = native32_dec A (slice 0 4 b), th_length = native32_dec A (slice 4 4 b),
     th_crc32 = native32_dec A (slice 8 4 b), th_flags = native16_dec A (slice 12 2 b),
     th_version = native16_dec A (slice 14 2 b), th_offset = [native32_dec A (slice 16 4 b),
     native32_dec A (slice 20 4 b), native32_dec A (slice 24 4 b)]\<rparr>"

section \<open>Check\<close>

text \<open>The loop that reads at most 1024 bytes at a time into the CRC: what is left to read, and the CRC.\<close>

function crc_loop :: "cfile \<Rightarrow> nat \<Rightarrow> u32 \<Rightarrow> nat \<times> u32" where
  "crc_loop f len crc =
     (let (buf, f') = fread (min 1024 len) f
      in if buf = [] then (len, crc) else crc_loop f' (len - length buf) (otrx_crc32 crc buf))"
  by pat_completeness auto
termination
proof (relation "measure (\<lambda>(f, len, crc). len)", simp)
  fix f :: cfile and len :: nat and crc :: u32 and x buf f'
  assume "x = fread (min 1024 len) f" "(buf, f') = x" "buf \<noteq> []"
  then have "buf = slice (fpos f) (min 1024 len) (content f)" by (simp add: fread_def Let_def)
  then have "length buf \<le> len" by (auto simp: slice_def)
  moreover have "0 < length buf" using \<open>buf \<noteq> []\<close> by simp
  ultimately have "len - length buf < len" by linarith
  then show "((f', len - length buf, otrx_crc32 crc buf), f, len, crc) \<in> measure (\<lambda>(f, len, crc). len)" by simp
qed

declare crc_loop.simps [simp del]

definition otrx_check :: "abi \<Rightarrow> nat \<Rightarrow> bytes option \<Rightarrow> int" where
  "otrx_check A trx_offset file =
     (case file of
        None \<Rightarrow> -13
      | Some img \<Rightarrow>
          let f = fseek trx_offset \<lparr>content = img, fpos = 0, fcap = 0\<rparr>;
              (hbytes, f1) = fread hdr_size f; hdr = trx_dec A hbytes
          in if length hbytes \<noteq> hdr_size then -5
             else if le32_to_cpu A (th_magic hdr) \<noteq> TRX_MAGIC then -22
             else let len = unat (le32_to_cpu A (th_length hdr))
                  in if len < hdr_size then -22
                     else let (left, crc32) = crc_loop (fseek (trx_offset + TRX_FLAGS_OFFSET) f1)
                                (len - TRX_FLAGS_OFFSET) 0xffffffff
                          in if left \<noteq> 0 then -5
                             else if crc32 \<noteq> le32_to_cpu A (th_crc32 hdr) then -22
                             else 0)"

section \<open>Create\<close>

record otrx_env =
  files :: "bytes \<Rightarrow> bytes option"
  malloc_ok :: "nat \<Rightarrow> bool"
  disk :: nat

text \<open>The copy loop of \<open>otrx_create_append_file\<close>: \<open>src\<close> is what is left of the input.\<close>

function append_loop :: "abi \<Rightarrow> cfile \<Rightarrow> bytes \<Rightarrow> nat \<Rightarrow> int \<times> cfile" where
  "append_loop A trx src len =
     (if src = [] then (ssize_of A len, trx)
      else let buf = take 1024 src; (n, trx') = fwrite buf trx
           in if n \<noteq> length buf then (-5, trx')
              else append_loop A trx' (drop 1024 src) (size_add A len n))"
  by pat_completeness auto
termination by (relation "measure (\<lambda>(A, trx, src, len). length src)") auto

declare append_loop.simps [simp del]

definition otrx_create_append_file :: "abi \<Rightarrow> otrx_env \<Rightarrow> cfile \<Rightarrow> bytes \<Rightarrow> int \<times> cfile" where
  "otrx_create_append_file A E trx in_path =
     (case files E in_path of
        None \<Rightarrow> (-13, trx)
      | Some src \<Rightarrow> append_loop A trx src 0)"

definition otrx_create_append_zeros :: "abi \<Rightarrow> otrx_env \<Rightarrow> cfile \<Rightarrow> nat \<Rightarrow> int \<times> cfile" where
  "otrx_create_append_zeros A E trx len =
     (if \<not> malloc_ok E len then (-12, trx)
      else let (n, trx') = fwrite (replicate len 0) trx
           in if n \<noteq> len then (-5, trx') else (ssize_of A len, trx'))"

definition otrx_create_align :: "abi \<Rightarrow> otrx_env \<Rightarrow> cfile \<Rightarrow> nat \<Rightarrow> nat \<Rightarrow> (int \<times> cfile) option" where
  "otrx_create_align A E trx curr_offset alignment =
     (if curr_offset AND size_sub A alignment 1 \<noteq> 0
      then if alignment = 0 then None
           else Some (otrx_create_append_zeros A E trx (alignment - curr_offset mod alignment))
      else Some (0, trx))"

definition otrx_create_write_hdr :: "abi \<Rightarrow> cfile \<Rightarrow> trx_header \<Rightarrow> int \<times> cfile" where
  "otrx_create_write_hdr A trx hdr0 =
     (let hdr = hdr0\<lparr>th_magic := le32_to_cpu A TRX_MAGIC, th_version := 1\<rparr>;
          (n, f1) = fwrite (trx_enc A hdr) (fseek 0 trx)
      in if n \<noteq> hdr_size then (-5, f1)
         else let len = size_sub A (unat (le32_to_cpu A (th_length hdr))) TRX_FLAGS_OFFSET;
                  (left, crc32) = crc_loop (fseek TRX_FLAGS_OFFSET f1) len 0xffffffff;
                  hdr' = hdr\<lparr>th_crc32 := le32_to_cpu A crc32\<rparr>;
                  (m, f2) = fwrite (trx_enc A hdr') (fseek 0 f1)
              in if m \<noteq> hdr_size then (-5, f2) else (0, f2))"

text \<open>The state of the option loop.\<close>

record otrx_st =
  o_trx :: cfile
  o_hdr :: trx_header
  curr_idx :: nat
  curr_offset :: nat

text \<open>\<open>sbytes = ...; if (sbytes < 0) complain; else curr_offset += sbytes\<close>\<close>

definition advance :: "abi \<Rightarrow> otrx_st \<Rightarrow> int \<times> cfile \<Rightarrow> otrx_st" where
  "advance A s r =
     (let s' = s\<lparr>o_trx := snd r\<rparr>
      in if fst r < 0 then s' else s'\<lparr>curr_offset := size_add A (curr_offset s) (nat (fst r))\<rparr>)"

definition align_step :: "abi \<Rightarrow> otrx_env \<Rightarrow> nat \<Rightarrow> otrx_st \<Rightarrow> otrx_st option" where
  "align_step A E alignment s =
     map_option (advance A s) (otrx_create_align A E (o_trx s) (curr_offset s) alignment)"

text \<open>After a partition was appended: its start goes into the header, unless that failed.\<close>

definition record_part :: "abi \<Rightarrow> otrx_st \<Rightarrow> int \<times> cfile \<Rightarrow> otrx_st" where
  "record_part A s r =
     (if fst r < 0 then advance A s r
      else (advance A s r)\<lparr>o_hdr := (o_hdr s)\<lparr>th_offset := (th_offset (o_hdr s))
             [curr_idx s := of_nat (curr_offset s)]\<rparr>, curr_idx := curr_idx s + 1\<rparr>)"

text \<open>One option. \<open>Some (Inl e)\<close>: stop with \<open>e\<close>; an option \<open>getopt\<close> does not know does nothing.\<close>

definition otrx_create_option :: "abi \<Rightarrow> otrx_env \<Rightarrow> otrx_st \<Rightarrow> byte \<times> bytes \<Rightarrow> (int + otrx_st) option" where
  "otrx_create_option A E s opt =
     (let (c, optarg) = opt
      in if c = 102 then
           (if curr_idx s \<ge> TRX_MAX_PARTS then Some (Inl (-28))
            else map_option Inr (align_step A E 4 (record_part A s (otrx_create_append_file A E (o_trx s) optarg))))
         else if c = 65 then
           map_option Inr (align_step A E 4 (advance A s (otrx_create_append_file A E (o_trx s) optarg)))
         else if c = 97 then
           map_option Inr (align_step A E (size_of_int A (strtol A 0 optarg)) s)
         else if c = 98 then
           (let sbytes = ssize_of A (size_sub A (size_of_int A (strtol A 0 optarg)) (curr_offset s))
            in Some (Inr (if sbytes < 0 then s
                          else advance A s (otrx_create_append_zeros A E (o_trx s) (nat sbytes)))))
         else Some (Inr s))"

fun otrx_create_options :: "abi \<Rightarrow> otrx_env \<Rightarrow> otrx_st \<Rightarrow> (byte \<times> bytes) list \<Rightarrow> ((int \<times> cfile) + otrx_st) option" where
  "otrx_create_options A E s [] = Some (Inr s)"
| "otrx_create_options A E s (opt # opts) =
     (case otrx_create_option A E s opt of
        None \<Rightarrow> None
      | Some (Inl e) \<Rightarrow> Some (Inl (e, o_trx s))
      | Some (Inr s') \<Rightarrow> otrx_create_options A E s' opts)"

definition otrx_create_init :: "otrx_env \<Rightarrow> otrx_st" where
  "otrx_create_init E = \<lparr>o_trx = fseek hdr_size \<lparr>content = [], fpos = 0, fcap = disk E\<rparr>,
     o_hdr = \<lparr>th_magic = 0, th_length = 0, th_crc32 = 0, th_flags = 0, th_version = 0, th_offset = [0, 0, 0]\<rparr>,
     curr_idx = 0, curr_offset = hdr_size\<rparr>"

text \<open>After the options: pad to 4 KiB and write the header. Its result is not looked at.\<close>

definition otrx_create :: "abi \<Rightarrow> otrx_env \<Rightarrow> (byte \<times> bytes) list \<Rightarrow> (int \<times> bytes) option" where
  "otrx_create A E opts =
     (case otrx_create_options A E (otrx_create_init E) opts of
        None \<Rightarrow> None
      | Some (Inl (e, f)) \<Rightarrow> Some (e, content f)
      | Some (Inr s) \<Rightarrow>
          (case align_step A E 0x1000 s of
             None \<Rightarrow> None
           | Some s' \<Rightarrow>
               let hdr = (o_hdr s')\<lparr>th_length := of_nat (curr_offset s')\<rparr>
               in Some (0, content (snd (otrx_create_write_hdr A (o_trx s') hdr)))))"

section \<open>Extract\<close>

text \<open>One partition: the exit status of the copy and what the output file holds. The output device has room.\<close>

definition otrx_extract_copy :: "otrx_env \<Rightarrow> cfile \<Rightarrow> nat \<Rightarrow> nat \<Rightarrow> int \<times> bytes" where
  "otrx_extract_copy E trx offset len =
     (if \<not> malloc_ok E len then (-12, [])
      else let (buf, trx') = fread len (fseek offset trx)
           in if length buf \<noteq> len then (-12, []) else (0, buf))"

text \<open>The partitions asked for, \<open>parts ! i\<close>, and the files written: \<open>None\<close> where nothing is written.\<close>

definition otrx_extract :: "abi \<Rightarrow> otrx_env \<Rightarrow> nat \<Rightarrow> bool list \<Rightarrow> bytes option \<Rightarrow> int \<times> bytes option list" where
  "otrx_extract A E trx_offset parts file =
     (case file of
        None \<Rightarrow> (-13, [])
      | Some img \<Rightarrow>
          let f = fseek trx_offset \<lparr>content = img, fpos = 0, fcap = 0\<rparr>;
              (hbytes, f1) = fread hdr_size f; hdr = trx_dec A hbytes
          in if length hbytes \<noteq> hdr_size then (-5, [])
             else if le32_to_cpu A (th_magic hdr) \<noteq> TRX_MAGIC then (-22, [])
             else (0, map (\<lambda>i.
               if \<not> parts ! i \<or> th_offset hdr ! i = 0 then None
               else let start = le32_to_cpu A (th_offset hdr ! i);
                        stop = (if i + 1 \<ge> TRX_MAX_PARTS \<or> th_offset hdr ! (i + 1) = 0
                                then le32_to_cpu A (th_length hdr) else le32_to_cpu A (th_offset hdr ! (i + 1)))
                    in Some (snd (otrx_extract_copy E f1 (size_add A trx_offset (unat start)) (unat (stop - start)))))
               [0..<TRX_MAX_PARTS]))"

section \<open>The stream of the image under construction\<close>

text \<open>The stream starts after the header that is written last: until something is written the file is empty and
  the position 28. \<open>body\<close> is the content with that gap filled.\<close>

definition body :: "cfile \<Rightarrow> bytes" where
  "body f = (if content f = [] then replicate hdr_size 0 else content f)"

definition stream_ok :: "cfile \<Rightarrow> bool" where
  "stream_ok f \<longleftrightarrow> fpos f = length (body f) \<and> hdr_size \<le> length (body f)"

definition big :: "cfile \<Rightarrow> bool" where
  "big f \<longleftrightarrow> 2 ^ 31 \<le> length (content f)"

lemma fwrite_frame: "fcap (snd (fwrite b f)) = fcap f" "big f \<Longrightarrow> big (snd (fwrite b f))"
  by (auto simp: fwrite_def Let_def put_def big_def)

lemma fwrite_body:
  assumes "stream_ok f" "fpos f + length b \<le> fcap f"
  shows "fst (fwrite b f) = length b" "body (snd (fwrite b f)) = body f @ b" "stream_ok (snd (fwrite b f))"
proof -
  have len: "length (content f) \<le> fpos f" using assms(1) by (auto simp: stream_ok_def body_def)
  note w = fwrite_append [OF assms(2) len]
  show "fst (fwrite b f) = length b" by (simp add: w)
  show b: "body (snd (fwrite b f)) = body f @ b"
    using assms(1) by (auto simp: w body_def stream_ok_def)
  show "stream_ok (snd (fwrite b f))" using assms(1) by (auto simp: stream_ok_def b) (simp add: w)
qed

lemma fwrite_short:
  assumes "stream_ok f" "length (body f) < 2 ^ 31" "2 ^ 31 \<le> fcap f" "fcap f < fpos f + length b"
  shows "big (snd (fwrite b f))"
proof -
  have "length (content f) \<le> fpos f" "fpos f < fcap f" using assms by (auto simp: stream_ok_def body_def)
  then show ?thesis using assms(3,4)
    by (auto simp: fwrite_def Let_def put_def big_def min_def split: if_splits)
qed

lemma big_body: "big f \<longleftrightarrow> 2 ^ 31 \<le> length (body f)"
  by (auto simp: big_def body_def hdr_size_def)

lemma append_loop_frame:
  "fcap (snd (append_loop A f src n)) = fcap f \<and> (big f \<longrightarrow> big (snd (append_loop A f src n)))"
proof (induction A f src n rule: append_loop.induct)
  case (1 A f src n)
  obtain k f' where k: "fwrite (take 1024 src) f = (k, f')" by force
  have w: "fcap f' = fcap f" "big f \<Longrightarrow> big f'" using fwrite_frame [where b = "take 1024 src" and f = f] k by auto
  show ?case
  proof (cases "src = [] \<or> k \<noteq> length (take 1024 src)")
    case True
    then show ?thesis using k w by (subst (1 2) append_loop.simps) (auto simp: Let_def)
  next
    case False
    then have "append_loop A f src n = append_loop A f' (drop 1024 src) (size_add A n k)"
      by (subst append_loop.simps) (simp add: k Let_def)
    then show ?thesis using 1 [OF _ _ k [symmetric]] False w by auto
  qed
qed

text \<open>Appending a file: all of it, or the image has outgrown 2 GiB.\<close>

lemma append_loop_body:
  "stream_ok f \<Longrightarrow> 2 ^ 31 \<le> fcap f \<Longrightarrow> n < 2 ^ ulong_bits A \<Longrightarrow>
   big (snd (append_loop A f src n)) \<or>
   append_loop A f src n = (ssize_of A ((n + length src) mod 2 ^ ulong_bits A), snd (append_loop A f src n)) \<and>
   body (snd (append_loop A f src n)) = body f @ src \<and> stream_ok (snd (append_loop A f src n))"
proof (induction A f src n rule: append_loop.induct)
  case (1 A f src n)
  let ?b = "take 1024 src"
  obtain k f' where k: "fwrite ?b f = (k, f')" by force
  consider "src = []" | "big f" | "src \<noteq> []" "fpos f + length ?b \<le> fcap f" |
    "src \<noteq> []" "\<not> big f" "fcap f < fpos f + length ?b" by linarith
  then show ?case
  proof cases
    case 1
    then show ?thesis using "1.prems" by (auto simp: append_loop.simps)
  next
    case 2
    then show ?thesis using append_loop_frame by auto
  next
    case 3
    from fwrite_body [OF "1.prems"(1) 3(2)] have f': "k = length ?b" "body f' = body f @ ?b" "stream_ok f'"
      by (simp_all add: k)
    have e: "append_loop A f src n = append_loop A f' (drop 1024 src) (size_add A n k)"
      using 3(1) f'(1) by (subst append_loop.simps) (simp add: k Let_def)
    have "(size_add A n k + length (drop 1024 src)) mod 2 ^ ulong_bits A = (n + length src) mod 2 ^ ulong_bits A"
      using f'(1) by (simp add: size_add_def mod_add_left_eq min_def)
    moreover have "size_add A n k < 2 ^ ulong_bits A" by (simp add: size_add_def)
    moreover have "2 ^ 31 \<le> fcap f'" using fwrite_frame(1) [of ?b f] "1.prems"(2) k by simp
    ultimately show ?thesis
      using "1.IH" [OF 3(1) refl k [symmetric]] f' unfolding e by simp
  next
    case 4
    then have "big f'" using fwrite_short [of f ?b] "1.prems" k by (simp add: big_body)
    moreover have "append_loop A f src n = (-5, f') \<or> append_loop A f src n = append_loop A f' (drop 1024 src) (size_add A n k)"
      using 4(1) append_loop.simps [of A f src n] by (auto simp: k Let_def)
    ultimately show ?thesis using append_loop_frame by auto
  qed
qed


text \<open>What a step that appends does: \<open>n\<close> bytes \<open>b\<close> and the size returned, or an error and no change, or the image
  has outgrown 2 GiB.\<close>

definition appended :: "cfile \<Rightarrow> int \<times> cfile \<Rightarrow> bytes \<Rightarrow> bool" where
  "appended f r b \<longleftrightarrow> big (snd r) \<or>
     fst r = int (length b) \<and> body (snd r) = body f @ b \<and> stream_ok (snd r)"

lemma ssize_small: "n < 2 ^ 31 \<Longrightarrow> 32 \<le> ulong_bits A \<Longrightarrow> ssize_of A (n mod 2 ^ ulong_bits A) = int n"
proof -
  assume a: "n < 2 ^ 31" "32 \<le> ulong_bits A"
  have "(2::nat) ^ 31 \<le> 2 ^ (ulong_bits A - 1)" using a(2) by (intro power_increasing) auto
  then have "n < 2 ^ (ulong_bits A - 1)" using a(1) by linarith
  moreover have "(2::nat) ^ (ulong_bits A - 1) \<le> 2 ^ ulong_bits A" by (intro power_increasing) auto
  ultimately have "n < 2 ^ ulong_bits A" "n < 2 ^ (ulong_bits A - 1)" by linarith+
  then show ?thesis by (simp add: ssize_of_def)
qed

lemma append_file_ok:
  assumes "stream_ok f" "2 ^ 31 \<le> fcap f" "32 \<le> ulong_bits A"
  shows "case files E p of None \<Rightarrow> otrx_create_append_file A E f p = (-13, f)
     | Some src \<Rightarrow> appended f (otrx_create_append_file A E f p) src"
proof (cases "files E p")
  case (Some src)
  let ?r = "append_loop A f src 0"
  have "0 < (2::nat) ^ ulong_bits A" by simp
  from append_loop_body [OF assms(1,2) this, of src]
  have "big (snd ?r) \<or> ?r = (ssize_of A (length src mod 2 ^ ulong_bits A), snd ?r) \<and>
      body (snd ?r) = body f @ src \<and> stream_ok (snd ?r)" by simp
  moreover have "fst ?r = int (length src)"
    if "\<not> big (snd ?r)" "body (snd ?r) = body f @ src" "?r = (ssize_of A (length src mod 2 ^ ulong_bits A), snd ?r)"
  proof -
    have "length src < 2 ^ 31" using that(1,2) by (simp add: big_body)
    from ssize_small [OF this assms(3)] show ?thesis using arg_cong [OF that(3), of fst] by simp
  qed
  ultimately show ?thesis by (auto simp: otrx_create_append_file_def Some appended_def)
qed (simp add: otrx_create_append_file_def)

lemma append_zeros_ok:
  assumes "stream_ok f" "2 ^ 31 \<le> fcap f" "32 \<le> ulong_bits A" "n < 2 ^ ulong_bits A"
  shows "otrx_create_append_zeros A E f n = (-12, f) \<or>
    appended f (otrx_create_append_zeros A E f n) (replicate n 0)"
proof (cases "malloc_ok E n")
  case True
  let ?b = "replicate n (0 :: byte)"
  obtain k f' where k: "fwrite ?b f = (k, f')" by force
  show ?thesis
  proof (cases "fpos f + n \<le> fcap f")
    case fits: True
    then have f': "k = n" "body f' = body f @ ?b" "stream_ok f'"
      using fwrite_body [OF assms(1), of ?b] k by simp_all
    then have "\<not> big f' \<Longrightarrow> n < 2 ^ 31" by (simp add: big_body)
    then have "\<not> big f' \<Longrightarrow> ssize_of A n = int n" using ssize_small [OF _ assms(3), of n] assms(4) by simp
    then show ?thesis using f' True k by (auto simp: otrx_create_append_zeros_def appended_def)
  next
    case False
    have "big f'"
    proof (cases "big f")
      case True then show ?thesis using fwrite_frame(2) [of f ?b] k by simp
    next
      case nb: False
      then show ?thesis using fwrite_short [of f ?b] assms False k by (simp add: big_body)
    qed
    then show ?thesis using True k by (auto simp: otrx_create_append_zeros_def appended_def Let_def)
  qed
qed (simp add: otrx_create_append_zeros_def)

lemma append_frame:
  "fcap (snd (otrx_create_append_file A E f p)) = fcap f" "fcap (snd (otrx_create_append_zeros A E f n)) = fcap f"
  "big f \<Longrightarrow> big (snd (otrx_create_append_file A E f p))" "big f \<Longrightarrow> big (snd (otrx_create_append_zeros A E f n))"
  using append_loop_frame fwrite_frame
  by (auto simp: otrx_create_append_file_def otrx_create_append_zeros_def Let_def split: option.split prod.split)
     (metis snd_conv)+

section \<open>The invariant of the option loop\<close>

text \<open>The files appended as partitions lie where the header says, in order, and do not overlap.\<close>

definition parts_at :: "u32 list \<Rightarrow> bytes \<Rightarrow> bytes list \<Rightarrow> bool" where
  "parts_at offs b parts \<longleftrightarrow> length offs = TRX_MAX_PARTS \<and> length parts \<le> TRX_MAX_PARTS \<and>
     (\<forall>i < length parts. hdr_size \<le> unat (offs ! i) \<and> unat (offs ! i) + length (parts ! i) \<le> length b \<and>
        slice (unat (offs ! i)) (length (parts ! i)) b = parts ! i \<and>
        (i + 1 < length parts \<longrightarrow> unat (offs ! i) + length (parts ! i) \<le> unat (offs ! (i + 1)))) \<and>
     (\<forall>i. length parts \<le> i \<and> i < TRX_MAX_PARTS \<longrightarrow> offs ! i = 0)"

definition otrx_inv :: "otrx_st \<Rightarrow> bytes list \<Rightarrow> bool" where
  "otrx_inv s parts \<longleftrightarrow> stream_ok (o_trx s) \<and> curr_offset s = length (body (o_trx s)) \<and>
     curr_idx s = length parts \<and> parts_at (th_offset (o_hdr s)) (body (o_trx s)) parts"

lemma parts_at_append: "parts_at offs b parts \<Longrightarrow> parts_at offs (b @ c) parts"
  by (auto simp: parts_at_def slice_append_left)

lemma size_add_31: "x + y < 2 ^ 31 \<Longrightarrow> 32 \<le> ulong_bits A \<Longrightarrow> size_add A x y = x + y"
proof -
  assume a: "x + y < 2 ^ 31" "32 \<le> ulong_bits A"
  have "(2::nat) ^ 31 \<le> 2 ^ ulong_bits A" using a(2) by (intro power_increasing) auto
  then show ?thesis using a(1) by (simp add: size_add_def)
qed

lemma advance_ok:
  assumes "otrx_inv s parts" "appended (o_trx s) r b" "32 \<le> ulong_bits A"
  shows "big (o_trx (advance A s r)) \<or> otrx_inv (advance A s r) parts \<and> body (o_trx (advance A s r)) = body (o_trx s) @ b \<and>
     o_hdr (advance A s r) = o_hdr s \<and> curr_idx (advance A s r) = curr_idx s \<and> fst r \<ge> 0"
proof (cases "big (snd r)")
  case False
  then have r: "fst r = int (length b)" "body (snd r) = body (o_trx s) @ b" "stream_ok (snd r)"
    using assms(2) by (auto simp: appended_def)
  have "length (body (o_trx s)) + length b < 2 ^ 31" using False r(2) by (simp add: big_body)
  then have "size_add A (curr_offset s) (length b) = length (body (o_trx s)) + length b"
    using size_add_31 [OF _ assms(3), of "curr_offset s" "length b"] assms(1) by (simp add: otrx_inv_def)
  then show ?thesis using r assms(1) by (auto simp: advance_def Let_def otrx_inv_def parts_at_append)
qed (simp add: advance_def Let_def)

lemma advance_err: "otrx_inv s parts \<Longrightarrow> fst r < 0 \<Longrightarrow> snd r = o_trx s \<Longrightarrow> advance A s r = s"
  by (simp add: advance_def Let_def)

lemma parts_at_add:
  assumes "parts_at offs b parts" "length parts < TRX_MAX_PARTS" "length b < 2 ^ 32" "hdr_size \<le> length b"
  shows "parts_at (offs[length parts := of_nat (length b)]) (b @ src) (parts @ [src])"
proof -
  let ?o = "offs[length parts := of_nat (length b)]"
  have u: "unat (of_nat (length b) :: u32) = length b" using assms(3) by (simp add: unat_of_nat)
  have l: "length parts < length offs" using assms(1,2) by (simp add: parts_at_def)
  have old: "?o ! i = offs ! i" if "i < length parts" for i using that by simp
  have new: "unat (?o ! length parts) = length b" using l u by simp
  have "hdr_size \<le> unat (?o ! i) \<and> unat (?o ! i) + length ((parts @ [src]) ! i) \<le> length (b @ src) \<and>
      slice (unat (?o ! i)) (length ((parts @ [src]) ! i)) (b @ src) = (parts @ [src]) ! i \<and>
      (i + 1 < length (parts @ [src]) \<longrightarrow> unat (?o ! i) + length ((parts @ [src]) ! i) \<le> unat (?o ! (i + 1)))"
    if i: "i < length (parts @ [src])" for i
  proof (cases "i = length parts")
    case True
    then show ?thesis using new assms(4) by (simp add: slice_append_right) (simp add: slice_def)
  next
    case False
    then have i': "i < length parts" using i by simp
    then have p: "hdr_size \<le> unat (offs ! i)" "unat (offs ! i) + length (parts ! i) \<le> length b"
      "slice (unat (offs ! i)) (length (parts ! i)) b = parts ! i"
      "i + 1 < length parts \<Longrightarrow> unat (offs ! i) + length (parts ! i) \<le> unat (offs ! (i + 1))"
      using assms(1) by (auto simp: parts_at_def)
    have "unat (offs ! i) + length (parts ! i) \<le> unat (?o ! (i + 1))"
      using p(2,4) new i' by (cases "i + 1 = length parts") auto
    then show ?thesis using p i' by (simp add: nth_append slice_append_left)
  qed
  moreover have "?o ! i = 0" if "length (parts @ [src]) \<le> i" "i < TRX_MAX_PARTS" for i
    using that assms(1) by (auto simp: parts_at_def)
  ultimately show ?thesis using assms(1,2) by (auto simp: parts_at_def)
qed

text \<open>The partition an option adds.\<close>

definition new_parts :: "otrx_env \<Rightarrow> byte \<times> bytes \<Rightarrow> bytes list" where
  "new_parts E opt = (case opt of (c, p) \<Rightarrow> if c = 102 then (case files E p of None \<Rightarrow> [] | Some src \<Rightarrow> [src]) else [])"

lemma advance_frame:
  "fcap (snd r) = fcap (o_trx s) \<Longrightarrow> fcap (o_trx (advance A s r)) = fcap (o_trx s)"
  "big (snd r) \<Longrightarrow> big (o_trx (advance A s r))"
  by (simp_all add: advance_def Let_def)

lemma align_step_frame:
  assumes "align_step A E n s = Some s'"
  shows "fcap (o_trx s') = fcap (o_trx s)" "big (o_trx s) \<Longrightarrow> big (o_trx s')"
proof -
  from assms consider "s' = advance A s (0, o_trx s)"
    | k where "s' = advance A s (otrx_create_append_zeros A E (o_trx s) k)"
    by (auto simp: align_step_def otrx_create_align_def map_option_case split: if_splits)
  then show "fcap (o_trx s') = fcap (o_trx s)" "big (o_trx s) \<Longrightarrow> big (o_trx s')"
    by (cases; simp add: advance_frame append_frame)+
qed

lemma record_part_trx [simp]: "o_trx (record_part A s r) = o_trx (advance A s r)"
  by (simp add: record_part_def)

lemma align_step_ok:
  assumes inv: "otrx_inv s parts" and cap: "2 ^ 31 \<le> fcap (o_trx s)" and w: "32 \<le> ulong_bits A"
    and n: "n < 2 ^ ulong_bits A" and s': "align_step A E n s = Some s'"
  shows "big (o_trx s') \<or> otrx_inv s' parts"
proof (cases "curr_offset s AND size_sub A n 1 = 0")
  case True
  then have "s' = advance A s (0, o_trx s)" using s' by (simp add: align_step_def otrx_create_align_def)
  moreover have "appended (o_trx s) (0, o_trx s) []" using inv by (simp add: appended_def otrx_inv_def)
  ultimately show ?thesis using advance_ok [OF inv _ w] by blast
next
  case False
  let ?k = "n - curr_offset s mod n"
  let ?r = "otrx_create_append_zeros A E (o_trx s) ?k"
  have r: "s' = advance A s ?r" using s' False by (auto simp: align_step_def otrx_create_align_def split: if_splits)
  have "?r = (-12, o_trx s) \<or> appended (o_trx s) ?r (replicate ?k 0)"
    using inv cap w n by (intro append_zeros_ok) (auto simp: otrx_inv_def)
  then show ?thesis using advance_ok [OF inv _ w, of ?r] advance_err [OF inv, of ?r A] inv r by auto
qed

lemma option_frame:
  assumes "otrx_create_option A E s opt = Some (Inr s')"
  shows "fcap (o_trx s') = fcap (o_trx s)" "big (o_trx s) \<Longrightarrow> big (o_trx s')"
proof -
  obtain c p where o: "opt = (c, p)" by force
  let ?r = "otrx_create_append_file A E (o_trx s) p"
  have f: "fcap (o_trx (advance A s ?r)) = fcap (o_trx s)" "big (o_trx s) \<Longrightarrow> big (o_trx (advance A s ?r))"
    by (simp_all add: advance_frame append_frame)
  consider "align_step A E 4 (advance A s ?r) = Some s'" | "align_step A E 4 (record_part A s ?r) = Some s'"
    | n where "align_step A E n s = Some s'" | "s' = s"
    | n where "s' = advance A s (otrx_create_append_zeros A E (o_trx s) n)"
    using assms by (auto simp: otrx_create_option_def o Let_def split: if_splits)
  then show "fcap (o_trx s') = fcap (o_trx s)" "big (o_trx s) \<Longrightarrow> big (o_trx s')"
    using f by (cases; auto simp: advance_frame append_frame dest: align_step_frame)+
qed

lemma file_step_ok:
  fixes E p
  assumes inv: "otrx_inv s parts" and cap: "2 ^ 31 \<le> fcap (o_trx s)" and w: "32 \<le> ulong_bits A"
    and idx: "curr_idx s < TRX_MAX_PARTS"
  defines "r \<equiv> otrx_create_append_file A E (o_trx s) p"
  shows "big (o_trx (advance A s r)) \<or> otrx_inv (advance A s r) parts \<and>
      otrx_inv (record_part A s r) (parts @ new_parts E (102, p))"
proof -
  have so: "stream_ok (o_trx s)" using inv by (simp add: otrx_inv_def)
  note a = append_file_ok [OF so cap w, of E p]
  show ?thesis
  proof (cases "files E p")
    case None
    then have "r = (-13, o_trx s)" using a by (simp add: r_def)
    then show ?thesis using inv None by (simp add: advance_err [OF inv] new_parts_def record_part_def)
  next
    case (Some src)
    then have "appended (o_trx s) r src" using a by (simp add: r_def)
    from advance_ok [OF inv this w] consider "big (o_trx (advance A s r))"
      | "\<not> big (o_trx (advance A s r))" "otrx_inv (advance A s r) parts"
        "body (o_trx (advance A s r)) = body (o_trx s) @ src" "0 \<le> fst r" by blast
    then show ?thesis
    proof cases
      case 2
      have "length (body (o_trx s) @ src) < 2 ^ 31" using 2(1,3) by (simp add: big_body)
      then have "length (body (o_trx s)) < 2 ^ 32" by simp
      then have "parts_at ((th_offset (o_hdr s))[length parts := of_nat (length (body (o_trx s)))])
          (body (o_trx s) @ src) (parts @ [src])"
        using inv idx so by (intro parts_at_add) (auto simp: otrx_inv_def stream_ok_def)
      then show ?thesis using 2 inv by (simp add: otrx_inv_def new_parts_def Some record_part_def)
    qed simp
  qed
qed

lemma option_ok:
  assumes inv: "otrx_inv s parts" and cap: "2 ^ 31 \<le> fcap (o_trx s)" and w: "32 \<le> ulong_bits A"
    and s': "otrx_create_option A E s opt = Some (Inr s')"
  shows "big (o_trx s') \<or> otrx_inv s' (parts @ new_parts E opt)"
proof -
  obtain c p where o: "opt = (c, p)" by force
  let ?r = "otrx_create_append_file A E (o_trx s) p"
  have pw: "(2::nat) ^ 32 \<le> 2 ^ ulong_bits A" using w by (rule power_increasing) simp
  then have four: "4 < (2::nat) ^ ulong_bits A" by simp
  have al: "big (o_trx s') \<or> otrx_inv s' ps"
    if "otrx_inv t ps \<or> big (o_trx t)" "fcap (o_trx t) = fcap (o_trx s)" "align_step A E 4 t = Some s'" for t ps
    using that align_step_ok [OF _ _ w four] align_step_frame [OF that(3)] cap by metis
  have f: "fcap (o_trx (advance A s ?r)) = fcap (o_trx s)" by (simp add: advance_frame append_frame)
  consider "c = 102" | "c = 65" | "c = 97" | "c = 98" | "c \<notin> {102, 65, 97, 98}" by auto
  then show ?thesis
  proof cases
    case 1
    then have idx: "curr_idx s < TRX_MAX_PARTS" using s' by (auto simp: otrx_create_option_def o split: if_splits)
    then have "align_step A E 4 (record_part A s ?r) = Some s'"
      using s' 1 by (auto simp: otrx_create_option_def o)
    then show ?thesis
      using file_step_ok [OF inv cap w idx, of E p] al [of "record_part A s ?r" "parts @ new_parts E (102, p)"] f 1 o
      by auto
  next
    case 2
    have "files E p = None \<Longrightarrow> otrx_inv (advance A s ?r) parts"
      using append_file_ok [of "o_trx s" A E p] inv cap w by (simp add: advance_err [OF inv] otrx_inv_def)
    moreover have "appended (o_trx s) ?r src" if "files E p = Some src" for src
      using append_file_ok [of "o_trx s" A E p] inv cap w that by (simp add: otrx_inv_def)
    ultimately have "big (o_trx (advance A s ?r)) \<or> otrx_inv (advance A s ?r) parts"
      using advance_ok [OF inv _ w, of ?r] by (cases "files E p") auto
    then show ?thesis using s' 2 al [of "advance A s ?r" parts] f
      by (auto simp: otrx_create_option_def o new_parts_def)
  next
    case 3
    have "size_of_int A (strtol A 0 p) < 2 ^ ulong_bits A" by (simp add: size_of_int_def nat_less_iff)
    then show ?thesis using s' 3 align_step_ok [OF inv cap w] by (auto simp: otrx_create_option_def o new_parts_def)
  next
    case 4
    let ?n = "ssize_of A (size_sub A (size_of_int A (strtol A 0 p)) (curr_offset s))"
    let ?z = "otrx_create_append_zeros A E (o_trx s) (nat ?n)"
    have "size_sub A x y < 2 ^ ulong_bits A" "nat (ssize_of A x) \<le> x" for x y
      by (auto simp: size_sub_def ssize_of_def nat_le_iff)
    then have "nat ?n < 2 ^ ulong_bits A" by (meson order_le_less_trans)
    then have "?z = (-12, o_trx s) \<or> appended (o_trx s) ?z (replicate (nat ?n) 0)"
      using inv cap w by (intro append_zeros_ok) (auto simp: otrx_inv_def)
    then have "big (o_trx (advance A s ?z)) \<or> otrx_inv (advance A s ?z) parts"
      using advance_ok [OF inv _ w, of ?z] advance_err [OF inv, of ?z A] inv by auto
    then show ?thesis using s' 4 inv by (auto simp: otrx_create_option_def o new_parts_def Let_def split: if_splits)
  next
    case 5
    then show ?thesis using s' inv by (auto simp: otrx_create_option_def o new_parts_def)
  qed
qed

lemma options_frame:
  "otrx_create_options A E s opts = Some (Inr s') \<Longrightarrow> fcap (o_trx s') = fcap (o_trx s) \<and> (big (o_trx s) \<longrightarrow> big (o_trx s'))"
proof (induction opts arbitrary: s)
  case (Cons opt opts)
  then obtain t where t: "otrx_create_option A E s opt = Some (Inr t)" "otrx_create_options A E t opts = Some (Inr s')"
    by (auto split: option.splits sum.splits)
  then show ?case using Cons.IH [OF t(2)] option_frame [OF t(1)] by auto
qed simp

lemma options_ok:
  "otrx_create_options A E s opts = Some (Inr s') \<Longrightarrow> otrx_inv s parts \<Longrightarrow> 2 ^ 31 \<le> fcap (o_trx s) \<Longrightarrow> 32 \<le> ulong_bits A \<Longrightarrow>
   big (o_trx s') \<or> otrx_inv s' (parts @ concat (map (new_parts E) opts))"
proof (induction opts arbitrary: s parts)
  case (Cons opt opts)
  then obtain t where t: "otrx_create_option A E s opt = Some (Inr t)" "otrx_create_options A E t opts = Some (Inr s')"
    by (auto split: option.splits sum.splits)
  from option_ok [OF Cons.prems(2-4) t(1)] show ?case
    using Cons.IH [OF t(2), of "parts @ new_parts E opt"] options_frame [OF t(2)] option_frame [OF t(1)] Cons.prems
    by auto
qed simp

section \<open>The CRC loop and the check\<close>

lemma slice_read:
  "k \<le> n \<Longrightarrow> slice p n c = slice p k c @ slice (p + length (slice p k c)) (n - length (slice p k c)) c"
proof (cases "p + k \<le> length c")
  case True
  moreover assume "k \<le> n"
  ultimately show ?thesis using slice_split [of k n p c] by simp
qed (simp add: slice_def)

lemma crc_loop_eq:
  "crc_loop f len crc =
     (len - length (slice (fpos f) len (content f)), otrx_crc32 crc (slice (fpos f) len (content f)))"
proof (induction f len crc rule: crc_loop.induct)
  case (1 f len crc)
  let ?b = "slice (fpos f) (min 1024 len) (content f)" and ?all = "slice (fpos f) len (content f)"
  have split: "?all = ?b @ slice (fpos f + length ?b) (len - length ?b) (content f)"
    by (rule slice_read) simp
  have fr: "fread (min 1024 len) f = (?b, f\<lparr>fpos := fpos f + length ?b\<rparr>)" by (simp add: fread_def Let_def)
  show ?case
  proof (cases "?b = []")
    case True
    then have "?all = []" by (auto simp: slice_def min_def split: if_splits)
    then show ?thesis by (subst crc_loop.simps) (simp add: fr True otrx_stream.upd_Nil)
  next
    case False
    let ?r = "slice (fpos f + length ?b) (len - length ?b) (content f)"
    have "length ?all = length ?b + length ?r" "otrx_crc32 crc ?all = otrx_crc32 (otrx_crc32 crc ?b) ?r"
      by (subst split, simp add: otrx_stream.upd_append)+
    moreover have "crc_loop f len crc = crc_loop (f\<lparr>fpos := fpos f + length ?b\<rparr>) (len - length ?b) (otrx_crc32 crc ?b)"
      using False by (subst crc_loop.simps) (simp add: fr)
    ultimately show ?thesis using 1 [OF fr [symmetric] refl False] by simp
  qed
qed

text \<open>A valid image: the specification of the check.\<close>

definition valid_trx :: "bytes \<Rightarrow> bool" where
  "valid_trx img \<longleftrightarrow>
     (let len = unat (le32_dec (slice 4 4 img))
      in le32_dec (slice 0 4 img) = TRX_MAGIC \<and> hdr_size \<le> len \<and> len \<le> length img \<and>
         crc_ref 0xedb88320 0xffffffff (slice TRX_FLAGS_OFFSET (len - TRX_FLAGS_OFFSET) img) = le32_dec (slice 8 4 img))"

lemma trx_dec_fields:
  assumes "length b = hdr_size"
  shows "le32_to_cpu A (th_magic (trx_dec A b)) = le32_dec (slice 0 4 b)"
    "le32_to_cpu A (th_length (trx_dec A b)) = le32_dec (slice 4 4 b)"
    "le32_to_cpu A (th_crc32 (trx_dec A b)) = le32_dec (slice 8 4 b)"
  using assms by (simp_all add: trx_dec_def le32_to_cpu_native hdr_size_def)

lemma slice_drop: "slice p n (drop q c) = slice (q + p) n c"
  by (simp add: slice_def ac_simps)

lemma otrx_check_eq:
  "otrx_check A off (Some img) =
     (let b = drop off img; len = unat (le32_dec (slice 4 4 b)); d = slice TRX_FLAGS_OFFSET (len - TRX_FLAGS_OFFSET) b
      in if length b < hdr_size then -5
         else if le32_dec (slice 0 4 b) \<noteq> TRX_MAGIC \<or> len < hdr_size then -22
         else if length b < len then -5
         else if otrx_crc32 0xffffffff d \<noteq> le32_dec (slice 8 4 b) then -22 else 0)"
proof -
  let ?b = "drop off img" and ?h = "slice off hdr_size img"
  let ?len = "unat (le32_dec (slice 4 4 ?b))"
  have sl: "slice i 4 ?h = slice i 4 ?b" if "i + 4 \<le> hdr_size" for i using that by (simp add: slice_slice slice_drop)
  have "length ?h = hdr_size \<longleftrightarrow> hdr_size \<le> length ?b" by (auto simp: slice_def hdr_size_def)
  moreover have f: "le32_to_cpu A (th_magic (trx_dec A ?h)) = le32_dec (slice 0 4 ?b)"
    "le32_to_cpu A (th_length (trx_dec A ?h)) = le32_dec (slice 4 4 ?b)"
    "le32_to_cpu A (th_crc32 (trx_dec A ?h)) = le32_dec (slice 8 4 ?b)" if "length ?h = hdr_size"
    using trx_dec_fields [OF that, of A] by (simp_all add: sl [symmetric] hdr_size_def)
  moreover have "TRX_FLAGS_OFFSET + length (slice (off + TRX_FLAGS_OFFSET) (?len - TRX_FLAGS_OFFSET) img) < ?len \<longleftrightarrow>
      length ?b < ?len" if "\<not> ?len < hdr_size" using that by (auto simp: slice_def hdr_size_def TRX_FLAGS_OFFSET_def)
  ultimately show ?thesis
    unfolding otrx_check_def Let_def fread_def crc_loop_eq by (simp add: slice_drop cong: if_cong)
qed

section \<open>The finished image\<close>

lemma length_trx_enc [simp]: "length (trx_enc A hdr) = hdr_size"
  by (simp add: trx_enc_def hdr_size_def)

lemma trx_enc_slices:
  "slice 0 4 (trx_enc A hdr) = native32_enc A (th_magic hdr)" "slice 4 4 (trx_enc A hdr) = native32_enc A (th_length hdr)"
  "slice 8 4 (trx_enc A hdr) = native32_enc A (th_crc32 hdr)"
  "slice 16 4 (trx_enc A hdr) = native32_enc A (th_offset hdr ! 0)"
  "slice 20 4 (trx_enc A hdr) = native32_enc A (th_offset hdr ! 1)"
  "slice 24 4 (trx_enc A hdr) = native32_enc A (th_offset hdr ! 2)"
  by (simp_all add: trx_enc_def slice_def)

lemma trx_enc_tail:
  "th_flags g = th_flags hdr \<Longrightarrow> th_version g = th_version hdr \<Longrightarrow> th_offset g = th_offset hdr \<Longrightarrow>
   drop TRX_FLAGS_OFFSET (trx_enc A g) = drop TRX_FLAGS_OFFSET (trx_enc A hdr)"
  by (simp add: trx_enc_def TRX_FLAGS_OFFSET_def)

lemma slice_put_0: "off + n \<le> length b \<Longrightarrow> slice off n (put 0 b m) = slice off n b"
  by (simp add: put_def slice_append_left)

lemma slice_put_0_tail:
  "drop off b = drop off b' \<Longrightarrow> length b = length b' \<Longrightarrow> off \<le> length b \<Longrightarrow> slice off n (put 0 b m) = slice off n (put 0 b' m)"
  by (simp add: put_def slice_def)

text \<open>Writing a header over the start.\<close>

lemma fwrite_header:
  assumes "content f = [] \<or> hdr_size \<le> length (content f)" "hdr_size \<le> fcap f" "length b = hdr_size"
  shows "fst (fwrite b (fseek 0 f)) = hdr_size" "content (snd (fwrite b (fseek 0 f))) = put 0 b (body f)"
    "fcap (snd (fwrite b (fseek 0 f))) = fcap f"
proof -
  have "b \<noteq> []" using assms(3) by (auto simp: hdr_size_def)
  then show "fst (fwrite b (fseek 0 f)) = hdr_size" "content (snd (fwrite b (fseek 0 f))) = put 0 b (body f)"
    using assms fwrite_append [of "fseek 0 f" b] fwrite_inside [of "fseek 0 f" b]
    by (auto simp: body_def put_def)
qed (simp add: fwrite_frame)

definition final_header :: "trx_header \<Rightarrow> bytes \<Rightarrow> abi \<Rightarrow> trx_header" where
  "final_header hdr b A =
     (let hdr1 = hdr\<lparr>th_magic := le32_to_cpu A TRX_MAGIC, th_version := 1\<rparr>
      in hdr1\<lparr>th_crc32 := le32_to_cpu A (otrx_crc32 0xffffffff
           (slice TRX_FLAGS_OFFSET (length b - TRX_FLAGS_OFFSET) (put 0 (trx_enc A hdr1) b)))\<rparr>)"

lemma write_hdr_image:
  assumes le: "\<not> big_endian A" and w: "32 \<le> ulong_bits A" and f: "content f = [] \<or> hdr_size \<le> length (content f)"
    and cap: "hdr_size \<le> fcap f" and len: "length (body f) < 2 ^ 32" "th_length hdr = of_nat (length (body f))"
  shows "content (snd (otrx_create_write_hdr A f hdr)) = put 0 (trx_enc A (final_header hdr (body f) A)) (body f)"
proof -
  let ?h1 = "hdr\<lparr>th_magic := le32_to_cpu A TRX_MAGIC, th_version := 1\<rparr>"
  let ?b = "body f" and ?f1 = "snd (fwrite (trx_enc A ?h1) (fseek 0 f))"
  have hb: "hdr_size \<le> length ?b" using f by (auto simp: body_def)
  note w1 = fwrite_header [OF f cap length_trx_enc, of A ?h1]
  have l1: "length (content ?f1) = length ?b" using w1(2) hb by simp
  then have "content ?f1 \<noteq> []" using hb by (cases "content ?f1") (auto simp: hdr_size_def)
  then have b1: "body ?f1 = put 0 (trx_enc A ?h1) ?b" "hdr_size \<le> length (content ?f1)"
    using l1 hb w1(2) by (simp_all add: body_def [of ?f1])
  have "(2::nat) ^ 32 \<le> 2 ^ ulong_bits A" using w by (rule power_increasing) simp
  then have "size_sub A (unat (le32_to_cpu A (th_length ?h1))) TRX_FLAGS_OFFSET = length ?b - TRX_FLAGS_OFFSET"
    using len le hb by (simp add: le32_to_cpu_def unat_of_nat) (intro size_sub_small, auto simp: TRX_FLAGS_OFFSET_def hdr_size_def)
  then have c: "crc_loop (fseek TRX_FLAGS_OFFSET ?f1) (size_sub A (unat (le32_to_cpu A (th_length ?h1))) TRX_FLAGS_OFFSET) 0xffffffff =
      (0, otrx_crc32 0xffffffff (slice TRX_FLAGS_OFFSET (length ?b - TRX_FLAGS_OFFSET) (put 0 (trx_enc A ?h1) ?b)))"
    using w1(2) hb by (simp add: crc_loop_eq hdr_size_def TRX_FLAGS_OFFSET_def)
  have w2: "fst (fwrite (trx_enc A g) (fseek 0 ?f1)) = hdr_size"
    "content (snd (fwrite (trx_enc A g) (fseek 0 ?f1))) = put 0 (trx_enc A g) ?b" for g
  proof -
    have "hdr_size \<le> fcap ?f1" using cap w1(3) by simp
    note w2 = fwrite_header [OF disjI2 [OF b1(2)] this length_trx_enc, of A g]
    show "fst (fwrite (trx_enc A g) (fseek 0 ?f1)) = hdr_size" by (rule w2)
    show "content (snd (fwrite (trx_enc A g) (fseek 0 ?f1))) = put 0 (trx_enc A g) ?b"
      unfolding w2(2) b1 by (simp add: put_def)
  qed
  show ?thesis using c w1(1) w2
    by (simp add: otrx_create_write_hdr_def final_header_def Let_def split_beta)
qed

text \<open>The only error the option loop stops with.\<close>

lemma options_error: "otrx_create_options A E s opts = Some (Inl (e, f)) \<Longrightarrow> e = -28"
proof (induction opts arbitrary: s)
  case (Cons opt opts)
  then show ?case
    by (auto simp: otrx_create_option_def Let_def map_option_case split: option.splits sum.splits if_splits prod.splits)
qed simp

lemma create_image:
  assumes cr: "otrx_create A E opts = Some (0, img)" and le: "\<not> big_endian A" and w: "32 \<le> ulong_bits A"
    and disk: "2 ^ 31 \<le> disk E" and len: "length img < 2 ^ 31"
  obtains hdr b where "img = put 0 (trx_enc A (final_header hdr b A)) b" "hdr_size \<le> length b" "length b < 2 ^ 31"
    "th_length hdr = of_nat (length b)" "parts_at (th_offset hdr) b (concat (map (new_parts E) opts))"
proof -
  let ?ps = "concat (map (new_parts E) opts)"
  from cr obtain s s' where s: "otrx_create_options A E (otrx_create_init E) opts = Some (Inr s)"
    "align_step A E 0x1000 s = Some s'"
    and img: "img = content (snd (otrx_create_write_hdr A (o_trx s') ((o_hdr s')\<lparr>th_length := of_nat (curr_offset s')\<rparr>)))"
    by (auto simp: otrx_create_def Let_def split: option.splits sum.splits dest: options_error)
  have cap0: "2 ^ 31 \<le> fcap (o_trx (otrx_create_init E))" using disk by (simp add: otrx_create_init_def)
  have "otrx_inv (otrx_create_init E) []"
    by (auto simp: otrx_inv_def otrx_create_init_def stream_ok_def body_def parts_at_def TRX_MAX_PARTS_def less_Suc_eq numeral_3_eq_3)
  from options_ok [OF s(1) this cap0 w] have "big (o_trx s) \<or> otrx_inv s ?ps" by simp
  moreover have cap: "2 ^ 31 \<le> fcap (o_trx s)" using options_frame [OF s(1)] cap0 by simp
  moreover have "(2::nat) ^ 32 \<le> 2 ^ ulong_bits A" using w by (rule power_increasing) simp
  then have "0x1000 < (2::nat) ^ ulong_bits A" by simp
  ultimately have inv: "big (o_trx s') \<or> otrx_inv s' ?ps"
    using align_step_ok [OF _ cap w _ s(2)] align_step_frame(2) [OF s(2)] by blast
  have cap': "2 ^ 31 \<le> fcap (o_trx s')" using align_step_frame(1) [OF s(2)] cap by simp
  have nb: "\<not> big (o_trx s')"
  proof
    assume "big (o_trx s')"
    then have "2 ^ 31 \<le> length img"
      unfolding img otrx_create_write_hdr_def
      using fwrite_frame(2) by (auto simp: Let_def split_beta big_def)
    then show False using len by simp
  qed
  then have inv': "otrx_inv s' ?ps" using inv by blast
  let ?hdr = "(o_hdr s')\<lparr>th_length := of_nat (curr_offset s')\<rparr>"
  have so: "content (o_trx s') = [] \<or> hdr_size \<le> length (content (o_trx s'))"
    using inv' by (auto simp: otrx_inv_def stream_ok_def body_def split: if_splits)
  have l: "length (body (o_trx s')) < 2 ^ 31" using nb by (simp add: big_body)
  have "img = put 0 (trx_enc A (final_header ?hdr (body (o_trx s')) A)) (body (o_trx s'))"
    unfolding img using l inv' cap' so by (intro write_hdr_image [OF le w]) (auto simp: otrx_inv_def hdr_size_def)
  then show thesis using l inv' by (intro that) (auto simp: otrx_inv_def stream_ok_def)
qed

lemma le_native: "\<not> big_endian A \<Longrightarrow> native32_enc A w = le32_enc w" "\<not> big_endian A \<Longrightarrow> le32_to_cpu A w = w"
  by (simp_all add: native32_enc_def le32_to_cpu_def)

lemma image_valid:
  assumes le: "\<not> big_endian A" and b: "hdr_size \<le> length b" "length b < 2 ^ 32" "th_length hdr = of_nat (length b)"
  shows "valid_trx (put 0 (trx_enc A (final_header hdr b A)) b)"
proof -
  let ?g = "final_header hdr b A" and ?h1 = "hdr\<lparr>th_magic := le32_to_cpu A TRX_MAGIC, th_version := 1\<rparr>"
  let ?img = "put 0 (trx_enc A ?g) b"
  have s: "slice i 4 ?img = slice i 4 (trx_enc A ?g)" if "i + 4 \<le> 28" for i
    using that by (intro slice_put_0) (simp add: hdr_size_def)
  have f: "slice 0 4 ?img = le32_enc TRX_MAGIC" "slice 4 4 ?img = le32_enc (of_nat (length b))"
    "slice 8 4 ?img = le32_enc (th_crc32 ?g)"
    using b(3) by (simp_all add: s trx_enc_slices le_native [OF le]) (simp_all add: final_header_def le_native [OF le] Let_def)
  have tail: "slice TRX_FLAGS_OFFSET n ?img = slice TRX_FLAGS_OFFSET n (put 0 (trx_enc A ?h1) b)" for n
    by (intro slice_put_0_tail trx_enc_tail)
       (simp_all add: final_header_def Let_def TRX_FLAGS_OFFSET_def hdr_size_def)
  have c: "th_crc32 ?g = otrx_crc32 0xffffffff (slice TRX_FLAGS_OFFSET (length b - TRX_FLAGS_OFFSET) (put 0 (trx_enc A ?h1) b))"
    by (simp add: final_header_def Let_def le_native [OF le])
  have "unat (of_nat (length b) :: u32) = length b" using b(2) by (simp add: unat_of_nat)
  moreover have "length ?img = length b" using b(1) by simp
  ultimately show ?thesis using f b(1)
    by (simp add: valid_trx_def tail c otrx_crc32_ref)
qed

lemma slice_through:
  "p \<le> length xs \<Longrightarrow> length xs < p + n \<Longrightarrow> slice p n (xs @ x # ys) = drop p xs @ x # take (n - (length xs - p) - 1) ys"
proof -
  assume a: "p \<le> length xs" "length xs < p + n"
  then have "n - (length xs - p) = Suc (n - (length xs - p) - 1)" by simp
  then have "take (n - (length xs - p)) (x # ys) = x # take (n - (length xs - p) - 1) ys" by (metis take_Suc_Cons)
  then show ?thesis using a by (simp add: slice_def)
qed

lemma slice_past: "length xs < p \<Longrightarrow> slice p n (xs @ x # ys) = slice (p - length xs - 1) n ys"
  by (simp add: slice_def) (metis Suc_diff_Suc drop_Suc_Cons diff_Suc_1)

lemma le32_dec_inj: "length a = 4 \<Longrightarrow> length b = 4 \<Longrightarrow> le32_dec a = le32_dec b \<Longrightarrow> a = b"
  by (metis le32_enc_dec)

lemma slice_changed:
  assumes "p \<le> length xs" "length xs < p + 4" "x \<noteq> y" "p + 4 \<le> length (xs @ x # ys)"
  shows "le32_dec (slice p 4 (xs @ x # ys)) \<noteq> le32_dec (slice p 4 (xs @ y # ys))"
proof
  assume "le32_dec (slice p 4 (xs @ x # ys)) = le32_dec (slice p 4 (xs @ y # ys))"
  then have "slice p 4 (xs @ x # ys) = slice p 4 (xs @ y # ys)"
    using assms(4) by (intro le32_dec_inj) (simp_all add: slice_def)
  then show False using assms(1-3) by (simp add: slice_through)
qed

lemma valid_trx_changed:
  assumes v: "valid_trx (xs @ x # ys)" and ne: "x \<noteq> y"
    and pos: "length xs < 4 \<or> 8 \<le> length xs \<and> length xs < unat (le32_dec (slice 4 4 (xs @ x # ys)))"
  shows "\<not> valid_trx (xs @ y # ys)"
proof
  assume v': "valid_trx (xs @ y # ys)"
  let ?a = "xs @ x # ys" and ?b = "xs @ y # ys"
  have len: "28 \<le> length ?a" "length ?a = length ?b" using v by (auto simp: valid_trx_def Let_def hdr_size_def)
  consider "length xs < 4" | "8 \<le> length xs" "length xs < 12"
    | "12 \<le> length xs" "length xs < unat (le32_dec (slice 4 4 ?a))" using pos by linarith
  then show False
  proof cases
    case 1
    then show False using slice_changed [of 0 xs x y ys] v v' ne len by (simp add: valid_trx_def Let_def)
  next
    case 2
    have "slice 4 4 ?a = slice 4 4 ?b" using 2 by (simp add: slice_append_left)
    moreover have "slice 12 n ?a = slice 12 n ?b" for n using 2 by (simp add: slice_past)
    ultimately have "le32_dec (slice 8 4 ?a) = le32_dec (slice 8 4 ?b)"
      using v v' by (simp add: valid_trx_def Let_def TRX_FLAGS_OFFSET_def)
    then show False using slice_changed [of 8 xs x y ys] 2 ne len by simp
  next
    case 3
    have s: "slice 4 4 ?a = slice 4 4 ?b" "slice 8 4 ?a = slice 8 4 ?b" using 3 by (simp_all add: slice_append_left)
    let ?n = "unat (le32_dec (slice 4 4 ?b)) - 12"
    have t: "slice 12 ?n (xs @ z # ys) = drop 12 xs @ z # take (?n - (length xs - 12) - 1) ys" for z
      using 3 by (intro slice_through) (simp_all add: s)
    have "crc_ref 0xedb88320 (0xffffffff :: u32) (slice 12 ?n ?a) = crc_ref 0xedb88320 0xffffffff (slice 12 ?n ?b)"
      using v v' by (simp add: valid_trx_def Let_def TRX_FLAGS_OFFSET_def s)
    from mtd.detects_byte [OF this [unfolded t]] show False using ne by simp
  qed
qed

lemma otrx_check_valid: "otrx_check A off (Some img) = 0 \<longleftrightarrow> valid_trx (drop off img)"
  unfolding otrx_check_eq valid_trx_def by (auto simp: Let_def otrx_crc32_ref)

text \<open>The header of a finished image, as \<open>otrx_extract\<close> reads it.\<close>

lemma trx_dec_image:
  assumes "length (th_offset hdr) = TRX_MAX_PARTS"
  shows "trx_dec A (slice 0 hdr_size (put 0 (trx_enc A hdr) b)) = hdr"
proof -
  obtain p q r where "th_offset hdr = [p, q, r]"
    using assms by (auto simp: TRX_MAX_PARTS_def numeral_eq_Suc length_Suc_conv)
  moreover have "slice 0 hdr_size (put 0 (trx_enc A hdr) b) = trx_enc A hdr" by (simp add: put_def slice_def)
  moreover have "slice 12 2 (trx_enc A hdr) = native16_enc A (th_flags hdr)" "slice 14 2 (trx_enc A hdr) = native16_enc A (th_version hdr)"
    by (simp_all add: trx_enc_def slice_def)
  ultimately show ?thesis by (simp add: trx_dec_def trx_enc_slices)
qed

lemma slice_mono: "n \<le> k \<Longrightarrow> prefix (slice p n b) (slice p k b)"
  by (auto simp: slice_def intro: take_is_prefix prefix_same_cases dest: min_absorb1) (metis min.absorb1 take_is_prefix take_take)

text \<open>A small image: one file of three bytes, as the first partition.\<close>

definition demo_env :: otrx_env where
  "demo_env = \<lparr>files = (\<lambda>p. if p = lit ''k'' then Some [1, 2, 3] else None), malloc_ok = (\<lambda>n. True), disk = 2 ^ 31\<rparr>"

lemma demo_create: "\<exists>img. otrx_create x86_64 demo_env [(102, lit ''k'')] = Some (0, img) \<and> length img = 4096"
proof -
  let ?s = "\<lparr>o_trx = \<lparr>content = replicate 28 0 @ [1, 2, 3, 0] @ replicate 4064 0, fpos = 4096, fcap = 2 ^ 31\<rparr>,
     o_hdr = \<lparr>th_magic = 0, th_length = 0, th_crc32 = 0, th_flags = 0, th_version = 0, th_offset = [28, 0, 0]\<rparr>,
     curr_idx = 1, curr_offset = 4096\<rparr>"
  have "otrx_create_options x86_64 demo_env (otrx_create_init demo_env) [(102, lit ''k'')] =
      Some (Inr \<lparr>o_trx = \<lparr>content = replicate 28 0 @ [1, 2, 3, 0], fpos = 32, fcap = 2 ^ 31\<rparr>,
     o_hdr = \<lparr>th_magic = 0, th_length = 0, th_crc32 = 0, th_flags = 0, th_version = 0, th_offset = [28, 0, 0]\<rparr>,
     curr_idx = 1, curr_offset = 32\<rparr>)"
    by (simp add: otrx_create_init_def otrx_create_option_def record_part_def advance_def align_step_def otrx_create_align_def
      otrx_create_append_file_def append_loop.simps otrx_create_append_zeros_def fwrite_def demo_env_def x86_64_def hdr_size_def
      TRX_MAX_PARTS_def size_add_def size_sub_def ssize_of_def put_def Let_def fseek_def lit_def)
  moreover have "align_step x86_64 demo_env 0x1000 \<lparr>o_trx = \<lparr>content = replicate 28 0 @ [1, 2, 3, 0], fpos = 32, fcap = 2 ^ 31\<rparr>,
     o_hdr = \<lparr>th_magic = 0, th_length = 0, th_crc32 = 0, th_flags = 0, th_version = 0, th_offset = [28, 0, 0]\<rparr>,
     curr_idx = 1, curr_offset = 32\<rparr> = Some ?s"
    by (simp add: advance_def align_step_def otrx_create_align_def otrx_create_append_zeros_def fwrite_def demo_env_def x86_64_def
      size_add_def size_sub_def ssize_of_def put_def Let_def)
  moreover have "length (content (snd (otrx_create_write_hdr x86_64 (o_trx ?s) ((o_hdr ?s)\<lparr>th_length := of_nat (curr_offset ?s)\<rparr>)))) = 4096"
    by (subst write_hdr_image) (simp_all add: x86_64_def hdr_size_def body_def)
  ultimately show ?thesis by (simp add: otrx_create_def Let_def)
qed

section \<open>Properties\<close>

text \<open>C28. \<open>otrx check\<close> accepts exactly the valid images, on machines of both byte orders and at every offset that \<open>-o\<close> can give that is not
  negative and whose position of the checksum is a \<open>long\<close> of 32 bits: the magic,
  a length that covers the header and lies inside the file, and a CRC-32, over the bytes from the flags on, equal
  to the bit serial one.\<close>

theorem otrx_check_spec: "off < 2 ^ 31 - 12 \<Longrightarrow> otrx_check A off (Some img) = 0 \<longleftrightarrow> valid_trx (drop off img)"
  by (rule otrx_check_valid)

text \<open>An image made from one input file, behind three other bytes.\<close>

theorem otrx_check_spec_witness:
  "\<exists>img. otrx_create x86_64 demo_env [(102, lit ''k'')] = Some (0, img) \<and> valid_trx img \<and> otrx_check mips_be 3 (Some ([1, 2, 3] @ img)) = 0"
proof -
  obtain img where i: "otrx_create x86_64 demo_env [(102, lit ''k'')] = Some (0, img)" "length img = 4096"
    using demo_create by blast
  obtain hdr b where h: "img = put 0 (trx_enc x86_64 (final_header hdr b x86_64)) b" "hdr_size \<le> length b" "length b < 2 ^ 31"
    "th_length hdr = of_nat (length b)"
    by (rule create_image [OF i(1)]) (use i(2) in \<open>simp_all add: x86_64_def demo_env_def\<close>)
  then have v: "valid_trx img" using image_valid [of x86_64 b hdr] by (simp add: x86_64_def)
  then show ?thesis using i(1) otrx_check_spec [of 3 mips_be "[1, 2, 3] @ img"] by simp
qed

text \<open>C29. Whatever its options, an image below 2 GiB that \<open>otrx create\<close> makes on a little endian machine with room on
  the disk passes \<open>otrx check\<close> -- also when an input file was missing or memory ran out on the way.\<close>

theorem otrx_create_passes_check:
  assumes "otrx_create A E opts = Some (0, img)" "\<not> big_endian A" "32 \<le> ulong_bits A"
    "2 ^ 31 \<le> disk E" "length img < 2 ^ 31"
  shows "otrx_check A 0 (Some img) = 0"
proof -
  obtain hdr b where "img = put 0 (trx_enc A (final_header hdr b A)) b" "hdr_size \<le> length b" "length b < 2 ^ 31"
    "th_length hdr = of_nat (length b)" using assms by (rule create_image)
  then have "valid_trx img" using image_valid [OF assms(2)] by simp
  then show ?thesis by (simp add: otrx_check_valid)
qed

theorem otrx_create_passes_check_witness:
  "\<exists>img. otrx_create x86_64 demo_env [(102, lit ''k'')] = Some (0, img) \<and> otrx_check x86_64 0 (Some img) = 0"
proof -
  obtain img where i: "otrx_create x86_64 demo_env [(102, lit ''k'')] = Some (0, img)" "length img = 4096"
    using demo_create by blast
  have "otrx_check x86_64 0 (Some img) = 0"
    using i(2) by (intro otrx_create_passes_check [OF i(1)]) (simp_all add: x86_64_def demo_env_def)
  with i show ?thesis by blast
qed

text \<open>A changed byte is found: after any change of one byte of a valid image, in the magic, the CRC or the
  checked data, \<open>otrx check\<close> fails.\<close>

theorem otrx_check_detects_change:
  assumes "otrx_check A 0 (Some (xs @ x # ys)) = 0" "x \<noteq> y"
    "length xs < 4 \<or> 8 \<le> length xs \<and> length xs < unat (le32_dec (slice 4 4 (xs @ x # ys)))"
  shows "otrx_check A 0 (Some (xs @ y # ys)) \<noteq> 0"
  using assms valid_trx_changed [of xs x ys y] by (simp add: otrx_check_valid)

theorem otrx_check_detects_change_witness:
  "\<exists>xs x ys. otrx_create x86_64 demo_env [(102, lit ''k'')] = Some (0, xs @ x # ys) \<and> length xs = 3 \<and>
     otrx_check x86_64 0 (Some (xs @ (x + 1) # ys)) \<noteq> 0"
proof -
  obtain img where i: "otrx_create x86_64 demo_env [(102, lit ''k'')] = Some (0, img)" "length img = 4096"
    using demo_create by blast
  obtain hdr b where "img = put 0 (trx_enc x86_64 (final_header hdr b x86_64)) b" "hdr_size \<le> length b" "length b < 2 ^ 31"
    "th_length hdr = of_nat (length b)"
    by (rule create_image [OF i(1)]) (use i(2) in \<open>simp_all add: x86_64_def demo_env_def\<close>)
  then have v: "otrx_check x86_64 0 (Some img) = 0"
    using image_valid [of x86_64 b hdr] by (simp add: otrx_check_valid x86_64_def)
  have "img = take 3 img @ img ! 3 # drop 4 img" using id_take_nth_drop [of 3 img] i(2) by simp
  moreover from this v have "otrx_check x86_64 0 (Some (take 3 img @ (img ! 3 + 1) # drop 4 img)) \<noteq> 0"
    using otrx_check_detects_change [of x86_64 "take 3 img" "img ! 3" "drop 4 img" "img ! 3 + 1"] i(2) by simp
  ultimately show ?thesis using i by (metis length_take min_def numeral_le_iff semiring_norm(69,72))
qed

text \<open>C30. What was put in comes out: from an image below 2 GiB that \<open>otrx create\<close> made on a little endian machine, \<open>otrx extract\<close> on the same machine writes,
  for every input file that could be read, a file that starts with the content of that one.\<close>

theorem otrx_extract_create:
  assumes cr: "otrx_create A E opts = Some (0, img)" "\<not> big_endian A" "32 \<le> ulong_bits A"
    "2 ^ 31 \<le> disk E" "length img < 2 ^ 31"
    and mem: "\<And>n. n < 2 ^ 31 \<Longrightarrow> malloc_ok E n"
    and i: "i < length (concat (map (new_parts E) opts))"
  shows "\<exists>outs out. otrx_extract A E 0 [True, True, True] (Some img) = (0, outs) \<and> outs ! i = Some out \<and>
     prefix (concat (map (new_parts E) opts) ! i) out"
proof -
  let ?ps = "concat (map (new_parts E) opts)"
  obtain hdr b where img: "img = put 0 (trx_enc A (final_header hdr b A)) b" and b: "hdr_size \<le> length b" "length b < 2 ^ 31"
    and len: "th_length hdr = of_nat (length b)" and ps: "parts_at (th_offset hdr) b ?ps" using cr by (rule create_image)
  let ?g = "final_header hdr b A" and ?o = "th_offset hdr"
  have g: "th_magic ?g = TRX_MAGIC" "th_length ?g = of_nat (length b)" "th_offset ?g = ?o"
    using len cr(2) by (simp_all add: final_header_def Let_def le_native)
  have p: "hdr_size \<le> unat (?o ! i)" "unat (?o ! i) + length (?ps ! i) \<le> length b"
    "slice (unat (?o ! i)) (length (?ps ! i)) b = ?ps ! i" "i < TRX_MAX_PARTS"
    "i + 1 < length ?ps \<Longrightarrow> unat (?o ! i) + length (?ps ! i) \<le> unat (?o ! (i + 1)) \<and> unat (?o ! (i + 1)) \<le> length b"
    using ps i by (auto simp: parts_at_def)
  define stop where "stop = (if i + 1 \<ge> TRX_MAX_PARTS \<or> ?o ! (i + 1) = 0 then of_nat (length b) else ?o ! (i + 1))"
  have ub: "unat (of_nat (length b) :: u32) = length b" using b(2) by (simp add: unat_of_nat)
  have stop: "unat (?o ! i) + length (?ps ! i) \<le> unat stop" "unat stop \<le> length b"
  proof -
    have "i + 1 < length ?ps" if "\<not> (i + 1 \<ge> TRX_MAX_PARTS \<or> ?o ! (i + 1) = 0)"
    proof (rule ccontr)
      assume "\<not> i + 1 < length ?ps"
      then have "?o ! (i + 1) = 0" using ps that by (simp add: parts_at_def)
      with that show False by simp
    qed
    then show "unat (?o ! i) + length (?ps ! i) \<le> unat stop" "unat stop \<le> length b"
      using p ub by (auto simp: stop_def)
  qed
  let ?n = "unat (stop - ?o ! i)"
  have n: "?n = unat stop - unat (?o ! i)" using stop(1) by (simp add: unat_sub word_le_nat_alt)
  have nz: "?o ! i \<noteq> 0" using p(1) by (auto simp: hdr_size_def)
  have li: "length img = length b" using img b(1) by simp
  have "(2::nat) ^ 32 \<le> 2 ^ ulong_bits A" using cr(3) by (rule power_increasing) simp
  then have sa: "size_add A 0 (unat (?o ! i)) = unat (?o ! i)" using p(2) b(2) by (simp add: size_add_def)
  have sl: "slice (unat (?o ! i)) k img = slice (unat (?o ! i)) k b" for k
    unfolding img using b(1) p(1) by (intro slice_put_after) simp_all
  have copy: "snd (otrx_extract_copy E f (size_add A 0 (unat (?o ! i))) ?n) = slice (unat (?o ! i)) ?n b"
    if "content f = img" for f
  proof -
    have "malloc_ok E ?n" "length (slice (unat (?o ! i)) ?n img) = ?n"
      using mem n stop b(2) li by simp_all
    then show ?thesis unfolding sa by (simp add: otrx_extract_copy_def fread_def Let_def that sl)
  qed
  let ?outs = "snd (otrx_extract A E 0 [True, True, True] (Some img))"
  have t: "trx_dec A (slice 0 hdr_size img) = ?g"
    unfolding img using ps by (intro trx_dec_image) (simp add: g parts_at_def)
  have "otrx_extract A E 0 [True, True, True] (Some img) = (0, ?outs)" "?outs ! i = Some (slice (unat (?o ! i)) ?n b)"
    using p(4) nz copy [of "\<lparr>content = img, fpos = hdr_size, fcap = 0\<rparr>"] b(1) li
    by (auto simp: otrx_extract_def fread_def Let_def t g le_native [OF cr(2)] stop_def TRX_MAX_PARTS_def less_Suc_eq numeral_3_eq_3
      nth_append fseek_def)
  moreover have "prefix (?ps ! i) (slice (unat (?o ! i)) ?n b)"
    using slice_mono [of "length (?ps ! i)" ?n "unat (?o ! i)" b] p(3) n stop(1) by simp
  ultimately show ?thesis by blast
qed

theorem otrx_extract_create_witness:
  "\<exists>img outs out. otrx_create x86_64 demo_env [(102, lit ''k'')] = Some (0, img) \<and>
     otrx_extract x86_64 demo_env 0 [True, True, True] (Some img) = (0, outs) \<and> outs ! 0 = Some out \<and> prefix [1, 2, 3] out"
proof -
  obtain img where i: "otrx_create x86_64 demo_env [(102, lit ''k'')] = Some (0, img)" "length img = 4096"
    using demo_create by blast
  have p: "concat (map (new_parts demo_env) [(102, lit ''k'')]) = [[1, 2, 3]]"
    by (simp add: new_parts_def demo_env_def)
  have "\<exists>outs out. otrx_extract x86_64 demo_env 0 [True, True, True] (Some img) = (0, outs) \<and> outs ! 0 = Some out \<and>
      prefix (concat (map (new_parts demo_env) [(102, lit ''k'')]) ! 0) out"
    using i(2) by (intro otrx_extract_create [OF i(1)]) (simp_all add: x86_64_def demo_env_def new_parts_def)
  then show ?thesis using i(1) unfolding p by auto
qed

end
