(* ===== verification/Md5.thy ===== *)
theory Md5
  imports Prelude
begin

text \<open>
  The two MD5 implementations of the image tools: the reference code of RSA in \<^verbatim>\<open>package/system/mtd/src/md5.c\<close>, which the flash writer uses to fix headers, and Solar Designer's
  in \<^verbatim>\<open>package/utils/oseama/src/md5.c\<close> (the same file is in \<^verbatim>\<open>package/utils/osafeloader/src\<close>). The first collects every byte in a buffer and counts bits; the second
  takes whole blocks from its input, counts bytes in 29 and 32 bits and writes the round functions differently.
  Both are shown to compute the digest of RFC 1321, whatever the pieces are in which they get the data.
\<close>

type_synonym md_state = "u32 \<times> u32 \<times> u32 \<times> u32"

section \<open>RSA's implementation\<close>

definition md_F :: "u32 \<Rightarrow> u32 \<Rightarrow> u32 \<Rightarrow> u32" where "md_F x y z = (x AND y) OR (NOT x AND z)"
definition md_G :: "u32 \<Rightarrow> u32 \<Rightarrow> u32 \<Rightarrow> u32" where "md_G x y z = (x AND z) OR (y AND NOT z)"
definition md_H :: "u32 \<Rightarrow> u32 \<Rightarrow> u32 \<Rightarrow> u32" where "md_H x y z = x XOR y XOR z"
definition md_I :: "u32 \<Rightarrow> u32 \<Rightarrow> u32 \<Rightarrow> u32" where "md_I x y z = y XOR (x OR NOT z)"

definition ROTATE_LEFT :: "u32 \<Rightarrow> nat \<Rightarrow> u32" where
  "ROTATE_LEFT x n = push_bit n x OR drop_bit (32 - n) x"

text \<open>One of \<open>FF\<close>, \<open>GG\<close>, \<open>HH\<close>, \<open>II\<close>, with the index into \<open>in\<close>, the rotation and the constant. The registers rotate instead of their names: the next step is
  \<open>FF (d, a, b, c, ...)\<close>.\<close>

definition md_step :: "(u32 \<Rightarrow> u32 \<Rightarrow> u32 \<Rightarrow> u32) \<Rightarrow> u32 list \<Rightarrow> md_state \<Rightarrow> nat \<times> nat \<times> u32 \<Rightarrow> md_state" where
  "md_step f inp st row =
     (case st of (a, b, c, d) \<Rightarrow> case row of (k, s, ac) \<Rightarrow>
        let a1 = a + (f b c d + inp ! k + ac); a2 = ROTATE_LEFT a1 s in (d, a2 + b, b, c))"

definition FF_rows :: "(nat \<times> nat \<times> u32) list" where
  "FF_rows = [(0, 7, 3614090360), (1, 12, 3905402710), (2, 17, 606105819), (3, 22, 3250441966),
     (4, 7, 4118548399), (5, 12, 1200080426), (6, 17, 2821735955), (7, 22, 4249261313),
     (8, 7, 1770035416), (9, 12, 2336552879), (10, 17, 4294925233), (11, 22, 2304563134),
     (12, 7, 1804603682), (13, 12, 4254626195), (14, 17, 2792965006), (15, 22, 1236535329)]"

definition GG_rows :: "(nat \<times> nat \<times> u32) list" where
  "GG_rows = [(1, 5, 4129170786), (6, 9, 3225465664), (11, 14, 643717713), (0, 20, 3921069994),
     (5, 5, 3593408605), (10, 9, 38016083), (15, 14, 3634488961), (4, 20, 3889429448),
     (9, 5, 568446438), (14, 9, 3275163606), (3, 14, 4107603335), (8, 20, 1163531501),
     (13, 5, 2850285829), (2, 9, 4243563512), (7, 14, 1735328473), (12, 20, 2368359562)]"

definition HH_rows :: "(nat \<times> nat \<times> u32) list" where
  "HH_rows = [(5, 4, 4294588738), (8, 11, 2272392833), (11, 16, 1839030562), (14, 23, 4259657740),
     (1, 4, 2763975236), (4, 11, 1272893353), (7, 16, 4139469664), (10, 23, 3200236656),
     (13, 4, 681279174), (0, 11, 3936430074), (3, 16, 3572445317), (6, 23, 76029189),
     (9, 4, 3654602809), (12, 11, 3873151461), (15, 16, 530742520), (2, 23, 3299628645)]"

definition II_rows :: "(nat \<times> nat \<times> u32) list" where
  "II_rows = [(0, 6, 4096336452), (7, 10, 1126891415), (14, 15, 2878612391), (5, 21, 4237533241),
     (12, 6, 1700485571), (3, 10, 2399980690), (10, 15, 4293915773), (1, 21, 2240044497),
     (8, 6, 1873313359), (15, 10, 4264355552), (6, 15, 2734768916), (13, 21, 1309151649),
     (4, 6, 4149444226), (11, 10, 3174756917), (2, 15, 718787259), (9, 21, 3951481745)]"

definition Transform :: "md_state \<Rightarrow> u32 list \<Rightarrow> md_state" where
  "Transform buf inp =
     (case foldl (md_step md_I inp) (foldl (md_step md_H inp) (foldl (md_step md_G inp) (foldl (md_step md_F inp) buf FF_rows) GG_rows) HH_rows) II_rows of
        (a, b, c, d) \<Rightarrow> case buf of (a0, b0, c0, d0) \<Rightarrow> (a0 + a, b0 + b, c0 + c, d0 + d))"

record md5_ctx =
  md_i0 :: u32
  md_i1 :: u32
  md_buf :: md_state
  md_in :: bytes

text \<open>The words of the input buffer, least significant byte first.\<close>

definition md_words :: "nat \<Rightarrow> bytes \<Rightarrow> u32 list" where
  "md_words n b = map (\<lambda>i. le32_dec (slice (4 * i) 4 b)) [0..<n]"

text \<open>\<open>MD5_Init\<close> leaves the input buffer as it is.\<close>

definition MD5_Init :: "bytes \<Rightarrow> md5_ctx" where
  "MD5_Init junk = \<lparr>md_i0 = 0, md_i1 = 0, md_buf = (0x67452301, 0xefcdab89, 0x98badcfe, 0x10325476), md_in = junk\<rparr>"

fun update_loop :: "nat \<Rightarrow> md_state \<Rightarrow> bytes \<Rightarrow> bytes \<Rightarrow> md_state \<times> bytes" where
  "update_loop mdi buf inp [] = (buf, inp)"
| "update_loop mdi buf inp (x # xs) =
     (let inp' = inp[mdi := x]
      in if mdi + 1 = 0x40 then update_loop 0 (Transform buf (md_words 16 inp')) inp' xs else update_loop (mdi + 1) buf inp' xs)"

definition MD5_Update :: "md5_ctx \<Rightarrow> bytes \<Rightarrow> md5_ctx" where
  "MD5_Update ctx inBuf =
     (let mdi = unat (drop_bit 3 (md_i0 ctx) AND 0x3f); n = of_nat (length inBuf) :: u32;
          i1 = (if md_i0 ctx + push_bit 3 n < md_i0 ctx then md_i1 ctx + 1 else md_i1 ctx);
          (buf, inp) = update_loop mdi (md_buf ctx) (md_in ctx) inBuf
      in ctx\<lparr>md_i0 := md_i0 ctx + push_bit 3 n, md_i1 := i1 + drop_bit 29 n, md_buf := buf, md_in := inp\<rparr>)"

definition PADDING :: bytes where
  "PADDING = 0x80 # replicate 63 0"

definition digest_of :: "md_state \<Rightarrow> bytes" where
  "digest_of st = (case st of (a, b, c, d) \<Rightarrow> le32_enc a @ le32_enc b @ le32_enc c @ le32_enc d)"

definition MD5_Final :: "md5_ctx \<Rightarrow> bytes" where
  "MD5_Final ctx =
     (let mdi = unat (drop_bit 3 (md_i0 ctx) AND 0x3f); padLen = (if mdi < 56 then 56 - mdi else 120 - mdi);
          ctx1 = MD5_Update ctx (take padLen PADDING)
      in digest_of (Transform (md_buf ctx1) (md_words 14 (md_in ctx1) @ [md_i0 ctx, md_i1 ctx])))"

section \<open>Solar Designer's implementation\<close>

definition sd_F :: "u32 \<Rightarrow> u32 \<Rightarrow> u32 \<Rightarrow> u32" where "sd_F x y z = z XOR (x AND (y XOR z))"
definition sd_G :: "u32 \<Rightarrow> u32 \<Rightarrow> u32 \<Rightarrow> u32" where "sd_G x y z = y XOR (z AND (x XOR y))"
definition sd_H :: "u32 \<Rightarrow> u32 \<Rightarrow> u32 \<Rightarrow> u32" where "sd_H x y z = (x XOR y) XOR z"
definition sd_H2 :: "u32 \<Rightarrow> u32 \<Rightarrow> u32 \<Rightarrow> u32" where "sd_H2 x y z = x XOR (y XOR z)"
definition sd_I :: "u32 \<Rightarrow> u32 \<Rightarrow> u32 \<Rightarrow> u32" where "sd_I x y z = y XOR (x OR NOT z)"

definition STEP :: "(u32 \<Rightarrow> u32 \<Rightarrow> u32 \<Rightarrow> u32) \<Rightarrow> u32 list \<Rightarrow> md_state \<Rightarrow> nat \<times> u32 \<times> nat \<Rightarrow> md_state" where
  "STEP f block st row =
     (case st of (a, b, c, d) \<Rightarrow> case row of (k, t, s) \<Rightarrow>
        let a1 = a + (f b c d + block ! k + t); a2 = push_bit s a1 OR drop_bit (32 - s) (a1 AND 0xffffffff) in (d, a2 + b, b, c))"

definition body_F :: "(nat \<times> u32 \<times> nat) list" where
  "body_F = [(0, 0xd76aa478, 7), (1, 0xe8c7b756, 12), (2, 0x242070db, 17), (3, 0xc1bdceee, 22),
     (4, 0xf57c0faf, 7), (5, 0x4787c62a, 12), (6, 0xa8304613, 17), (7, 0xfd469501, 22),
     (8, 0x698098d8, 7), (9, 0x8b44f7af, 12), (10, 0xffff5bb1, 17), (11, 0x895cd7be, 22),
     (12, 0x6b901122, 7), (13, 0xfd987193, 12), (14, 0xa679438e, 17), (15, 0x49b40821, 22)]"

definition body_G :: "(nat \<times> u32 \<times> nat) list" where
  "body_G = [(1, 0xf61e2562, 5), (6, 0xc040b340, 9), (11, 0x265e5a51, 14), (0, 0xe9b6c7aa, 20),
     (5, 0xd62f105d, 5), (10, 0x02441453, 9), (15, 0xd8a1e681, 14), (4, 0xe7d3fbc8, 20),
     (9, 0x21e1cde6, 5), (14, 0xc33707d6, 9), (3, 0xf4d50d87, 14), (8, 0x455a14ed, 20),
     (13, 0xa9e3e905, 5), (2, 0xfcefa3f8, 9), (7, 0x676f02d9, 14), (12, 0x8d2a4c8a, 20)]"

definition body_H :: "(nat \<times> u32 \<times> nat) list" where
  "body_H = [(5, 0xfffa3942, 4), (8, 0x8771f681, 11), (11, 0x6d9d6122, 16), (14, 0xfde5380c, 23),
     (1, 0xa4beea44, 4), (4, 0x4bdecfa9, 11), (7, 0xf6bb4b60, 16), (10, 0xbebfbc70, 23),
     (13, 0x289b7ec6, 4), (0, 0xeaa127fa, 11), (3, 0xd4ef3085, 16), (6, 0x04881d05, 23),
     (9, 0xd9d4d039, 4), (12, 0xe6db99e5, 11), (15, 0x1fa27cf8, 16), (2, 0xc4ac5665, 23)]"

definition body_I :: "(nat \<times> u32 \<times> nat) list" where
  "body_I = [(0, 0xf4292244, 6), (7, 0x432aff97, 10), (14, 0xab9423a7, 15), (5, 0xfc93a039, 21),
     (12, 0x655b59c3, 6), (3, 0x8f0ccc92, 10), (10, 0xffeff47d, 15), (1, 0x85845dd1, 21),
     (8, 0x6fa87e4f, 6), (15, 0xfe2ce6e0, 10), (6, 0xa3014314, 15), (13, 0x4e0811a1, 21),
     (4, 0xf7537e82, 6), (11, 0xbd3af235, 10), (2, 0x2ad7d2bb, 15), (9, 0xeb86d391, 21)]"

text \<open>The third round uses \<open>H\<close> and \<open>H2\<close> in turns.\<close>

fun alternate :: "u32 list \<Rightarrow> md_state \<Rightarrow> (nat \<times> u32 \<times> nat) list \<Rightarrow> md_state" where
  "alternate block st (r1 # r2 # rows) = alternate block (STEP sd_H2 block (STEP sd_H block st r1) r2) rows"
| "alternate block st rows = st"

definition sd_round :: "md_state \<Rightarrow> bytes \<Rightarrow> md_state" where
  "sd_round saved ptr =
     (let block = md_words 16 ptr
      in case foldl (STEP sd_I block) (alternate block (foldl (STEP sd_G block) (foldl (STEP sd_F block) saved body_F) body_G) body_H) body_I of
           (a, b, c, d) \<Rightarrow> case saved of (a0, b0, c0, d0) \<Rightarrow> (a + a0, b + b0, c + c0, d + d0))"

text \<open>\<open>body\<close>: the data of one or more whole blocks.\<close>

function sd_body :: "md_state \<Rightarrow> bytes \<Rightarrow> md_state" where
  "sd_body st data = (let st' = sd_round st (take 64 data) in if length data - 64 = 0 then st' else sd_body st' (drop 64 data))"
  by pat_completeness auto
termination
  by (relation "measure (\<lambda>(st, data). length data)") auto

declare sd_body.simps [simp del]

record sd_ctx =
  sd_lo :: u32
  sd_hi :: u32
  sd_st :: md_state
  sd_buffer :: bytes

definition sd_Init :: "bytes \<Rightarrow> sd_ctx" where
  "sd_Init junk = \<lparr>sd_lo = 0, sd_hi = 0, sd_st = (0x67452301, 0xefcdab89, 0x98badcfe, 0x10325476), sd_buffer = junk\<rparr>"

text \<open>\<open>MD5_Update\<close> from the comparison with 64 on: whole blocks straight from the input, the rest into the buffer.\<close>

definition sd_rest :: "sd_ctx \<Rightarrow> bytes \<Rightarrow> sd_ctx" where
  "sd_rest c d =
     (let n = length d div 64 * 64; c1 = (if length d \<ge> 64 then c\<lparr>sd_st := sd_body (sd_st c) (take n d)\<rparr> else c);
          d1 = (if length d \<ge> 64 then drop n d else d)
      in c1\<lparr>sd_buffer := put 0 d1 (sd_buffer c1)\<rparr>)"

definition sd_Update :: "sd_ctx \<Rightarrow> bytes \<Rightarrow> sd_ctx" where
  "sd_Update ctx data =
     (let saved_lo = sd_lo ctx; lo = (saved_lo + of_nat (length data)) AND 0x1fffffff;
          hi = (if lo < saved_lo then sd_hi ctx + 1 else sd_hi ctx) + of_nat (length data div 2 ^ 29);
          ctx1 = ctx\<lparr>sd_lo := lo, sd_hi := hi\<rparr>; used = unat (saved_lo AND 0x3f); available = 64 - used
      in if used \<noteq> 0
         then if length data < available then ctx1\<lparr>sd_buffer := put used data (sd_buffer ctx1)\<rparr>
              else let b = put used (take available data) (sd_buffer ctx1)
                   in sd_rest (ctx1\<lparr>sd_buffer := b, sd_st := sd_body (sd_st ctx1) b\<rparr>) (drop available data)
         else sd_rest ctx1 data)"

definition sd_Final :: "sd_ctx \<Rightarrow> bytes" where
  "sd_Final ctx =
     (let used = unat (sd_lo ctx AND 0x3f); b0 = (sd_buffer ctx)[used := 0x80]; used1 = used + 1; available = 64 - used1;
          (b1, st1, used2, available2) = (if available < 8
             then (let b = put used1 (replicate available 0) b0 in (b, sd_body (sd_st ctx) b, 0, 64))
             else (b0, sd_st ctx, used1, available));
          b2 = put used2 (replicate (available2 - 8) 0) b1;
          b3 = put 60 (le32_enc (sd_hi ctx)) (put 56 (le32_enc (push_bit 3 (sd_lo ctx))) b2)
      in digest_of (sd_body st1 b3))"

section \<open>The digest of RFC 1321\<close>

definition md5_pad :: "bytes \<Rightarrow> bytes" where
  "md5_pad m = m @ 0x80 # replicate ((119 - length m mod 64) mod 64) 0 @ le32_enc (of_nat (8 * length m)) @ le32_enc (of_nat (8 * length m div 2 ^ 32))"

text \<open>The state after the whole blocks of a message, and the bytes left over.\<close>

function md5_blocks :: "md_state \<Rightarrow> bytes \<Rightarrow> md_state \<times> bytes" where
  "md5_blocks st m = (if length m < 64 then (st, m) else md5_blocks (Transform st (md_words 16 (take 64 m))) (drop 64 m))"
  by pat_completeness auto
termination
  by (relation "measure (\<lambda>(st, m). length m)") auto

declare md5_blocks.simps [simp del]

definition md5_init :: md_state where
  "md5_init = (0x67452301, 0xefcdab89, 0x98badcfe, 0x10325476)"

definition md5_ref :: "bytes \<Rightarrow> bytes" where
  "md5_ref m = digest_of (fst (md5_blocks md5_init (md5_pad m)))"

section \<open>Blocks\<close>

lemma md5_blocks_append:
  "md5_blocks st (m @ x) = (case md5_blocks st m of (st1, r) \<Rightarrow> md5_blocks st1 (r @ x))"
proof (induction st m rule: md5_blocks.induct)
  case (1 st m)
  show ?case
  proof (cases "length m < 64")
    case False
    then have "md5_blocks st (m @ x) = md5_blocks (Transform st (md_words 16 (take 64 m))) (drop 64 m @ x)"
      by (simp add: md5_blocks.simps [of st "m @ x"])
    then show ?thesis using 1 False by (simp add: md5_blocks.simps [of st m])
  qed (simp add: md5_blocks.simps [of st m])
qed

lemma md5_blocks_rest: "md5_blocks st m = (st', r) \<Longrightarrow> length r = length m mod 64"
proof (induction st m rule: md5_blocks.induct)
  case (1 st m)
  show ?case
  proof (cases "length m < 64")
    case False
    then have "length r = length (drop 64 m) mod 64" using 1 by (simp add: md5_blocks.simps [of st m])
    then show ?thesis using False by (simp add: le_mod_geq)
  qed (use 1 in \<open>simp add: md5_blocks.simps [of st m]\<close>)
qed

lemma md5_blocks_small: "length m < 64 \<Longrightarrow> md5_blocks st m = (st, m)"
  by (simp add: md5_blocks.simps)

lemma md5_blocks_one: "length m = 64 \<Longrightarrow> md5_blocks st m = (Transform st (md_words 16 m), [])"
  by (simp add: md5_blocks.simps [of st m] md5_blocks_small)

lemma list_update_take: "i < length b \<Longrightarrow> take (Suc i) (b[i := x]) = take i b @ [x]"
  by (simp add: take_Suc_conv_app_nth)

lemma md_words_take: "4 * n \<le> k \<Longrightarrow> md_words n (take k b) = md_words n b"
  by (auto simp: md_words_def slice_def drop_take min_def intro!: arg_cong [of _ _ le32_dec])

section \<open>RSA's implementation computes the digest\<close>

lemma update_loop_blocks:
  "\<lbrakk>mdi < 64; length inp = 64; update_loop mdi buf inp xs = (buf', inp')\<rbrakk> \<Longrightarrow>
   length inp' = 64 \<and> md5_blocks buf (take mdi inp @ xs) = (buf', take ((mdi + length xs) mod 64) inp')"
proof (induction mdi buf inp xs rule: update_loop.induct)
  case (1 mdi buf inp)
  then show ?case by (simp add: md5_blocks_small)
next
  case (2 mdi buf inp x xs)
  let ?inp = "inp[mdi := x]"
  have tk: "take (Suc mdi) ?inp = take mdi inp @ [x]" using 2(3,4) by (intro list_update_take) simp
  show ?case
  proof (cases "mdi + 1 = 0x40")
    case True
    then have full: "take mdi inp @ [x] = ?inp" using tk 2(4) by simp
    have IH: "length inp' = 64" "md5_blocks (Transform buf (md_words 16 ?inp)) (take 0 ?inp @ xs) = (buf', take ((0 + length xs) mod 64) inp')"
      using 2(1) [OF refl True] 2(4,5) True by (simp_all add: Let_def)
    have "md5_blocks buf (take mdi inp @ x # xs) = md5_blocks buf (?inp @ xs)" using full by (metis append.assoc append_Cons append_Nil)
    also have "\<dots> = md5_blocks (Transform buf (md_words 16 ?inp)) xs" using 2(4) by (subst md5_blocks_append) (simp add: md5_blocks_one)
    finally show ?thesis using IH True by simp
  next
    case False
    then have "length inp' = 64 \<and> md5_blocks buf (take (mdi + 1) ?inp @ xs) = (buf', take ((mdi + 1 + length xs) mod 64) inp')"
      using 2(2) [OF refl False] 2(3-5) False by (simp add: Let_def)
    then show ?thesis using tk by simp
  qed
qed
text \<open>What a context holds after the message \<open>m\<close>.\<close>

definition md5_holds :: "md5_ctx \<Rightarrow> bytes \<Rightarrow> bool" where
  "md5_holds ctx m \<longleftrightarrow> md_i0 ctx = of_nat (8 * length m) \<and> md_i1 ctx = of_nat (8 * length m div 2 ^ 32) \<and> length (md_in ctx) = 64 \<and>
     md5_blocks md5_init m = (md_buf ctx, take (length m mod 64) (md_in ctx))"

lemma low6: "unat (w AND 0x3f :: u32) = unat w mod 64"
proof -
  have "(0x3f :: u32) = mask 6" by (simp add: mask_eq_exp_minus_1)
  then have "w AND 0x3f = take_bit 6 w" by (simp only: take_bit_eq_mask)
  then have "unat (w AND 0x3f) = take_bit 6 (unat w)" by (simp only: unsigned_take_bit_eq)
  then show ?thesis by (simp add: take_bit_eq_mod)
qed

lemma md5_used: "unat (drop_bit 3 (of_nat (8 * n) :: u32) AND 0x3f) = n mod 64"
proof -
  have "unat (drop_bit 3 (of_nat (8 * n) :: u32)) = 8 * n mod 2 ^ 32 div 8"
    unfolding unsigned_drop_bit_eq unsigned_of_nat by (simp add: take_bit_eq_mod drop_bit_eq_div)
  also have "\<dots> = n mod 2 ^ 29" using mod_mult_mult1 [of 8 n "2 ^ 29"] by simp
  finally show ?thesis unfolding low6 by (simp add: mod_mod_cancel)
qed

lemma add_carry:
  fixes a b :: nat
  assumes "0 < M"
  shows "(a + b) div M = a div M + b div M + (if (a + b) mod M < a mod M then 1 else 0)"
proof -
  have l: "a mod M < M" "b mod M < M" using assms by simp_all
  have e: "(a + b) mod M = (a mod M + b mod M) mod M" by (simp add: mod_simps)
  show ?thesis
  proof (cases "a mod M + b mod M < M")
    case True
    then show ?thesis unfolding e using div_add1_eq [of a b M] by simp
  next
    case False
    then have "a mod M + b mod M - M < M" "M \<le> a mod M + b mod M" using l by linarith+
    then have "(a mod M + b mod M) mod M = a mod M + b mod M - M" "(a mod M + b mod M) div M = 1"
      using assms by (simp_all add: le_mod_geq le_div_geq)
    then show ?thesis unfolding e using div_add1_eq [of a b M] l False by simp
  qed
qed

lemma bit_count:
  assumes "k < 2 ^ 32"
  shows "push_bit 3 (of_nat k :: u32) = of_nat (8 * k)" "drop_bit 29 (of_nat k :: u32) = of_nat (8 * k div 2 ^ 32)"
    "(of_nat (8 * n) + of_nat (8 * k) :: u32) < of_nat (8 * n) \<longleftrightarrow> (8 * n + 8 * k) mod 2 ^ 32 < 8 * n mod 2 ^ 32"
proof -
  show "push_bit 3 (of_nat k :: u32) = of_nat (8 * k)" by (simp add: push_bit_eq_mult)
  have "unat (drop_bit 29 (of_nat k :: u32)) = k div 2 ^ 29"
    unfolding unsigned_drop_bit_eq unsigned_of_nat using assms by (simp add: take_bit_eq_mod drop_bit_eq_div)
  moreover have "8 * k div 2 ^ 32 = k div 2 ^ 29" using div_mult_mult1 [of 8 k "2 ^ 29"] by simp
  ultimately show "drop_bit 29 (of_nat k :: u32) = of_nat (8 * k div 2 ^ 32)"
    by (metis of_nat_unat ucast_id)
  have "(of_nat (8 * n) + of_nat (8 * k) :: u32) = of_nat (8 * n + 8 * k)" by (simp only: of_nat_add)
  then show "(of_nat (8 * n) + of_nat (8 * k) :: u32) < of_nat (8 * n) \<longleftrightarrow> (8 * n + 8 * k) mod 2 ^ 32 < 8 * n mod 2 ^ 32"
    by (simp add: word_less_nat_alt unsigned_of_nat take_bit_eq_mod del: of_nat_mult of_nat_add)
qed

lemma MD5_Update_holds:
  assumes "md5_holds ctx m" "length x < 2 ^ 32"
  shows "md5_holds (MD5_Update ctx x) (m @ x)"
proof -
  obtain buf' inp' where u: "update_loop (length m mod 64) (md_buf ctx) (md_in ctx) x = (buf', inp')" by (meson surj_pair)
  have l: "length inp' = 64" "md5_blocks (md_buf ctx) (take (length m mod 64) (md_in ctx) @ x) = (buf', take ((length m mod 64 + length x) mod 64) inp')"
    using update_loop_blocks [OF _ _ u] assms(1) by (simp_all add: md5_holds_def)
  have "md5_blocks md5_init (m @ x) = (buf', take (length (m @ x) mod 64) inp')"
    using l(2) assms(1) by (subst md5_blocks_append) (simp add: md5_holds_def mod_simps)
  moreover have "8 * length (m @ x) div 2 ^ 32 = 8 * length m div 2 ^ 32 + 8 * length x div 2 ^ 32 +
      (if (8 * length m + 8 * length x) mod 2 ^ 32 < 8 * length m mod 2 ^ 32 then 1 else 0)"
    using add_carry [of "2 ^ 32" "8 * length m" "8 * length x"] by simp
  moreover have "of_nat (8 * length (m @ x)) = (of_nat (8 * length m) + of_nat (8 * length x) :: u32)" by simp
  ultimately show ?thesis
    using assms l(1) u bit_count [OF assms(2)] by (simp add: md5_holds_def MD5_Update_def md5_used Let_def del: of_nat_mult)
qed
lemma MD5_Init_holds: "length junk = 64 \<Longrightarrow> md5_holds (MD5_Init junk) []"
  by (simp add: md5_holds_def MD5_Init_def md5_init_def md5_blocks_small)

text \<open>The last block: what is left of the message with its padding, and the number of bits.\<close>

lemma md5_ref_last:
  assumes "md5_blocks md5_init (m @ take k PADDING) = (st, r)" "length r = 56" "k = (if length m mod 64 < 56 then 56 - length m mod 64 else 120 - length m mod 64)"
  shows "md5_ref m = digest_of (Transform st (md_words 16 (r @ le32_enc (of_nat (8 * length m)) @ le32_enc (of_nat (8 * length m div 2 ^ 32)))))"
proof -
  let ?n = "le32_enc (of_nat (8 * length m)) @ le32_enc (of_nat (8 * length m div 2 ^ 32))"
  have l: "length m mod 64 < 64" by simp
  have "(119 - length m mod 64) mod 64 = k - 1"
  proof (cases "length m mod 64 < 56")
    case True
    then have "(119 - length m mod 64) mod 64 = 119 - length m mod 64 - 64" by (subst le_mod_geq) simp_all
    then show ?thesis using True assms(3) by simp
  next
    case False
    then show ?thesis using assms(3) l by simp
  qed
  moreover have "0 < k" "k \<le> 64" using assms(3) l by auto
  ultimately have "0x80 # replicate ((119 - length m mod 64) mod 64) 0 = take k PADDING"
    by (cases k) (auto simp: PADDING_def take_replicate min_def)
  then have "md5_pad m = (m @ take k PADDING) @ ?n" by (simp add: md5_pad_def)
  then have "md5_blocks md5_init (md5_pad m) = md5_blocks st (r @ ?n)"
    by (simp only: md5_blocks_append [of md5_init "m @ take k PADDING" ?n] assms(1) prod.case)
  also have "\<dots> = (Transform st (md_words 16 (r @ ?n)), [])" using assms(2) by (intro md5_blocks_one) simp
  finally show ?thesis by (simp add: md5_ref_def)
qed

lemma md_words_16: "length r = 56 \<Longrightarrow> md_words 16 (r @ le32_enc a @ le32_enc b) = md_words 14 r @ [a, b]"
proof -
  assume r: "length r = 56"
  have up: "[0..<16] = [0..<14] @ [14, 15]" by (simp add: upt_rec)
  have "le32_dec (slice (4 * i) 4 (r @ le32_enc a @ le32_enc b)) = le32_dec (slice (4 * i) 4 r)" if "i \<in> set [0..<14]" for i
    using that r by (simp add: slice_append_left)
  then have "md_words 14 (r @ le32_enc a @ le32_enc b) = md_words 14 r" unfolding md_words_def by (intro map_cong) auto
  moreover have "le32_dec (slice 56 4 (r @ le32_enc a @ le32_enc b)) = a" "le32_dec (slice 60 4 (r @ le32_enc a @ le32_enc b)) = b"
    using r by (simp_all add: slice_def)
  ultimately show ?thesis unfolding md_words_def up by simp
qed

lemma pad_length:
  fixes n :: nat
  defines "k \<equiv> if n mod 64 < 56 then 56 - n mod 64 else 120 - n mod 64"
  shows "(n + k) mod 64 = 56" "k \<le> 64"
proof -
  have "(n + k) mod 64 = (n mod 64 + k) mod 64" by (simp only: mod_add_left_eq)
  also have "\<dots> = 56"
  proof (cases "n mod 64 < 56")
    case True
    then have "n mod 64 + k = 56" unfolding k_def by simp
    then show ?thesis by simp
  next
    case False
    moreover have "n mod 64 < 64" by simp
    ultimately have "n mod 64 + k = 120" unfolding k_def by simp
    then show ?thesis by simp
  qed
  finally show "(n + k) mod 64 = 56" .
  show "k \<le> 64" unfolding k_def by auto
qed

lemma MD5_Final_ref:
  assumes "md5_holds ctx m"
  shows "MD5_Final ctx = md5_ref m"
proof -
  define k where "k = (if length m mod 64 < 56 then 56 - length m mod 64 else 120 - length m mod 64)"
  note p = pad_length [of "length m", folded k_def]
  define ctx1 where "ctx1 = MD5_Update ctx (take k PADDING)"
  have kl: "length (take k PADDING) = k" using p(2) by (simp add: PADDING_def)
  have "md5_holds ctx1 (m @ take k PADDING)" unfolding ctx1_def using kl p(2) by (intro MD5_Update_holds [OF assms]) simp
  moreover have "length (m @ take k PADDING) mod 64 = 56" using kl p(1) by (simp only: length_append)
  ultimately have b: "md5_blocks md5_init (m @ take k PADDING) = (md_buf ctx1, take 56 (md_in ctx1))" "length (md_in ctx1) = 64"
    unfolding md5_holds_def by (simp_all only:)
  have i: "md_i0 ctx = of_nat (8 * length m)" "md_i1 ctx = of_nat (8 * length m div 2 ^ 32)" using assms unfolding md5_holds_def by (simp_all only:)
  have "length (take 56 (md_in ctx1)) = 56" using b(2) by simp
  from md5_ref_last [OF b(1) this k_def] md_words_16 [OF this]
  have "md5_ref m = digest_of (Transform (md_buf ctx1) (md_words 14 (md_in ctx1) @ [md_i0 ctx, md_i1 ctx]))"
    by (simp only: i) (simp add: md_words_take)
  moreover have "unat (drop_bit 3 (md_i0 ctx) AND 0x3f) = length m mod 64" by (simp only: i md5_used)
  ultimately show ?thesis unfolding MD5_Final_def Let_def by (simp only: k_def [symmetric] ctx1_def [symmetric])
qed

definition md5_rsa :: "bytes \<Rightarrow> bytes list \<Rightarrow> bytes" where
  "md5_rsa junk pieces = MD5_Final (foldl MD5_Update (MD5_Init junk) pieces)"

lemma md5_rsa_ref:
  assumes "length junk = 64" "\<forall>x\<in>set pieces. length x < 2 ^ 32"
  shows "md5_rsa junk pieces = md5_ref (concat pieces)"
proof -
  have "md5_holds ctx m \<Longrightarrow> \<forall>x\<in>set pieces. length x < 2 ^ 32 \<Longrightarrow> md5_holds (foldl MD5_Update ctx pieces) (m @ concat pieces)" for ctx m
  proof (induction pieces arbitrary: ctx m)
    case (Cons x xs)
    then show ?case using Cons.IH [of "MD5_Update ctx x" "m @ x"] MD5_Update_holds [of ctx m x] by simp
  qed simp
  from this [OF MD5_Init_holds [OF assms(1)] assms(2)] show ?thesis by (simp add: md5_rsa_def MD5_Final_ref)
qed

section \<open>Solar Designer's implementation computes the digest\<close>

text \<open>The round functions, the rows and the steps are the same ones.\<close>

lemma sd_rounds: "sd_F = md_F" "sd_G = md_G" "sd_H = md_H" "sd_H2 = md_H" "sd_I = md_I"
  by (intro ext bit_word_eqI; auto simp: sd_F_def md_F_def sd_G_def md_G_def sd_H_def md_H_def sd_H2_def sd_I_def md_I_def bit_simps)+

lemma STEP_md_step: "STEP f block st (k, t, s) = md_step f block st (k, s, t)"
proof -
  have "(0xffffffff :: u32) = -1" by simp
  then have "a AND 0xffffffff = a" for a :: u32 by (simp only: bit.conj_one_right)
  then show ?thesis by (simp add: STEP_def md_step_def ROTATE_LEFT_def split: prod.split)
qed

lemma STEP_rows: "foldl (STEP f block) st (map (\<lambda>(k, s, t). (k, t, s)) rows) = foldl (md_step f block) st rows"
  by (induction rows arbitrary: st) (auto simp: STEP_md_step)

lemma alternate_rows: "even (length rows) \<Longrightarrow> alternate block st rows = foldl (STEP sd_H block) st rows"
  by (induction block st rows rule: alternate.induct) (auto simp: sd_rounds)

lemma body_rows:
  "body_F = map (\<lambda>(k, s, t). (k, t, s)) FF_rows" "body_G = map (\<lambda>(k, s, t). (k, t, s)) GG_rows"
  "body_H = map (\<lambda>(k, s, t). (k, t, s)) HH_rows" "body_I = map (\<lambda>(k, s, t). (k, t, s)) II_rows"
  by (simp_all add: body_F_def FF_rows_def body_G_def GG_rows_def body_H_def HH_rows_def body_I_def II_rows_def)

lemma sd_round_Transform: "sd_round st b = Transform st (md_words 16 b)"
proof -
  have "even (length (map (\<lambda>(k, s, t). (k, t, s)) HH_rows))" by (simp add: HH_rows_def)
  from alternate_rows [OF this] show ?thesis
    by (simp add: sd_round_def Transform_def Let_def sd_rounds body_rows STEP_rows add.commute split: prod.split)
qed

lemma sd_body_blocks: "\<lbrakk>length data mod 64 = 0; data \<noteq> []\<rbrakk> \<Longrightarrow> md5_blocks st data = (sd_body st data, [])"
proof (induction st data rule: sd_body.induct)
  case (1 st data)
  have g: "64 \<le> length data" using 1(2,3) by (cases "length data < 64") auto
  show ?case
  proof (cases "length data = 64")
    case True
    then show ?thesis by (simp add: sd_body.simps [of st data] Let_def sd_round_Transform md5_blocks_one)
  next
    case False
    then have d: "\<not> length data - 64 = 0" "drop 64 data \<noteq> []" using g by auto
    have "length (drop 64 data) mod 64 = 0" using 1(2) g by (simp add: le_mod_geq)
    then have "md5_blocks (sd_round st (take 64 data)) (drop 64 data) = (sd_body (sd_round st (take 64 data)) (drop 64 data), [])"
      using 1(1) d by simp
    then show ?thesis using d g by (simp add: sd_body.simps [of st data] md5_blocks.simps [of st data] Let_def sd_round_Transform)
  qed
qed

lemma sd_body_one: "length b = 64 \<Longrightarrow> sd_body st b = Transform st (md_words 16 b)"
  using sd_body_blocks [of b st] by (cases b) (simp_all add: md5_blocks_one)

text \<open>What a context holds after the message \<open>m\<close>: the number of bytes is in \<open>lo\<close> (29 bits) and \<open>hi\<close>.\<close>

definition sd_data :: "sd_ctx \<Rightarrow> bytes \<Rightarrow> bool" where
  "sd_data ctx m \<longleftrightarrow> length (sd_buffer ctx) = 64 \<and> md5_blocks md5_init m = (sd_st ctx, take (length m mod 64) (sd_buffer ctx))"

definition sd_holds :: "sd_ctx \<Rightarrow> bytes \<Rightarrow> bool" where
  "sd_holds ctx m \<longleftrightarrow> sd_lo ctx = of_nat (length m mod 2 ^ 29) \<and> sd_hi ctx = of_nat (length m div 2 ^ 29) \<and> sd_data ctx m"

lemma take_put_0: "length d \<le> length b \<Longrightarrow> take (length d) (put 0 d b) = d"
  by (simp add: put_def)

lemma sd_rest_data:
  assumes "md5_blocks md5_init m = (sd_st c, [])" "length (sd_buffer c) = 64"
  shows "sd_data (sd_rest c d) (m @ d)"
proof -
  have m0: "length m mod 64 = 0" using md5_blocks_rest [OF assms(1)] by simp
  then have lm: "(length m + length d) mod 64 = length d mod 64" by (metis add_0 mod_add_left_eq)
  have ap: "md5_blocks md5_init (m @ d) = md5_blocks (sd_st c) d" using assms(1) md5_blocks_append [of md5_init m d] by simp
  show ?thesis
  proof (cases "64 \<le> length d")
    case False
    then have "take (length d mod 64) (put 0 d (sd_buffer c)) = d" using take_put_0 [of d "sd_buffer c"] assms(2) by simp
    then show ?thesis using False assms(2) by (simp add: sd_data_def sd_rest_def Let_def ap lm md5_blocks_small)
  next
    case True
    define n where "n = length d div 64 * 64"
    have n: "n \<le> length d" "length d - n = length d mod 64" "0 < n"
      unfolding n_def using True by (simp_all add: minus_div_mult_eq_mod div_greater_zero_iff)
    have "md5_blocks (sd_st c) (take n d) = (sd_body (sd_st c) (take n d), [])" using n True unfolding n_def by (intro sd_body_blocks) auto
    then have "md5_blocks (sd_st c) d = md5_blocks (sd_body (sd_st c) (take n d)) (drop n d)"
      using md5_blocks_append [of "sd_st c" "take n d" "drop n d"] by simp
    also have "\<dots> = (sd_body (sd_st c) (take n d), drop n d)" using n by (intro md5_blocks_small) simp
    finally have b: "md5_blocks (sd_st c) d = (sd_body (sd_st c) (take n d), drop n d)" .
    have "length d mod 64 < 64" by simp
    then have l: "length (drop n d) = length d mod 64" "length (drop n d) \<le> 64" using n by simp_all
    then have "take (length d mod 64) (put 0 (drop n d) (sd_buffer c)) = drop n d" using take_put_0 [of "drop n d" "sd_buffer c"] assms(2) by (simp only:)
    moreover have "length (put 0 (drop n d) (sd_buffer c)) = 64" using l(2) assms(2) by simp
    ultimately show ?thesis using True ap lm b by (simp add: sd_data_def sd_rest_def Let_def n_def [symmetric])
  qed
qed

lemma sd_used: "unat ((of_nat (n mod 2 ^ 29) :: u32) AND 0x3f) = n mod 64"
proof -
  have "n mod 2 ^ 29 < 2 ^ 32" by (rule less_trans [of _ "2 ^ 29"]) simp_all
  then have "unat (of_nat (n mod 2 ^ 29) :: u32) = n mod 2 ^ 29" by (simp add: unsigned_of_nat take_bit_eq_mod)
  then show ?thesis unfolding low6 by (simp add: mod_mod_cancel)
qed

lemma low29: "unat (w AND 0x1fffffff :: u32) = unat w mod 2 ^ 29"
proof -
  have "(0x1fffffff :: u32) = mask 29" by (simp add: mask_eq_exp_minus_1)
  then have "w AND 0x1fffffff = take_bit 29 w" by (simp only: take_bit_eq_mask)
  then have "unat (w AND 0x1fffffff) = take_bit 29 (unat w)" by (simp only: unsigned_take_bit_eq)
  then show ?thesis by (simp add: take_bit_eq_mod)
qed

lemma sd_lo_add: "(of_nat (n mod 2 ^ 29) + of_nat k :: u32) AND 0x1fffffff = of_nat ((n + k) mod 2 ^ 29)"
proof -
  have "unat ((of_nat (n mod 2 ^ 29) + of_nat k :: u32) AND 0x1fffffff) = unat (of_nat (n mod 2 ^ 29 + k) :: u32) mod 2 ^ 29"
    by (simp only: low29 of_nat_add)
  also have "\<dots> = (n mod 2 ^ 29 + k) mod 2 ^ 29" unfolding unsigned_of_nat take_bit_eq_mod by (simp add: mod_mod_cancel)
  also have "\<dots> = (n + k) mod 2 ^ 29" by (simp only: mod_add_left_eq)
  finally show ?thesis by (metis of_nat_unat ucast_id)
qed

lemma sd_carry: "(of_nat (a mod 2 ^ 29) :: u32) < of_nat (b mod 2 ^ 29) \<longleftrightarrow> a mod 2 ^ 29 < b mod 2 ^ 29"
proof -
  have "k mod 2 ^ 29 < 2 ^ 32" for k :: nat by (rule less_trans [of _ "2 ^ 29"]) simp_all
  then have "unat (of_nat (k mod 2 ^ 29) :: u32) = k mod 2 ^ 29" for k by (simp add: unsigned_of_nat take_bit_eq_mod)
  then show ?thesis by (simp only: word_less_nat_alt)
qed

lemma sd_count: "(of_nat ((n + k) div 2 ^ 29) :: u32) =
  (if (n + k) mod 2 ^ 29 < n mod 2 ^ 29 then of_nat (n div 2 ^ 29) + 1 else of_nat (n div 2 ^ 29)) + of_nat (k div 2 ^ 29)"
proof -
  have "(0 :: nat) < 2 ^ 29" by simp
  from add_carry [OF this, of n k] show ?thesis by (simp only: of_nat_add) (simp split: if_split)
qed

text \<open>The part of \<open>MD5_Update\<close> that moves data, for \<open>used\<close> bytes in the buffer.\<close>

lemma sd_Update_data:
  assumes "sd_data ctx m" "length m mod 64 = used" "used \<noteq> 0"
  shows "length x < 64 - used \<Longrightarrow> sd_data (ctx\<lparr>sd_buffer := put used x (sd_buffer ctx)\<rparr>) (m @ x)" (is "?p \<Longrightarrow> ?q")
    and "\<not> length x < 64 - used \<Longrightarrow> sd_data (sd_rest (ctx\<lparr>sd_buffer := put used (take (64 - used) x) (sd_buffer ctx),
      sd_st := sd_body (sd_st ctx) (put used (take (64 - used) x) (sd_buffer ctx))\<rparr>) (drop (64 - used) x)) (m @ x)" (is "\<not> ?p \<Longrightarrow> ?r")
proof -
  have b: "length (sd_buffer ctx) = 64" "md5_blocks md5_init m = (sd_st ctx, take used (sd_buffer ctx))" using assms by (simp_all add: sd_data_def)
  have u: "used < 64" using assms(2) by auto
  have tp: "take (used + length y) (put used y (sd_buffer ctx)) = take used (sd_buffer ctx) @ y" for y
    using u b(1) by (simp add: put_def)
  show ?q if l: ?p
  proof -
    have "md5_blocks md5_init (m @ x) = (sd_st ctx, take used (sd_buffer ctx) @ x)"
      using b u l by (subst md5_blocks_append) (simp add: md5_blocks_small)
    moreover have "length (m @ x) mod 64 = used + length x"
    proof -
      have "length (m @ x) mod 64 = (length m mod 64 + length x) mod 64" by (simp add: mod_simps)
      then show ?thesis using l assms(2) by simp
    qed
    ultimately show ?thesis using b(1) l tp [of x] by (simp add: sd_data_def)
  qed
  show ?r if l: "\<not> ?p"
  proof -
    define y z where "y = take (64 - used) x" and "z = drop (64 - used) x"
    have y: "length y = 64 - used" "x = y @ z" using l by (simp_all add: y_def z_def)
    have full: "put used y (sd_buffer ctx) = take used (sd_buffer ctx) @ y" using tp [of y] y(1) b(1) u by simp
    have "md5_blocks md5_init (m @ y) = md5_blocks (sd_st ctx) (put used y (sd_buffer ctx))"
      using b(2) full by (subst md5_blocks_append) simp
    also have "\<dots> = (sd_body (sd_st ctx) (put used y (sd_buffer ctx)), [])"
      using y(1) b(1) u by (simp add: md5_blocks_one sd_body_one)
    finally have "sd_data (sd_rest (ctx\<lparr>sd_buffer := put used y (sd_buffer ctx), sd_st := sd_body (sd_st ctx) (put used y (sd_buffer ctx))\<rparr>) z) ((m @ y) @ z)"
      using b(1) u y(1) by (intro sd_rest_data) simp_all
    moreover have "(m @ y) @ z = m @ x" using y(2) by simp
    ultimately show ?thesis by (simp only: y_def [symmetric] z_def [symmetric])
  qed
qed

lemma sd_rest_count [simp]: "sd_lo (sd_rest c d) = sd_lo c" "sd_hi (sd_rest c d) = sd_hi c"
  by (simp_all add: sd_rest_def Let_def)

lemma sd_data_count [simp]: "sd_data (ctx\<lparr>sd_lo := a, sd_hi := b\<rparr>) m = sd_data ctx m"
  by (simp add: sd_data_def)

lemma sd_Update_holds:
  assumes "sd_holds ctx m"
  shows "sd_holds (sd_Update ctx x) (m @ x)"
proof -
  define lo hi where "lo = (of_nat (length (m @ x) mod 2 ^ 29) :: u32)" and "hi = (of_nat (length (m @ x) div 2 ^ 29) :: u32)"
  define ctx1 where "ctx1 = ctx\<lparr>sd_lo := lo, sd_hi := hi\<rparr>"
  define used where "used = length m mod 64"
  have h: "sd_lo ctx = of_nat (length m mod 2 ^ 29)" "sd_hi ctx = of_nat (length m div 2 ^ 29)" "sd_data ctx1 m"
    using assms by (simp_all only: sd_holds_def ctx1_def sd_data_count)
  have lo: "(sd_lo ctx + of_nat (length x)) AND 0x1fffffff = lo" by (simp only: h(1) lo_def sd_lo_add length_append)
  have "lo < sd_lo ctx \<longleftrightarrow> (length m + length x) mod 2 ^ 29 < length m mod 2 ^ 29" unfolding lo_def h(1) sd_carry length_append ..
  then have hi: "(if lo < sd_lo ctx then sd_hi ctx + 1 else sd_hi ctx) + of_nat (length x div 2 ^ 29) = hi"
    unfolding hi_def length_append sd_count h(2) by simp
  have used: "unat (sd_lo ctx AND 0x3f) = used" by (simp only: h(1) sd_used used_def)
  have data: "sd_data (sd_Update ctx x) (m @ x)"
  proof (cases "used = 0")
    case True
    then have "md5_blocks md5_init m = (sd_st ctx1, [])" "length (sd_buffer ctx1) = 64" using h(3) by (simp_all add: sd_data_def used_def)
    then have "sd_data (sd_rest ctx1 x) (m @ x)" by (rule sd_rest_data)
    then show ?thesis unfolding sd_Update_def Let_def by (simp only: lo hi used True ctx1_def [symmetric]) simp
  next
    case False
    show ?thesis
      unfolding sd_Update_def Let_def lo hi used ctx1_def [symmetric]
      using False sd_Update_data [OF h(3) used_def [symmetric] False, of x] by auto
  qed
  have "sd_lo (sd_Update ctx x) = lo" "sd_hi (sd_Update ctx x) = hi"
    unfolding sd_Update_def Let_def lo hi used by (simp_all split: if_split)
  then show ?thesis using data unfolding sd_holds_def lo_def hi_def by blast
qed

text \<open>The zeros and the count that \<open>MD5_Final\<close> puts behind the message.\<close>

lemma sd_bits: "push_bit 3 (of_nat (n mod 2 ^ 29) :: u32) = of_nat (8 * n)" "n div 2 ^ 29 = 8 * n div 2 ^ 32"
proof -
  have "(of_nat (8 * n) :: u32) = of_nat (8 * n mod 2 ^ 32)" unfolding word_of_nat_eq_iff take_bit_eq_mod by simp
  also have "8 * n mod 2 ^ 32 = 8 * (n mod 2 ^ 29)" using mod_mult_mult1 [of 8 n "2 ^ 29"] by simp
  finally show "push_bit 3 (of_nat (n mod 2 ^ 29) :: u32) = of_nat (8 * n)" by (simp add: push_bit_eq_mult)
  show "n div 2 ^ 29 = 8 * n div 2 ^ 32" using div_mult_mult1 [of 8 n "2 ^ 29"] by simp
qed

lemma last_block:
  assumes "length b = 64" "take 56 b = r" "length e1 = 4" "length e2 = 4"
  shows "put 60 e2 (put 56 e1 b) = r @ e1 @ e2"
  using assms by (auto simp: put_def)

lemma sd_Final_ref:
  assumes "sd_holds ctx m"
  shows "sd_Final ctx = md5_ref m"
proof -
  define used where "used = length m mod 64"
  define e1 e2 where "e1 = le32_enc (of_nat (8 * length m) :: u32)" and "e2 = le32_enc (of_nat (8 * length m div 2 ^ 32) :: u32)"
  have u: "used < 64" by (simp add: used_def)
  have b: "length (sd_buffer ctx) = 64" "md5_blocks md5_init m = (sd_st ctx, take used (sd_buffer ctx))"
    using assms by (simp_all add: sd_holds_def sd_data_def used_def)
  have h: "unat (sd_lo ctx AND 0x3f) = used" "le32_enc (push_bit 3 (sd_lo ctx)) = e1" "le32_enc (sd_hi ctx) = e2"
    using assms by (simp_all only: sd_holds_def sd_used used_def sd_bits e1_def e2_def)
  have el: "length e1 = 4" "length e2 = 4" by (simp_all add: e1_def e2_def)
  let ?b0 = "(sd_buffer ctx)[used := 0x80]"
  have t0: "take (Suc used) ?b0 = take used (sd_buffer ctx) @ [0x80]" using u b(1) by (intro list_update_take) simp
  show ?thesis
  proof (cases "used < 56")
    case True
    let ?b2 = "put (used + 1) (replicate (55 - used) 0) ?b0"
    have "take 56 ?b2 = take used (sd_buffer ctx) @ take (56 - used) PADDING"
      using True t0 b(1) by (cases "56 - used") (auto simp: put_def PADDING_def take_replicate min_def)
    moreover have l: "length ?b2 = 64" using True b(1) by simp
    ultimately have b3: "put 60 e2 (put 56 e1 ?b2) = (take used (sd_buffer ctx) @ take (56 - used) PADDING) @ e1 @ e2" using el by (intro last_block)
    have r: "length (take used (sd_buffer ctx) @ take (56 - used) PADDING) = 56" using True b(1) by (simp add: PADDING_def)
    have "md5_blocks md5_init (m @ take (56 - used) PADDING) = (sd_st ctx, take used (sd_buffer ctx) @ take (56 - used) PADDING)"
      using b(2) r by (subst md5_blocks_append) (simp add: md5_blocks_small)
    moreover have "56 - used = (if length m mod 64 < 56 then 56 - length m mod 64 else 120 - length m mod 64)" using True by (simp add: used_def)
    ultimately have "md5_ref m = digest_of (Transform (sd_st ctx) (md_words 16 (put 60 e2 (put 56 e1 ?b2))))"
      using md5_ref_last [OF _ r] unfolding b3 unfolding e1_def e2_def by blast
    moreover have "length (put 60 e2 (put 56 e1 ?b2)) = 64" "\<not> 64 - (used + 1) < 8" using l el True by simp_all
    ultimately show ?thesis unfolding sd_Final_def Let_def h by (simp add: sd_body_one)
  next
    case False
    let ?b1 = "put (used + 1) (replicate (63 - used) 0) ?b0"
    let ?b2 = "put 0 (replicate 56 0) ?b1"
    have l: "length ?b1 = 64" "length ?b2 = 64" using u b(1) by simp_all
    have "take 56 ?b2 = replicate 56 0" by (simp add: put_def)
    then have b3: "put 60 e2 (put 56 e1 ?b2) = replicate 56 0 @ e1 @ e2" using l(2) el by (intro last_block)
    have "take (120 - used) PADDING = 0x80 # replicate (63 - used) 0 @ replicate 56 0"
      using False u by (cases "120 - used") (auto simp: PADDING_def take_replicate replicate_add [symmetric] min_def)
    moreover have "?b1 = take used (sd_buffer ctx) @ 0x80 # replicate (63 - used) 0"
      using t0 u b(1) by (simp add: put_def)
    ultimately have p: "take used (sd_buffer ctx) @ take (120 - used) PADDING = ?b1 @ replicate 56 0" by (simp only: append_assoc append_Cons)
    have "md5_blocks md5_init (m @ take (120 - used) PADDING) = md5_blocks (sd_st ctx) (?b1 @ replicate 56 0)"
      using md5_blocks_append [of md5_init m "take (120 - used) PADDING"] b(2) p by (simp only: prod.case)
    also have "\<dots> = md5_blocks (sd_body (sd_st ctx) ?b1) (replicate 56 0)"
      using md5_blocks_append [of "sd_st ctx" ?b1 "replicate 56 0"] md5_blocks_one [OF l(1)] sd_body_one [OF l(1)] by (simp only: prod.case append_Nil)
    also have "\<dots> = (sd_body (sd_st ctx) ?b1, replicate 56 0)" by (intro md5_blocks_small) simp
    finally have "md5_ref m = digest_of (Transform (sd_body (sd_st ctx) ?b1) (md_words 16 (put 60 e2 (put 56 e1 ?b2))))"
      unfolding b3 unfolding e1_def e2_def using False by (intro md5_ref_last) (simp_all add: used_def)
    moreover have "length (put 60 e2 (put 56 e1 ?b2)) = 64" "64 - (used + 1) < 8" using l el False by simp_all
    ultimately show ?thesis unfolding sd_Final_def Let_def h by (simp add: sd_body_one)
  qed
qed

definition md5_solar :: "bytes \<Rightarrow> bytes list \<Rightarrow> bytes" where
  "md5_solar junk pieces = sd_Final (foldl sd_Update (sd_Init junk) pieces)"

lemma sd_Init_holds: "length junk = 64 \<Longrightarrow> sd_holds (sd_Init junk) []"
  by (simp add: sd_holds_def sd_data_def sd_Init_def md5_init_def md5_blocks_small)

lemma sd_Updates_hold: "sd_holds ctx m \<Longrightarrow> sd_holds (foldl sd_Update ctx pieces) (m @ concat pieces)"
proof (induction pieces arbitrary: ctx m)
  case (Cons x xs)
  then show ?case using Cons.IH [of "sd_Update ctx x" "m @ x"] sd_Update_holds [of ctx m x] by simp
qed simp

lemma md5_solar_ref: "length junk = 64 \<Longrightarrow> md5_solar junk pieces = md5_ref (concat pieces)"
  using sd_Updates_hold [OF sd_Init_holds, of junk pieces] by (simp add: md5_solar_def sd_Final_ref)

lemma length_md5_ref [simp]: "length (md5_ref m) = 16"
  by (simp add: md5_ref_def digest_of_def split: prod.split)

section \<open>Properties\<close>

text \<open>C18. Both implementations compute the digest of RFC 1321 of the bytes they were given, in whatever pieces, below 4 GB each for the first one, whose length argument has 32 bits; the content of the buffer before is of
  no consequence. So the tools that write a digest and those that check it agree.\<close>

theorem md5_implementations_agree:
  assumes "length junk = 64" "\<forall>x\<in>set pieces. length x < 2 ^ 32"
  shows "MD5_Final (foldl MD5_Update (MD5_Init junk) pieces) = md5_ref (concat pieces) \<and>
    (\<forall>pieces' junk'. length junk' = 64 \<longrightarrow> concat pieces' = concat pieces \<longrightarrow>
       sd_Final (foldl sd_Update (sd_Init junk') pieces') = MD5_Final (foldl MD5_Update (MD5_Init junk) pieces))"
  using md5_rsa_ref [OF assms] md5_solar_ref unfolding md5_rsa_def md5_solar_def by simp

text \<open>The test vector of the RFC for the message \<open>abc\<close>.\<close>

lemma md5_abc: "MD5_Final (MD5_Update (MD5_Init (replicate 64 0)) [0x61, 0x62, 0x63]) =
  [0x90, 0x01, 0x50, 0x98, 0x3c, 0xd2, 0x4f, 0xb0, 0xd6, 0x96, 0x3f, 0x7d, 0x28, 0xe1, 0x7f, 0x72]"
  by code_simp

theorem md5_implementations_agree_witness:
  "sd_Final (sd_Update (sd_Update (sd_Init (replicate 64 7)) [0x61]) [0x62, 0x63]) =
    [0x90, 0x01, 0x50, 0x98, 0x3c, 0xd2, 0x4f, 0xb0, 0xd6, 0x96, 0x3f, 0x7d, 0x28, 0xe1, 0x7f, 0x72]"
proof -
  have "sd_Final (foldl sd_Update (sd_Init (replicate 64 7)) [[0x61], [0x62, 0x63]]) =
      MD5_Final (foldl MD5_Update (MD5_Init (replicate 64 0)) [[0x61, 0x62, 0x63]])"
    by (rule md5_implementations_agree [THEN conjunct2, rule_format]) simp_all
  then show ?thesis using md5_abc by simp
qed

end
