(* ===== verification/Oseama.thy ===== *)
theory Oseama
  imports Otrx Md5
begin

text \<open>
  The Seama image tool, \<^verbatim>\<open>package/utils/oseama/src/oseama.c\<close>: \<open>info\<close>, \<open>entity\<close> and \<open>extract\<close>. A Seama file (seal) is a header of 12 bytes with meta data and a
  sequence of entities, each a header of 28 bytes with its meta data and an image. Files are streams of \<open>Stdio\<close> and the environment is that of \<open>Otrx\<close>; the input files
  are not the output file. What \<open>info\<close> prints is a list of lines.

  The loops over the entities end when no whole header can be read; whether they do depends on the seeks between them, so they take fuel.
\<close>

definition OSEAMA_MAGIC :: u32 where "OSEAMA_MAGIC = 0x5ea3a417"

text \<open>\<open>Hangs\<close>: the fuel is used up. \<open>Crash\<close>: an access outside of the buffer.\<close>

datatype 'a run = Done 'a | Crash | Hangs

datatype info_line = Blank | Entity_offset nat | Entity_size nat | Meta_size nat | Image_size nat | Meta_entry bytes

section \<open>Streams\<close>

text \<open>\<open>fseek (f, n, SEEK_CUR)\<close> with an unsigned \<open>n\<close>, which becomes a \<open>long\<close>; seeking in front of the file fails and moves nothing.\<close>

definition fseek_cur :: "abi \<Rightarrow> nat \<Rightarrow> cfile \<Rightarrow> cfile" where
  "fseek_cur A n f = (let p = int (fpos f) + ssize_of A n in if p < 0 then f else fseek (nat p) f)"

definition oseama_min :: "nat \<Rightarrow> nat \<Rightarrow> nat" where
  "oseama_min x y = (if x < y then x else y)"

definition meta_of :: "bytes \<Rightarrow> nat" where
  "meta_of h = unat (be16_dec (slice 6 2 h))"

definition image_of :: "bytes \<Rightarrow> nat" where
  "image_of h = unat (be32_dec (slice 8 4 h))"

section \<open>Info\<close>

text \<open>The loop over the meta entries in the buffer, up to its last byte, which was set to 0.\<close>

function meta_entries :: "bytes \<Rightarrow> bytes list" where
  "meta_entries b =
     (let s = takeWhile (\<lambda>c. c \<noteq> 0) b
      in if length b \<le> 1 \<or> s = [] then [] else s # meta_entries (drop (length s + 1) b))"
  by pat_completeness auto
termination
  by (relation "measure length") auto

declare meta_entries.simps [simp del]

fun oseama_info_entities :: "abi \<Rightarrow> int \<Rightarrow> nat \<Rightarrow> int \<Rightarrow> cfile \<Rightarrow> info_line list \<Rightarrow> (int \<times> info_line list) run" where
  "oseama_info_entities A entity_idx 0 i seama out = Hangs"
| "oseama_info_entities A entity_idx (Suc fuel) i seama out =
     (let (hdr, f1) = fread 28 seama; metasize = meta_of hdr; imagesize = image_of hdr
      in if length hdr \<noteq> 28 then Done (0, out)
         else if be32_dec (slice 0 4 hdr) \<noteq> OSEAMA_MAGIC then Done (-22, out)
         else if entity_idx \<ge> 0 \<and> i \<noteq> entity_idx
         then oseama_info_entities A entity_idx fuel (i + 1) (fseek_cur A (size_add A metasize imagesize) f1) out
         else if metasize \<ge> 1024 then Done (-22, out)
         else let out1 = out @ (if entity_idx < 0 then [Blank] else []) @
                    [Entity_offset (fpos f1 - 28), Entity_size (size_add A (28 + metasize) imagesize), Meta_size metasize, Image_size imagesize];
                  (b, f2) = fread metasize f1
              in if length b \<noteq> metasize then Done (-5, out1)
                 else if metasize = 0 then Crash
                 else oseama_info_entities A entity_idx fuel (i + 1) (fseek_cur A imagesize f2) (out1 @ map Meta_entry (meta_entries (b[metasize - 1 := 0]))))"

text \<open>The result of the loop is not looked at.\<close>

definition oseama_info :: "abi \<Rightarrow> int \<Rightarrow> nat \<Rightarrow> bytes option \<Rightarrow> (int \<times> info_line list) run" where
  "oseama_info A entity_idx fuel file =
     (case file of
        None \<Rightarrow> Done (-13, [])
      | Some c \<Rightarrow>
          let (hdr, f1) = fread 12 \<lparr>content = c, fpos = 0, fcap = 0\<rparr>; metasize = meta_of hdr; imagesize = image_of hdr
          in if length hdr \<noteq> 12 then Done (-5, [])
             else if be32_dec (slice 0 4 hdr) \<noteq> OSEAMA_MAGIC then Done (-22, [])
             else if metasize \<ge> 1024 then Done (-22, [])
             else if imagesize \<noteq> 0 then Done (-22, [])
             else let (b, f2) = fread metasize f1
                  in if length b \<noteq> metasize then Done (-5, [])
                     else if entity_idx < 0 \<and> metasize = 0 then Crash
                     else let out = (if entity_idx < 0 then Meta_size metasize # Image_size imagesize # map Meta_entry (meta_entries (b[metasize - 1 := 0])) else [])
                          in case oseama_info_entities A entity_idx fuel 0 f2 out of
                               Done (err, out') \<Rightarrow> Done (0, out') | Crash \<Rightarrow> Crash | Hangs \<Rightarrow> Hangs)"

section \<open>Create\<close>

function oseama_append_loop :: "abi \<Rightarrow> cfile \<Rightarrow> bytes \<Rightarrow> nat \<Rightarrow> int \<times> cfile" where
  "oseama_append_loop A seama src len =
     (if src = [] then (ssize_of A len, seama)
      else let buf = take 128 src; (n, seama') = fwrite buf seama
           in if n \<noteq> length buf then (-5, seama')
              else oseama_append_loop A seama' (drop 128 src) (size_add A len n))"
  by pat_completeness auto
termination
  by (relation "measure (\<lambda>(A, seama, src, len). length src)") auto

declare oseama_append_loop.simps [simp del]

definition oseama_entity_append_file :: "abi \<Rightarrow> otrx_env \<Rightarrow> cfile \<Rightarrow> bytes \<Rightarrow> int \<times> cfile" where
  "oseama_entity_append_file A E seama in_path =
     (case files E in_path of None \<Rightarrow> (-13, seama) | Some src \<Rightarrow> oseama_append_loop A seama src 0)"

definition oseama_entity_append_zeros :: "abi \<Rightarrow> otrx_env \<Rightarrow> cfile \<Rightarrow> nat \<Rightarrow> int \<times> cfile" where
  "oseama_entity_append_zeros A E seama len =
     (if \<not> malloc_ok E len then (-12, seama)
      else let (n, seama') = fwrite (replicate len 0) seama
           in if n \<noteq> len then (-5, seama') else (ssize_of A len, seama'))"

text \<open>The only alignment is 4.\<close>

definition oseama_entity_align :: "abi \<Rightarrow> otrx_env \<Rightarrow> cfile \<Rightarrow> nat \<Rightarrow> nat \<Rightarrow> int \<times> cfile" where
  "oseama_entity_align A E seama off alignment =
     (if off AND (alignment - 1) \<noteq> 0 then oseama_entity_append_zeros A E seama (alignment - off mod alignment) else (0, seama))"

function md5_loop :: "cfile \<Rightarrow> nat \<Rightarrow> sd_ctx \<Rightarrow> sd_ctx" where
  "md5_loop f len ctx =
     (let (buf, f') = fread (oseama_min 128 len) f in if buf = [] then ctx else md5_loop f' (len - length buf) (sd_Update ctx buf))"
  by pat_completeness auto
termination
proof (relation "measure (\<lambda>(f, len, ctx). len)", simp)
  fix f :: cfile and len :: nat and ctx :: sd_ctx and x buf f'
  assume "x = fread (oseama_min 128 len) f" "(buf, f') = x" "buf \<noteq> []"
  then have "buf = slice (fpos f) (oseama_min 128 len) (content f)" by (simp add: fread_def Let_def)
  then have "length buf \<le> len" by (auto simp: slice_def oseama_min_def)
  moreover have "0 < length buf" using \<open>buf \<noteq> []\<close> by simp
  ultimately have "len - length buf < len" by linarith
  then show "((f', len - length buf, sd_Update ctx buf), f, len, ctx) \<in> measure (\<lambda>(f, len, ctx). len)" by simp
qed

declare md5_loop.simps [simp del]

definition entity_hdr :: "nat \<Rightarrow> nat \<Rightarrow> bytes \<Rightarrow> bytes" where
  "entity_hdr metasize imagesize md5 =
     be32_enc OSEAMA_MAGIC @ [0, 0] @ rev (le16_enc (of_nat metasize)) @ be32_enc (of_nat imagesize) @ md5"

definition oseama_entity_write_hdr :: "bytes \<Rightarrow> cfile \<Rightarrow> nat \<Rightarrow> nat \<Rightarrow> int \<times> cfile" where
  "oseama_entity_write_hdr stack seama metasize imagesize =
     (let md5 = sd_Final (md5_loop (fseek (28 + metasize) seama) imagesize (sd_Init stack));
          (n, f) = fwrite (entity_hdr metasize imagesize md5) (fseek 0 seama)
      in if n \<noteq> 28 then (-5, f) else (0, f))"

record seama_st =
  q_file :: cfile
  q_offset :: nat
  q_meta :: nat
  q_image :: nat

text \<open>\<open>if (sbytes < 0) complain; else curr_offset += sbytes, metasize += sbytes\<close>, and the same for \<open>imagesize\<close>.\<close>

definition count_meta :: "abi \<Rightarrow> int \<times> cfile \<Rightarrow> seama_st \<Rightarrow> seama_st" where
  "count_meta A r s =
     (let s' = s\<lparr>q_file := snd r\<rparr>
      in if fst r < 0 then s' else s'\<lparr>q_offset := size_add A (q_offset s) (nat (fst r)), q_meta := size_add A (q_meta s) (nat (fst r))\<rparr>)"

definition count_image :: "abi \<Rightarrow> int \<times> cfile \<Rightarrow> seama_st \<Rightarrow> seama_st" where
  "count_image A r s =
     (let s' = s\<lparr>q_file := snd r\<rparr>
      in if fst r < 0 then s' else s'\<lparr>q_offset := size_add A (q_offset s) (nat (fst r)), q_image := size_add A (q_image s) (nat (fst r))\<rparr>)"

definition meta_option :: "abi \<Rightarrow> otrx_env \<Rightarrow> byte \<times> bytes \<Rightarrow> seama_st \<Rightarrow> seama_st" where
  "meta_option A E opt s =
     (let (c, optarg) = opt
      in if c = 109
         then let (n, f) = fwrite (optarg @ [0]) (q_file s); s1 = count_meta A (ssize_of A n, f) s
              in count_meta A (oseama_entity_align A E (q_file s1) (q_offset s1) 4) s1
         else s)"

definition data_option :: "abi \<Rightarrow> otrx_env \<Rightarrow> byte \<times> bytes \<Rightarrow> seama_st \<Rightarrow> seama_st" where
  "data_option A E opt s =
     (let (c, optarg) = opt
      in if c = 102 then count_image A (oseama_entity_append_file A E (q_file s) optarg) s
         else if c = 98
         then let sbytes = ssize_of A (size_sub A (size_of_int A (strtol A 0 optarg)) (q_offset s))
              in if sbytes < 0 then s else count_image A (oseama_entity_append_zeros A E (q_file s) (nat sbytes)) s
         else s)"

text \<open>The options are read twice. The result of \<open>oseama_entity_write_hdr\<close> is not looked at.\<close>

definition oseama_entity :: "abi \<Rightarrow> otrx_env \<Rightarrow> bytes \<Rightarrow> (byte \<times> bytes) list \<Rightarrow> int \<times> bytes" where
  "oseama_entity A E stack opts =
     (let s0 = \<lparr>q_file = fseek 28 \<lparr>content = [], fpos = 0, fcap = disk E\<rparr>, q_offset = 28, q_meta = 0, q_image = 0\<rparr>;
          s = fold (data_option A E) opts (fold (meta_option A E) opts s0)
      in (0, content (snd (oseama_entity_write_hdr stack (q_file s) (q_meta s) (q_image s)))))"

section \<open>Extract\<close>

function extract_copy :: "cfile \<Rightarrow> cfile \<Rightarrow> nat \<Rightarrow> int \<times> nat \<times> cfile" where
  "extract_copy seama out len =
     (let (buf, seama') = fread (oseama_min 1024 len) seama
      in if buf = [] then (0, len, out)
         else let (n, out') = fwrite buf out
              in if n \<noteq> length buf then (-5, len, out') else extract_copy seama' out' (len - length buf))"
  by pat_completeness auto
termination
proof (relation "measure (\<lambda>(seama, out, len). len)", simp)
  fix seama out :: cfile and len n :: nat and x buf seama' y out'
  assume "x = fread (oseama_min 1024 len) seama" "(buf, seama') = x" "buf \<noteq> []"
  then have "buf = slice (fpos seama) (oseama_min 1024 len) (content seama)" by (simp add: fread_def Let_def)
  then have "length buf \<le> len" by (auto simp: slice_def oseama_min_def)
  moreover have "0 < length buf" using \<open>buf \<noteq> []\<close> by simp
  ultimately have "len - length buf < len" by linarith
  then show "((seama', out', len - length buf), seama, out, len) \<in> measure (\<lambda>(seama, out, len). len)" by simp
qed

declare extract_copy.simps [simp del]

fun oseama_extract_entity :: "abi \<Rightarrow> int \<Rightarrow> nat \<Rightarrow> int \<Rightarrow> cfile \<Rightarrow> cfile \<Rightarrow> (int \<times> cfile) run" where
  "oseama_extract_entity A entity_idx 0 i seama out = Hangs"
| "oseama_extract_entity A entity_idx (Suc fuel) i seama out =
     (let (hdr, f1) = fread 28 seama; metasize = meta_of hdr; imagesize = image_of hdr
      in if length hdr \<noteq> 28 then Done (0, out)
         else if be32_dec (slice 0 4 hdr) \<noteq> OSEAMA_MAGIC then Done (-22, out)
         else if i \<noteq> entity_idx then oseama_extract_entity A entity_idx fuel (i + 1) (fseek_cur A (size_add A metasize imagesize) f1) out
         else let (err, len, out') = extract_copy (fseek (fpos f1 - 28) f1) out (size_add A (28 + metasize) imagesize)
              in Done (if len \<noteq> 0 then -5 else err, out'))"

text \<open>The output file is emptied before the header is read, also if it is the Seama file itself. The seal's magic number is not looked at, nor is the result of the loop.
  \<open>Done (status, Some c)\<close>: the output file was opened, and holds \<open>c\<close>.\<close>

definition oseama_extract :: "abi \<Rightarrow> otrx_env \<Rightarrow> int \<Rightarrow> nat \<Rightarrow> bytes \<Rightarrow> bytes option \<Rightarrow> (int \<times> bytes option) run" where
  "oseama_extract A E entity_idx fuel seama_path out_path =
     (if entity_idx < 0 then Done (-22, None)
      else case out_path of
          None \<Rightarrow> Done (-22, None)
        | Some op \<Rightarrow>
            (case files E seama_path of
               None \<Rightarrow> Done (-13, None)
             | Some c \<Rightarrow>
                 let (hdr, f1) = fread 12 \<lparr>content = (if op = seama_path then [] else c), fpos = 0, fcap = 0\<rparr>
                 in if length hdr \<noteq> 12 then Done (-5, Some [])
                    else case oseama_extract_entity A entity_idx fuel 0 (fseek_cur A (meta_of hdr) f1) \<lparr>content = [], fpos = 0, fcap = disk E\<rparr> of
                        Done (err, out) \<Rightarrow> Done (0, Some (content out)) | Crash \<Rightarrow> Crash | Hangs \<Rightarrow> Hangs))"

section \<open>The program\<close>

text \<open>The options, as \<open>getopt\<close> gives them: the last one of a kind counts.\<close>

fun last_arg :: "byte \<Rightarrow> (byte \<times> bytes) list \<Rightarrow> bytes option \<Rightarrow> bytes option" where
  "last_arg c [] d = d"
| "last_arg c ((o1, arg) # opts) d = last_arg c opts (if o1 = c then Some arg else d)"

definition entity_arg :: "abi \<Rightarrow> (byte \<times> bytes) list \<Rightarrow> int" where
  "entity_arg A opts = (case last_arg 101 opts None of None \<Rightarrow> -1 | Some s \<Rightarrow> atoi A s)"

text \<open>The exit status, what is printed and the files. Whether a file can be opened for writing is up to \<open>writable\<close>.\<close>

definition oseama_main :: "abi \<Rightarrow> otrx_env \<Rightarrow> (bytes \<Rightarrow> bool) \<Rightarrow> bytes \<Rightarrow> nat \<Rightarrow> bytes list \<Rightarrow> (byte \<times> bytes) list
    \<Rightarrow> (int \<times> info_line list \<times> (bytes \<rightharpoonup> bytes)) run" where
  "oseama_main A E writable stack fuel args opts =
     (case args of
        [] \<Rightarrow> Done (0, [], files E)
      | [cmd] \<Rightarrow> Done (if cmd \<in> {lit ''info'', lit ''entity'', lit ''extract''} then -22 else 0, [], files E)
      | cmd # path # _ \<Rightarrow>
          if cmd = lit ''info''
          then (case oseama_info A (entity_arg A opts) fuel (files E path) of
                  Done (err, out) \<Rightarrow> Done (err, out, files E) | Crash \<Rightarrow> Crash | Hangs \<Rightarrow> Hangs)
          else if cmd = lit ''entity''
          then if \<not> writable path then Done (-13, [], files E)
               else let (err, c) = oseama_entity A E stack opts in Done (err, [], (files E)(path \<mapsto> c))
          else if cmd = lit ''extract''
          then (case last_arg 111 opts None of
                  Some op \<Rightarrow>
                    if 0 \<le> entity_arg A opts \<and> files E path \<noteq> None \<and> \<not> writable op then Done (-13, [], files E)
                    else (case oseama_extract A E (entity_arg A opts) fuel path (Some op) of
                            Done (err, c) \<Rightarrow> Done (err, [], case c of None \<Rightarrow> files E | Some b \<Rightarrow> (files E)(op \<mapsto> b))
                          | Crash \<Rightarrow> Crash | Hangs \<Rightarrow> Hangs)
                | None \<Rightarrow> Done (-22, [], files E))
          else Done (0, [], files E))"

section \<open>What an entity holds\<close>

definition pad_meta :: "bytes \<Rightarrow> bytes" where
  "pad_meta s = s @ 0 # replicate (3 - length s mod 4) 0"

definition entity_meta :: "(byte \<times> bytes) list \<Rightarrow> bytes" where
  "entity_meta opts = concat (map (\<lambda>(c, s). if c = 109 then pad_meta s else []) opts)"

text \<open>What an option adds to the image, given the length of the entity so far.\<close>

definition image_part :: "abi \<Rightarrow> otrx_env \<Rightarrow> nat \<Rightarrow> byte \<times> bytes \<Rightarrow> bytes" where
  "image_part A E off opt =
     (let (c, s) = opt
      in if c = 102 then (case files E s of None \<Rightarrow> [] | Some b \<Rightarrow> b)
         else if c = 98 then replicate (nat (strtol A 0 s - int off)) 0 else [])"

fun entity_image :: "abi \<Rightarrow> otrx_env \<Rightarrow> nat \<Rightarrow> (byte \<times> bytes) list \<Rightarrow> bytes" where
  "entity_image A E off [] = []"
| "entity_image A E off (opt # opts) = (let b = image_part A E off opt in b @ entity_image A E (off + length b) opts)"

definition seama_entity :: "bytes \<Rightarrow> bytes \<Rightarrow> bytes" where
  "seama_entity meta img = entity_hdr (length meta) (length img) (md5_ref img) @ meta @ img"

section \<open>Creating an entity\<close>

definition seama_inv :: "otrx_env \<Rightarrow> seama_st \<Rightarrow> bytes \<Rightarrow> bytes \<Rightarrow> bool" where
  "seama_inv E s meta img \<longleftrightarrow> stream_ok (q_file s) \<and> fcap (q_file s) = disk E \<and> body (q_file s) = replicate 28 0 @ meta @ img \<and>
     q_offset s = 28 + length meta + length img \<and> q_meta s = length meta \<and> q_image s = length img"

lemma ssize_31: "n < 2 ^ 31 \<Longrightarrow> 32 \<le> ulong_bits A \<Longrightarrow> ssize_of A n = int n"
  using ssize_small [of n A] size_add_31 [of n 0 A] by (simp add: size_add_def)

lemma append_loop_128:
  "\<lbrakk>stream_ok f; fpos f + length src \<le> fcap f; n + length src < 2 ^ 31; 32 \<le> ulong_bits A\<rbrakk> \<Longrightarrow>
   \<exists>f'. oseama_append_loop A f src n = (int (n + length src), f') \<and> stream_ok f' \<and> fcap f' = fcap f \<and> body f' = body f @ src"
proof (induction A f src n rule: oseama_append_loop.induct)
  case (1 A f src n)
  note step = oseama_append_loop.simps [of A f src n]
  show ?case
  proof (cases "src = []")
    case True
    have "ssize_of A n = int n" using 1(4,5) True by (simp add: ssize_31)
    then show ?thesis using 1(2) True by (simp add: oseama_append_loop.simps [of A f "[]" n])
  next
    case False
    let ?b = "take 128 src"
    have fits: "fpos f + length ?b \<le> fcap f" using 1(3) by simp
    obtain k f1 where k: "fwrite ?b f = (k, f1)" by force
    have w: "k = length ?b" "body f1 = body f @ ?b" "stream_ok f1" using fwrite_body [OF 1(2) fits] k by simp_all
    have cap: "fcap f1 = fcap f" using fwrite_frame(1) [of ?b f] k by simp
    have pos: "fpos f1 = fpos f + length ?b" using w 1(2) by (simp add: stream_ok_def)
    have add: "size_add A n k = n + length ?b" using 1(4,5) w(1) by (intro size_add_31 [THEN trans]) auto
    have "length ?b + length (drop 128 src) = length src" by simp
    then have room: "fpos f1 + length (drop 128 src) \<le> fcap f1" "size_add A n k + length (drop 128 src) < 2 ^ 31"
      using pos cap add 1(3,4) by linarith+
    obtain f' where f': "oseama_append_loop A f1 (drop 128 src) (size_add A n k) = (int (size_add A n k + length (drop 128 src)), f')" "stream_ok f'" "fcap f' = fcap f1"
        "body f' = body f1 @ drop 128 src"
      using 1(1) [OF False refl k [symmetric] refl w(1) [THEN not_not [THEN iffD2]] w(3) room 1(5)] by blast
    have "size_add A n k + length (drop 128 src) = n + length src" using add by simp
    moreover have "oseama_append_loop A f src n = oseama_append_loop A f1 (drop 128 src) (size_add A n k)" using False k w(1) by (simp add: step)
    ultimately show ?thesis using f' w(2) cap by auto
  qed
qed

lemma append_zeros_128:
  assumes "stream_ok f" "fpos f + n \<le> fcap f" "n < 2 ^ 31" "32 \<le> ulong_bits A" "malloc_ok E n"
  shows "\<exists>f'. oseama_entity_append_zeros A E f n = (int n, f') \<and> stream_ok f' \<and> fcap f' = fcap f \<and> body f' = body f @ replicate n 0"
proof -
  obtain k f1 where k: "fwrite (replicate n 0) f = (k, f1)" by force
  have "k = n" "body f1 = body f @ replicate n 0" "stream_ok f1" using fwrite_body [OF assms(1), of "replicate n 0"] assms(2) k by simp_all
  moreover have "ssize_of A n = int n" using ssize_31 [OF assms(3,4)] .
  ultimately show ?thesis using k assms(5) fwrite_frame(1) [of "replicate n 0" f] by (simp add: oseama_entity_append_zeros_def)
qed

lemma count_inv:
  assumes "seama_inv E s meta img" "32 \<le> ulong_bits A" "28 + length meta + length img + length b < 2 ^ 31"
    and "stream_ok f'" "fcap f' = disk E" "body f' = body (q_file s) @ b"
  shows "img = [] \<Longrightarrow> seama_inv E (count_meta A (int (length b), f') s) (meta @ b) []"
    and "seama_inv E (count_image A (int (length b), f') s) meta (img @ b)"
proof -
  have "size_add A (q_offset s) (length b) = q_offset s + length b" "size_add A (q_meta s) (length b) = q_meta s + length b"
    "size_add A (q_image s) (length b) = q_image s + length b"
    using assms(1-3) by (auto simp: seama_inv_def intro!: size_add_31)
  then show "img = [] \<Longrightarrow> seama_inv E (count_meta A (int (length b), f') s) (meta @ b) []" "seama_inv E (count_image A (int (length b), f') s) meta (img @ b)"
    using assms by (simp_all add: seama_inv_def count_meta_def count_image_def)
qed

lemma seama_inv_room: "seama_inv E s meta img \<Longrightarrow> stream_ok (q_file s) \<and> fcap (q_file s) = disk E \<and> fpos (q_file s) = 28 + length meta + length img"
  by (auto simp: seama_inv_def stream_ok_def)

lemma and_3: "n AND 3 = n mod (4 :: nat)"
proof -
  have "(3 :: nat) = mask 2" by (simp add: mask_eq_exp_minus_1)
  then have "n AND 3 = take_bit 2 n" by (simp only: take_bit_eq_mask)
  then show ?thesis by (simp add: take_bit_eq_mod)
qed

lemma meta_option_inv:
  assumes inv: "seama_inv E s meta []" and al: "length meta mod 4 = 0" and w: "32 \<le> ulong_bits A" and m: "\<And>n. malloc_ok E n"
    and fits: "28 + length meta + length (entity_meta [opt]) < 2 ^ 31" "28 + length meta + length (entity_meta [opt]) \<le> disk E"
  shows "seama_inv E (meta_option A E opt s) (meta @ entity_meta [opt]) []"
proof -
  obtain c arg where opt: "opt = (c, arg)" by force
  show ?thesis
  proof (cases "c = 109")
    case False
    then show ?thesis using inv by (simp add: meta_option_def opt entity_meta_def)
  next
    case True
    define z where "z = 3 - length arg mod 4"
    let ?b = "arg @ [0]" and ?z = z
    have em: "entity_meta [opt] = ?b @ replicate ?z 0" using True by (simp add: entity_meta_def opt pad_meta_def z_def)
    note r = seama_inv_room [OF inv]
    obtain k f1 where k: "fwrite ?b (q_file s) = (k, f1)" by force
    have f1: "k = length ?b" "body f1 = body (q_file s) @ ?b" "stream_ok f1" "fcap f1 = disk E"
      using fwrite_body [of "q_file s" ?b] fwrite_frame(1) [of ?b "q_file s"] k r fits(2) em by simp_all
    have k31: "ssize_of A k = int (length ?b)" using f1(1) fits(1) em w by (simp add: ssize_31)
    define s1 where "s1 = count_meta A (ssize_of A k, f1) s"
    have inv1: "seama_inv E s1 (meta @ ?b) []" unfolding s1_def k31 using fits(1) em f1 w by (intro count_inv(1) [OF inv]) simp_all
    have q4: "q_offset s1 mod 4 = (length arg + 1) mod 4"
    proof -
      have "q_offset s1 = 29 + length meta + length arg" using inv1 by (simp add: seama_inv_def)
      then show ?thesis using al by presburger
    qed
    have off: "q_offset s1 AND (4 - 1) = (length arg + 1) mod 4" using q4 and_3 [of "q_offset s1"] by simp
    have opt_s: "meta_option A E opt s = count_meta A (oseama_entity_align A E (q_file s1) (q_offset s1) 4) s1"
      using True k by (simp add: meta_option_def opt s1_def Let_def)
    show ?thesis
    proof (cases "(length arg + 1) mod 4 = 0")
      case z: True
      then have "?z = 0" unfolding z_def by presburger
      moreover have "seama_inv E (count_meta A (int (length ([] :: bytes)), q_file s1) s1) ((meta @ ?b) @ []) []"
        using inv1 fits(1) em w seama_inv_room [OF inv1] by (intro count_inv(1) [OF inv1]) simp_all
      ultimately show ?thesis using off z em by (simp add: opt_s oseama_entity_align_def)
    next
      case z: False
      have zz: "4 - q_offset s1 mod 4 = ?z" unfolding q4 z_def using z by presburger
      obtain f2 where f2: "oseama_entity_append_zeros A E (q_file s1) ?z = (int ?z, f2)" "stream_ok f2" "fcap f2 = fcap (q_file s1)"
        "body f2 = body (q_file s1) @ replicate ?z 0"
        using append_zeros_128 [of "q_file s1" ?z A E] seama_inv_room [OF inv1] fits em w m by auto
      have "seama_inv E (count_meta A (int (length (replicate ?z (0 :: byte))), f2) s1) ((meta @ ?b) @ replicate ?z 0) []"
        using f2 seama_inv_room [OF inv1] fits(1) em w by (intro count_inv(1) [OF inv1]) simp_all
      then show ?thesis using off z f2(1) em by (simp add: opt_s oseama_entity_align_def zz)
    qed
  qed
qed

lemma entity_meta_aligned: "length (entity_meta opts) mod 4 = 0"
proof -
  have "length (pad_meta s) mod 4 = 0" for s :: bytes unfolding pad_meta_def by simp presburger
  then show ?thesis by (induction opts) (auto simp: entity_meta_def mod_add_eq [symmetric])
qed

lemma entity_meta_Cons: "entity_meta (opt # opts) = entity_meta [opt] @ entity_meta opts"
  by (simp add: entity_meta_def)

lemma meta_options_inv:
  assumes "seama_inv E s meta []" "length meta mod 4 = 0" "32 \<le> ulong_bits A" "\<And>n. malloc_ok E n"
    and "28 + length meta + length (entity_meta opts) < 2 ^ 31" "28 + length meta + length (entity_meta opts) \<le> disk E"
  shows "seama_inv E (fold (meta_option A E) opts s) (meta @ entity_meta opts) []"
  using assms
proof (induction opts arbitrary: s meta)
  case Nil
  then show ?case by (simp add: entity_meta_def)
next
  case (Cons opt opts)
  have l: "length (entity_meta (opt # opts)) = length (entity_meta [opt]) + length (entity_meta opts)" by (subst entity_meta_Cons) simp
  have fits: "28 + length meta + length (entity_meta [opt]) < 2 ^ 31" "28 + length meta + length (entity_meta [opt]) \<le> disk E"
    using Cons.prems(5,6) l by linarith+
  have inv: "seama_inv E (meta_option A E opt s) (meta @ entity_meta [opt]) []"
    using Cons.prems(1-4) fits by (intro meta_option_inv) simp_all
  have al: "length (meta @ entity_meta [opt]) mod 4 = 0"
    using Cons.prems(2) entity_meta_aligned [of "[opt]"] by (simp only: length_append) presburger
  have "28 + length (meta @ entity_meta [opt]) + length (entity_meta opts) = 28 + length meta + length (entity_meta (opt # opts))"
    using l by simp
  then have "seama_inv E (fold (meta_option A E) opts (meta_option A E opt s)) ((meta @ entity_meta [opt]) @ entity_meta opts) []"
    using Cons.prems by (intro Cons.IH [OF inv al]) simp_all
  then show ?case by (subst entity_meta_Cons) simp
qed

lemma pad_bytes:
  assumes "0 \<le> v" "v < 2 ^ (ulong_bits A - 1)" "q < 2 ^ 31" "32 \<le> ulong_bits A"
  shows "ssize_of A (size_sub A (size_of_int A v) q) = v - int q"
proof -
  define B :: nat where "B = 2 ^ (ulong_bits A - 1)"
  have B: "2 ^ ulong_bits A = 2 * B" unfolding B_def using assms(4) by (cases "ulong_bits A") auto
  have "(2 :: nat) ^ 31 \<le> B" unfolding B_def using assms(4) by (intro power_increasing) auto
  then have q: "q < B" using assms(3) by linarith
  have vB: "nat v < B" unfolding B_def using assms(1,2) by (simp add: nat_less_iff)
  have sv: "size_of_int A v = nat v"
  proof -
    have "(2 :: int) ^ (ulong_bits A - 1) \<le> 2 ^ ulong_bits A" by (intro power_increasing) auto
    then have "v < 2 ^ ulong_bits A" using assms(2) by linarith
    then show ?thesis using assms(1) by (simp add: size_of_int_def)
  qed
  have iB: "int (2 ^ ulong_bits A) = 2 * int B" by (simp add: B)
  then have iB': "(2 :: int) ^ ulong_bits A = 2 * int B" by simp
  show ?thesis
  proof (cases "q \<le> nat v")
    case True
    then have "size_sub A (nat v) q = nat v - q" using vB by (intro size_sub_small) (simp_all add: B)
    moreover have "nat v - q < B" using vB by linarith
    then have "ssize_of A (nat v - q) = int (nat v - q)" unfolding ssize_of_def B_def [symmetric] by simp
    ultimately show ?thesis using sv True assms(1) by simp
  next
    case False
    have "q mod (2 * B) = q" using q by simp
    then have "size_sub A (nat v) q = (nat v + (2 * B - q)) mod (2 * B)" by (simp add: size_sub_def B)
    also have "\<dots> = nat v + (2 * B - q)" using False q by simp
    finally have s: "size_sub A (nat v) q = nat v + (2 * B - q)" .
    have "\<not> nat v + (2 * B - q) < B" using q by linarith
    then have "ssize_of A (nat v + (2 * B - q)) = int (nat v + (2 * B - q)) - 2 * int B" unfolding ssize_of_def B_def [symmetric] iB' by simp
    also have "\<dots> = v - int q" using q assms(1) by simp
    finally show ?thesis using sv s by simp
  qed
qed

lemma strtol_below: "strtol A 0 s < 2 ^ (ulong_bits A - 1)"
proof -
  define T :: int where "T = 2 ^ (ulong_bits A - 1)"
  have "0 < T" by (simp add: T_def)
  then have "max (- T) (- int v) < T" "min (T - 1) w < T" for v w by auto
  then show ?thesis unfolding strtol_def Let_def T_def [symmetric] by (simp split: prod.split)
qed

lemma data_option_inv:
  assumes inv: "seama_inv E s meta img" and w: "32 \<le> ulong_bits A" and m: "\<And>n. malloc_ok E n"
    and off: "off = 28 + length meta + length img" and pos: "fst opt = 98 \<Longrightarrow> 0 \<le> strtol A 0 (snd opt)"
    and fits: "off + length (image_part A E off opt) < 2 ^ 31" "off + length (image_part A E off opt) \<le> disk E"
  shows "seama_inv E (data_option A E opt s) meta (img @ image_part A E off opt)"
proof -
  obtain c arg where opt: "opt = (c, arg)" by force
  note r = seama_inv_room [OF inv]
  consider (f) src where "c = 102" "files E arg = Some src" | (none) "c = 102" "files E arg = None" | (b) "c = 98" | (other) "c \<noteq> 102" "c \<noteq> 98"
    by (cases "files E arg") auto
  then show ?thesis
  proof cases
    case f
    then have p: "image_part A E off opt = src" by (simp add: image_part_def opt)
    obtain f' where f': "oseama_append_loop A (q_file s) src 0 = (int (0 + length src), f')" "stream_ok f'" "fcap f' = fcap (q_file s)" "body f' = body (q_file s) @ src"
      using append_loop_128 [of "q_file s" src 0 A] r w fits p off by auto
    have "seama_inv E (count_image A (int (length src), f') s) meta (img @ src)"
      using f' r fits(1) p off w by (intro count_inv(2) [OF inv]) simp_all
    then show ?thesis using f f' p by (simp add: data_option_def opt oseama_entity_append_file_def)
  next
    case none
    then show ?thesis using inv by (simp add: data_option_def opt oseama_entity_append_file_def image_part_def count_image_def)
  next
    case b
    have sb: "ssize_of A (size_sub A (size_of_int A (strtol A 0 arg)) (q_offset s)) = strtol A 0 arg - int off"
      using pos b opt strtol_below fits(1) inv off w by (subst pad_bytes) (auto simp: seama_inv_def)
    have p: "image_part A E off opt = replicate (nat (strtol A 0 arg - int off)) 0" using b by (simp add: image_part_def opt)
    show ?thesis
    proof (cases "strtol A 0 arg < int off")
      case True
      then show ?thesis using b sb inv p by (simp add: data_option_def opt)
    next
      case False
      define z where "z = nat (strtol A 0 arg - int off)"
      obtain f' where f': "oseama_entity_append_zeros A E (q_file s) z = (int z, f')" "stream_ok f'" "fcap f' = fcap (q_file s)" "body f' = body (q_file s) @ replicate z 0"
        using append_zeros_128 [of "q_file s" z A E] r w fits p off m z_def by auto
      have "seama_inv E (count_image A (int (length (replicate z (0 :: byte))), f') s) meta (img @ replicate z 0)"
        using f' r fits(1) p off w z_def by (intro count_inv(2) [OF inv]) simp_all
      moreover have "data_option A E opt s = count_image A (int z, f') s"
        using b False f' by (simp add: data_option_def opt sb z_def [symmetric])
      ultimately show ?thesis using p z_def by simp
    qed
  next
    case other
    then show ?thesis using inv by (simp add: data_option_def opt image_part_def)
  qed
qed

lemma data_options_inv:
  assumes "seama_inv E s meta img" "32 \<le> ulong_bits A" "\<And>n. malloc_ok E n" "off = 28 + length meta + length img"
    and "\<forall>opt\<in>set opts. fst opt = 98 \<longrightarrow> 0 \<le> strtol A 0 (snd opt)"
    and "off + length (entity_image A E off opts) < 2 ^ 31" "off + length (entity_image A E off opts) \<le> disk E"
  shows "seama_inv E (fold (data_option A E) opts s) meta (img @ entity_image A E off opts)"
  using assms
proof (induction opts arbitrary: s img off)
  case Nil
  then show ?case by simp
next
  case (Cons opt opts)
  let ?b = "image_part A E off opt" and ?off = "off + length (image_part A E off opt)"
  have e: "entity_image A E off (opt # opts) = ?b @ entity_image A E ?off opts" by (simp add: Let_def)
  have inv: "seama_inv E (data_option A E opt s) meta (img @ ?b)" using Cons.prems e by (intro data_option_inv) auto
  have "seama_inv E (fold (data_option A E) opts (data_option A E opt s)) meta ((img @ ?b) @ entity_image A E ?off opts)"
    using Cons.prems e by (intro Cons.IH [OF inv]) auto
  then show ?case using e by simp
qed

lemma md5_loop_holds: "sd_holds ctx m \<Longrightarrow> sd_holds (md5_loop f len ctx) (m @ slice (fpos f) len (content f))"
proof (induction f len ctx arbitrary: m rule: md5_loop.induct)
  case (1 f len ctx)
  let ?buf = "slice (fpos f) (oseama_min 128 len) (content f)"
  obtain f' where r: "fread (oseama_min 128 len) f = (?buf, f')" "fpos f' = fpos f + length ?buf" "content f' = content f"
    by (auto simp: fread_def Let_def)
  have le: "oseama_min 128 len \<le> len" by (simp add: oseama_min_def)
  show ?case
  proof (cases "?buf = []")
    case True
    then have "slice (fpos f) len (content f) = []"
      by (auto simp: slice_def oseama_min_def split: if_splits)
    then show ?thesis using 1(2) True r by (simp add: md5_loop.simps [of f len ctx])
  next
    case False
    have "sd_holds (md5_loop f' (len - length ?buf) (sd_Update ctx ?buf)) ((m @ ?buf) @ slice (fpos f') (len - length ?buf) (content f'))"
      using 1(1) [OF r(1) [symmetric] refl False sd_Update_holds [OF 1(2)]] .
    then show ?thesis using False r slice_read [OF le, of "fpos f" "content f"] by (simp add: md5_loop.simps [of f len ctx])
  qed
qed

lemma entity_hdr_length: "length md5 = 16 \<Longrightarrow> length (entity_hdr m n md5) = 28"
  by (simp add: entity_hdr_def le16_enc_def)

lemma write_hdr_entity:
  assumes inv: "seama_inv E s meta img" and stack: "length stack = 64" and room: "28 \<le> disk E"
  shows "content (snd (oseama_entity_write_hdr stack (q_file s) (q_meta s) (q_image s))) = seama_entity meta img"
proof -
  let ?f = "q_file s"
  have f: "body ?f = replicate 28 0 @ meta @ img" "fcap ?f = disk E" "q_meta s = length meta" "q_image s = length img" using inv by (simp_all add: seama_inv_def)
  have sl: "slice (28 + length meta) (length img) (content ?f) = img"
    using f(1) by (cases "content ?f = []") (auto simp: body_def slice_def hdr_size_def)
  have "sd_holds (md5_loop (fseek (28 + length meta) ?f) (length img) (sd_Init stack)) img"
    using md5_loop_holds [OF sd_Init_holds [OF stack], of "fseek (28 + length meta) ?f" "length img"] sl by simp
  then have md5: "sd_Final (md5_loop (fseek (28 + length meta) ?f) (length img) (sd_Init stack)) = md5_ref img" by (rule sd_Final_ref)
  let ?h = "entity_hdr (length meta) (length img) (md5_ref img)"
  have lh: "length ?h = 28" by (simp add: entity_hdr_length)
  have "fwrite ?h (fseek 0 ?f) = (28, snd (fwrite ?h (fseek 0 ?f)))" "content (snd (fwrite ?h (fseek 0 ?f))) = ?h @ meta @ img"
  proof -
    have "content ?f = [] \<Longrightarrow> meta @ img = []" using f(1) by (auto simp: body_def hdr_size_def dest: arg_cong [of _ _ length])
    moreover have "content ?f \<noteq> [] \<Longrightarrow> content ?f = replicate 28 0 @ meta @ img" using f(1) by (simp add: body_def)
    ultimately show "fwrite ?h (fseek 0 ?f) = (28, snd (fwrite ?h (fseek 0 ?f)))" "content (snd (fwrite ?h (fseek 0 ?f))) = ?h @ meta @ img"
      using room f(2) lh by (cases "content ?f = []"; auto simp: fwrite_def Let_def put_def min_def)+
  qed
  then show ?thesis by (simp add: oseama_entity_write_hdr_def f md5 seama_entity_def Let_def case_prod_beta)
qed

lemma oseama_entity_layout:
  assumes "32 \<le> ulong_bits A" "\<And>n. malloc_ok E n" "length stack = 64" "meta = entity_meta opts" "img = entity_image A E (28 + length meta) opts"
    and "\<forall>opt\<in>set opts. fst opt = 98 \<longrightarrow> 0 \<le> strtol A 0 (snd opt)"
    and "28 + length meta + length img < 2 ^ 31" "28 + length meta + length img \<le> disk E"
  shows "oseama_entity A E stack opts = (0, seama_entity meta img)"
proof -
  let ?s = "\<lparr>q_file = fseek 28 \<lparr>content = [], fpos = 0, fcap = disk E\<rparr>, q_offset = 28, q_meta = 0, q_image = 0\<rparr>"
  have "seama_inv E ?s [] []" by (simp add: seama_inv_def stream_ok_def body_def hdr_size_def)
  then have "seama_inv E (fold (meta_option A E) opts ?s) ([] @ entity_meta opts) []"
    using assms by (intro meta_options_inv) simp_all
  then have "seama_inv E (fold (data_option A E) opts (fold (meta_option A E) opts ?s)) meta ([] @ entity_image A E (28 + length meta) opts)"
    using assms by (intro data_options_inv) simp_all
  from write_hdr_entity [OF this assms(3)] show ?thesis using assms(5,8) by (simp add: oseama_entity_def)
qed

section \<open>Walking over entities\<close>

lemma slice_of_drop: "drop p c = x @ r \<Longrightarrow> n \<le> length x \<Longrightarrow> slice p n c = take n x"
  by (simp add: slice_def)

lemma entity_fields:
  assumes "length m < 2 ^ 16" "length g < 2 ^ 32" "h = take 28 (seama_entity m g @ r)"
  shows "length h = 28" "be32_dec (slice 0 4 h) = OSEAMA_MAGIC" "meta_of h = length m" "image_of h = length g"
proof -
  let ?H = "entity_hdr (length m) (length g) (md5_ref g)"
  have h: "h = ?H" using assms(3) by (simp add: seama_entity_def entity_hdr_length)
  show "length h = 28" by (simp add: h entity_hdr_length)
  show "be32_dec (slice 0 4 h) = OSEAMA_MAGIC" by (simp add: h entity_hdr_def slice_def)
  have "slice 6 2 h = rev (le16_enc (of_nat (length m)))" by (simp add: h entity_hdr_def slice_def le16_enc_def)
  then show "meta_of h = length m" using assms(1) by (simp add: meta_of_def be16_dec_def unsigned_of_nat take_bit_eq_mod)
  have "slice 8 4 h = be32_enc (of_nat (length g))" by (simp add: h entity_hdr_def slice_def le16_enc_def)
  then show "image_of h = length g" using assms(2) by (simp add: image_of_def unsigned_of_nat take_bit_eq_mod)
qed

lemma seama_entity_length: "length (seama_entity m g) = 28 + length m + length g"
  by (simp add: seama_entity_def entity_hdr_length)

lemma fread_entity:
  assumes "drop (fpos f) (content f) = seama_entity m g @ r"
  shows "fread 28 f = (take 28 (seama_entity m g @ r), f\<lparr>fpos := fpos f + 28\<rparr>)"
  using assms by (simp add: fread_def Let_def slice_def seama_entity_length)

definition small_entity :: "bytes \<times> bytes \<Rightarrow> bool" where
  "small_entity e \<longleftrightarrow> length (fst e) < 2 ^ 16 \<and> 28 + length (fst e) + length (snd e) < 2 ^ 31"

lemma skip_entity:
  assumes "drop (fpos f) (content f) = seama_entity m g @ r" "small_entity (m, g)" "32 \<le> ulong_bits A"
    and "f' = fseek_cur A (size_add A (length m) (length g)) (f\<lparr>fpos := fpos f + 28\<rparr>)"
  shows "drop (fpos f') (content f') = r" "content f' = content f" "fpos f' = fpos f + length (seama_entity m g)"
proof -
  have "size_add A (length m) (length g) = length m + length g" "ssize_of A (length m + length g) = int (length m + length g)"
    using assms(2,3) size_add_31 [of "length m" "length g" A] ssize_31 [of "length m + length g" A] by (simp_all add: small_entity_def)
  then have f': "f' = f\<lparr>fpos := fpos f + length (seama_entity m g)\<rparr>" using assms(4) by (simp add: fseek_cur_def Let_def fseek_def seama_entity_length nat_add_distrib)
  then show "content f' = content f" "fpos f' = fpos f + length (seama_entity m g)" by simp_all
  have "drop (length (seama_entity m g)) (drop (fpos f) (content f)) = r" by (simp add: assms(1))
  then show "drop (fpos f') (content f') = r" using f' by (simp add: add.commute)
qed

section \<open>Extracting\<close>

lemma extract_copy_all:
  "\<lbrakk>fpos seama + len \<le> length (content seama); fpos out = length (content out); fpos out + len \<le> fcap out\<rbrakk> \<Longrightarrow>
   \<exists>out'. extract_copy seama out len = (0, 0, out') \<and> content out' = content out @ slice (fpos seama) len (content seama)"
proof (induction seama out len rule: extract_copy.induct)
  case (1 seama out len)
  let ?k = "oseama_min 1024 len"
  let ?buf = "slice (fpos seama) ?k (content seama)"
  obtain s' where r: "fread ?k seama = (?buf, s')" "fpos s' = fpos seama + length ?buf" "content s' = content seama" by (auto simp: fread_def Let_def)
  have le: "?k \<le> len" by (simp add: oseama_min_def)
  then have lb: "length ?buf = ?k" using 1(2) by simp
  note step = extract_copy.simps [of seama out len]
  show ?case
  proof (cases "?buf = []")
    case True
    then have "len = 0" using lb by (auto simp: oseama_min_def split: if_splits)
    moreover have "extract_copy seama out len = (0, len, out)" using True r by (simp add: step)
    ultimately show ?thesis by (simp add: slice_def)
  next
    case False
    have w: "fwrite ?buf out = (length ?buf, out\<lparr>content := content out @ ?buf, fpos := fpos out + length ?buf\<rparr>)"
      using fwrite_append [of out ?buf] 1(3,4) False lb le by simp
    let ?out = "out\<lparr>content := content out @ ?buf, fpos := fpos out + length ?buf\<rparr>"
    obtain out' where o: "extract_copy s' ?out (len - length ?buf) = (0, 0, out')" "content out' = content ?out @ slice (fpos s') (len - length ?buf) (content s')"
      using 1(1) [OF r(1) [symmetric] refl False w [symmetric] refl] 1(2-4) r(2,3) lb le by auto
    then show ?thesis using False r w slice_read [OF le, of "fpos seama" "content seama"] by (simp add: step)
  qed
qed

lemma extract_entity_nth:
  "\<lbrakk>i < length es; i < fuel; drop (fpos f) (content f) = concat (map (\<lambda>(m, g). seama_entity m g) es) @ r; \<forall>e\<in>set es. small_entity e;
    32 \<le> ulong_bits A; fpos out = length (content out); \<forall>e\<in>set es. fpos out + 28 + length (fst e) + length (snd e) \<le> fcap out\<rbrakk> \<Longrightarrow>
   \<exists>out'. oseama_extract_entity A (k + int i) fuel k f out = Done (0, out') \<and> content out' = content out @ (case es ! i of (m, g) \<Rightarrow> seama_entity m g)"
proof (induction es arbitrary: i fuel k f)
  case (Cons e es)
  obtain m g where e: "e = (m, g)" by force
  obtain fl where fl: "fuel = Suc fl" using Cons.prems(2) by (cases fuel) auto
  let ?r = "concat (map (\<lambda>(m, g). seama_entity m g) es) @ r"
  have dr: "drop (fpos f) (content f) = seama_entity m g @ ?r" using Cons.prems(3) e by simp
  have sm: "small_entity (m, g)" using Cons.prems(4) e by simp
  then have sz: "length m < 2 ^ 16" "length g < 2 ^ 32" by (simp_all add: small_entity_def)
  note h = entity_fields [OF sz refl, of ?r]
  note rd = fread_entity [OF dr]
  show ?case
  proof (cases i)
    case 0
    have len: "size_add A (28 + length m) (length g) = 28 + length m + length g" using sm Cons.prems(5) by (intro size_add_31) (simp_all add: small_entity_def)
    have sl: "slice (fpos f) (28 + length m + length g) (content f) = seama_entity m g" using slice_of_drop [OF dr, of "28 + length m + length g"] by (simp add: seama_entity_length)
    have "length (drop (fpos f) (content f)) \<ge> 28 + length m + length g" using dr by (simp add: seama_entity_length)
    then have "fpos f + (28 + length m + length g) \<le> length (content f)" by simp
    then obtain out' where "extract_copy (fseek (fpos f) f) out (28 + length m + length g) = (0, 0, out')" "content out' = content out @ seama_entity m g"
      using extract_copy_all [of "fseek (fpos f) f" "28 + length m + length g" out] Cons.prems(6,7) e sl by (auto simp: add.assoc)
    then show ?thesis using 0 fl rd h e len by (simp add: fseek_def)
  next
    case (Suc j)
    let ?f = "fseek_cur A (size_add A (length m) (length g)) (f\<lparr>fpos := fpos f + 28\<rparr>)"
    note sk = skip_entity [OF dr sm Cons.prems(5) refl]
    have "\<exists>out'. oseama_extract_entity A ((k + 1) + int j) fl (k + 1) ?f out = Done (0, out') \<and> content out' = content out @ (case es ! j of (m, g) \<Rightarrow> seama_entity m g)"
      using Cons.prems Suc fl sk(1) by (intro Cons.IH) auto
    moreover have "oseama_extract_entity A (k + int i) fuel k f out = oseama_extract_entity A ((k + 1) + int j) fl (k + 1) ?f out"
      using fl rd h Suc by (simp add: ac_simps)
    ultimately show ?thesis using Suc by simp
  qed
qed simp

section \<open>Info\<close>

text \<open>Of the meta entries given with \<open>-m\<close>, \<open>info\<close> shows those up to the first one that is padded: the loop over the entries stops at the padding.\<close>

fun shown :: "bytes list \<Rightarrow> bytes list" where
  "shown [] = []"
| "shown (s # ss) = (if s = [] then [] else if (length s + 1) mod 4 = 0 then s # shown ss else [s])"

lemma takeWhile_zero: "0 \<notin> set s \<Longrightarrow> takeWhile (\<lambda>c. c \<noteq> 0) (s @ 0 # r) = (s :: bytes)"
  by (induction s) auto

lemma meta_entries_zero: "meta_entries (0 # r) = []"
  by (simp add: meta_entries.simps [of "0 # r"])

lemma meta_entries_shown: "\<forall>s\<in>set ss. 0 \<notin> set s \<Longrightarrow> meta_entries (concat (map pad_meta ss)) = shown ss"
proof (induction ss)
  case Nil
  then show ?case by (simp add: meta_entries.simps)
next
  case (Cons s ss)
  define z where "z = 3 - length s mod 4"
  define b where "b = concat (map pad_meta (s # ss))"
  have b: "b = s @ 0 # replicate z 0 @ concat (map pad_meta ss)" by (simp add: b_def pad_meta_def z_def)
  then have tw: "takeWhile (\<lambda>c. c \<noteq> 0) b = s" "drop (length s + 1) b = replicate z 0 @ concat (map pad_meta ss)"
    using Cons.prems by (simp_all add: takeWhile_zero)
  have z0: "z = 0 \<longleftrightarrow> (length s + 1) mod 4 = 0" unfolding z_def by presburger
  have "s \<noteq> [] \<Longrightarrow> \<not> length b \<le> 1" using b by (cases s) auto
  then have step: "meta_entries b = (if s = [] then [] else s # meta_entries (replicate z 0 @ concat (map pad_meta ss)))"
    using meta_entries.simps [of b] tw by (auto simp: Let_def)
  have "z \<noteq> 0 \<Longrightarrow> meta_entries (replicate z 0 @ concat (map pad_meta ss)) = []" by (cases z) (simp_all add: meta_entries_zero)
  then show ?case unfolding b_def [symmetric] using step z0 Cons by (cases "z = 0") simp_all
qed

lemma pad_meta_last:
  assumes "ss \<noteq> []" "m = concat (map pad_meta ss)"
  shows "m[length m - 1 := 0] = m" "0 < length m"
proof -
  have p: "pad_meta s \<noteq> []" "last (pad_meta s) = 0" for s :: bytes by (auto simp: pad_meta_def last_append)
  obtain ts t where ss: "ss = ts @ [t]" using assms(1) by (metis rev_exhaust)
  then have m: "m = concat (map pad_meta ts) @ pad_meta t" using assms(2) by simp
  then have "m \<noteq> []" "last m = 0" using p by auto
  then show "0 < length m" "m[length m - 1 := 0] = m" by (simp_all add: last_conv_nth) (metis list_update_id)
qed

fun info_lines :: "nat \<Rightarrow> (bytes list \<times> bytes) list \<Rightarrow> info_line list" where
  "info_lines off [] = []"
| "info_lines off ((ss, g) # es) =
     (let m = concat (map pad_meta ss)
      in [Blank, Entity_offset off, Entity_size (28 + length m + length g), Meta_size (length m), Image_size (length g)] @ map Meta_entry (shown ss) @
         info_lines (off + 28 + length m + length g) es)"

definition listed :: "bytes list \<Rightarrow> bool" where
  "listed ss \<longleftrightarrow> ss \<noteq> [] \<and> (\<forall>s\<in>set ss. 0 \<notin> set s) \<and> length (concat (map pad_meta ss)) < 1024"

lemma info_entities_lines:
  "\<lbrakk>length es < fuel; drop (fpos f) (content f) = concat (map (\<lambda>(ss, g). seama_entity (concat (map pad_meta ss)) g) es);
    \<forall>(ss, g)\<in>set es. listed ss \<and> small_entity (concat (map pad_meta ss), g); 32 \<le> ulong_bits A\<rbrakk> \<Longrightarrow>
   oseama_info_entities A (-1) fuel k f out = Done (0, out @ info_lines (fpos f) es)"
proof (induction es arbitrary: fuel k f out)
  case Nil
  then obtain fl where "fuel = Suc fl" by (cases fuel) auto
  then show ?case using Nil by (simp add: fread_def slice_def Let_def)
next
  case (Cons e es)
  obtain ss g where e: "e = (ss, g)" by force
  obtain fl where fl: "fuel = Suc fl" using Cons.prems(1) by (cases fuel) auto
  define m where "m = concat (map pad_meta ss)"
  define r where "r = concat (map (\<lambda>(ss, g). seama_entity (concat (map pad_meta ss)) g) es)"
  have dr: "drop (fpos f) (content f) = seama_entity m g @ r" using Cons.prems(2) by (simp add: e m_def r_def)
  have ls: "listed ss" "small_entity (m, g)" using Cons.prems(3) by (simp_all add: e m_def)
  then have sz: "length m < 2 ^ 16" "length g < 2 ^ 32" "length m < 1024" "0 < length m"
    using pad_meta_last(2) [OF _ m_def] by (simp_all add: small_entity_def listed_def m_def)
  define hb where "hb = take 28 (seama_entity m g @ r)"
  note h = entity_fields [OF sz(1,2) hb_def]
  let ?f1 = "f\<lparr>fpos := fpos f + 28\<rparr>"
  have "drop 28 (drop (fpos f) (content f)) = m @ g @ r" by (simp add: dr seama_entity_def entity_hdr_length)
  then have d1: "drop (fpos ?f1) (content ?f1) = m @ g @ r" by (simp add: add.commute)
  then have rm: "fread (length m) ?f1 = (m, f\<lparr>fpos := fpos f + 28 + length m\<rparr>)" by (simp add: fread_def slice_def Let_def)
  define f2 where "f2 = fseek_cur A (length g) (f\<lparr>fpos := fpos f + 28 + length m\<rparr>)"
  have gs: "ssize_of A (length g) = int (length g)" "size_add A (28 + length m) (length g) = 28 + length m + length g"
    using ls(2) Cons.prems(4) size_add_31 [of "28 + length m" "length g" A] by (simp_all add: small_entity_def ssize_31)
  then have f2: "f2 = f\<lparr>fpos := fpos f + 28 + length m + length g\<rparr>" by (simp add: f2_def fseek_cur_def fseek_def nat_add_distrib)
  have "drop (28 + length m + length g) (drop (fpos f) (content f)) = r" by (simp add: dr seama_entity_def entity_hdr_length)
  then have d2: "drop (fpos f2) (content f2) = r" by (simp add: f2 ac_simps)
  have ent: "meta_entries (m[length m - 1 := 0]) = shown ss"
    using pad_meta_last(1) [OF _ m_def] meta_entries_shown [of ss] ls(1) by (simp add: listed_def m_def)
  let ?out = "out @ [Blank, Entity_offset (fpos f), Entity_size (28 + length m + length g), Meta_size (length m), Image_size (length g)] @ map Meta_entry (shown ss)"
  have "oseama_info_entities A (-1) fuel k f out = oseama_info_entities A (-1) fl (k + 1) f2 ?out"
    using sz gs ent rm h fread_entity [OF dr, folded hb_def] by (simp add: fl f2_def Let_def)
  also have "\<dots> = Done (0, ?out @ info_lines (fpos f2) es)"
    using Cons.prems(1,3,4) fl d2 by (intro Cons.IH) (auto simp: r_def)
  finally show ?case by (simp add: e f2 m_def [symmetric] Let_def ac_simps)
qed

section \<open>The loops over the entities\<close>

lemma fseek_cur_content [simp]: "content (fseek_cur A n f) = content f"
  by (simp add: fseek_cur_def Let_def)

lemma seek_forward:
  assumes "ulong_bits A = 64" "m < 2 ^ 16" "n < 2 ^ 32"
  shows "fpos (fseek_cur A n f) = fpos f + n" "fpos (fseek_cur A (size_add A m n) f) = fpos f + m + n"
proof -
  have "size_add A m n = m + n" using assms by (simp add: size_add_def)
  moreover have "ssize_of A n = int n" "ssize_of A (m + n) = int (m + n)" using assms by (simp_all add: ssize_of_def)
  ultimately show "fpos (fseek_cur A n f) = fpos f + n" "fpos (fseek_cur A (size_add A m n) f) = fpos f + m + n"
    by (simp_all add: fseek_cur_def nat_add_distrib)
qed

lemma sizes_small: "meta_of h < 2 ^ 16" "image_of h < 2 ^ 32"
  using unsigned_less [of "be16_dec (slice 6 2 h)"] unsigned_less [of "be32_dec (slice 8 4 h)"] by (simp_all add: meta_of_def image_of_def)

lemma fread_28:
  assumes "fread 28 f = (h, f1)" "length h = 28"
  shows "fpos f1 = fpos f + 28" "content f1 = content f" "fpos f + 28 \<le> length (content f)"
  using assms by (auto simp: fread_def Let_def slice_def)

lemma info_entities_end:
  assumes "ulong_bits A = 64"
  shows "length (content f) - fpos f < fuel \<Longrightarrow> oseama_info_entities A idx fuel k f out \<noteq> Hangs"
proof (induction fuel arbitrary: f k out)
  case (Suc fuel)
  obtain h f1 where r: "fread 28 f = (h, f1)" by force
  show ?case
  proof (cases "length h = 28")
    case True
    note f1 = fread_28 [OF r True]
    obtain b f2 where b: "fread (meta_of h) f1 = (b, f2)" by force
    have f2: "fpos f1 \<le> fpos f2" "content f2 = content f" using b f1(2) by (auto simp: fread_def Let_def)
    have "oseama_info_entities A idx fuel (k + 1) (fseek_cur A (size_add A (meta_of h) (image_of h)) f1) out \<noteq> Hangs"
      "oseama_info_entities A idx fuel (k + 1) (fseek_cur A (image_of h) f2) out' \<noteq> Hangs" for out'
      using Suc.prems f1 f2 seek_forward [OF assms sizes_small] by (intro Suc.IH; simp)+
    then show ?thesis using r b by (auto simp: Let_def)
  qed (use r in simp)
qed simp

lemma extract_entity_end:
  assumes "ulong_bits A = 64"
  shows "length (content f) - fpos f < fuel \<Longrightarrow> oseama_extract_entity A idx fuel k f out \<noteq> Hangs"
proof (induction fuel arbitrary: f k)
  case (Suc fuel)
  obtain h f1 where r: "fread 28 f = (h, f1)" by force
  show ?case
  proof (cases "length h = 28")
    case True
    note f1 = fread_28 [OF r True]
    have "oseama_extract_entity A idx fuel (k + 1) (fseek_cur A (size_add A (meta_of h) (image_of h)) f1) out \<noteq> Hangs"
      using Suc.prems f1 seek_forward [OF assms sizes_small] by (intro Suc.IH) simp
    then show ?thesis using r by (auto simp: Let_def split: prod.split)
  qed (use r in simp)
qed simp

text \<open>A file on which a 32 bit machine goes back to the same entity again and again: the sum of its sizes is \<open>2 ^ 32 - 28\<close>.\<close>

definition hang_entity :: bytes where
  "hang_entity = be32_enc OSEAMA_MAGIC @ [0, 0, 0, 4] @ be32_enc 0xffffffe0 @ replicate 16 0 @ [0x61, 0x62, 0x63, 0]"

definition hang_file :: bytes where
  "hang_file = be32_enc OSEAMA_MAGIC @ [0, 0, 0, 4, 0, 0, 0, 0] @ [0x61, 0x62, 0x63, 0] @ hang_entity"

lemma hang_step:
  assumes "f = \<lparr>content = hang_file, fpos = 16, fcap = 0\<rparr>"
  shows "oseama_info_entities mips_be idx fuel k f out = Hangs"
  unfolding assms
proof (induction fuel arbitrary: k out)
  case (Suc fuel)
  let ?f = "\<lparr>content = hang_file, fpos = 16, fcap = 0\<rparr>" and ?f44 = "\<lparr>content = hang_file, fpos = 44, fcap = 0\<rparr>" and ?f48 = "\<lparr>content = hang_file, fpos = 48, fcap = 0\<rparr>"
  define h where "h = take 28 hang_entity"
  have rd: "fread 28 ?f = (h, ?f44)" unfolding h_def by code_simp
  have h: "length h = 28" "be32_dec (slice 0 4 h) = OSEAMA_MAGIC" unfolding h_def by code_simp+
  have "be16_dec (slice 6 2 h) = 4" "be32_dec (slice 8 4 h) = 0xffffffe0" unfolding h_def by code_simp+
  then have sz: "meta_of h = 4" "image_of h = 4294967264" by (simp_all add: meta_of_def image_of_def)
  have s1: "fseek_cur mips_be (size_add mips_be 4 4294967264) ?f44 = ?f"
    by (simp add: fseek_cur_def size_add_def ssize_of_def mips_be_def fseek_def)
  have s2: "fseek_cur mips_be 4294967264 ?f48 = ?f"
    by (simp add: fseek_cur_def ssize_of_def mips_be_def fseek_def)
  have rm: "fread 4 ?f44 = ([0x61, 0x62, 0x63, 0], ?f48)" by code_simp
  show ?case using Suc.IH by (simp add: rd h sz s1 s2 rm Let_def)
qed simp

section \<open>Properties\<close>

text \<open>C21. \<open>oseama entity\<close> writes the header, the meta entries, each padded to four bytes, and the image: the files and the zeros asked for, in the order of the options. The header
  holds the sizes and the MD5 digest of the image.\<close>

theorem oseama_entity_creates:
  assumes "32 \<le> ulong_bits A" "\<forall>n. malloc_ok E n" "length stack = 64" "\<forall>opt\<in>set opts. fst opt = 98 \<longrightarrow> 0 \<le> strtol A 0 (snd opt)"
    and "meta = concat (map (\<lambda>(c, s). if c = 109 then pad_meta s else []) opts)" "img = entity_image A E (28 + length meta) opts"
    and "28 + length meta + length img < 2 ^ 31" "28 + length meta + length img \<le> disk E"
  shows "oseama_entity A E stack opts =
    (0, be32_enc OSEAMA_MAGIC @ [0, 0] @ rev (le16_enc (of_nat (length meta))) @ be32_enc (of_nat (length img)) @ md5_ref img @ meta @ img)"
  using oseama_entity_layout [OF assms(1) _ assms(3) _ assms(6,4,7,8)] assms(2,5) by (simp add: entity_meta_def seama_entity_def entity_hdr_def)

definition seama_env :: otrx_env where
  "seama_env = \<lparr>files = [lit ''k'' \<mapsto> [0x61, 0x62], lit ''r'' \<mapsto> [0x63]], malloc_ok = (\<lambda>_. True), disk = 1000\<rparr>"

theorem oseama_entity_creates_witness:
  "oseama_entity mips_be seama_env (replicate 64 9) [(102, lit ''k''), (109, [0x78]), (102, lit ''r'')] =
    (0, be32_enc OSEAMA_MAGIC @ [0, 0] @ rev (le16_enc 4) @ be32_enc 3 @ md5_ref [0x61, 0x62, 0x63] @ [0x78, 0, 0, 0] @ [0x61, 0x62, 0x63])"
proof -
  let ?opts = "[(102 :: byte, lit ''k''), (109, [0x78]), (102, lit ''r'')]"
  have "concat (map (\<lambda>(c, s). if c = 109 then pad_meta s else []) ?opts) = [0x78, 0, 0, 0]" by code_simp
  moreover have "entity_image mips_be seama_env 32 ?opts = [0x61, 0x62, 0x63]" by (simp add: image_part_def seama_env_def lit_def)
  ultimately show ?thesis
    using oseama_entity_creates [of mips_be seama_env "replicate 64 9" ?opts "[0x78, 0, 0, 0]" "[0x61, 0x62, 0x63]"] by (simp add: mips_be_def seama_env_def)
qed

text \<open>C20. From a Seama file with any number of entities, each of the form \<open>oseama entity\<close> creates, \<open>oseama extract -e i\<close> writes exactly the \<open>i\<close>th entity to the output file.\<close>

theorem oseama_extract_entities:
  assumes "files E p = Some (shdr @ smeta @ concat (map (\<lambda>(m, g). seama_entity m g) es) @ rest)" "length shdr = 12" "meta_of shdr = length smeta"
    and "\<forall>(m, g)\<in>set es. length m < 2 ^ 16 \<and> 28 + length m + length g < 2 ^ 31 \<and> 28 + length m + length g \<le> disk E"
    and "i < length es" "i < fuel" "32 \<le> ulong_bits A" "op \<noteq> p" "es ! i = (m, g)"
  shows "oseama_extract A E (int i) fuel p (Some op) = Done (0, Some (seama_entity m g))"
proof -
  let ?c = "shdr @ smeta @ concat (map (\<lambda>(m, g). seama_entity m g) es) @ rest"
  let ?f = "\<lparr>content = ?c, fpos = 0, fcap = 0\<rparr>" and ?f1 = "\<lparr>content = ?c, fpos = 12, fcap = 0\<rparr>" and ?out = "\<lparr>content = [], fpos = 0, fcap = disk E\<rparr>"
  have r: "fread 12 ?f = (shdr, ?f1)" using assms(2) by (simp add: fread_def slice_def Let_def)
  have "ssize_of A (length smeta) = int (length smeta)" using assms(3,7) sizes_small(1) [of shdr] by (intro ssize_31) simp_all
  then have "drop (fpos (fseek_cur A (length smeta) ?f1)) (content (fseek_cur A (length smeta) ?f1)) = concat (map (\<lambda>(m, g). seama_entity m g) es) @ rest"
    using assms(2) by (simp add: fseek_cur_def nat_add_distrib)
  moreover have "\<forall>e\<in>set es. small_entity e" "\<forall>e\<in>set es. fpos ?out + 28 + length (fst e) + length (snd e) \<le> fcap ?out"
    using assms(4) by (auto simp: small_entity_def)
  ultimately obtain out' where "oseama_extract_entity A (0 + int i) fuel 0 (fseek_cur A (length smeta) ?f1) ?out = Done (0, out')"
    "content out' = content ?out @ (case es ! i of (m, g) \<Rightarrow> seama_entity m g)"
    using extract_entity_nth [OF assms(5,6), of "fseek_cur A (length smeta) ?f1" rest A ?out 0] assms(7) by auto
  then show ?thesis using assms(1-3,8,9) r by (simp add: oseama_extract_def)
qed

theorem oseama_extract_entities_witness:
  "oseama_extract mips_be (seama_env\<lparr>files := [lit ''s'' \<mapsto> (be32_enc OSEAMA_MAGIC @ replicate 8 0) @ [] @ concat [seama_entity [] [1], seama_entity [] [2, 3]] @ []]\<rparr>) (int 1) 9 (lit ''s'') (Some (lit ''o'')) =
    Done (0, Some (seama_entity [] [2, 3]))"
proof -
  have "meta_of (be32_enc OSEAMA_MAGIC @ replicate 8 0) = length ([] :: bytes)" by code_simp
  then show ?thesis
    using oseama_extract_entities [of "seama_env\<lparr>files := [lit ''s'' \<mapsto> (be32_enc OSEAMA_MAGIC @ replicate 8 0) @ [] @ concat [seama_entity [] [1], seama_entity [] [2, 3]] @ []]\<rparr>"
      "lit ''s''" "be32_enc OSEAMA_MAGIC @ replicate 8 0" "[]" "[([], [1]), ([], [2, 3])]" "[]" 1 9 mips_be "lit ''o''" "[]" "[2, 3]"]
    by (simp add: seama_env_def mips_be_def lit_def)
qed

text \<open>C23. \<open>oseama info\<close> on a Seama file whose header and entities have meta entries: it prints the offset and the sizes of every entity, and its meta entries up to the first one
  that was padded; the ones behind it are not shown.\<close>

theorem oseama_info_lists:
  assumes "c = be32_enc OSEAMA_MAGIC @ [0, 0] @ rev (le16_enc (of_nat (length sm))) @ be32_enc 0 @ sm @ concat (map (\<lambda>(ss, g). seama_entity (concat (map pad_meta ss)) g) es)"
    and "sm = concat (map pad_meta seal)" "listed seal" "\<forall>(ss, g)\<in>set es. listed ss \<and> length g + 2000 < 2 ^ 31" "32 \<le> ulong_bits A" "length es < fuel"
  shows "oseama_info A (-1) fuel (Some c) = Done (0, [Meta_size (length sm), Image_size 0] @ map Meta_entry (shown seal) @ info_lines (12 + length sm) es)"
proof -
  define sh where "sh = be32_enc OSEAMA_MAGIC @ [0, 0] @ rev (le16_enc (of_nat (length sm))) @ be32_enc 0"
  define ents where "ents = concat (map (\<lambda>(ss, g). seama_entity (concat (map pad_meta ss)) g) es)"
  have c: "c = sh @ sm @ ents" by (simp add: assms(1) sh_def ents_def)
  have sm: "length sm < 1024" "0 < length sm" "sm[length sm - 1 := 0] = sm" using assms(3) pad_meta_last [OF _ assms(2)] assms(2) by (simp_all add: listed_def)
  have sh: "length sh = 12" "be32_dec (slice 0 4 sh) = OSEAMA_MAGIC" by (simp_all add: sh_def le16_enc_def slice_def)
  have "slice 6 2 sh = rev (le16_enc (of_nat (length sm)))" "slice 8 4 sh = be32_enc 0" by (simp_all add: sh_def slice_def le16_enc_def)
  then have sz: "meta_of sh = length sm" "image_of sh = 0" using sm(1) by (simp_all add: meta_of_def image_of_def be16_dec_def unsigned_of_nat take_bit_eq_mod)
  let ?f = "\<lambda>n. \<lparr>content = c, fpos = n, fcap = 0\<rparr>"
  have r: "fread 12 (?f 0) = (sh, ?f 12)" "fread (length sm) (?f 12) = (sm, ?f (12 + length sm))"
    using sh(1) by (simp_all add: fread_def slice_def Let_def c)
  have "\<forall>(ss, g)\<in>set es. listed ss \<and> small_entity (concat (map pad_meta ss), g)" using assms(4) by (auto simp: small_entity_def listed_def)
  moreover have "drop (12 + length sm) c = ents" using sh(1) by (simp add: c)
  ultimately have "oseama_info_entities A (-1) fuel 0 (?f (12 + length sm)) out = Done (0, out @ info_lines (12 + length sm) es)" for out
    using info_entities_lines [of es fuel "?f (12 + length sm)" A 0 out] assms(5,6) by (simp add: ents_def)
  moreover have "meta_entries sm = shown seal" using meta_entries_shown [of seal] assms(2,3) by (simp add: listed_def)
  ultimately show ?thesis using sh sz sm r by (simp add: oseama_info_def Let_def)
qed

theorem oseama_info_lists_witness:
  "oseama_info mips_be (-1) 5 (Some (be32_enc OSEAMA_MAGIC @ [0, 0] @ rev (le16_enc 4) @ be32_enc 0 @ [0x61, 0x62, 0x63, 0] @ seama_entity [0x61, 0, 0, 0, 0x62, 0, 0, 0] [7])) =
    Done (0, [Meta_size 4, Image_size 0, Meta_entry [0x61, 0x62, 0x63], Blank, Entity_offset 16, Entity_size 37, Meta_size 8, Image_size 1, Meta_entry [0x61]])"
proof -
  have "pad_meta [0x61, 0x62, 0x63] = [0x61, 0x62, 0x63, 0]" "pad_meta [0x61] = [0x61, 0, 0, 0]" "pad_meta [0x62] = [0x62, 0, 0, 0]" by code_simp+
  then show ?thesis
    using oseama_info_lists [OF refl refl, of "[[0x61, 0x62, 0x63]]" "[([[0x61], [0x62]], [7])]" mips_be 5] by (simp add: listed_def mips_be_def)
qed

text \<open>C22. On a 64 bit machine \<open>info\<close> and \<open>extract\<close> end on every file, after at most as many rounds as it has bytes. On a 32 bit machine \<open>info\<close> does not end on a file of 48 bytes,
  whatever entity is asked for: a large size makes the seek go backwards.\<close>

theorem oseama_ends:
  assumes "ulong_bits A = 64" "length c < fuel" "files E p = Some c"
  shows "oseama_info A idx fuel (Some c) \<noteq> Hangs \<and> oseama_extract A E idx fuel p op \<noteq> Hangs \<and>
    length hang_file = 48 \<and> (\<forall>fuel'. oseama_info mips_be idx fuel' (Some hang_file) = Hangs)"
proof (intro conjI allI)
  obtain h f1 where r: "fread 12 \<lparr>content = c, fpos = 0, fcap = 0\<rparr> = (h, f1)" by force
  obtain b f2 where b: "fread (meta_of h) f1 = (b, f2)" by force
  have "content f2 = c" using r b by (auto simp: fread_def Let_def)
  then have "oseama_info_entities A idx fuel 0 f2 out \<noteq> Hangs" for out using assms(2) info_entities_end [OF assms(1), of f2 fuel] by simp
  then show "oseama_info A idx fuel (Some c) \<noteq> Hangs" using r b by (auto simp: oseama_info_def Let_def split: run.split)
next
  have e: "oseama_extract_entity A idx fuel 0 (fseek_cur A n f1) out \<noteq> Hangs" if "length (content f1) \<le> length c" for n f1 out
    using assms(2) that by (intro extract_entity_end [OF assms(1)]) simp
  show "oseama_extract A E idx fuel p op \<noteq> Hangs"
  proof (cases op)
    case None
    then show ?thesis by (simp add: oseama_extract_def)
  next
    case (Some o2)
    obtain h f1 where r: "fread 12 \<lparr>content = (if o2 = p then [] else c), fpos = 0, fcap = 0\<rparr> = (h, f1)" by force
    then have "length (content f1) \<le> length c" by (auto simp: fread_def Let_def)
    from e [OF this] show ?thesis using r assms(3) Some by (simp add: oseama_extract_def split: run.split)
  qed
next
  show "length hang_file = 48" by (simp add: hang_file_def hang_entity_def)
  fix fuel'
  have "fread 12 \<lparr>content = hang_file, fpos = 0, fcap = 0\<rparr> = (take 12 hang_file, \<lparr>content = hang_file, fpos = 12, fcap = 0\<rparr>)"
    "fread 4 \<lparr>content = hang_file, fpos = 12, fcap = 0\<rparr> = ([0x61, 0x62, 0x63, 0], \<lparr>content = hang_file, fpos = 16, fcap = 0\<rparr>)"
    "length (take 12 hang_file) = 12" "be32_dec (slice 0 4 (take 12 hang_file)) = OSEAMA_MAGIC" "meta_of (take 12 hang_file) = 4" "image_of (take 12 hang_file) = 0"
    by code_simp+
  then show "oseama_info mips_be idx fuel' (Some hang_file) = Hangs" by (simp add: oseama_info_def Let_def hang_step del: length_take)
qed

theorem oseama_ends_witness:
  "oseama_info x86_64 (-1) 10 (Some [1, 2, 3]) \<noteq> Hangs \<and> (\<forall>fuel'. oseama_info mips_be (-1) fuel' (Some hang_file) = Hangs)"
  using oseama_ends [of x86_64 "[1, 2, 3]" 10 "seama_env\<lparr>files := [lit ''s'' \<mapsto> [1, 2, 3]]\<rparr>" "lit ''s''" "-1" None] by (simp add: x86_64_def)

text \<open>C24. A header without meta data, as \<open>oseama entity\<close> writes it when no entry is given, makes \<open>oseama info\<close> write in front of its buffer.\<close>

theorem oseama_info_faults:
  assumes "c = be32_enc OSEAMA_MAGIC @ [0, 0, 0, 0] @ be32_enc 0 @ r" "0 < fuel"
  shows "oseama_info A (-1) fuel (Some c) = Crash \<and>
    (length g < 2 ^ 32 \<longrightarrow> oseama_info A 0 fuel (Some (be32_enc OSEAMA_MAGIC @ [0, 0, 0, 0] @ be32_enc 0 @ seama_entity [] g)) = Crash)"
proof -
  define sh where "sh = be32_enc OSEAMA_MAGIC @ [0, 0, 0, 0] @ be32_enc 0"
  have sh: "length sh = 12" "be32_dec (slice 0 4 sh) = OSEAMA_MAGIC" "meta_of sh = 0" "image_of sh = 0" unfolding sh_def by code_simp+
  have r: "fread 12 \<lparr>content = sh @ x, fpos = 0, fcap = 0\<rparr> = (sh, \<lparr>content = sh @ x, fpos = 12, fcap = 0\<rparr>)" for x
    using sh(1) by (simp add: fread_def slice_def Let_def)
  have z: "fread 0 f = ([], f)" for f by (simp add: fread_def slice_def Let_def)
  have "oseama_info A (-1) fuel (Some (sh @ r)) = Crash" by (simp add: oseama_info_def Let_def r z sh)
  moreover have "oseama_info A 0 fuel (Some (sh @ seama_entity [] g)) = Crash" if g: "length g < 2 ^ 32"
  proof -
    let ?f = "\<lparr>content = sh @ seama_entity [] g, fpos = 12, fcap = 0\<rparr>"
    have dr: "drop (fpos ?f) (content ?f) = seama_entity [] g @ []" using sh(1) by simp
    define hb where "hb = take 28 (seama_entity [] g @ [])"
    have "oseama_info_entities A 0 (Suc fl) 0 ?f out = Crash" for fl out
      using entity_fields [OF _ g hb_def] fread_entity [OF dr, folded hb_def] z by (simp add: Let_def)
    then show ?thesis using assms(2) by (cases fuel) (simp_all add: oseama_info_def Let_def r z sh del: oseama_info_entities.simps)
  qed
  ultimately show ?thesis using assms(1) by (simp add: sh_def)
qed

theorem oseama_info_faults_witness:
  "oseama_info mips_be (-1) 3 (Some (be32_enc OSEAMA_MAGIC @ [0, 0, 0, 0] @ be32_enc 0 @ [])) = Crash"
  using oseama_info_faults [OF refl, of 3 mips_be "[]" "[]"] by simp

end
