(* ===== verification/Osafeloader.thy ===== *)
theory Osafeloader
  imports Oseama
begin

text \<open>
  The tool for TP-Link's images, \<^verbatim>\<open>package/utils/osafeloader/src/osafeloader.c\<close>, over \<open>Stdio\<close> and the MD5 of \<open>Md5\<close> (its \<^verbatim>\<open>md5.c\<close> is the one of \<open>oseama\<close>). Behind a header with a length
  and a salted digest and the vendor's 4096 bytes, an image has a table of partitions as text, which the program reads with \<open>fscanf\<close>. A name that exceeds its
  buffer is a \<open>Crash\<close>.
\<close>

section \<open>The table\<close>

text \<open>The directives of the format \<open>fwup-ptn %s base 0x%x size 0x%x\t\r\n\<close>: words, white space, a string, and numbers in base 16. The result is what is left of the
  input.\<close>

definition scan_word :: "bytes \<Rightarrow> bytes \<Rightarrow> bytes option" where
  "scan_word w s = (if take (length w) s = w then Some (drop (length w) s) else None)"

definition scan_s :: "bytes \<Rightarrow> (bytes \<times> bytes) option" where
  "scan_s s = (let s1 = dropWhile isspace s; w = takeWhile (\<lambda>c. \<not> isspace c) s1 in if w = [] then None else Some (w, drop (length w) s1))"

definition scan_x :: "abi \<Rightarrow> bytes \<Rightarrow> (u32 \<times> bytes) option" where
  "scan_x A s =
     (let s1 = dropWhile isspace s; s2 = drop (snd (strtoul_sign s1)) s1; (v, n) = strtoul A 16 s1
      in if take 2 s2 \<in> {[48, 120], [48, 88]} \<and> \<not> strtoul_hex 16 s2 then None
         else if n = 0 then None
         else Some (word_of_nat v, drop n s1))"

definition scan_number :: "abi \<Rightarrow> bytes \<Rightarrow> bytes \<Rightarrow> (u32 \<times> bytes) option" where
  "scan_number A w s =
     (case scan_word w (dropWhile isspace s) of
        None \<Rightarrow> None
      | Some r \<Rightarrow> (case scan_word (lit ''0x'') (dropWhile isspace r) of None \<Rightarrow> None | Some r' \<Rightarrow> scan_x A r'))"

datatype ptn_scan = Ptn bytes u32 u32 bytes | No_ptn | Ptn_overflow

definition scan_ptn :: "abi \<Rightarrow> bytes \<Rightarrow> ptn_scan" where
  "scan_ptn A s =
     (case scan_word (lit ''fwup-ptn'') s of
        None \<Rightarrow> No_ptn
      | Some r1 \<Rightarrow>
          (case scan_s r1 of
             None \<Rightarrow> No_ptn
           | Some (name, r2) \<Rightarrow>
               if length name \<ge> 32 then Ptn_overflow
               else (case scan_number A (lit ''base'') r2 of
                       None \<Rightarrow> No_ptn
                     | Some (base, r3) \<Rightarrow>
                         (case scan_number A (lit ''size'') r3 of
                            None \<Rightarrow> No_ptn
                          | Some (sz, r4) \<Rightarrow> Ptn (takeWhile (\<lambda>c. c \<noteq> 0) name) base sz (dropWhile isspace r4)))))"

lemma length_dropWhile_le: "length (dropWhile P s) \<le> length s"
  by (induction s) auto

lemma scan_word_length: "scan_word w s = Some r \<Longrightarrow> length r \<le> length s - length w \<and> length w \<le> length s"
  by (auto simp: scan_word_def split: if_splits) (metis length_take min.cobounded1)

lemma scan_number_length: "scan_number A w s = Some (x, r) \<Longrightarrow> length r \<le> length s"
proof -
  assume "scan_number A w s = Some (x, r)"
  then obtain r1 r2 n where st: "scan_word w (dropWhile isspace s) = Some r1" "scan_word (lit ''0x'') (dropWhile isspace r1) = Some r2" "r = drop n (dropWhile isspace r2)"
    by (auto simp: scan_number_def scan_x_def Let_def split: option.splits if_splits prod.splits)
  have "length r \<le> length (dropWhile isspace r2)" using st(3) by simp
  then show ?thesis
    using scan_word_length [OF st(1)] scan_word_length [OF st(2)] length_dropWhile_le [of isspace s] length_dropWhile_le [of isspace r1] length_dropWhile_le [of isspace r2] by linarith
qed

lemma scan_ptn_less: "scan_ptn A s = Ptn name base sz r \<Longrightarrow> length r < length s"
proof -
  assume a: "scan_ptn A s = Ptn name base sz r"
  then obtain r1 w r2 r3 r4 where st: "scan_word (lit ''fwup-ptn'') s = Some r1" "scan_s r1 = Some (w, r2)" "scan_number A (lit ''base'') r2 = Some (base, r3)"
      "scan_number A (lit ''size'') r3 = Some (sz, r4)" "r = dropWhile isspace r4"
    by (auto simp: scan_ptn_def split: option.splits if_splits)
  have "length (lit ''fwup-ptn'') = 8" by (simp add: lit_def)
  moreover have "length r2 \<le> length r1" using st(2) length_dropWhile_le [of isspace r1] by (auto simp: scan_s_def Let_def split: if_splits)
  ultimately show ?thesis
    using scan_word_length [OF st(1)] scan_number_length [OF st(3)] scan_number_length [OF st(4)] length_dropWhile_le [of isspace r4] unfolding st(5) by linarith
qed

section \<open>Info\<close>

definition safeloader_header :: nat where "safeloader_header = 20"

definition osafeloader_min :: "nat \<Rightarrow> nat \<Rightarrow> nat" where
  "osafeloader_min x y = (if x < y then x else y)"

definition md5_salt :: bytes where
  "md5_salt = [0x7a, 0x2b, 0x15, 0xed, 0x9b, 0x98, 0x59, 0x6d, 0xe5, 0x04, 0xab, 0x44, 0xac, 0x2a, 0x9f, 0x4e]"

function info_loop :: "cfile \<Rightarrow> nat \<Rightarrow> sd_ctx \<Rightarrow> sd_ctx" where
  "info_loop f imagesize ctx =
     (let (b, f') = fread (osafeloader_min 1024 imagesize) f in if b = [] then ctx else info_loop f' (imagesize - length b) (sd_Update ctx b))"
  by pat_completeness auto
termination
proof (relation "measure (\<lambda>(f, imagesize, ctx). imagesize)", simp)
  fix f f' :: cfile and n :: nat and ctx :: sd_ctx and x b
  assume "x = fread (osafeloader_min 1024 n) f" "(b, f') = x" "b \<noteq> []"
  then have "b = slice (fpos f) (osafeloader_min 1024 n) (content f)" "0 < length b" by (simp_all add: fread_def Let_def)
  then have "length b \<le> n" "0 < length b" by (auto simp: slice_def osafeloader_min_def)
  then have "n - length b < n" by linarith
  then show "((f', n - length b, sd_Update ctx b), f, n, ctx) \<in> measure (\<lambda>(f, imagesize, ctx). imagesize)" by simp
qed

declare info_loop.simps [simp del]

function ptn_loop :: "abi \<Rightarrow> bytes \<Rightarrow> (bytes \<times> u32 \<times> u32) list \<Rightarrow> (bytes \<times> u32 \<times> u32) list run" where
  "ptn_loop A s out =
     (case scan_ptn A s of
        No_ptn \<Rightarrow> Done out
      | Ptn_overflow \<Rightarrow> Crash
      | Ptn name base sz r \<Rightarrow> ptn_loop A r (out @ [(name, base, base + sz)]))"
  by pat_completeness auto
termination by (relation "measure (\<lambda>(A, s, out). length s)") (auto dest: scan_ptn_less)

declare ptn_loop.simps [simp del]

text \<open>What is printed: the size of the image, the digest, and the partitions with their ends.\<close>

record safeloader_info =
  si_imagesize :: u32
  si_md5 :: bytes
  si_parts :: "(bytes \<times> u32 \<times> u32) list"

definition osafeloader_info :: "abi \<Rightarrow> bytes \<Rightarrow> bytes option \<Rightarrow> (int \<times> safeloader_info option) run" where
  "osafeloader_info A stack file =
     (case file of
        None \<Rightarrow> Done (-13, None)
      | Some c \<Rightarrow>
          let (hdr, f) = fread safeloader_header \<lparr>content = c, fpos = 0, fcap = 0\<rparr>
          in if length hdr \<noteq> safeloader_header then Done (-5, None)
             else let imagesize = be32_dec (slice 0 4 hdr);
                      md5 = sd_Final (info_loop f (unat imagesize) (sd_Update (sd_Init stack) md5_salt))
                  in if md5 \<noteq> slice 4 16 hdr then Done (-5, None)
                     else case ptn_loop A (drop 0x1014 c) [] of
                         Done parts \<Rightarrow> Done (0, Some \<lparr>si_imagesize = imagesize, si_md5 = md5, si_parts = parts\<rparr>)
                       | Crash \<Rightarrow> Crash | Hangs \<Rightarrow> Hangs)"

section \<open>Extract\<close>

text \<open>The loop that copies a partition: what is left of its size, and whether a write came short. A negative size becomes a large \<open>size_t\<close>.\<close>

function copy_loop :: "cfile \<Rightarrow> int \<Rightarrow> cfile \<Rightarrow> int \<times> int \<times> cfile" where
  "copy_loop f sz out =
     (let (b, f') = fread (if sz < 0 then 1024 else osafeloader_min 1024 (nat sz)) f
      in if b = [] then (0, sz, out)
         else let (n, out') = fwrite b out
              in if n \<noteq> length b then (-5, sz, out') else copy_loop f' (sz - int (length b)) out')"
  by pat_completeness auto
termination
proof (relation "measure (\<lambda>(f, sz, out). length (content f) - fpos f)", simp)
  fix f f' out out' :: cfile and sz :: int and x b xa n
  assume "x = fread (if sz < 0 then 1024 else osafeloader_min 1024 (nat sz)) f" "(b, f') = x" "b \<noteq> []"
  then have "b = slice (fpos f) (if sz < 0 then 1024 else osafeloader_min 1024 (nat sz)) (content f)" "fpos f' = fpos f + length b" "content f' = content f"
    by (simp_all add: fread_def Let_def)
  moreover from this have "0 < length b" "fpos f < length (content f)" using \<open>b \<noteq> []\<close> by (auto simp: slice_def)
  ultimately have "length (content f') - fpos f' < length (content f) - fpos f" by (metis add_diff_cancel_left' diff_less_mono2 less_add_same_cancel1)
  then show "((f', sz - int (length b), out'), f, sz, out) \<in> measure (\<lambda>(f, sz, out). length (content f) - fpos f)" by simp
qed

declare copy_loop.simps [simp del]

text \<open>\<open>fseek\<close> to a negative position fails and leaves the stream where it is, behind the line of the table; \<open>rest\<close> is the part of the table that is left.\<close>

definition extract_ptn :: "abi \<Rightarrow> bytes \<Rightarrow> bytes \<Rightarrow> u32 \<Rightarrow> u32 \<Rightarrow> nat \<Rightarrow> int \<times> bytes" where
  "extract_ptn A c rest base sz cap =
     (let p = ssize_of A (size_of_int A (0x1014 + sint base));
          f = \<lparr>content = c, fpos = (if p < 0 then length c - length rest else nat p), fcap = 0\<rparr>;
          (err, left, out) = copy_loop f (sint sz) \<lparr>content = [], fpos = 0, fcap = cap\<rparr>
      in (if left \<noteq> 0 then -5 else err, content out))"

function extract_loop :: "abi \<Rightarrow> bytes \<Rightarrow> bytes \<Rightarrow> nat \<Rightarrow> bytes \<Rightarrow> (int \<times> bytes) run" where
  "extract_loop A c partition_name cap s =
     (case scan_ptn A s of
        No_ptn \<Rightarrow> Done (-2, [])
      | Ptn_overflow \<Rightarrow> Crash
      | Ptn name base sz r \<Rightarrow> if name \<noteq> partition_name then extract_loop A c partition_name cap r else Done (extract_ptn A c r base sz cap))"
  by pat_completeness auto
termination by (relation "measure (\<lambda>(A, c, pn, cap, s). length s)") (auto dest: scan_ptn_less)

declare extract_loop.simps [simp del]

text \<open>\<open>cap\<close> is the space for the output file, \<open>None\<close> if it cannot be opened.\<close>

definition osafeloader_extract :: "abi \<Rightarrow> bytes option \<Rightarrow> nat option \<Rightarrow> bytes option \<Rightarrow> bool \<Rightarrow> (int \<times> bytes option) run" where
  "osafeloader_extract A file cap partition_name out_given =
     (case partition_name of
        None \<Rightarrow> Done (-22, None)
      | Some pn \<Rightarrow>
          if \<not> out_given then Done (-22, None)
          else (case file of
                  None \<Rightarrow> Done (-13, None)
                | Some c \<Rightarrow>
                    (case cap of
                       None \<Rightarrow> Done (-13, None)
                     | Some k \<Rightarrow>
                         if length (take safeloader_header c) \<noteq> safeloader_header then Done (-5, Some [])
                         else (case extract_loop A c pn k (drop 0x1014 c) of
                                 Done (err, out) \<Rightarrow> Done (err, Some out) | Crash \<Rightarrow> Crash | Hangs \<Rightarrow> Hangs))))"

text \<open>\<open>main\<close>: the exit status, what is printed and the file written. The options of \<open>extract\<close> are as \<open>getopt\<close> gives them.\<close>

definition osafeloader_main :: "abi \<Rightarrow> bytes \<Rightarrow> (bytes \<Rightarrow> bytes option) \<Rightarrow> (bytes \<Rightarrow> nat option) \<Rightarrow> bytes list \<Rightarrow> (byte \<times> bytes) list
    \<Rightarrow> (int \<times> safeloader_info option \<times> bytes option) run" where
  "osafeloader_main A stack fs room args opts =
     (case args of
        [] \<Rightarrow> Done (0, None, None)
      | [cmd] \<Rightarrow> Done (if cmd \<in> {lit ''info'', lit ''extract''} then -22 else 0, None, None)
      | cmd # path # _ \<Rightarrow>
          if cmd = lit ''info''
          then (case osafeloader_info A stack (fs path) of Done (err, i) \<Rightarrow> Done (err, i, None) | Crash \<Rightarrow> Crash | Hangs \<Rightarrow> Hangs)
          else if cmd = lit ''extract''
          then let out_path = last_arg 111 opts None
               in (case osafeloader_extract A (fs path) (case out_path of None \<Rightarrow> None | Some p \<Rightarrow> room p) (last_arg 112 opts None) (out_path \<noteq> None) of
                     Done (err, out) \<Rightarrow> Done (err, None, out) | Crash \<Rightarrow> Crash | Hangs \<Rightarrow> Hangs)
          else Done (0, None, None))"

section \<open>Reading the table\<close>

text \<open>A line of the table: the name, and the base and the size as digits.\<close>

definition ptn_line :: "bytes \<times> bytes \<times> bytes \<Rightarrow> bytes" where
  "ptn_line l = (case l of (name, hb, hs) \<Rightarrow> lit ''fwup-ptn '' @ name @ lit '' base 0x'' @ hb @ lit '' size 0x'' @ hs @ [9, 13, 10])"

definition hex_digits :: "bytes \<Rightarrow> bool" where
  "hex_digits ds \<longleftrightarrow> ds \<noteq> [] \<and> (\<forall>c\<in>set ds. digit_of c < 16) \<and> digits_value 16 ds < 2 ^ 31"

definition line_ok :: "bytes \<times> bytes \<times> bytes \<Rightarrow> bool" where
  "line_ok l = (case l of (name, hb, hs) \<Rightarrow> name \<noteq> [] \<and> length name < 32 \<and> (\<forall>c\<in>set name. \<not> isspace c \<and> c \<noteq> 0) \<and> hex_digits hb \<and> hex_digits hs)"

lemma hex_digit_plain: "digit_of c < 16 \<Longrightarrow> \<not> isspace c \<and> c \<noteq> 43 \<and> c \<noteq> 45 \<and> c \<noteq> 120 \<and> c \<noteq> 88"
proof -
  assume d: "digit_of c < 16"
  have "x \<in> {9, 10, 11, 12, 13, 32, 43, 45, 120, 88} \<Longrightarrow> \<not> digit_of x < 16" for x :: byte by (auto simp: digit_of_def)
  moreover have "\<not> isspace c" using d by (auto simp: digit_of_def isspace_def word_le_nat_alt split: if_splits)
  ultimately show ?thesis using d by blast
qed

lemma strtoul_hex_digits:
  assumes "hex_digits ds" "\<not> digit_of d < 16" "d \<noteq> 120" "d \<noteq> 88" "32 \<le> ulong_bits A"
  shows "strtoul A 16 (ds @ d # r) = (digits_value 16 ds, length ds)" "\<not> strtoul_hex 16 (ds @ d # r)" "take 2 (ds @ d # r) \<notin> {[48, 120], [48, 88]}"
proof -
  obtain c cs where c: "ds = c # cs" using assms(1) by (cases ds) (auto simp: hex_digits_def)
  have pl: "\<not> isspace c" "c \<noteq> 43" "c \<noteq> 45" using hex_digit_plain [of c] assms(1) c by (auto simp: hex_digits_def)
  have second: "hd (cs @ [d]) \<noteq> 120" "hd (cs @ [d]) \<noteq> 88" using assms c hex_digit_plain [of "hd cs"] by (cases cs; auto simp: hex_digits_def)+
  then show hx: "\<not> strtoul_hex 16 (ds @ d # r)" "take 2 (ds @ d # r) \<notin> {[48, 120], [48, 88]}"
    using c by (cases cs; auto simp: strtoul_hex_def split: list.splits)+
  have tw: "takeWhile (\<lambda>c. digit_of c < 16) (ds @ d # r) = ds" using assms(1,2) by (simp add: hex_digits_def takeWhile_append)
  have "(2 :: nat) ^ 31 \<le> 2 ^ ulong_bits A" using assms(5) by (intro power_increasing) auto
  then have "\<not> 2 ^ ulong_bits A \<le> digits_value 16 ds" using assms(1) by (simp add: hex_digits_def)
  then show "strtoul A 16 (ds @ d # r) = (digits_value 16 ds, length ds)"
    using pl c hx(1) tw by (simp add: strtoul_def strtoul_sign_def strtoul_base_def Let_def)
qed

lemma scan_number_line:
  assumes "hex_digits ds" "d = 32 \<or> d = 9" "32 \<le> ulong_bits A" "w \<noteq> []" "\<not> isspace (hd w)"
  shows "scan_number A w (32 # w @ 32 # lit ''0x'' @ ds @ d # r) = Some (word_of_nat (digits_value 16 ds), d # r)"
proof -
  have d: "\<not> digit_of d < 16" "d \<noteq> 120" "d \<noteq> 88" using assms(2) by (auto simp: digit_of_def)
  note st = strtoul_hex_digits [OF assms(1) d assms(3), of r]
  obtain c cs where c: "ds = c # cs" "digit_of c < 16" using assms(1) by (cases ds) (auto simp: hex_digits_def)
  note pl = hex_digit_plain [OF c(2)]
  have sp: "isspace 32" "\<not> isspace 48" by (simp_all add: isspace_def)
  have dw: "dropWhile isspace (32 # w @ x) = w @ x" for x using assms(4,5) sp by (cases w) simp_all
  have dx: "dropWhile isspace (ds @ d # r) = ds @ d # r" "snd (strtoul_sign (ds @ d # r)) = 0" using c pl by (simp_all add: strtoul_sign_def)
  have sx: "scan_x A (ds @ d # r) = Some (word_of_nat (digits_value 16 ds), d # r)" using st dx c by (simp add: scan_x_def)
  show ?thesis unfolding scan_number_def dw using sx sp by (simp add: scan_word_def lit_def)
qed

lemma scan_ptn_line:
  assumes "line_ok (name, hb, hs)" "32 \<le> ulong_bits A" "r = [] \<or> \<not> isspace (hd r)"
  shows "scan_ptn A (ptn_line (name, hb, hs) @ r) = Ptn name (word_of_nat (digits_value 16 hb)) (word_of_nat (digits_value 16 hs)) r"
proof -
  let ?n = "lit '' base 0x'' @ hb @ lit '' size 0x'' @ hs @ [9, 13, 10] @ r"
  have sp: "isspace 32" "isspace 9" "isspace 10" "isspace 13" by (simp_all add: isspace_def)
  have w: "scan_word (lit ''fwup-ptn'') (ptn_line (name, hb, hs) @ r) = Some (32 # name @ ?n)" by (simp add: scan_word_def ptn_line_def lit_def)
  have nm: "name \<noteq> []" "\<And>c. c \<in> set name \<Longrightarrow> \<not> isspace c" "\<And>c. c \<in> set name \<Longrightarrow> c \<noteq> 0" "length name < 32" using assms(1) by (auto simp: line_ok_def)
  have "dropWhile isspace (name @ ?n) = name @ ?n" using nm(1,2) by (cases name) simp_all
  moreover have "takeWhile (\<lambda>c. \<not> isspace c) (name @ ?n) = name" using nm(2) sp by (simp add: takeWhile_append lit_def)
  ultimately have s: "scan_s (32 # name @ ?n) = Some (name, ?n)" using nm(1) sp by (simp add: scan_s_def)
  have z: "takeWhile (\<lambda>c. c \<noteq> 0) name = name" using nm(3) by simp
  have b: "scan_number A (lit ''base'') ?n = Some (word_of_nat (digits_value 16 hb), lit '' size 0x'' @ hs @ [9, 13, 10] @ r)"
    using scan_number_line [of hb 32 A "lit ''base''" "lit ''size 0x'' @ hs @ [9, 13, 10] @ r"] assms(1,2) by (simp add: line_ok_def lit_def isspace_def)
  have z2: "scan_number A (lit ''size'') (lit '' size 0x'' @ hs @ [9, 13, 10] @ r) = Some (word_of_nat (digits_value 16 hs), [9, 13, 10] @ r)"
    using scan_number_line [of hs 9 A "lit ''size''" "[13, 10] @ r"] assms(1,2) by (simp add: line_ok_def lit_def isspace_def)
  have "dropWhile isspace ([9, 13, 10] @ r) = r" using assms(3) sp by (cases r) simp_all
  then show ?thesis using w s nm(4) b z2 z by (simp add: scan_ptn_def)
qed

text \<open>What a table stands for, and a file with a table of such lines.\<close>

definition line_base :: "bytes \<times> bytes \<times> bytes \<Rightarrow> nat" where
  "line_base l = digits_value 16 (fst (snd l))"

definition line_size :: "bytes \<times> bytes \<times> bytes \<Rightarrow> nat" where
  "line_size l = digits_value 16 (snd (snd l))"

definition has_table :: "bytes \<Rightarrow> (bytes \<times> bytes \<times> bytes) list \<Rightarrow> bool" where
  "has_table c ls \<longleftrightarrow> 0x1014 \<le> length c \<and> length c < 2 ^ 31 \<and> list_all line_ok ls \<and>
     (\<exists>t. drop 0x1014 c = concat (map ptn_line ls) @ t \<and> (t = [] \<or> \<not> isspace (hd t)) \<and> take 8 t \<noteq> lit ''fwup-ptn'')"

lemma table_hd: "t = [] \<or> \<not> isspace (hd t) \<Longrightarrow> concat (map ptn_line ls) @ t = [] \<or> \<not> isspace (hd (concat (map ptn_line ls) @ t))"
  by (cases ls) (auto simp: ptn_line_def lit_def isspace_def split: prod.splits)

lemma scan_table_line:
  assumes "line_ok l" "32 \<le> ulong_bits A" "t = [] \<or> \<not> isspace (hd t)"
  shows "scan_ptn A (concat (map ptn_line (l # ls)) @ t) = Ptn (fst l) (word_of_nat (line_base l)) (word_of_nat (line_size l)) (concat (map ptn_line ls) @ t)"
  using scan_ptn_line [of "fst l" "fst (snd l)" "snd (snd l)" A "concat (map ptn_line ls) @ t"] assms table_hd [OF assms(3), of ls]
  by (simp add: line_base_def line_size_def)

lemma scan_no_line: "take 8 t \<noteq> lit ''fwup-ptn'' \<Longrightarrow> scan_ptn A t = No_ptn"
proof -
  have "length (lit ''fwup-ptn'') = 8" by (simp add: lit_def)
  then show "take 8 t \<noteq> lit ''fwup-ptn'' \<Longrightarrow> scan_ptn A t = No_ptn" by (simp add: scan_ptn_def scan_word_def)
qed

lemma ptn_loop_table:
  assumes "32 \<le> ulong_bits A" "t = [] \<or> \<not> isspace (hd t)" "take 8 t \<noteq> lit ''fwup-ptn''"
  shows "list_all line_ok ls \<Longrightarrow> ptn_loop A (concat (map ptn_line ls) @ t) out = Done (out @ map (\<lambda>l. (fst l, word_of_nat (line_base l), word_of_nat (line_base l + line_size l))) ls)"
proof (induction ls arbitrary: out)
  case Nil
  then show ?case using scan_no_line [OF assms(3)] by (simp add: ptn_loop.simps)
next
  case (Cons l ls)
  show ?case using Cons.IH Cons.prems scan_table_line [OF _ assms(1,2), of l ls] by (subst ptn_loop.simps) simp
qed

text \<open>The loops over the file.\<close>

lemma info_loop_holds: "sd_holds ctx m \<Longrightarrow> sd_holds (info_loop f len ctx) (m @ slice (fpos f) len (content f))"
proof (induction f len ctx arbitrary: m rule: info_loop.induct)
  case (1 f len ctx)
  let ?k = "osafeloader_min 1024 len" and ?b = "slice (fpos f) (osafeloader_min 1024 len) (content f)"
  obtain f' where r: "fread ?k f = (?b, f')" "fpos f' = fpos f + length ?b" "content f' = content f" by (auto simp: fread_def Let_def)
  show ?case
  proof (cases "?b = []")
    case True
    then have "slice (fpos f) len (content f) = []" by (auto simp: slice_def osafeloader_min_def split: if_splits)
    then show ?thesis using 1(2) True r by (simp add: info_loop.simps [of f len ctx])
  next
    case False
    have "sd_holds (info_loop f' (len - length ?b) (sd_Update ctx ?b)) ((m @ ?b) @ slice (fpos f') (len - length ?b) (content f'))"
      using 1(1) [OF r(1) [symmetric] refl False sd_Update_holds [OF 1(2)]] .
    moreover have "?k \<le> len" by (simp add: osafeloader_min_def)
    ultimately show ?thesis using False r slice_read [of ?k len "fpos f" "content f"] by (simp add: info_loop.simps [of f len ctx])
  qed
qed


section \<open>Runs of the program\<close>




text \<open>\<open>osafeloader info\<close> on a file with a table of partitions: it is rejected unless the digest in the header is that of the salt and the image behind the header, as long as the header says; otherwise
  the partitions of the table are listed, each with its start and its end.\<close>

theorem osafeloader_info_lists:
  assumes "fs path = Some c" "has_table c ls" "32 \<le> ulong_bits A" "length stack = 64" "n = unat (be32_dec (take 4 c))"
  shows "osafeloader_main A stack fs room [lit ''info'', path] opts =
    (if slice 4 16 c = md5_ref (md5_salt @ slice 20 n c)
     then Done (0, Some \<lparr>si_imagesize = be32_dec (take 4 c), si_md5 = slice 4 16 c,
       si_parts = map (\<lambda>l. (fst l, word_of_nat (line_base l), word_of_nat (line_base l + line_size l))) ls\<rparr>, None)
     else Done (-5, None, None))"
proof -
  obtain t where t: "drop 0x1014 c = concat (map ptn_line ls) @ t" "t = [] \<or> \<not> isspace (hd t)" "take 8 t \<noteq> lit ''fwup-ptn''" and c: "0x1014 \<le> length c"
      and ok: "list_all line_ok ls"
    using assms(2) by (auto simp: has_table_def)
  let ?f = "\<lparr>content = c, fpos = 20, fcap = 0\<rparr>"
  have rd: "fread safeloader_header \<lparr>content = c, fpos = 0, fcap = 0\<rparr> = (take 20 c, ?f)" using c by (simp add: fread_def safeloader_header_def slice_def Let_def)
  have sl: "slice 0 4 (take 20 c) = take 4 c" "slice 4 16 (take 20 c) = slice 4 16 c" by (simp_all add: slice_def drop_take)
  have "sd_holds (info_loop ?f n (sd_Update (sd_Init stack) md5_salt)) (md5_salt @ slice 20 n c)"
    using info_loop_holds [OF sd_Update_holds [OF sd_Init_holds [OF assms(4)], of md5_salt], of ?f n] by simp
  then have md5: "sd_Final (info_loop ?f n (sd_Update (sd_Init stack) md5_salt)) = md5_ref (md5_salt @ slice 20 n c)" by (rule sd_Final_ref)
  have "ptn_loop A (drop 0x1014 c) [] = Done (map (\<lambda>l. (fst l, word_of_nat (line_base l), word_of_nat (line_base l + line_size l))) ls)"
    using ptn_loop_table [OF assms(3) t(2,3) ok, of "[]"] t(1) by simp
  then show ?thesis
    using assms(1) c md5 by (auto simp: osafeloader_main_def osafeloader_info_def rd [unfolded safeloader_header_def] sl safeloader_header_def Let_def assms(5) lit_def)
qed

text \<open>An image with two partitions, the second of them three bytes long.\<close>

definition demo_lines :: "(bytes \<times> bytes \<times> bytes) list" where
  "demo_lines = [(lit ''fs-uboot'', lit ''0'', lit ''80''), (lit ''os-image'', lit ''80'', lit ''3'')]"

definition demo_body :: bytes where
  "demo_body = replicate 4096 0 @ concat (map ptn_line demo_lines) @ replicate 50 0 @ [1, 2, 3]"

definition demo_safeloader :: bytes where
  "demo_safeloader = be32_enc (word_of_nat (length demo_body)) @ md5_ref (md5_salt @ demo_body) @ demo_body"

lemma demo_lines_ok: "list_all line_ok demo_lines" "length (concat (map ptn_line demo_lines)) = 78"
  "line_base (demo_lines ! 1) = 128" "line_size (demo_lines ! 1) = 3"
  by (simp_all add: demo_lines_def line_ok_def ptn_line_def hex_digits_def line_base_def line_size_def lit_def digit_of_def digits_value_def isspace_def)

lemma demo_safeloader_table: "has_table demo_safeloader demo_lines" "length demo_body = 4227"
proof -
  show l: "length demo_body = 4227" using demo_lines_ok(2) by (simp add: demo_body_def)
  have "drop 0x1014 demo_safeloader = concat (map ptn_line demo_lines) @ replicate 50 0 @ [1, 2, 3]" by (simp add: demo_safeloader_def demo_body_def)
  moreover have "take 8 (replicate 50 0 @ [1, 2, 3]) \<noteq> lit ''fwup-ptn''" by code_simp
  ultimately show "has_table demo_safeloader demo_lines"
    using demo_lines_ok(1) l by (auto simp: has_table_def demo_safeloader_def isspace_def intro!: exI [of _ "replicate 50 0 @ [1, 2, 3]"])
qed


theorem osafeloader_info_lists_witness:
  "osafeloader_main mips_le (replicate 64 0) [lit ''f'' \<mapsto> demo_safeloader] (\<lambda>_. None) [lit ''info'', lit ''f''] [] =
    Done (0, Some \<lparr>si_imagesize = 4227, si_md5 = md5_ref (md5_salt @ demo_body), si_parts = [(lit ''fs-uboot'', 0, 0x80), (lit ''os-image'', 0x80, 0x83)]\<rparr>, None)"
proof -
  have h: "take 4 demo_safeloader = be32_enc 4227" "slice 4 16 demo_safeloader = md5_ref (md5_salt @ demo_body)" "slice 20 4227 demo_safeloader = demo_body"
    using demo_safeloader_table(2) by (simp_all add: demo_safeloader_def slice_def)
  have p: "map (\<lambda>l. (fst l, word_of_nat (line_base l), word_of_nat (line_base l + line_size l))) demo_lines = [(lit ''fs-uboot'', 0 :: u32, 0x80 :: u32), (lit ''os-image'', 0x80, 0x83)]"
    by code_simp
  show ?thesis
    using osafeloader_info_lists [where fs = "[lit ''f'' \<mapsto> demo_safeloader]" and path = "lit ''f''" and A = mips_le and stack = "replicate 64 0" and room = "\<lambda>_. None" and opts = "[]",
        OF _ demo_safeloader_table(1) _ _ refl]
    unfolding h p be32_dec_enc by (simp add: mips_le_def h)
qed

end
