(* ===== verification/Mtd.thy ===== *)
theory Mtd
  imports Crc Stdio
begin

text \<open>
  The flash writer, \<^verbatim>\<open>package/system/mtd/src/mtd.c\<close> and \<^verbatim>\<open>trx.c\<close>, without FIS support. The program is built for a board: which of the functions
  declared weak in \<^verbatim>\<open>mtd.h\<close> are linked, and whether \<^verbatim>\<open>target_brcm\<close> is defined, is the record \<open>build\<close>; \<open>trx_build\<close> is the one with \<^verbatim>\<open>trx.o\<close>.

  The kernel's mtd device is a record of operations on a device state \<open>'d\<close>, an argument of every definition: what the
  ioctls, \<open>pread\<close> and \<open>pwrite\<close> give. \<open>chip\<close> states what the properties rely on of it, and \<open>sim_ops\<close> is a device that satisfies
  it. The devices are found by the names given on the command line; \<open>mtd_open\<close>'s lookup of a label in \<^verbatim>\<open>/proc/mtd\<close> is the
  \<open>devs\<close> of the state. Offsets and sizes of a device are natural numbers, where the code has \<open>int\<close>, \<open>ssize_t\<close> and \<open>size_t\<close>: the theorems are about devices below 2 GiB, where these hold them.

  An image is read from a file, a pipe or a socket: what \<open>read\<close> gives is a sequence of events. Reads of a device are not interrupted
  by a signal. Messages are left out.
  \<open>exit\<close> is a value, and so is an access outside the buffer. Allocation succeeds. The \<open>jffs2write\<close> command
  (\<^verbatim>\<open>jffs2.c\<close>) is in \<open>Jffs2\<close>, \<open>write\<close> with the option \<open>-j\<close> in \<open>MtdJffs2\<close> and with \<open>-F\<close> in \<open>Fis\<close>, \<open>resetbc\<close> in \<open>Bootcount\<close>.
\<close>

section \<open>The device and the state\<close>

text \<open>\<open>op_info\<close>: size, erase size, and whether it is NAND flash; \<open>op_bad\<close>: the result of \<open>MEMGETBADBLOCK\<close>; \<open>op_erase\<close>: whether
  \<open>MEMERASE\<close> succeeds.\<close>

record 'd mtd_ops =
  op_info :: "'d \<Rightarrow> (nat \<times> nat \<times> bool) option"
  op_bad :: "'d \<Rightarrow> nat \<Rightarrow> int"
  op_unlock :: "'d \<Rightarrow> nat \<Rightarrow> nat \<Rightarrow> 'd"
  op_erase :: "'d \<Rightarrow> nat \<Rightarrow> nat \<Rightarrow> bool \<times> 'd"
  op_pread :: "'d \<Rightarrow> nat \<Rightarrow> nat \<Rightarrow> bytes option"
  op_pwrite :: "'d \<Rightarrow> nat \<Rightarrow> bytes \<Rightarrow> int \<times> 'd"

datatype rd = Chunk bytes | Intr | Failed

datatype mtd_image_format = MTD_IMAGE_FORMAT_UNKNOWN | MTD_IMAGE_FORMAT_TRX | MTD_IMAGE_FORMAT_SEAMA
  | MTD_IMAGE_FORMAT_WRG | MTD_IMAGE_FORMAT_WRGG03

datatype stop = Exit int | Fault | Fuel

text \<open>The globals of the program. \<open>buf\<close> is the filled part of the buffer, \<open>buflen\<close> bytes; \<open>bufcap\<close> its size, \<open>None\<close> before it is
  allocated. \<open>image\<close> is the rest of the image file.\<close>

record 'd mtd =
  devs :: "bytes \<Rightarrow> 'd option"
  mtdsize :: nat
  erasesize :: nat
  mtd_nand :: bool
  buf :: bytes
  bufcap :: "nat option"
  imageformat :: mtd_image_format
  image :: "rd list"

fun fd_read :: "nat \<Rightarrow> rd list \<Rightarrow> rd \<times> rd list" where
  "fd_read n [] = (Chunk [], [])"
| "fd_read n (Chunk c # evs) = (if length c \<le> n then (Chunk c, evs) else (Chunk (take n c), Chunk (drop n c) # evs))"
| "fd_read n (ev # evs) = (ev, evs)"

fun rd_size :: "rd list \<Rightarrow> nat" where
  "rd_size [] = 0"
| "rd_size (Chunk c # evs) = 1 + length c + rd_size evs"
| "rd_size (ev # evs) = 1 + rd_size evs"

lemma fd_read_size: "fd_read n evs = (ev, evs') \<Longrightarrow> rd_size evs' \<le> rd_size evs"
  by (induction n evs rule: fd_read.induct) (auto split: if_splits)

lemma fd_read_less: "fd_read n evs = (ev, evs') \<Longrightarrow> 0 < n \<Longrightarrow> ev \<noteq> Chunk [] \<Longrightarrow> rd_size evs' < rd_size evs"
  by (induction n evs rule: fd_read.induct) (auto split: if_splits)

section \<open>Devices\<close>

definition mtd_check_open :: "'d mtd_ops \<Rightarrow> bytes \<Rightarrow> 'd mtd \<Rightarrow> 'd option \<times> 'd mtd" where
  "mtd_check_open ops name s =
     (case devs s name of
        None \<Rightarrow> (None, s)
      | Some d \<Rightarrow>
          (case op_info ops d of
             None \<Rightarrow> (None, s)
           | Some (sz, eb, nand) \<Rightarrow> (Some d, s\<lparr>mtdsize := sz, erasesize := eb, mtd_nand := nand\<rparr>)))"

definition mtd_block_is_bad :: "'d mtd_ops \<Rightarrow> bool \<Rightarrow> 'd \<Rightarrow> nat \<Rightarrow> stop + bool" where
  "mtd_block_is_bad ops nand d offset =
     (if nand then (let r = op_bad ops d offset in if r < 0 then Inl (Exit 1) else Inr (r \<noteq> 0)) else Inr False)"

definition mtd_erase_block :: "'d mtd_ops \<Rightarrow> nat \<Rightarrow> 'd \<Rightarrow> nat \<Rightarrow> bool \<times> 'd" where
  "mtd_erase_block ops eb d offset = op_erase ops (op_unlock ops d offset eb) offset eb"

fun split_colon :: "bytes \<Rightarrow> bytes list" where
  "split_colon [] = [[]]"
| "split_colon (c # cs) = (if c = 0x3a then [] # split_colon cs
     else case split_colon cs of w # ws \<Rightarrow> (c # w) # ws | [] \<Rightarrow> [[c]])"

fun mtd_check :: "'d mtd_ops \<Rightarrow> bytes list \<Rightarrow> 'd mtd \<Rightarrow> bool \<times> 'd mtd" where
  "mtd_check ops [] s = (True, s)"
| "mtd_check ops (name # names) s =
     (case mtd_check_open ops name s of
        (None, s') \<Rightarrow> (False, s')
      | (Some _, s') \<Rightarrow> mtd_check ops names (if bufcap s' = None then s'\<lparr>bufcap := Some (erasesize s')\<rparr> else s'))"

fun mtd_unlock :: "'d mtd_ops \<Rightarrow> bytes list \<Rightarrow> 'd mtd \<Rightarrow> (stop + int) \<times> 'd mtd" where
  "mtd_unlock ops [] s = (Inr 0, s)"
| "mtd_unlock ops (name # names) s =
     (case mtd_check_open ops name s of
        (None, s') \<Rightarrow> (Inl (Exit 1), s')
      | (Some d, s') \<Rightarrow> mtd_unlock ops names (s'\<lparr>devs := (devs s')(name \<mapsto> op_unlock ops d 0 (mtdsize s'))\<rparr>))"

text \<open>The starts of the erase blocks of a device, and the loop over them.\<close>

definition eb_starts :: "nat \<Rightarrow> nat \<Rightarrow> nat list" where
  "eb_starts sz eb = map (\<lambda>k. k * eb) [0..<(sz + eb - 1) div eb]"

fun erase_loop :: "'d mtd_ops \<Rightarrow> nat \<Rightarrow> bool \<Rightarrow> nat list \<Rightarrow> 'd \<Rightarrow> (stop + int) \<times> 'd" where
  "erase_loop ops eb nand [] d = (Inr 0, d)"
| "erase_loop ops eb nand (start # starts) d =
     (case mtd_block_is_bad ops nand d start of
        Inl x \<Rightarrow> (Inl x, d)
      | Inr True \<Rightarrow> erase_loop ops eb nand starts d
      | Inr False \<Rightarrow> erase_loop ops eb nand starts (snd (op_erase ops (op_unlock ops d start eb) start eb)))"

definition mtd_erase :: "'d mtd_ops \<Rightarrow> bytes \<Rightarrow> 'd mtd \<Rightarrow> (stop + int) \<times> 'd mtd" where
  "mtd_erase ops name s =
     (case mtd_check_open ops name s of
        (None, s') \<Rightarrow> (Inl (Exit 1), s')
      | (Some d, s') \<Rightarrow>
          let (r, d') = erase_loop ops (erasesize s') (mtd_nand s') (eb_starts (mtdsize s') (erasesize s')) d
          in (r, s'\<lparr>devs := (devs s')(name \<mapsto> d')\<rparr>))"

text \<open>The loop of \<open>mtd_dump\<close>, and the bytes written to the standard output so far. The position in the device is that of
  its file; the offset given to \<open>mtd_block_is_bad\<close> starts at 0.\<close>

fun dump_loop :: "'d mtd_ops \<Rightarrow> nat \<Rightarrow> bool \<Rightarrow> 'd \<Rightarrow> nat \<Rightarrow> nat \<Rightarrow> nat \<Rightarrow> nat \<Rightarrow> bytes \<Rightarrow> (stop + int) \<times> bytes" where
  "dump_loop ops eb nand d 0 pos offset sz out = (Inl Fuel, out)"
| "dump_loop ops eb nand d (Suc fuel) pos offset sz out =
     (let len = (if sz > eb then eb else sz)
      in case op_pread ops d pos len of
           None \<Rightarrow> (Inr (-1), out)
         | Some b \<Rightarrow>
             if b = [] \<or> length b \<noteq> len then (Inr 0, out)
             else case mtd_block_is_bad ops nand d offset of
                 Inl x \<Rightarrow> (Inl x, out)
               | Inr bad \<Rightarrow>
                   let sz' = (if bad then sz else sz - len); out' = (if bad then out else out @ b)
                   in if sz' > 0 then dump_loop ops eb nand d fuel (pos + len) (offset + len) sz' out'
                      else (Inr 0, out'))"

definition mtd_dump :: "'d mtd_ops \<Rightarrow> nat \<Rightarrow> bytes \<Rightarrow> nat \<Rightarrow> nat \<Rightarrow> 'd mtd \<Rightarrow> ((stop + int) \<times> bytes) \<times> 'd mtd" where
  "mtd_dump ops fuel name part_offset sz s =
     (case mtd_check_open ops name s of
        (None, s') \<Rightarrow> ((Inr (-1), []), s')
      | (Some d, s') \<Rightarrow>
          (dump_loop ops (erasesize s') (mtd_nand s') d fuel part_offset 0 (if sz = 0 then mtdsize s' else sz) [], s'))"

text \<open>\<open>mtd_verify\<close>; \<open>md5\<close> is libubox's, over the bytes hashed so far. \<open>file\<close> is the content of the file, \<open>None\<close> if it cannot be read.\<close>

fun verify_loop :: "'d mtd_ops \<Rightarrow> 'd \<Rightarrow> nat \<Rightarrow> nat \<Rightarrow> nat \<Rightarrow> bytes \<Rightarrow> (stop + bytes option)" where
  "verify_loop ops d 0 pos sz hashed = Inl Fuel"
| "verify_loop ops d (Suc fuel) pos sz hashed =
     (let len = (if sz > 256 then 256 else sz)
      in case op_pread ops d pos len of
           None \<Rightarrow> Inr None
         | Some b \<Rightarrow>
             if b = [] then Inr (Some hashed)
             else if sz - length b > 0 then verify_loop ops d fuel (pos + length b) (sz - length b) (hashed @ b)
             else Inr (Some (hashed @ b)))"

definition mtd_verify :: "'d mtd_ops \<Rightarrow> (bytes \<Rightarrow> 'h) \<Rightarrow> nat \<Rightarrow> bytes \<Rightarrow> bytes option \<Rightarrow> 'd mtd \<Rightarrow> (stop + bool) \<times> 'd mtd" where
  "mtd_verify ops md5 fuel name file s =
     (case file of
        None \<Rightarrow> (Inr False, s)
      | Some f \<Rightarrow>
          (case mtd_check_open ops name s of
             (None, s') \<Rightarrow> (Inr False, s')
           | (Some d, s') \<Rightarrow>
               (case verify_loop ops d fuel 0 (length f) [] of
                  Inl x \<Rightarrow> Inl x
                | Inr None \<Rightarrow> Inr False
                | Inr (Some h) \<Rightarrow> Inr (md5 f = md5 h), s')))"

section \<open>The image check\<close>

definition MTD_TRX_MAGIC_BE :: u32 where "MTD_TRX_MAGIC_BE = 0x48445230"
definition MTD_TRX_MAGIC :: u32 where "MTD_TRX_MAGIC = 0x30524448"
definition MTD_SEAMA_MAGIC :: u32 where "MTD_SEAMA_MAGIC = 0x5ea3a417"
definition MTD_WRG_MAGIC :: u32 where "MTD_WRG_MAGIC = 0x20040220"
definition MTD_WRGG03_MAGIC :: u32 where "MTD_WRGG03_MAGIC = 0x20080321"

text \<open>The loop that reads the magic number: it gives up at the first read that does not give a byte.\<close>

function read_magic :: "bytes \<Rightarrow> rd list \<Rightarrow> bytes \<times> rd list" where
  "read_magic b evs =
     (if length b < 4
      then (case fd_read (4 - length b) evs of
              (Chunk c, evs') \<Rightarrow> if c = [] then (b, evs') else read_magic (b @ c) evs'
            | (_, evs') \<Rightarrow> (b, evs'))
      else (b, evs))"
  by pat_completeness auto
termination
  by (relation "measure (\<lambda>(b, evs). rd_size evs)") (auto dest: fd_read_less [OF sym])

text \<open>\<open>trx_check\<close> adds the result of \<open>read\<close>, \<open>-1\<close> after an error, to the length.\<close>

definition trx_check :: "abi \<Rightarrow> 'd mtd_ops \<Rightarrow> bytes \<Rightarrow> 'd mtd \<Rightarrow> (stop + bool) \<times> 'd mtd" where
  "trx_check A ops name s =
     (if name \<noteq> lit ''firmware'' then (Inr True, s)
      else let s1 = (if length (buf s) < 32
                     then (case fd_read (32 - length (buf s)) (image s) of
                             (Chunk c, evs) \<Rightarrow> s\<lparr>buf := buf s @ c, image := evs\<rparr>
                           | (_, evs) \<Rightarrow> s\<lparr>buf := butlast (buf s), image := evs\<rparr>)
                     else s);
               trx_len = unat (native32_dec A (slice 4 4 (buf s1)))
           in if length (buf s1) < 32 then (Inr False, s1)
              else if native32_dec A (slice 0 4 (buf s1)) \<noteq> MTD_TRX_MAGIC \<or> trx_len < 28 then (Inr False, s1)
              else case mtd_check_open ops name s1 of
                  (None, s2) \<Rightarrow> (Inl (Exit 1), s2)
                | (Some _, s2) \<Rightarrow> (Inr (\<not> mtdsize s2 < trx_len), s2))"

definition detect_format :: "bytes \<Rightarrow> mtd_image_format \<Rightarrow> mtd_image_format" where
  "detect_format b old =
     (if be32_dec b = MTD_TRX_MAGIC_BE then MTD_IMAGE_FORMAT_TRX
      else if be32_dec b = MTD_SEAMA_MAGIC then MTD_IMAGE_FORMAT_SEAMA
      else if le32_dec b = MTD_WRG_MAGIC then MTD_IMAGE_FORMAT_WRG
      else if le32_dec b = MTD_WRGG03_MAGIC then MTD_IMAGE_FORMAT_WRGG03
      else old)"

text \<open>The functions that depend on the board.\<close>

record 'd build =
  target_brcm :: bool
  weak_trx_check :: "(bytes \<Rightarrow> 'd mtd \<Rightarrow> (stop + bool) \<times> 'd mtd) option"
  weak_mtd_fixtrx :: "(bytes \<Rightarrow> nat \<Rightarrow> nat \<Rightarrow> 'd mtd \<Rightarrow> (stop + int) \<times> 'd mtd) option"
  weak_mtd_resetbc :: "(bytes \<Rightarrow> 'd mtd \<Rightarrow> (stop + int) \<times> 'd mtd) option"

definition image_check :: "'d build \<Rightarrow> bytes \<Rightarrow> 'd mtd \<Rightarrow> (stop + bool) \<times> 'd mtd" where
  "image_check B name s =
     (let (b, evs) = read_magic (buf s) (image s); s1 = s\<lparr>buf := b, image := evs\<rparr>
      in if length b < 4 then (Inr False, s1)
         else let f = detect_format (take 4 b) (imageformat s1); s2 = s1\<lparr>imageformat := f\<rparr>
              in case f of
                   MTD_IMAGE_FORMAT_TRX \<Rightarrow> (case weak_trx_check B of None \<Rightarrow> (Inr True, s2) | Some check \<Rightarrow> check name s2)
                 | MTD_IMAGE_FORMAT_UNKNOWN \<Rightarrow> (Inr (\<not> (target_brcm B \<and> name = lit ''firmware'')), s2)
                 | _ \<Rightarrow> (Inr True, s2))"

section \<open>Writing an image\<close>

text \<open>The loop that fills the buffer up to an erase block: an interrupted read is repeated, an error ends the loop like the end
  of the file.\<close>

function fill_buf :: "nat \<Rightarrow> bytes \<Rightarrow> rd list \<Rightarrow> bytes \<times> rd list" where
  "fill_buf eb b evs =
     (if length b < eb
      then (case fd_read (eb - length b) evs of
              (Chunk c, evs') \<Rightarrow> if c = [] then (b, evs') else fill_buf eb (b @ c) evs'
            | (Intr, evs') \<Rightarrow> fill_buf eb b evs'
            | (Failed, evs') \<Rightarrow> (b, evs'))
      else (b, evs))"
  by pat_completeness auto
termination
  by (relation "measure (\<lambda>(eb, b, evs). rd_size evs)") (auto dest: fd_read_less [OF sym])

declare read_magic.simps [simp del] fill_buf.simps [simp del]

text \<open>What \<open>mtd_write\<close> keeps while it writes to a device: the device and the position of its file, \<open>w\<close>, \<open>e\<close>,
  \<open>skip_bad_blocks\<close>, \<open>offset\<close>.\<close>

record 'd wr =
  wr_dev :: 'd
  wr_pos :: nat
  wr_w :: nat
  wr_e :: nat
  wr_skip :: nat

text \<open>The loop that erases the next block, over the bad blocks before it; \<open>Inr False\<close> after a failed erase.\<close>

fun erase_ahead :: "'d mtd_ops \<Rightarrow> nat \<Rightarrow> bool \<Rightarrow> nat \<Rightarrow> nat \<Rightarrow> nat \<Rightarrow> 'd wr \<Rightarrow> (stop + bool) \<times> 'd wr" where
  "erase_ahead ops eb nand part_offset 0 buflen x = (Inl Fuel, x)"
| "erase_ahead ops eb nand part_offset (Suc fuel) buflen x =
     (if int (wr_w x + buflen) > int (wr_e x) - int (wr_skip x)
      then (case mtd_block_is_bad ops nand (wr_dev x) (wr_e x) of
              Inl st \<Rightarrow> (Inl st, x)
            | Inr True \<Rightarrow>
                erase_ahead ops eb nand part_offset fuel buflen
                  (x\<lparr>wr_skip := wr_skip x + eb, wr_e := wr_e x + eb, wr_pos := wr_pos x + eb\<rparr>)
            | Inr False \<Rightarrow>
                let (ok, d') = mtd_erase_block ops eb (wr_dev x) (wr_e x + part_offset)
                in if ok then erase_ahead ops eb nand part_offset fuel buflen (x\<lparr>wr_dev := d', wr_e := wr_e x + eb\<rparr>)
                   else (Inr False, x\<lparr>wr_dev := d'\<rparr>))
      else (Inr True, x))"

text \<open>Where a device's loop ends: the image is written, or the erase failed with the buffer still to be written.\<close>

datatype wr_end = Written | Unwritten bytes nat

text \<open>The loop over the blocks of the image. \<open>offset\<close> is not 0 only in the first round after a device was given up.
  Every access behind the filled part of the buffer is a \<open>Fault\<close>.\<close>

definition pad_block :: "nat \<Rightarrow> bytes \<Rightarrow> bytes" where
  "pad_block eb b = b @ replicate (eb - length b) 0xff"

definition write_block :: "'d mtd_ops \<Rightarrow> nat \<Rightarrow> bool \<Rightarrow> nat \<Rightarrow> bool \<Rightarrow> nat \<Rightarrow> bool \<Rightarrow> nat \<Rightarrow> bytes \<Rightarrow> 'd wr
    \<Rightarrow> (stop + wr_end option) \<times> 'd wr" where
  "write_block ops eb nand part_offset no_erase fuel has_next offset b x =
     (case (if no_erase then (Inr True, x) else erase_ahead ops eb nand part_offset fuel (length b) x) of
        (Inl st, x') \<Rightarrow> (Inl st, x')
      | (Inr False, x') \<Rightarrow>
          if \<not> has_next then (Inl (Exit 1), x')
          else if wr_w x' < wr_e x'
          then let n = wr_e x' - wr_w x'
               in if offset + n > length b then (Inl Fault, x')
                  else (Inr (Some (Unwritten b n)), x'\<lparr>wr_dev := snd (op_pwrite ops (wr_dev x') (wr_pos x') (slice offset n b))\<rparr>)
          else (Inr (Some (Unwritten b offset)), x')
      | (Inr True, x') \<Rightarrow>
          if offset > 0 then (Inl Fault, x')
          else let (result, d') = op_pwrite ops (wr_dev x') (wr_pos x') b
               in if result < int (length b) then (Inl (Exit 1), x'\<lparr>wr_dev := d'\<rparr>)
                  else (Inr None, x'\<lparr>wr_dev := d', wr_pos := wr_pos x' + length b, wr_w := wr_w x' + length b\<rparr>))"

lemma fill_buf_size: "fill_buf eb b evs = (b', evs') \<Longrightarrow> rd_size evs' \<le> rd_size evs \<and> (b' \<noteq> b \<longrightarrow> rd_size evs' < rd_size evs)"
proof (induction eb b evs rule: fill_buf.induct)
  case (1 eb b evs)
  show ?case
  proof (cases "length b < eb")
    case True
    obtain ev evs1 where r: "fd_read (eb - length b) evs = (ev, evs1)" by force
    show ?thesis
      using 1 True r fd_read_size [OF r] fd_read_less [OF r]
      by (cases ev) (force simp: fill_buf.simps [of eb b evs] split: if_splits)+
  qed (use 1 in \<open>simp add: fill_buf.simps [of eb b evs]\<close>)
qed

function write_loop :: "'d mtd_ops \<Rightarrow> nat \<Rightarrow> bool \<Rightarrow> nat \<Rightarrow> nat \<Rightarrow> bool \<Rightarrow> nat \<Rightarrow> bool \<Rightarrow> nat \<Rightarrow> bytes \<Rightarrow> rd list \<Rightarrow> 'd wr
    \<Rightarrow> (stop + wr_end) \<times> rd list \<times> 'd wr" where
  "write_loop ops eb nand cap part_offset no_erase fuel has_next offset b evs x =
     (let (b1, evs1) = fill_buf eb b evs
      in if b1 = [] then (Inr Written, evs1, x)
         else if eb > cap then (Inl Fault, evs1, x)
         else case write_block ops eb nand part_offset no_erase fuel has_next offset (pad_block eb b1) x of
             (Inl st, x') \<Rightarrow> (Inl st, evs1, x')
           | (Inr (Some r), x') \<Rightarrow> (Inr r, evs1, x')
           | (Inr None, x') \<Rightarrow> write_loop ops eb nand cap part_offset no_erase fuel has_next 0 [] evs1 x')"
  by pat_completeness auto
termination
proof (relation "measure (\<lambda>(ops, eb, nand, cap, po, ne, fuel, has_next, offset, b, evs, x). rd_size evs + (if b = [] then 0 else 1))", simp, goal_cases)
  case (1 ops eb nand cap po ne fuel has_next offset b evs x p b1 evs1)
  then show ?case using fill_buf_size [of eb b evs b1 evs1] by (auto split: if_splits)
qed

declare write_loop.simps [simp del]

text \<open>The devices of the list, one after the other: \<open>skip_bad_blocks\<close>, \<open>offset\<close> and the buffer are kept from one to the next.\<close>

fun write_devs :: "'d mtd_ops \<Rightarrow> nat \<Rightarrow> bool \<Rightarrow> nat \<Rightarrow> bytes list \<Rightarrow> nat \<Rightarrow> nat \<Rightarrow> 'd mtd \<Rightarrow> (stop + int) \<times> 'd mtd" where
  "write_devs ops part_offset no_erase fuel [] skip_bad offset s = (Inl (Exit 1), s)"
| "write_devs ops part_offset no_erase fuel (name # names) skip_bad offset s =
     (case mtd_check_open ops name s of
        (None, s1) \<Rightarrow> (Inl (Exit 1), s1)
      | (Some d, s1) \<Rightarrow>
          let (r, evs, x) = write_loop ops (erasesize s1) (mtd_nand s1) (case bufcap s1 of None \<Rightarrow> 0 | Some n \<Rightarrow> n) part_offset no_erase fuel
                (names \<noteq> []) offset (buf s1) (image s1)
                \<lparr>wr_dev = d, wr_pos = part_offset, wr_w = 0, wr_e = 0, wr_skip = skip_bad\<rparr>;
              s2 = s1\<lparr>devs := (devs s1)(name \<mapsto> wr_dev x), buf := [], image := evs\<rparr>
          in case r of
               Inl st \<Rightarrow> (Inl st, s2)
             | Inr Written \<Rightarrow> (Inr 0, s2)
             | Inr (Unwritten b off) \<Rightarrow> write_devs ops part_offset no_erase fuel names (wr_skip x) off (s2\<lparr>buf := b\<rparr>))"

definition mtd_write :: "'d mtd_ops \<Rightarrow> nat \<Rightarrow> bool \<Rightarrow> nat \<Rightarrow> bytes \<Rightarrow> 'd mtd \<Rightarrow> (stop + int) \<times> 'd mtd" where
  "mtd_write ops part_offset no_erase fuel name s = write_devs ops part_offset no_erase fuel (split_colon name) 0 0 s"

section \<open>Fixing a trx header\<close>

text \<open>\<open>o & ~(erasesize - 1)\<close> and \<open>o & (erasesize - 1)\<close>\<close>

definition block_base :: "nat \<Rightarrow> nat \<Rightarrow> nat" where
  "block_base eb p = nat (int p AND NOT (int eb - 1))"

definition block_rest :: "nat \<Rightarrow> nat \<Rightarrow> nat" where
  "block_rest eb p = nat (int p AND (int eb - 1))"

lemma block_rest_less: "0 < eb \<Longrightarrow> block_rest eb p < eb"
  using AND_upper2 [of "int eb - 1" "int p"] by (auto simp: block_rest_def nat_less_iff)

text \<open>The data the checksum is over, from the good blocks only.\<close>

function fix_read :: "'d mtd_ops \<Rightarrow> nat \<Rightarrow> bool \<Rightarrow> 'd \<Rightarrow> nat \<Rightarrow> nat \<Rightarrow> bytes \<Rightarrow> stop + bytes" where
  "fix_read ops eb nand d data_offset data_size to_buf =
     (if data_size = 0 \<or> eb = 0 then Inr to_buf
      else let read_chunk = min (eb - block_rest eb data_offset) data_size
           in case mtd_block_is_bad ops nand d (block_base eb data_offset) of
                Inl st \<Rightarrow> Inl st
              | Inr True \<Rightarrow> fix_read ops eb nand d (data_offset + read_chunk) (data_size - read_chunk) to_buf
              | Inr False \<Rightarrow>
                  (case op_pread ops d data_offset read_chunk of
                     None \<Rightarrow> Inl (Exit 1)
                   | Some b \<Rightarrow>
                       if length b \<noteq> read_chunk then Inl (Exit 1)
                       else fix_read ops eb nand d (data_offset + read_chunk) (data_size - read_chunk) (to_buf @ b)))"
  by pat_completeness auto
termination
  by (relation "measure (\<lambda>(ops, eb, nand, d, data_offset, data_size, to_buf). data_size)") (auto simp: block_rest_less min_def)

declare fix_read.simps [simp del]

text \<open>\<open>STORE32_LE\<close> is \<open>le32_to_cpu\<close>. The header has to be in the block read up to the field that is used.\<close>

definition mtd_fixtrx :: "abi \<Rightarrow> 'd mtd_ops \<Rightarrow> bytes \<Rightarrow> nat \<Rightarrow> nat \<Rightarrow> 'd mtd \<Rightarrow> (stop + int) \<times> 'd mtd" where
  "mtd_fixtrx A ops name offset data_size s =
     (case mtd_check_open ops name s of
        (None, s1) \<Rightarrow> (Inl (Exit 1), s1)
      | (Some d, s1) \<Rightarrow>
          let eb = erasesize s1;
              data_offset = size_add A offset 12;
              data_size1 = (if data_size \<noteq> 0 then size_add A data_size 16 else size_sub A eb 12);
              block_offset = block_base eb offset;
              off = offset - block_offset
          in if size_add A data_offset data_size1 > mtdsize s1 then (Inl (Exit 1), s1)
             else case op_pread ops d block_offset eb of
                 None \<Rightarrow> (Inl (Exit 1), s1)
               | Some first_block \<Rightarrow>
                   if length first_block \<noteq> eb then (Inl (Exit 1), s1)
                   else if off + 4 > eb then (Inl Fault, s1)
                   else if native32_dec A (slice off 4 first_block) \<noteq> le32_to_cpu A MTD_TRX_MAGIC then (Inl (Exit 1), s1)
                   else case fix_read ops eb (mtd_nand s1) d data_offset data_size1 [] of
                       Inl st \<Rightarrow> (Inl st, s1)
                     | Inr data \<Rightarrow>
                         let len = le32_to_cpu A (of_nat (length data + 12)); crc = le32_to_cpu A (crc32buf data)
                         in if off + 12 > eb then (Inl Fault, s1)
                            else if native32_dec A (slice (off + 4) 4 first_block) = len \<and> native32_dec A (slice (off + 8) 4 first_block) = crc
                            then (Inr 0, s1)
                            else let block = put (off + 8) (native32_enc A crc) (put (off + 4) (native32_enc A len) first_block);
                                     (ok, d1) = mtd_erase_block ops eb d block_offset
                                 in if \<not> ok then (Inl (Exit 1), s1\<lparr>devs := (devs s1)(name \<mapsto> d1)\<rparr>)
                                    else let (res, d2) = op_pwrite ops d1 block_offset block
                                         in (if res \<noteq> int eb then Inl (Exit 1) else Inr 0, s1\<lparr>devs := (devs s1)(name \<mapsto> d2)\<rparr>))"

section \<open>The program\<close>

text \<open>The options, as \<open>getopt\<close> gives them. The ninth element of \<open>erase\<close> is behind the array. \<open>strtoul\<close> reports a number that
  does not fit.\<close>

definition strtoul_erange :: "abi \<Rightarrow> bytes \<Rightarrow> bool" where
  "strtoul_erange A s =
     (let s1 = dropWhile isspace s; s2 = drop (snd (strtoul_sign s1)) s1; b = strtoul_base 0 s2;
          ds = takeWhile (\<lambda>c. digit_of c < b) (drop (if strtoul_hex 0 s2 then 2 else 0) s2)
      in 2 ^ ulong_bits A \<le> digits_value b ds)"

record mtd_opts =
  o_force :: bool
  o_no_erase :: bool
  o_erase :: "bytes list"
  o_offset :: nat
  o_data_size :: nat
  o_part_offset :: nat
  o_dump_len :: nat
  o_jffs2file :: "bytes option"
  o_jffs2dir :: bytes
  o_skip_bytes :: int

definition mtd_option :: "abi \<Rightarrow> mtd_opts \<Rightarrow> char \<Rightarrow> bytes \<Rightarrow> stop + mtd_opts" where
  "mtd_option A opts ch arg =
     (let v = fst (strtoul A 0 arg)
      in if ch = CHR ''f'' then Inr (opts\<lparr>o_force := True\<rparr>)
         else if ch = CHR ''n'' then Inr (opts\<lparr>o_no_erase := True\<rparr>)
         else if ch = CHR ''r'' \<or> ch = CHR ''q'' then Inr opts
         else if ch = CHR ''j'' then Inr (opts\<lparr>o_jffs2file := Some arg\<rparr>)
         else if ch = CHR ''d'' then Inr (opts\<lparr>o_jffs2dir := arg\<rparr>)
         else if ch = CHR ''e'' then
           (if length (o_erase opts) < 7 then Inr (opts\<lparr>o_erase := o_erase opts @ [arg]\<rparr>) else Inl Fault)
         else if ch \<in> {CHR ''s'', CHR ''p'', CHR ''l'', CHR ''o'', CHR ''c''} then
           (if strtoul_erange A arg then Inl (Exit 1)
            else if ch = CHR ''p'' then Inr (opts\<lparr>o_part_offset := v\<rparr>)
            else if ch = CHR ''l'' then Inr (opts\<lparr>o_dump_len := v\<rparr>)
            else if ch = CHR ''o'' then Inr (opts\<lparr>o_offset := v\<rparr>)
            else if ch = CHR ''c'' then Inr (opts\<lparr>o_data_size := v\<rparr>)
            else Inr (opts\<lparr>o_skip_bytes := sint (word_of_nat v :: u32)\<rparr>))
         else Inl (Exit 1))"

fun mtd_options :: "abi \<Rightarrow> mtd_opts \<Rightarrow> (char \<times> bytes) list \<Rightarrow> stop + mtd_opts" where
  "mtd_options A opts [] = Inr opts"
| "mtd_options A opts ((ch, arg) # rest) = (case mtd_option A opts ch arg of Inl st \<Rightarrow> Inl st | Inr opts' \<Rightarrow> mtd_options A opts' rest)"

definition and_then :: "(stop + 'a) \<times> 's \<Rightarrow> ('a \<Rightarrow> 's \<Rightarrow> (stop + 'b) \<times> 's) \<Rightarrow> (stop + 'b) \<times> 's" where
  "and_then r k = (case r of (Inl st, s) \<Rightarrow> (Inl st, s) | (Inr v, s) \<Rightarrow> k v s)"

fun erase_args :: "'d mtd_ops \<Rightarrow> bytes list \<Rightarrow> 'd mtd \<Rightarrow> (stop + int) \<times> 'd mtd" where
  "erase_args ops [] s = (Inr 0, s)"
| "erase_args ops (name # names) s =
     and_then (mtd_unlock ops (split_colon name) s) (\<lambda>_ s1. and_then (mtd_erase ops name s1) (\<lambda>_ s2. erase_args ops names s2))"

text \<open>What \<open>main\<close> does before it erases anything, for \<open>write\<close>: open the image, check the devices and the image.\<close>

definition prepare_write :: "'d build \<Rightarrow> 'd mtd_ops \<Rightarrow> bool \<Rightarrow> rd list option \<Rightarrow> bytes \<Rightarrow> 'd mtd \<Rightarrow> (stop + unit) \<times> 'd mtd" where
  "prepare_write B ops force img device s =
     (case img of
        None \<Rightarrow> (Inl (Exit 1), s)
      | Some evs \<Rightarrow>
          let (ok, s1) = mtd_check ops (split_colon device) (s\<lparr>image := evs\<rparr>)
          in if \<not> ok then (Inl (Exit 1), s1)
             else and_then (image_check B device s1)
                (\<lambda>accepted s2. if \<not> accepted \<and> \<not> force then (Inl (Exit 1), s2) else (Inr (), s2)))"

definition unlock_first :: "'d mtd_ops \<Rightarrow> mtd_opts \<Rightarrow> bytes \<Rightarrow> 'd mtd \<Rightarrow> (stop + int) \<times> 'd mtd" where
  "unlock_first ops opts device s = (if device \<in> set (o_erase opts) then (Inr 0, s) else mtd_unlock ops (split_colon device) s)"

definition finished :: "'a \<Rightarrow> 's \<Rightarrow> (stop + bytes) \<times> 's" where
  "finished _ s = (Inr [], s)"

text \<open>\<open>main\<close> after the options: the exit status, what is written to the standard output, and the state. The results of the
  commands are ignored. \<open>write\<close> is the one without \<open>-j\<close>.\<close>

definition mtd_main :: "'d build \<Rightarrow> 'd mtd_ops \<Rightarrow> (bytes \<Rightarrow> 'h) \<Rightarrow> nat \<Rightarrow> (bytes \<Rightarrow> rd list option) \<Rightarrow> (bytes \<Rightarrow> bytes option) \<Rightarrow> rd list
    \<Rightarrow> mtd_opts \<Rightarrow> bytes list \<Rightarrow> 'd mtd \<Rightarrow> (stop + bytes) \<times> 'd mtd" where
  "mtd_main B ops md5 fuel images files stdin opts args s =
     (let erase_first = (\<lambda>s k. and_then (erase_args ops (o_erase opts) s) (\<lambda>_ s1. k s1))
      in case args of
           [cmd, device] \<Rightarrow>
             if cmd = lit ''unlock'' then erase_first s (\<lambda>s1. and_then (unlock_first ops opts device s1) finished)
             else if cmd = lit ''erase'' then
               erase_first s (\<lambda>s1. and_then (unlock_first ops opts device s1) (\<lambda>_ s2. and_then (mtd_erase ops device s2) finished))
             else if cmd = lit ''resetbc'' then
               (case weak_mtd_resetbc B of
                  None \<Rightarrow> (Inl (Exit 1), s)
                | Some resetbc \<Rightarrow> erase_first s (\<lambda>s1. and_then (resetbc device s1) finished))
             else if cmd = lit ''fixtrx'' then
               (case weak_mtd_fixtrx B of
                  None \<Rightarrow> (Inl (Exit 1), s)
                | Some fixtrx \<Rightarrow> erase_first s (\<lambda>s1. and_then (fixtrx device (o_offset opts) (o_data_size opts) s1) finished))
             else if cmd = lit ''dump'' then
               erase_first s (\<lambda>s1. let ((r, out), s2) = mtd_dump ops fuel device (o_offset opts) (o_dump_len opts) s1
                                   in and_then (r, s2) (\<lambda>_ s3. (Inr out, s3)))
             else (Inl (Exit 1), s)
         | [cmd, file, device] \<Rightarrow>
             if cmd = lit ''verify'' then
               erase_first s (\<lambda>s1. and_then (mtd_verify ops md5 fuel device (files file) s1) finished)
             else if cmd = lit ''write'' then
               and_then (prepare_write B ops (o_force opts) (if file = lit ''-'' then Some stdin else images file) device s)
                 (\<lambda>_ s0. erase_first s0 (\<lambda>s1. and_then (unlock_first ops opts device s1)
                    (\<lambda>_ s2. and_then (mtd_write ops (o_part_offset opts) (o_no_erase opts) fuel device s2) finished)))
             else (Inl (Exit 1), s)
         | _ \<Rightarrow> (Inl (Exit 1), s))"

text \<open>The program with \<^verbatim>\<open>trx.o\<close>.\<close>

definition trx_build :: "bool \<Rightarrow> abi \<Rightarrow> 'd mtd_ops \<Rightarrow> 'd build" where
  "trx_build brcm A ops = \<lparr>target_brcm = brcm, weak_trx_check = Some (trx_check A ops), weak_mtd_fixtrx = Some (mtd_fixtrx A ops), weak_mtd_resetbc = None\<rparr>"

section \<open>What is relied on of a device\<close>

text \<open>A device of \<open>n\<close> erase blocks of \<open>eb\<close> bytes, of which the \<open>bad\<close> ones are marked; \<open>cells\<close> gives its content. It behaves as
  the Linux mtd character device is documented to: \<open>MEMGETINFO\<close> gives its geometry, \<open>MEMGETBADBLOCK\<close> the mark of a block, and
  fails behind the end; reading stops at the end; \<open>MEMERASE\<close> sets a good block to ones and fails behind the end; what is written to an erased
  range inside the device can be read back.\<close>

definition chip :: "'d mtd_ops \<Rightarrow> ('d \<Rightarrow> bool) \<Rightarrow> ('d \<Rightarrow> bytes) \<Rightarrow> nat \<Rightarrow> nat \<Rightarrow> bool \<Rightarrow> (nat \<Rightarrow> bool) \<Rightarrow> bool" where
  "chip ops valid cells n eb nand bad \<longleftrightarrow> 0 < eb \<and> (nand \<or> (\<forall>k. \<not> bad k)) \<and>
     (\<forall>d. valid d \<longrightarrow> length (cells d) = n * eb \<and> op_info ops d = Some (n * eb, eb, nand) \<and>
       (\<forall>k. nand \<longrightarrow> op_bad ops d (k * eb) = (if n \<le> k then -1 else if bad k then 1 else 0)) \<and>
       (\<forall>off len. op_pread ops d off len = Some (slice off len (cells d))) \<and>
       (\<forall>off len. valid (op_unlock ops d off len) \<and> cells (op_unlock ops d off len) = cells d) \<and>
       (\<forall>k<n. \<not> bad k \<longrightarrow> (\<exists>d'. op_erase ops d (k * eb) eb = (True, d') \<and> valid d' \<and> cells d' = put (k * eb) (replicate eb 0xff) (cells d))) \<and>
       (\<forall>k\<ge>n. \<not> fst (op_erase ops d (k * eb) eb)) \<and>
       (\<forall>off b. off + length b \<le> n * eb \<and> slice off (length b) (cells d) = replicate (length b) 0xff \<longrightarrow>
          (\<exists>d'. op_pwrite ops d off b = (int (length b), d') \<and> valid d' \<and> cells d' = put off b (cells d))))"

text \<open>A simulated device, its state the content; writing can only clear bits.\<close>

definition sim_ops :: "nat \<Rightarrow> nat \<Rightarrow> bool \<Rightarrow> (nat \<Rightarrow> bool) \<Rightarrow> bytes mtd_ops" where
  "sim_ops n eb nand bad = \<lparr>op_info = (\<lambda>d. Some (n * eb, eb, nand)),
     op_bad = (\<lambda>d off. if n * eb \<le> off then -1 else if bad (off div eb) then 1 else 0),
     op_unlock = (\<lambda>d off len. d),
     op_erase = (\<lambda>d off len. if off + len \<le> n * eb \<and> \<not> bad (off div eb) then (True, put off (replicate len 0xff) d) else (False, d)),
     op_pread = (\<lambda>d off len. Some (slice off len d)),
     op_pwrite = (\<lambda>d off b. if off + length b \<le> n * eb
        then (int (length b), put off (map2 (AND) (slice off (length b) d) b) d) else (-1, d))\<rparr>"

lemma map2_and_ones: "map2 (AND) (replicate (length b) 0xff) b = (b :: bytes)"
proof (induction b)
  case (Cons x b)
  have "(0xff :: byte) = -1" by simp
  then have "(0xff :: byte) AND x = x" by (metis and.left_neutral)
  then show ?case using Cons by simp
qed simp

lemma sim_chip:
  assumes "0 < eb" "nand \<or> (\<forall>k. \<not> bad k)"
  shows "chip (sim_ops n eb nand bad) (\<lambda>d. length d = n * eb) (\<lambda>d. d) n eb nand bad"
proof -
  have "k * eb + eb \<le> n * eb \<longleftrightarrow> k < n" for k
    using assms(1) mult_le_cancel2 [of "Suc k" eb n] by (simp add: Suc_le_eq add.commute)
  moreover have "n * eb \<le> k * eb \<longleftrightarrow> n \<le> k" for k using assms(1) by simp
  ultimately show ?thesis
    using assms by (auto simp: chip_def sim_ops_def map2_and_ones not_less)
qed

lemma chip_geometry:
  assumes "chip ops valid cells n eb nand bad" "valid d"
  shows "0 < eb" "length (cells d) = n * eb" "op_info ops d = Some (n * eb, eb, nand)"
    "op_pread ops d off len = Some (slice off len (cells d))" "valid (op_unlock ops d off len)" "cells (op_unlock ops d off len) = cells d"
  using assms by (simp_all add: chip_def)

lemma chip_bad:
  assumes "chip ops valid cells n eb nand bad" "valid d"
  shows "mtd_block_is_bad ops nand d (k * eb) = (if nand \<and> n \<le> k then Inl (Exit 1) else Inr (bad k))"
proof (cases nand)
  case True
  then have "op_bad ops d (k * eb) = (if n \<le> k then -1 else if bad k then 1 else 0)" using assms unfolding chip_def by blast
  then show ?thesis using True by (simp add: mtd_block_is_bad_def)
next
  case False
  then have "\<not> bad k" using assms unfolding chip_def by blast
  then show ?thesis using False by (simp add: mtd_block_is_bad_def)
qed

lemma chip_erase:
  assumes "chip ops valid cells n eb nand bad" "valid d" "k < n" "\<not> bad k"
  obtains d' where "mtd_erase_block ops eb d (k * eb) = (True, d')" "valid d'" "cells d' = put (k * eb) (replicate eb 0xff) (cells d)"
proof -
  let ?u = "op_unlock ops d (k * eb) eb"
  have "\<forall>d. valid d \<longrightarrow> (\<forall>k<n. \<not> bad k \<longrightarrow> (\<exists>d'. op_erase ops d (k * eb) eb = (True, d') \<and> valid d' \<and> cells d' = put (k * eb) (replicate eb 0xff) (cells d)))"
    using assms(1) unfolding chip_def by blast
  then obtain d' where "op_erase ops ?u (k * eb) eb = (True, d')" "valid d'" "cells d' = put (k * eb) (replicate eb 0xff) (cells ?u)"
    using chip_geometry(5) [OF assms(1,2)] assms(3,4) by blast
  then show ?thesis using that chip_geometry(6) [OF assms(1,2)] by (simp add: mtd_erase_block_def)
qed

lemma chip_erase_end:
  assumes "chip ops valid cells n eb nand bad" "valid d" "n \<le> k"
  shows "\<not> fst (mtd_erase_block ops eb d (k * eb))"
proof -
  have "\<forall>d. valid d \<longrightarrow> (\<forall>k\<ge>n. \<not> fst (op_erase ops d (k * eb) eb))" using assms(1) unfolding chip_def by blast
  then show ?thesis using chip_geometry(5) [OF assms(1,2)] assms(3) by (simp add: mtd_erase_block_def)
qed

lemma chip_write:
  assumes "chip ops valid cells n eb nand bad" "valid d" "off + length b \<le> n * eb" "slice off (length b) (cells d) = replicate (length b) 0xff"
  obtains d' where "op_pwrite ops d off b = (int (length b), d')" "valid d'" "cells d' = put off b (cells d)"
proof -
  have "\<forall>d. valid d \<longrightarrow> (\<forall>off b. off + length b \<le> n * eb \<and> slice off (length b) (cells d) = replicate (length b) 0xff \<longrightarrow>
      (\<exists>d'. op_pwrite ops d off b = (int (length b), d') \<and> valid d' \<and> cells d' = put off b (cells d)))"
    using assms(1) unfolding chip_def by blast
  then show ?thesis using assms(2-4) that by blast
qed

lemma put_put_same: "length a = length b \<Longrightarrow> off + length a \<le> length m \<Longrightarrow> put off b (put off a m) = put off b m"
  by (simp add: put_def)

text \<open>Erasing a good block and writing it.\<close>

lemma chip_erase_write:
  assumes "chip ops valid cells n eb nand bad" "valid d" "k < n" "\<not> bad k" "length b = eb"
  obtains d1 d2 where "mtd_erase_block ops eb d (k * eb) = (True, d1)" "op_pwrite ops d1 (k * eb) b = (int eb, d2)" "valid d1" "valid d2"
    "cells d2 = put (k * eb) b (cells d)"
proof -
  obtain d1 where d1: "mtd_erase_block ops eb d (k * eb) = (True, d1)" "valid d1" "cells d1 = put (k * eb) (replicate eb 0xff) (cells d)"
    using chip_erase [OF assms(1-4)] .
  have le: "k * eb + eb \<le> n * eb" using assms(3) mult_le_mono1 [of "Suc k" n eb] by (simp add: Suc_le_eq add.commute)
  have "slice (k * eb) (length b) (cells d1) = replicate (length b) 0xff"
    using slice_put_same [of "k * eb" "replicate eb 0xff" "cells d" "length b"] le assms(5) chip_geometry(2) [OF assms(1,2)]
    by (simp add: d1(3))
  then obtain d2 where "op_pwrite ops d1 (k * eb) b = (int (length b), d2)" "valid d2" "cells d2 = put (k * eb) b (cells d1)"
    using chip_write [OF assms(1) d1(2)] le assms(5) by blast
  then show ?thesis
    using that d1 assms(5) le chip_geometry(2) [OF assms(1,2)] by (simp add: put_put_same)
qed

section \<open>What is written\<close>

text \<open>The image in blocks, the last one padded, and their places: each in the next good block.\<close>

function image_blocks :: "nat \<Rightarrow> bytes \<Rightarrow> bytes list" where
  "image_blocks eb img = (if img = [] \<or> eb = 0 then [] else pad_block eb (take eb img) # image_blocks eb (drop eb img))"
  by pat_completeness auto
termination by (relation "measure (\<lambda>(eb, img). length img)") auto

declare image_blocks.simps [simp del]

fun place :: "(nat \<Rightarrow> bool) \<Rightarrow> nat \<Rightarrow> nat \<Rightarrow> nat \<Rightarrow> bytes list \<Rightarrow> bytes \<Rightarrow> bytes option" where
  "place bad n eb k [] c = Some c"
| "place bad n eb k (b # bs) c =
     (case List.find (\<lambda>j. \<not> bad j) [k..<n] of
        None \<Rightarrow> None
      | Some j \<Rightarrow> place bad n eb (Suc j) bs (put (j * eb) b c))"

text \<open>An image that can be read to its end.\<close>

fun image_bytes :: "rd list \<Rightarrow> bytes" where
  "image_bytes [] = []"
| "image_bytes (Chunk c # evs) = c @ image_bytes evs"
| "image_bytes (_ # evs) = image_bytes evs"

definition readable :: "rd list \<Rightarrow> bool" where
  "readable evs \<longleftrightarrow> Chunk [] \<notin> set evs \<and> Failed \<notin> set evs"

lemma fd_read_bytes:
  assumes "readable evs" "0 < n" "fd_read n evs = (ev, evs')"
  shows "readable evs' \<and> ev \<noteq> Failed \<and> image_bytes evs = image_bytes (ev # evs') \<and> length (image_bytes [ev]) \<le> n \<and>
    (ev = Chunk [] \<longrightarrow> evs = [])"
  using assms by (cases "(n, evs)" rule: fd_read.cases) (auto simp: readable_def split: if_splits)

lemma fill_buf_bytes:
  assumes "readable evs" "length b \<le> eb" "fill_buf eb b evs = (b', evs')"
  shows "readable evs' \<and> b' = take eb (b @ image_bytes evs) \<and> image_bytes evs' = drop eb (b @ image_bytes evs)"
  using assms
proof (induction eb b evs rule: fill_buf.induct)
  case (1 eb b evs)
  show ?case
  proof (cases "length b < eb")
    case False
    then show ?thesis using 1 by (simp add: fill_buf.simps [of eb b evs])
  next
    case True
    obtain ev evs1 where r: "fd_read (eb - length b) evs = (ev, evs1)" by force
    note f = fd_read_bytes [OF "1.prems"(1) _ r]
    show ?thesis
    proof (cases ev)
      case (Chunk c)
      then show ?thesis
        using 1 True r f by (cases "c = []") (auto simp: fill_buf.simps [of eb b evs] fill_buf.simps [of eb b "[]"])
    next
      case Intr
      then show ?thesis using 1 True r f by (auto simp: fill_buf.simps [of eb b evs])
    next
      case Failed
      then show ?thesis using f True by simp
    qed
  qed
qed

text \<open>The state of the writer before it looks for the place of the next block: everything below block \<open>k\<close> is dealt with.\<close>

definition wr_at :: "nat \<Rightarrow> nat \<Rightarrow> 'd wr \<Rightarrow> bool" where
  "wr_at eb k x \<longleftrightarrow> wr_e x = k * eb \<and> wr_pos x = k * eb \<and> wr_w x + wr_skip x = k * eb"

lemma wr_at_needs: "wr_at eb k x \<Longrightarrow> 0 < eb \<Longrightarrow> int (wr_e x) - int (wr_skip x) < int (wr_w x + eb)"
  "wr_at eb k x \<Longrightarrow> int (wr_w x + eb) \<le> int (wr_e x + eb) - int (wr_skip x)"
proof -
  assume "wr_at eb k x"
  then have "wr_e x = wr_w x + wr_skip x" by (simp add: wr_at_def)
  then show "0 < eb \<Longrightarrow> int (wr_e x) - int (wr_skip x) < int (wr_w x + eb)" "int (wr_w x + eb) \<le> int (wr_e x + eb) - int (wr_skip x)" by simp_all
qed

lemma erase_ahead_find:
  assumes "chip ops valid cells n eb nand bad" "valid (wr_dev x)" "wr_at eb k x" "n - k + 2 \<le> fuel"
  shows "case List.find (\<lambda>j. \<not> bad j) [k..<n] of
      Some j \<Rightarrow> \<exists>d'. mtd_erase_block ops eb (wr_dev x) (j * eb) = (True, d') \<and>
        erase_ahead ops eb nand 0 fuel eb x = (Inr True, x\<lparr>wr_dev := d', wr_pos := j * eb, wr_e := Suc j * eb, wr_skip := wr_skip x + (j - k) * eb\<rparr>)
    | None \<Rightarrow> fst (erase_ahead ops eb nand 0 fuel eb x) \<in> {Inl (Exit 1), Inr False}"
  using assms(2-4)
proof (induction "n - k" arbitrary: k x fuel)
  case 0
  then obtain f where f: "fuel = Suc f" by (cases fuel) auto
  have "\<not> fst (mtd_erase_block ops eb (wr_dev x) (k * eb))" using chip_erase_end [OF assms(1) 0(2)] 0(1) by simp
  moreover have "nand \<or> \<not> bad k" using assms(1) unfolding chip_def by blast
  moreover have e: "wr_e x = k * eb" using 0(3) by (simp add: wr_at_def)
  ultimately show ?case
    using 0(1) chip_bad [OF assms(1) 0(2), of k] wr_at_needs(1) [OF 0(3) chip_geometry(1) [OF assms(1) 0(2)]]
    by (auto simp: f split: prod.splits)
next
  case (Suc m)
  then have k: "k < n" and up: "[k..<n] = k # [Suc k..<n]" by (auto simp: upt_conv_Cons)
  have eb: "0 < eb" using chip_geometry(1) [OF assms(1) Suc(3)] .
  have e: "wr_e x = k * eb" using Suc(4) by (simp add: wr_at_def)
  note needs = wr_at_needs(1) [OF Suc(4) eb] wr_at_needs(2) [OF Suc(4)]
  obtain f where f: "fuel = Suc f" "n - Suc k + 2 \<le> f" using Suc k by (cases fuel) auto
  then obtain g where g: "f = Suc g" by (cases f) auto
  show ?case
  proof (cases "bad k")
    case True
    let ?x = "x\<lparr>wr_skip := wr_skip x + eb, wr_e := wr_e x + eb, wr_pos := wr_pos x + eb\<rparr>"
    have st: "erase_ahead ops eb nand 0 fuel eb x = erase_ahead ops eb nand 0 f eb ?x"
      using needs(1) True chip_bad [OF assms(1) Suc(3), of k] k e by (auto simp: f)
    have "(Suc j' - k) * eb = eb + (Suc j' - Suc k) * eb" if "k \<le> j'" for j' using that by (simp add: Suc_diff_le)
    then have sk: "eb + (j - Suc k) * eb = (j - k) * eb" if "Suc k \<le> j" for j using that by (cases j) auto
    have le: "Suc k \<le> j" if "List.find (\<lambda>j. \<not> bad j) [Suc k..<n] = Some j" for j
      using that by (auto simp: find_Some_iff)
    have "wr_at eb (Suc k) ?x" "valid (wr_dev ?x)" using Suc by (auto simp: wr_at_def)
    from Suc(1) [OF _ this(2,1) f(2)] Suc(2) k show ?thesis
      using st up True le by (auto simp: sk add.assoc split: option.splits)
  next
    case False
    obtain d' where d': "mtd_erase_block ops eb (wr_dev x) (k * eb) = (True, d')" using chip_erase [OF assms(1) Suc(3) k False] by blast
    have "erase_ahead ops eb nand 0 fuel eb x = (Inr True, x\<lparr>wr_dev := d', wr_e := wr_e x + eb\<rparr>)"
      using needs False d' chip_bad [OF assms(1) Suc(3), of k] k e by (simp add: f g)
    then show ?thesis using up False d' Suc(4) by (simp add: wr_at_def)
  qed
qed

lemma write_block_place:
  assumes "chip ops valid cells n eb nand bad" "valid (wr_dev x)" "wr_at eb k x" "n - k + 2 \<le> fuel" "length b = eb"
  shows "case List.find (\<lambda>j. \<not> bad j) [k..<n] of
      Some j \<Rightarrow> \<exists>x'. write_block ops eb nand 0 False fuel False 0 b x = (Inr None, x') \<and> valid (wr_dev x') \<and> wr_at eb (Suc j) x' \<and>
        cells (wr_dev x') = put (j * eb) b (cells (wr_dev x))
    | None \<Rightarrow> fst (write_block ops eb nand 0 False fuel False 0 b x) = Inl (Exit 1)"
proof (cases "List.find (\<lambda>j. \<not> bad j) [k..<n]")
  case None
  then show ?thesis using erase_ahead_find [OF assms(1-4)] assms(5) by (auto simp: write_block_def split: prod.splits sum.splits)
next
  case (Some j)
  then have j: "k \<le> j" "j < n" "\<not> bad j" by (auto simp: find_Some_iff)
  obtain d' where e: "mtd_erase_block ops eb (wr_dev x) (j * eb) = (True, d')"
    "erase_ahead ops eb nand 0 fuel eb x = (Inr True, x\<lparr>wr_dev := d', wr_pos := j * eb, wr_e := Suc j * eb, wr_skip := wr_skip x + (j - k) * eb\<rparr>)"
    using erase_ahead_find [OF assms(1-4)] Some by auto
  obtain d2 where w: "op_pwrite ops d' (j * eb) b = (int eb, d2)" "valid d2" "cells d2 = put (j * eb) b (cells (wr_dev x))"
    using chip_erase_write [OF assms(1,2) j(2,3) assms(5)] e(1) by (metis prod.inject)
  have "wr_w x + eb + (wr_skip x + (j - k) * eb) = Suc j * eb"
  proof -
    have "k * eb + (j - k) * eb = j * eb" using j(1) by (metis add_mult_distrib le_add_diff_inverse)
    then show ?thesis using assms(3) by (simp add: wr_at_def)
  qed
  then show ?thesis using Some e(2) w assms(5) by (simp add: write_block_def wr_at_def)
qed

lemma pad_block_length: "length b \<le> eb \<Longrightarrow> length (pad_block eb b) = eb"
  by (simp add: pad_block_def)

lemma write_loop_place:
  assumes ch: "chip ops valid cells n eb nand bad" and cap: "eb \<le> cap" and fuel: "n + 2 \<le> fuel"
  shows "\<lbrakk>valid (wr_dev x); wr_at eb k x; readable evs; length b \<le> eb; img = b @ image_bytes evs\<rbrakk> \<Longrightarrow>
    (case place bad n eb k (image_blocks eb img) (cells (wr_dev x)) of
      Some c \<Rightarrow> \<exists>evs' x'. write_loop ops eb nand cap 0 False fuel False 0 b evs x = (Inr Written, evs', x') \<and> valid (wr_dev x') \<and> cells (wr_dev x') = c
    | None \<Rightarrow> fst (write_loop ops eb nand cap 0 False fuel False 0 b evs x) = Inl (Exit 1))"
proof (induction img arbitrary: k x b evs rule: measure_induct_rule [where f = length])
  case (less img)
  note prems = less.prems
  have eb: "0 < eb" using chip_geometry(1) [OF ch prems(1)] .
  obtain b1 evs1 where fill: "fill_buf eb b evs = (b1, evs1)" by force
  note f = fill_buf_bytes [OF prems(3,4) fill, folded prems(5)]
  note step = write_loop.simps [of ops eb nand cap 0 False fuel False 0 b evs x]
  show ?case
  proof (cases "img = []")
    case True
    then show ?thesis using f fill prems(1) by (simp add: step image_blocks.simps [of eb "[]"])
  next
    case False
    let ?p = "pad_block eb b1"
    have b1: "b1 = take eb img" "b1 \<noteq> []" "length ?p = eb" using f False eb by (auto intro: pad_block_length)
    have ib: "image_blocks eb img = ?p # image_blocks eb (drop eb img)" using False eb by (simp add: image_blocks.simps [of eb img] b1(1))
    have wb: "case List.find (\<lambda>j. \<not> bad j) [k..<n] of
        Some j \<Rightarrow> \<exists>x'. write_block ops eb nand 0 False fuel False 0 ?p x = (Inr None, x') \<and> valid (wr_dev x') \<and> wr_at eb (Suc j) x' \<and>
          cells (wr_dev x') = put (j * eb) ?p (cells (wr_dev x))
      | None \<Rightarrow> fst (write_block ops eb nand 0 False fuel False 0 ?p x) = Inl (Exit 1)"
      using fuel by (intro write_block_place [OF ch prems(1,2) _ b1(3)]) linarith
    show ?thesis
    proof (cases "List.find (\<lambda>j. \<not> bad j) [k..<n]")
      case None
      then show ?thesis using wb b1(2) cap fill by (auto simp: step ib split: prod.splits sum.splits)
    next
      case (Some j)
      then obtain x' where x': "write_block ops eb nand 0 False fuel False 0 ?p x = (Inr None, x')" "valid (wr_dev x')" "wr_at eb (Suc j) x'"
        "cells (wr_dev x') = put (j * eb) ?p (cells (wr_dev x))" using wb by auto
      have eq: "write_loop ops eb nand cap 0 False fuel False 0 b evs x = write_loop ops eb nand cap 0 False fuel False 0 [] evs1 x'"
        using x'(1) b1(2) cap fill by (simp add: step)
      have pl: "place bad n eb k (image_blocks eb img) (cells (wr_dev x)) = place bad n eb (Suc j) (image_blocks eb (drop eb img)) (cells (wr_dev x'))"
        by (simp add: ib Some x'(4))
      have "length (drop eb img) < length img" using False eb by simp
      then show ?thesis unfolding eq pl by (rule less.IH) (use x' f in simp_all)
    qed
  qed
qed

lemma split_colon_plain: "0x3a \<notin> set name \<Longrightarrow> split_colon name = [name]"
  by (induction name) auto

lemma mtd_write_place:
  assumes "chip ops valid cells n eb nand bad" "valid d" "devs s name = Some d" "0x3a \<notin> set name"
    and "bufcap s = Some cap" "eb \<le> cap" "length (buf s) \<le> eb" "readable (image s)" "n + 2 \<le> fuel"
  shows "case place bad n eb 0 (image_blocks eb (buf s @ image_bytes (image s))) (cells d) of
      Some c \<Rightarrow> \<exists>s' d'. mtd_write ops 0 False fuel name s = (Inr 0, s') \<and> devs s' name = Some d' \<and> valid d' \<and> cells d' = c
    | None \<Rightarrow> fst (mtd_write ops 0 False fuel name s) = Inl (Exit 1)"
proof -
  let ?s = "s\<lparr>mtdsize := n * eb, erasesize := eb, mtd_nand := nand\<rparr>" and ?x = "\<lparr>wr_dev = d, wr_pos = 0, wr_w = 0, wr_e = 0, wr_skip = 0\<rparr>"
  have op: "mtd_check_open ops name s = (Some d, ?s)"
    using assms(3) chip_geometry(3) [OF assms(1,2)] by (simp add: mtd_check_open_def)
  have at: "wr_at eb 0 ?x" by (simp add: wr_at_def)
  note wl = write_loop_place [OF assms(1,6,9), of ?x 0 "image s" "buf s", OF _ at assms(8,7) refl]
  show ?thesis
    using wl assms(2,5) by (auto simp: mtd_write_def split_colon_plain [OF assms(4)] op split: option.splits prod.splits)
qed

text \<open>C7. \<open>mtd write\<close> to one device of less than 2 GiB, where sizes and offsets are values of \<open>int\<close>, the image read in whatever pieces and with interruptions: each
  erase block of the image, the last one padded with ones, is in the next good block of the device, and every other block is as it was; when the
  good blocks do not suffice the program exits with status 1.\<close>

theorem mtd_write_places:
  assumes "chip ops valid cells n eb nand bad" "valid d" "devs s name = Some d" "0x3a \<notin> set name"
    and "bufcap s = Some cap" "eb \<le> cap" "length (buf s) \<le> eb" "readable (image s)" "n + 2 \<le> fuel" "n * eb < 2 ^ 31"
  shows "case place bad n eb 0 (image_blocks eb (buf s @ image_bytes (image s))) (cells d) of
      Some c \<Rightarrow> \<exists>s' d'. mtd_write ops 0 False fuel name s = (Inr 0, s') \<and> devs s' name = Some d' \<and> valid d' \<and> cells d' = c
    | None \<Rightarrow> fst (mtd_write ops 0 False fuel name s) = Inl (Exit 1)"
  using mtd_write_place [OF assms(1-9)] .

text \<open>A NAND device of four blocks of 4 bytes whose second block is bad, and an image of 5 bytes that arrives in two pieces.\<close>

definition demo_bad :: "nat \<Rightarrow> bool" where
  "demo_bad k \<longleftrightarrow> k = 1"

definition demo_ops :: "bytes mtd_ops" where
  "demo_ops = sim_ops 4 4 True demo_bad"

definition demo_mtd :: "rd list \<Rightarrow> bytes mtd" where
  "demo_mtd evs = \<lparr>devs = [lit ''fs'' \<mapsto> replicate 16 0], mtdsize = 0, erasesize = 0, mtd_nand = False, buf = [], bufcap = Some 4,
     imageformat = MTD_IMAGE_FORMAT_UNKNOWN, image = evs\<rparr>"

lemma demo_chip: "chip demo_ops (\<lambda>d. length d = 4 * 4) (\<lambda>d. d) 4 4 True demo_bad"
  unfolding demo_ops_def by (rule sim_chip) simp_all

definition demo_image :: "rd list" where
  "demo_image = [Chunk [1, 2], Intr, Chunk [3, 4, 5]]"

theorem mtd_write_places_witness:
  "\<exists>s' d'. mtd_write demo_ops 0 False 6 (lit ''fs'') (demo_mtd demo_image) = (Inr 0, s') \<and> devs s' (lit ''fs'') = Some d' \<and>
     d' = [1, 2, 3, 4, 0, 0, 0, 0, 5, 0xff, 0xff, 0xff, 0, 0, 0, 0]"
proof -
  have s: "devs (demo_mtd demo_image) (lit ''fs'') = Some (replicate 16 0)" "bufcap (demo_mtd demo_image) = Some 4"
    "buf (demo_mtd demo_image) = []" "image (demo_mtd demo_image) = demo_image" by (simp_all add: demo_mtd_def)
  have r: "readable demo_image" "(0x3a :: byte) \<notin> set (lit ''fs'')" by (simp_all add: readable_def demo_image_def lit_def)
  have p: "place demo_bad 4 4 0 (image_blocks 4 (image_bytes demo_image)) (replicate 16 0) =
    Some [1, 2, 3, 4, 0, 0, 0, 0, 5, 0xff, 0xff, 0xff, 0, 0, 0, 0]" by code_simp
  show ?thesis
    using mtd_write_places [OF demo_chip _ s(1) r(2) s(2), of 6] r(1) by (auto simp: s p)
qed

section \<open>Reading back\<close>

lemma image_blocks_length: "b \<in> set (image_blocks eb img) \<Longrightarrow> length b = eb"
proof (induction eb img rule: image_blocks.induct)
  case (1 eb img)
  show ?case
  proof (cases "img = [] \<or> eb = 0")
    case True
    then show ?thesis using 1 by (simp add: image_blocks.simps [of eb img])
  next
    case False
    then show ?thesis using 1 by (auto simp: image_blocks.simps [of eb img] pad_block_length)
  qed
qed

lemma image_blocks_concat:
  assumes "0 < eb"
  shows "\<exists>k<eb. concat (image_blocks eb img) = img @ replicate k 0xff"
  using assms
proof (induction eb img rule: image_blocks.induct)
  case (1 eb img)
  show ?case
  proof (cases "img = []")
    case True
    then show ?thesis using "1.prems" by (auto simp: image_blocks.simps [of eb "[]"] intro: exI [of _ 0])
  next
    case False
    then have ib: "image_blocks eb img = pad_block eb (take eb img) # image_blocks eb (drop eb img)"
      using "1.prems" by (simp add: image_blocks.simps [of eb img])
    show ?thesis
    proof (cases "length img \<le> eb")
      case True
      then have "eb - length img < eb" using False "1.prems" by simp
      then show ?thesis using True ib by (auto simp: pad_block_def image_blocks.simps [of eb "[]"] intro: exI [of _ "eb - length img"])
    next
      case long: False
      obtain k where "k < eb" "concat (image_blocks eb (drop eb img)) = drop eb img @ replicate k 0xff" using 1 False by auto
      then show ?thesis using ib long by (auto simp: pad_block_def intro!: exI [of _ k])
    qed
  qed
qed

lemma concat_length_blocks: "(\<And>b. b \<in> set bs \<Longrightarrow> length b = eb) \<Longrightarrow> length (concat bs) = length bs * eb"
  by (induction bs) auto

lemma block_inside: "j < n \<Longrightarrow> j * eb + eb \<le> n * (eb :: nat)"
  using mult_le_mono1 [of "Suc j" n eb] by (simp add: Suc_le_eq add.commute)

lemma place_keeps:
  assumes "place bad n eb k bs c = Some c'" "length c = n * eb" "\<And>b. b \<in> set bs \<Longrightarrow> length b = eb"
  shows "length c' = n * eb \<and> take (k * eb) c' = take (k * eb) c"
  using assms
proof (induction bs arbitrary: k c)
  case (Cons b bs)
  then obtain j where j: "List.find (\<lambda>j. \<not> bad j) [k..<n] = Some j" "place bad n eb (Suc j) bs (put (j * eb) b c) = Some c'"
    by (auto split: option.splits)
  then have kj: "k \<le> j" "j < n" by (auto simp: find_Some_iff)
  have le: "j * eb + eb \<le> n * eb" "k * eb \<le> j * eb" using block_inside [OF kj(2)] kj(1) by simp_all
  have l: "length (put (j * eb) b c) = n * eb" using le Cons.prems by simp
  have c': "length c' = n * eb" "take (Suc j * eb) c' = take (Suc j * eb) (put (j * eb) b c)"
    using Cons.IH [OF j(2) l] Cons.prems(3) by auto
  then have "take (k * eb) c' = take (k * eb) (put (j * eb) b c)"
    using le by (metis (no_types, lifting) min.absorb1 take_take le_add2 le_trans mult_Suc)
  also have "\<dots> = take (k * eb) c" using le Cons.prems by (intro take_put_before) auto
  finally show ?case using c'(1) by simp
qed simp

lemma place_slice:
  assumes "place bad n eb (Suc k) bs (put (k * eb) b c) = Some c'" "length c = n * eb" "k < n" "length b = eb" "\<And>b. b \<in> set bs \<Longrightarrow> length b = eb"
  shows "slice (k * eb) eb c' = b"
proof -
  have l: "length (put (k * eb) b c) = n * eb" using block_inside [OF assms(3), of eb] assms(2,4) by simp
  have "take (Suc k * eb) c' = take (Suc k * eb) (put (k * eb) b c)" using place_keeps [OF assms(1) l assms(5)] by blast
  then have "slice (k * eb) eb c' = slice (k * eb) eb (put (k * eb) b c)" unfolding slice_def take_drop by (simp only: mult_Suc)
  also have "\<dots> = b" by (rule slice_put_same) (use block_inside [OF assms(3), of eb] assms(2,4) in simp_all)
  finally show ?thesis .
qed

lemma dump_loop_place:
  assumes ch: "chip ops valid cells n eb nand bad" and d: "valid d" "cells d = c'"
  shows "\<lbrakk>place bad n eb k bs c = Some c'; length c = n * eb; bs \<noteq> []; \<And>b. b \<in> set bs \<Longrightarrow> length b = eb; n - k + 1 \<le> fuel\<rbrakk> \<Longrightarrow>
    dump_loop ops eb nand d fuel (k * eb) (k * eb) (length bs * eb) acc = (Inr 0, acc @ concat bs)"
proof (induction "n - k" arbitrary: k bs c fuel acc)
  case 0
  then show ?case by (cases bs) auto
next
  case (Suc m)
  then have k: "k < n" by simp
  obtain f where f: "fuel = Suc f" "n - Suc k + 1 \<le> f" using Suc.prems k by (cases fuel) auto
  obtain b bs' where bs: "bs = b # bs'" using Suc.prems(3) by (cases bs) auto
  have eb: "0 < eb" using chip_geometry(1) [OF ch d(1)] .
  have len: "(if length bs * eb > eb then eb else length bs * eb) = eb" using eb by (cases bs') (auto simp: bs)
  have lc: "length c' = n * eb" using chip_geometry(2) [OF ch d(1)] d(2) by simp
  have rd: "op_pread ops d (k * eb) eb = Some (slice (k * eb) eb c')" "length (slice (k * eb) eb c') = eb"
    using chip_geometry(4) [OF ch d(1)] d(2) block_inside [OF k, of eb] lc by simp_all
  then have ne: "slice (k * eb) eb c' \<noteq> []" using eb by (metis list.size(3) less_irrefl)
  have bd: "mtd_block_is_bad ops nand d (k * eb) = Inr (bad k)" using chip_bad [OF ch d(1)] k by simp
  have up: "[k..<n] = k # [Suc k..<n]" using k by (simp add: upt_conv_Cons)
  show ?case
  proof (cases "bad k")
    case True
    then have "place bad n eb (Suc k) bs c = Some c'" using Suc.prems(1) by (simp add: bs up)
    then have IH: "dump_loop ops eb nand d f (Suc k * eb) (Suc k * eb) (length bs * eb) acc = (Inr 0, acc @ concat bs)"
      using Suc k f(2) by (intro Suc(1)) auto
    have "0 < length bs * eb" using eb bs by simp
    then show ?thesis using IH True rd ne bd len by (simp add: f(1) Let_def add.commute)
  next
    case False
    then have pl: "place bad n eb (Suc k) bs' (put (k * eb) b c) = Some c'" using Suc.prems(1) by (simp add: bs up)
    have bl: "length b = eb" "\<And>b. b \<in> set bs' \<Longrightarrow> length b = eb" using Suc.prems(4) bs by auto
    have sl: "slice (k * eb) eb c' = b" using place_slice [OF pl Suc.prems(2) k bl] .
    show ?thesis
    proof (cases "bs' = []")
      case True
      then show ?thesis using rd ne bd False sl by (simp add: f(1) bs Let_def)
    next
      case more: False
      have l: "length (put (k * eb) b c) = n * eb" using block_inside [OF k, of eb] Suc.prems(2) bl by simp
      have IH: "dump_loop ops eb nand d f (Suc k * eb) (Suc k * eb) (length bs' * eb) (acc @ b) = (Inr 0, (acc @ b) @ concat bs')"
        using Suc(2) k f(2) pl l more bl(2) by (intro Suc(1) [of "Suc k" bs' "put (k * eb) b c"]) auto
      have "0 < length bs' * eb" using eb more by simp
      then show ?thesis using IH False rd ne bd len sl by (simp add: f(1) bs Let_def add.commute)
    qed
  qed
qed

text \<open>C8. Reading back, on a device of less than 2 GiB: after a successful \<open>mtd write\<close> of an image that is not empty, \<open>mtd dump\<close> of as many bytes prints the image, and the
  ones that fill its last erase block, whatever blocks are bad.\<close>

theorem mtd_write_dump:
  assumes "chip ops valid cells n eb nand bad" "valid d" "devs s name = Some d" "0x3a \<notin> set name"
    and "bufcap s = Some cap" "eb \<le> cap" "length (buf s) \<le> eb" "readable (image s)" "n + 2 \<le> fuel" "n * eb < 2 ^ 31"
    and "buf s @ image_bytes (image s) = img" "img \<noteq> []" "mtd_write ops 0 False fuel name s = (Inr 0, s')"
  shows "\<exists>k<eb. fst (mtd_dump ops fuel name 0 (length img + k) s') = (Inr 0, img @ replicate k 0xff)"
proof -
  let ?bs = "image_blocks eb img"
  obtain c d' where w: "place bad n eb 0 ?bs (cells d) = Some c" "devs s' name = Some d'" "valid d'" "cells d' = c"
    using mtd_write_place [OF assms(1-9)] assms(11,13) by (auto split: option.splits)
  have eb: "0 < eb" and l: "length (cells d) = n * eb" using chip_geometry(1,2) [OF assms(1,2)] by auto
  obtain k where k: "k < eb" "concat ?bs = img @ replicate k 0xff" using image_blocks_concat [OF eb] by blast
  have bl: "\<And>b. b \<in> set ?bs \<Longrightarrow> length b = eb" by (rule image_blocks_length)
  have sz: "length ?bs * eb = length img + k" using concat_length_blocks [of ?bs eb, OF bl] k(2) by simp
  have ne: "?bs \<noteq> []" using assms(12) eb by (simp add: image_blocks.simps [of eb img])
  have "dump_loop ops eb nand d' fuel (0 * eb) (0 * eb) (length ?bs * eb) [] = (Inr 0, [] @ concat ?bs)"
    using assms(9) by (intro dump_loop_place [OF assms(1) w(3,4,1) l ne bl]) auto
  moreover have "mtd_check_open ops name s' = (Some d', s'\<lparr>mtdsize := n * eb, erasesize := eb, mtd_nand := nand\<rparr>)"
    using w(2) chip_geometry(3) [OF assms(1) w(3)] by (simp add: mtd_check_open_def)
  moreover have "length img + k \<noteq> 0" using assms(12) by simp
  ultimately have "fst (mtd_dump ops fuel name 0 (length img + k) s') = (Inr 0, img @ replicate k 0xff)"
    by (auto simp: mtd_dump_def sz k(2))
  then show ?thesis using k(1) by blast
qed

theorem mtd_write_dump_witness:
  "\<exists>s' k. mtd_write demo_ops 0 False 6 (lit ''fs'') (demo_mtd demo_image) = (Inr 0, s') \<and> k < 4 \<and>
     fst (mtd_dump demo_ops 6 (lit ''fs'') 0 (5 + k) s') = (Inr 0, [1, 2, 3, 4, 5] @ replicate k 0xff)"
proof -
  have s: "devs (demo_mtd demo_image) (lit ''fs'') = Some (replicate 16 0)" "bufcap (demo_mtd demo_image) = Some 4"
    "buf (demo_mtd demo_image) = []" "image (demo_mtd demo_image) = demo_image" by (simp_all add: demo_mtd_def)
  have r: "readable demo_image" "(0x3a :: byte) \<notin> set (lit ''fs'')" by (simp_all add: readable_def demo_image_def lit_def)
  have "fst (mtd_write demo_ops 0 False 6 (lit ''fs'') (demo_mtd demo_image)) = Inr 0" by code_simp
  then obtain s' where w: "mtd_write demo_ops 0 False 6 (lit ''fs'') (demo_mtd demo_image) = (Inr 0, s')" by (metis prod.collapse)
  have i: "buf (demo_mtd demo_image) @ image_bytes (image (demo_mtd demo_image)) = [1, 2, 3, 4, 5]" by (simp only: s) (simp add: demo_image_def)
  have g: "4 * 4 < (2 :: nat) ^ 31" by simp
  show ?thesis
    using mtd_write_dump [OF demo_chip _ s(1) r(2) s(2) _ _ _ _ g i _ w] r(1) w by (auto simp: s eval_nat_numeral)
qed

section \<open>Erasing and verifying\<close>

lemma erase_loop_spec:
  assumes ch: "chip ops valid cells n eb nand bad"
  shows "valid d \<Longrightarrow> \<exists>d'. erase_loop ops eb nand (map (\<lambda>k. k * eb) [k..<n]) d = (Inr 0, d') \<and> valid d' \<and>
    cells d' = take (k * eb) (cells d) @ concat (map (\<lambda>j. if bad j then slice (j * eb) eb (cells d) else replicate eb 0xff) [k..<n])"
proof (induction "n - k" arbitrary: k d)
  case 0
  then show ?case using chip_geometry(2) [OF ch 0(2)] mult_le_mono1 [of n k eb] by simp
next
  case (Suc m)
  let ?f = "\<lambda>d j. if bad j then slice (j * eb) eb (cells d) else replicate eb 0xff"
  have k: "k < n" and up: "[k..<n] = k # [Suc k..<n]" using Suc(2) by (auto simp: upt_conv_Cons)
  have le: "k * eb + eb \<le> length (cells d)" using block_inside [OF k] chip_geometry(2) [OF ch Suc(3)] by simp
  have bd: "mtd_block_is_bad ops nand d (k * eb) = Inr (bad k)" using chip_bad [OF ch Suc(3)] k by simp
  have tk: "take (eb + k * eb) m1 = take (k * eb) m1 @ slice (k * eb) eb m1" for m1 :: bytes
    using slice_take_drop [of "k * eb" m1 eb] by (simp add: add.commute)
  show ?case
  proof (cases "bad k")
    case True
    then show ?thesis using Suc(1) [of "Suc k", OF _ Suc(3)] Suc(2) bd by (auto simp: up tk)
  next
    case False
    obtain d1 where d1: "op_erase ops (op_unlock ops d (k * eb) eb) (k * eb) eb = (True, d1)" "valid d1"
      "cells d1 = put (k * eb) (replicate eb 0xff) (cells d)"
      using chip_erase [OF ch Suc(3) k False] unfolding mtd_erase_block_def by blast
    have s1: "slice (j * eb) eb (cells d1) = slice (j * eb) eb (cells d)" if "Suc k \<le> j" for j
      using mult_le_mono1 [OF that, of eb] le by (simp add: d1(3) slice_put_after)
    have mp: "map (?f d1) [Suc k..<n] = map (?f d) [Suc k..<n]" using s1 by (intro map_cong) auto
    have "take (eb + k * eb) (cells d1) = take (k * eb) (cells d) @ replicate eb 0xff"
      using le unfolding tk d1(3) by (simp add: slice_put_same take_put_before)
    moreover have "m = n - Suc k" using Suc(2) by simp
    ultimately show ?thesis using Suc(1) [of "Suc k", OF _ d1(2), unfolded mp] bd False d1(1) by (auto simp: up)
  qed
qed

text \<open>\<open>mtd erase\<close> sets every good block to ones, does not touch a bad one, and succeeds.\<close>

theorem mtd_erase_blocks:
  assumes "chip ops valid cells n eb nand bad" "valid d" "devs s name = Some d"
  shows "\<exists>s' d'. mtd_erase ops name s = (Inr 0, s') \<and> devs s' = (devs s)(name \<mapsto> d') \<and> valid d' \<and>
    cells d' = concat (map (\<lambda>j. if bad j then slice (j * eb) eb (cells d) else replicate eb 0xff) [0..<n])"
proof -
  have eb: "0 < eb" using chip_geometry(1) [OF assms(1,2)] .
  have "n * eb + eb - 1 = (eb - 1) + n * eb" using eb by simp
  then have "(n * eb + eb - 1) div eb = n + (eb - 1) div eb" using eb by (simp only: div_mult_self1)
  then have "(n * eb + eb - 1) div eb = n" using eb by simp
  then have st: "eb_starts (n * eb) eb = map (\<lambda>k. k * eb) [0..<n]" by (simp add: eb_starts_def)
  show ?thesis
    using erase_loop_spec [OF assms(1,2), of 0] chip_geometry(3) [OF assms(1,2)] assms(3)
    by (auto simp: mtd_erase_def mtd_check_open_def st)
qed

theorem mtd_erase_blocks_witness:
  "\<exists>s' d'. mtd_erase demo_ops (lit ''fs'') (demo_mtd []) = (Inr 0, s') \<and> devs s' (lit ''fs'') = Some d' \<and>
    d' = replicate 4 0xff @ replicate 4 0 @ replicate 8 0xff"
proof -
  have s: "devs (demo_mtd []) (lit ''fs'') = Some (replicate 16 0)" by (simp add: demo_mtd_def)
  have c: "concat (map (\<lambda>j. if demo_bad j then slice (j * 4) 4 (replicate 16 (0 :: byte)) else replicate 4 0xff) [0..<4]) =
    replicate 4 0xff @ replicate 4 0 @ replicate 8 0xff" by code_simp
  show ?thesis using mtd_erase_blocks [OF demo_chip _ s] unfolding c by auto
qed

lemma verify_loop_spec:
  assumes ch: "chip ops valid cells n eb nand bad" and d: "valid d"
  shows "size1 < fuel \<Longrightarrow> verify_loop ops d fuel pos size1 hashed = Inr (Some (hashed @ slice pos size1 (cells d)))"
proof (induction fuel arbitrary: pos size1 hashed)
  case (Suc fuel)
  let ?l = "if size1 > 256 then 256 else size1" and ?b = "slice pos (if size1 > 256 then 256 else size1) (cells d)"
  have r: "op_pread ops d pos ?l = Some ?b" using chip_geometry(4) [OF ch d] by simp
  have lb: "length ?b \<le> ?l" by (simp add: slice_def)
  show ?case
  proof (cases "?b = []")
    case True
    then have "slice pos size1 (cells d) = []" by (auto simp: slice_def split: if_splits)
    then show ?thesis using True r by simp
  next
    case False
    then have "0 < length ?b" by simp
    moreover have "p < Suc q \<Longrightarrow> 0 < l \<Longrightarrow> 0 < p \<Longrightarrow> p - l < q" for p q l :: nat by linarith
    moreover have "0 < size1" using False by (auto simp: slice_def split: if_splits)
    ultimately have "size1 - length ?b < fuel" using Suc.prems by blast
    then have IH: "verify_loop ops d fuel (pos + length ?b) (size1 - length ?b) (hashed @ ?b) =
        Inr (Some ((hashed @ ?b) @ slice (pos + length ?b) (size1 - length ?b) (cells d)))" by (rule Suc.IH)
    have self: "slice pos (length ?b) (cells d) = ?b" by (simp add: slice_def min_def)
    have "slice pos size1 (cells d) = slice pos (length ?b) (cells d) @ slice (pos + length ?b) (size1 - length ?b) (cells d)"
      using lb by (intro slice_split) (auto split: if_splits)
    then have sl: "slice pos size1 (cells d) = ?b @ slice (pos + length ?b) (size1 - length ?b) (cells d)" unfolding self .
    have st: "verify_loop ops d (Suc fuel) pos size1 hashed = (if size1 - length ?b > 0
        then verify_loop ops d fuel (pos + length ?b) (size1 - length ?b) (hashed @ ?b) else Inr (Some (hashed @ ?b)))"
      using False r by simp
    define rest where "rest = size1 - length ?b"
    show ?thesis
    proof (cases "rest = 0")
      case True
      then show ?thesis unfolding st sl rest_def [symmetric] by (simp add: slice_def)
    next
      case False
      then show ?thesis unfolding st sl rest_def [symmetric] using IH [folded rest_def] by simp
    qed
  qed
qed simp

text \<open>Without bad blocks the blocks lie one after the other.\<close>

lemma place_prefix:
  assumes "\<And>k. \<not> bad k" "place bad n eb k bs c = Some c'" "length c = n * eb" "\<And>b. b \<in> set bs \<Longrightarrow> length b = eb"
  shows "take (length (concat bs)) (drop (k * eb) c') = concat bs"
  using assms(2-4)
proof (induction bs arbitrary: k c)
  case (Cons b bs)
  have k: "k < n" using Cons.prems(1) by (cases "k < n") auto
  then have "List.find (\<lambda>j. \<not> bad j) [k..<n] = Some k" using assms(1) by (simp add: upt_conv_Cons)
  then have pl: "place bad n eb (Suc k) bs (put (k * eb) b c) = Some c'" using Cons.prems(1) by simp
  have bl: "length b = eb" "\<And>b. b \<in> set bs \<Longrightarrow> length b = eb" using Cons.prems(3) by auto
  have "length (put (k * eb) b c) = n * eb" using block_inside [OF k, of eb] Cons.prems(2) bl by simp
  then have IH: "take (length (concat bs)) (drop (Suc k * eb) c') = concat bs" using Cons.IH [OF pl] bl(2) by blast
  have "take eb (drop (k * eb) c') = b" using place_slice [OF pl Cons.prems(2) k bl] by (simp add: slice_def)
  then show ?case using IH bl(1) by (simp add: take_add add.commute)
qed simp

text \<open>\<open>mtd verify\<close> compares the hash of the file with the hash of the start of the device, bad blocks included: so after
  a successful \<open>mtd write\<close> of a file to a device without bad blocks it succeeds, whatever the hash function.\<close>

theorem mtd_write_verify:
  assumes "chip ops valid cells n eb nand bad" "\<And>k. \<not> bad k" "valid d" "devs s name = Some d" "0x3a \<notin> set name"
    and "bufcap s = Some cap" "eb \<le> cap" "length (buf s) \<le> eb" "readable (image s)" "n + 2 \<le> fuel"
    and "buf s @ image_bytes (image s) = img" "mtd_write ops 0 False fuel name s = (Inr 0, s')" "length img < fuel2"
  shows "fst (mtd_verify ops md5 fuel2 name (Some img) s') = Inr True"
proof -
  let ?bs = "image_blocks eb img"
  obtain c d' where w: "place bad n eb 0 ?bs (cells d) = Some c" "devs s' name = Some d'" "valid d'" "cells d' = c"
    using mtd_write_place [OF assms(1,3-10)] assms(11,12) by (auto split: option.splits)
  have eb: "0 < eb" and l: "length (cells d) = n * eb" using chip_geometry(1,2) [OF assms(1,3)] by auto
  obtain k where k: "concat ?bs = img @ replicate k 0xff" using image_blocks_concat [OF eb] by blast
  have "take (length (concat ?bs)) c = concat ?bs" using place_prefix [OF assms(2) w(1) l image_blocks_length] by simp
  then have "take (length img) c = img" by (metis append_eq_conv_conj k le_add1 length_append min.absorb1 take_take)
  then have "verify_loop ops d' fuel2 0 (length img) [] = Inr (Some img)"
    using verify_loop_spec [OF assms(1) w(3) assms(13), of 0 "[]"] w(4) by (simp add: slice_def)
  then show ?thesis using w(2) chip_geometry(3) [OF assms(1) w(3)] by (simp add: mtd_verify_def mtd_check_open_def)
qed

definition nor_ops :: "bytes mtd_ops" where
  "nor_ops = sim_ops 4 4 False (\<lambda>k. False)"

lemma nor_chip: "chip nor_ops (\<lambda>d. length d = 4 * 4) (\<lambda>d. d) 4 4 False (\<lambda>k. False)"
  unfolding nor_ops_def by (rule sim_chip) simp_all

theorem mtd_write_verify_witness:
  "\<exists>s'. mtd_write nor_ops 0 False 6 (lit ''fs'') (demo_mtd demo_image) = (Inr 0, s') \<and>
     fst (mtd_verify nor_ops sum_list 6 (lit ''fs'') (Some [1, 2, 3, 4, 5]) s') = Inr True"
proof -
  have s: "devs (demo_mtd demo_image) (lit ''fs'') = Some (replicate 16 0)" "bufcap (demo_mtd demo_image) = Some 4"
    "buf (demo_mtd demo_image) = []" "image (demo_mtd demo_image) = demo_image" by (simp_all add: demo_mtd_def)
  have r: "readable demo_image" "(0x3a :: byte) \<notin> set (lit ''fs'')" by (simp_all add: readable_def demo_image_def lit_def)
  have "fst (mtd_write nor_ops 0 False 6 (lit ''fs'') (demo_mtd demo_image)) = Inr 0" by code_simp
  then obtain s' where w: "mtd_write nor_ops 0 False 6 (lit ''fs'') (demo_mtd demo_image) = (Inr 0, s')" by (metis prod.collapse)
  have i: "buf (demo_mtd demo_image) @ image_bytes (image (demo_mtd demo_image)) = [1, 2, 3, 4, 5]"
    by (simp only: s) (simp add: demo_image_def)
  show ?thesis
    using mtd_write_verify [OF nor_chip _ _ s(1) r(2) s(2) _ _ _ _ i w, of 6 sum_list] r(1) w by (auto simp: s)
qed

section \<open>The check of an image\<close>

text \<open>What \<open>mtd write\<close> to the partition firmware takes for an image on a little endian machine: a trx header with a length that the partition has room for,
  or one of the other formats; with \<open>target_brcm\<close> nothing else.\<close>

definition acceptable :: "bool \<Rightarrow> nat \<Rightarrow> bytes \<Rightarrow> bool" where
  "acceptable brcm size1 img \<longleftrightarrow> 4 \<le> length img \<and>
     (if le32_dec (take 4 img) = MTD_TRX_MAGIC
      then 32 \<le> length img \<and> 28 \<le> unat (le32_dec (slice 4 4 img)) \<and> unat (le32_dec (slice 4 4 img)) \<le> size1
      else brcm \<longrightarrow> be32_dec (take 4 img) = MTD_SEAMA_MAGIC \<or> le32_dec (take 4 img) \<in> {MTD_WRG_MAGIC, MTD_WRGG03_MAGIC})"

lemma read_magic_chunk: "read_magic [] [Chunk img] = (take 4 img, if length img \<le> 4 then [] else [Chunk (drop 4 img)])"
proof -
  have "read_magic b [] = (b, [])" for b by (subst read_magic.simps) simp
  moreover have "read_magic b evs = (b, evs)" if "4 \<le> length b" for b evs using that by (subst read_magic.simps) simp
  ultimately show ?thesis by (subst read_magic.simps) auto
qed

lemma trx_magic_swap: "length b = 4 \<Longrightarrow> be32_dec b = MTD_TRX_MAGIC_BE \<longleftrightarrow> le32_dec b = MTD_TRX_MAGIC"
proof -
  assume l: "length b = 4"
  have e: "be32_enc MTD_TRX_MAGIC_BE = le32_enc MTD_TRX_MAGIC" by (simp add: be32_enc_def le32_enc_def MTD_TRX_MAGIC_BE_def MTD_TRX_MAGIC_def)
  show ?thesis using l e by (metis be32_dec_enc be32_enc_dec le32_dec_enc le32_enc_dec)
qed

lemma firmware_check:
  assumes "chip ops valid cells n eb nand bad" "valid d" "devs s (lit ''firmware'') = Some d" "\<not> big_endian A"
    and "buf s = []" "image s = [Chunk img]" "imageformat s = MTD_IMAGE_FORMAT_UNKNOWN"
  shows "\<exists>s'. image_check (trx_build brcm A ops) (lit ''firmware'') s = (Inr (acceptable brcm (n * eb) img), s') \<and> devs s' = devs s"
proof (cases "length img < 4")
  case True
  then show ?thesis using assms(5,6) by (auto simp: image_check_def read_magic_chunk acceptable_def)
next
  case False
  let ?m = "take 4 img"
  have l4: "length ?m = 4" using False by simp
  have le: "native32_dec A b = le32_dec b" for b using assms(4) by (simp add: native32_dec_def)
  have swap: "be32_dec ?m = MTD_TRX_MAGIC_BE \<longleftrightarrow> le32_dec ?m = MTD_TRX_MAGIC" using trx_magic_swap [OF l4] .
  have dist: "MTD_TRX_MAGIC \<noteq> MTD_WRG_MAGIC" "MTD_TRX_MAGIC \<noteq> MTD_WRGG03_MAGIC" "MTD_TRX_MAGIC_BE \<noteq> MTD_SEAMA_MAGIC"
    by (simp_all add: MTD_TRX_MAGIC_def MTD_WRG_MAGIC_def MTD_WRGG03_MAGIC_def MTD_SEAMA_MAGIC_def MTD_TRX_MAGIC_BE_def)
  have info: "op_info ops d = Some (n * eb, eb, nand)" using chip_geometry(3) [OF assms(1,2)] .
  show ?thesis
  proof (cases "le32_dec ?m = MTD_TRX_MAGIC")
    case True
    have "\<exists>evs. fd_read 28 (if length img \<le> 4 then [] else [Chunk (drop 4 img)]) = (Chunk (take 28 (drop 4 img)), evs)"
      by (cases "length img \<le> 4") auto
    then obtain evs where rd: "fd_read 28 (if length img \<le> 4 then [] else [Chunk (drop 4 img)]) = (Chunk (take 28 (drop 4 img)), evs)" by blast
    have t32: "?m @ take 28 (drop 4 img) = take 32 img" using take_add [of 4 28 img] by simp
    have full: "slice 0 4 (take 32 img) = ?m" by (simp add: slice_def)
    have len: "slice 4 4 (take 32 img) = slice 4 4 img" by (simp add: slice_def drop_take)
    let ?s = "s\<lparr>buf := ?m, image := if length img \<le> 4 then [] else [Chunk (drop 4 img)], imageformat := MTD_IMAGE_FORMAT_TRX\<rparr>"
    have ic: "image_check (trx_build brcm A ops) (lit ''firmware'') s = trx_check A ops (lit ''firmware'') ?s"
      using False True swap assms(5,6) by (simp add: image_check_def trx_build_def read_magic_chunk detect_format_def)
    have "\<exists>s'. trx_check A ops (lit ''firmware'') ?s = (Inr (32 \<le> length img \<and> 28 \<le> unat (le32_dec (slice 4 4 img)) \<and>
        unat (le32_dec (slice 4 4 img)) \<le> n * eb), s') \<and> devs s' = devs s"
      using l4 rd t32 True assms(3) info by (auto simp: trx_check_def Let_def le full len mtd_check_open_def)
    moreover have "acceptable brcm (n * eb) img \<longleftrightarrow> 32 \<le> length img \<and> 28 \<le> unat (le32_dec (slice 4 4 img)) \<and>
        unat (le32_dec (slice 4 4 img)) \<le> n * eb"
      using True False swap dist by (auto simp: acceptable_def)
    ultimately show ?thesis unfolding ic by simp
  next
    case no: False
    then show ?thesis using False assms swap
      by (auto simp: image_check_def trx_build_def read_magic_chunk detect_format_def acceptable_def Let_def)
  qed
qed

text \<open>C9. \<open>mtd write\<close> of an image to the partition firmware without \<open>-f\<close>, on a little endian machine, the image in one read: if the image is
  shorter than a magic number, or a trx image that is truncated or does not fit, or (where the check for brcm is built in) in no known format, the program exits with status 1 and no device has
  been touched.\<close>

theorem mtd_write_refuses:
  assumes "chip dops valid cells n eb nand bad" "valid d" "devs s (lit ''firmware'') = Some d" "\<not> big_endian A"
    and "buf s = []" "imageformat s = MTD_IMAGE_FORMAT_UNKNOWN" "bufcap s = None"
    and "\<not> o_force opts" "images file = Some [Chunk img]" "file \<noteq> lit ''-''" "\<not> acceptable brcm (n * eb) img"
  shows "\<exists>s'. mtd_main (trx_build brcm A dops) dops md5 fuel images files stdin opts [lit ''write'', file, lit ''firmware''] s = (Inl (Exit 1), s') \<and> devs s' = devs s"
proof -
  let ?s = "s\<lparr>image := [Chunk img], mtdsize := n * eb, erasesize := eb, mtd_nand := nand, bufcap := Some eb\<rparr>"
  have sp: "split_colon (lit ''firmware'') = [lit ''firmware'']" by (intro split_colon_plain) (simp add: lit_def)
  have ck: "mtd_check dops [lit ''firmware''] (s\<lparr>image := [Chunk img]\<rparr>) = (True, ?s)"
    using assms(3,7) chip_geometry(3) [OF assms(1,2)] by (simp add: mtd_check_open_def)
  obtain s' where "image_check (trx_build brcm A dops) (lit ''firmware'') ?s = (Inr (acceptable brcm (n * eb) img), s')" "devs s' = devs ?s"
    using firmware_check [OF assms(1,2) _ assms(4), of ?s img] assms(3,5,6) by auto
  then have "prepare_write (trx_build brcm A dops) dops (o_force opts) (Some [Chunk img]) (lit ''firmware'') s = (Inl (Exit 1), s')" "devs s' = devs s"
    using assms(8,11) by (simp_all add: prepare_write_def sp ck and_then_def del: mtd_check.simps)
  moreover have "lit ''write'' \<noteq> lit ''verify''" by (simp add: lit_def)
  ultimately show ?thesis using assms(9,10) by (simp add: mtd_main_def and_then_def)
qed

definition demo_opts :: mtd_opts where
  "demo_opts = \<lparr>o_force = False, o_no_erase = False, o_erase = [], o_offset = 0, o_data_size = 0, o_part_offset = 0, o_dump_len = 0,
     o_jffs2file = None, o_jffs2dir = [], o_skip_bytes = 0\<rparr>"

definition demo_firmware :: "bytes mtd" where
  "demo_firmware = \<lparr>devs = [lit ''firmware'' \<mapsto> replicate 16 0], mtdsize = 0, erasesize = 0, mtd_nand = False, buf = [], bufcap = None,
     imageformat = MTD_IMAGE_FORMAT_UNKNOWN, image = []\<rparr>"

theorem mtd_write_refuses_witness:
  "\<exists>s'. mtd_main (trx_build True mips_le nor_ops) nor_ops sum_list 6 [lit ''i'' \<mapsto> [Chunk [1, 2, 3, 4, 5]]] Map.empty [] demo_opts [lit ''write'', lit ''i'', lit ''firmware''] demo_firmware =
     (Inl (Exit 1), s') \<and> devs s' = devs demo_firmware"
proof -
  have "\<not> acceptable True (4 * 4) [1, 2, 3, 4, 5]" by code_simp
  then show ?thesis
    using mtd_write_refuses [where brcm = True, OF nor_chip, of "replicate 16 0" demo_firmware mips_le demo_opts "[lit ''i'' \<mapsto> [Chunk [1, 2, 3, 4, 5]]]" "lit ''i''" "[1, 2, 3, 4, 5]"]
    by (auto simp: demo_firmware_def demo_opts_def mips_le_def lit_def)
qed


end
