(* ===== verification/Maccalc.thy ===== *)
theory Maccalc
  imports Mtd
begin

text \<open>
  The calculator for MAC addresses, \<^verbatim>\<open>package/network/utils/maccalc/src/main.c\<close>. A run of the program gives the exit status and what is written to the
  standard output; messages to the standard error are left out. What \<open>write\<close> returns for the binary output is an argument; what \<open>read\<close> gives is a list of events, as in \<open>Mtd\<close>.
\<close>

section \<open>Text\<close>

text \<open>\<open>%02hhx\<close> of \<open>sscanf\<close>: white space is skipped, then at most two characters are read that are a number in base 16: a sign and a digit, or one or two
  digits. The characters \<open>0x\<close> are the start of a number that does not fit into two characters, which is a failure.\<close>

definition scan_hex2 :: "bytes \<Rightarrow> (byte \<times> bytes) option" where
  "scan_hex2 s =
     (case dropWhile isspace s of
        [] \<Rightarrow> None
      | c # r \<Rightarrow>
          if c = 43 \<or> c = 45
          then (case r of
                  [] \<Rightarrow> None
                | e # r' \<Rightarrow> if digit_of e < 16 then Some (if c = 45 then - of_nat (digit_of e) else of_nat (digit_of e), r') else None)
          else if digit_of c < 16
          then (case r of
                  [] \<Rightarrow> Some (of_nat (digit_of c), r)
                | e # r' \<Rightarrow>
                    if digit_of e < 16 then Some (of_nat (16 * digit_of c + digit_of e), r')
                    else if c = 48 \<and> (e = 120 \<or> e = 88) then None
                    else Some (of_nat (digit_of c), r))
          else None)"

text \<open>The other conversions of the format, each behind a colon; what follows the last one is not looked at.\<close>

fun scan_rest :: "nat \<Rightarrow> bytes \<Rightarrow> bytes option" where
  "scan_rest 0 s = Some []"
| "scan_rest (Suc k) s =
     (case s of
        [] \<Rightarrow> None
      | c # r \<Rightarrow>
          if c \<noteq> 58 then None
          else case scan_hex2 r of
              None \<Rightarrow> None
            | Some (b, r') \<Rightarrow> (case scan_rest k r' of None \<Rightarrow> None | Some bs \<Rightarrow> Some (b # bs)))"

definition parse_mac :: "bytes \<Rightarrow> bytes option" where
  "parse_mac s = (case scan_hex2 s of None \<Rightarrow> None | Some (b, r) \<Rightarrow> (case scan_rest 5 r of None \<Rightarrow> None | Some bs \<Rightarrow> Some (b # bs)))"

definition hex_lower :: "nat \<Rightarrow> byte" where
  "hex_lower d = (if d < 10 then of_nat (48 + d) else of_nat (87 + d))"

definition fmt_02x :: "byte \<Rightarrow> bytes" where
  "fmt_02x b = [hex_lower (unat b div 16), hex_lower (unat b mod 16)]"

fun join_colon :: "bytes list \<Rightarrow> bytes" where
  "join_colon [] = []"
| "join_colon [w] = w"
| "join_colon (w # ws) = w @ 58 # join_colon ws"

definition print_mac :: "bytes \<Rightarrow> bytes" where
  "print_mac mac = join_colon (map fmt_02x mac) @ [10]"

section \<open>The commands\<close>

definition ERR_INVALID :: int where "ERR_INVALID = 1"
definition ERR_IO :: int where "ERR_IO = 2"

definition add_mac :: "bytes \<Rightarrow> int \<Rightarrow> bytes" where
  "add_mac mac i =
     (let t = (push_bit 16 (ucast (mac ! 3)) OR push_bit 8 (ucast (mac ! 4)) OR ucast (mac ! 5)) + (word_of_int i :: u32)
      in mac[3 := ucast (drop_bit 16 t AND 0xff), 4 := ucast (drop_bit 8 t AND 0xff), 5 := ucast (t AND 0xff)])"

definition maccalc_do_add :: "abi \<Rightarrow> bytes list \<Rightarrow> int \<times> bytes" where
  "maccalc_do_add A argv =
     (case argv of
        [a, n] \<Rightarrow> (case parse_mac a of None \<Rightarrow> (ERR_INVALID, []) | Some mac \<Rightarrow> (0, print_mac (add_mac mac (atoi A n))))
      | _ \<Rightarrow> (ERR_INVALID, []))"

definition maccalc_do_logical :: "(byte \<Rightarrow> byte \<Rightarrow> byte) \<Rightarrow> bytes list \<Rightarrow> int \<times> bytes" where
  "maccalc_do_logical op argv =
     (case argv of
        [a, b] \<Rightarrow>
          (case parse_mac a of
             None \<Rightarrow> (ERR_INVALID, [])
           | Some mac1 \<Rightarrow> (case parse_mac b of None \<Rightarrow> (ERR_INVALID, []) | Some mac2 \<Rightarrow> (0, print_mac (map2 op mac1 mac2))))
      | _ \<Rightarrow> (ERR_INVALID, []))"

definition maccalc_do_mac2bin :: "(bytes \<Rightarrow> int) \<Rightarrow> bytes list \<Rightarrow> int \<times> bytes" where
  "maccalc_do_mac2bin write argv =
     (case argv of
        [a] \<Rightarrow>
          (case parse_mac a of
             None \<Rightarrow> (ERR_INVALID, [])
           | Some mac \<Rightarrow> let c = write mac in (if c \<noteq> 6 then ERR_IO else 0, take (nat c) mac))
      | _ \<Rightarrow> (ERR_INVALID, []))"

text \<open>\<open>read_safe\<close> gives the bytes read; \<open>None\<close> after an error.\<close>

function read_safe :: "nat \<Rightarrow> bytes \<Rightarrow> rd list \<Rightarrow> bytes option" where
  "read_safe count b evs =
     (if count = 0 then Some b
      else case fd_read count evs of
          (Chunk c, evs') \<Rightarrow> if c = [] then Some b else read_safe (count - length c) (b @ c) evs'
        | (Intr, evs') \<Rightarrow> read_safe count b evs'
        | (Failed, evs') \<Rightarrow> None)"
  by pat_completeness auto
termination by (relation "measure (\<lambda>(count, b, evs). rd_size evs)") (auto dest: fd_read_less [OF sym])

declare read_safe.simps [simp del]

definition maccalc_do_bin2mac :: "rd list \<Rightarrow> bytes list \<Rightarrow> int \<times> bytes" where
  "maccalc_do_bin2mac stdin argv =
     (if argv \<noteq> [] then (ERR_INVALID, [])
      else case read_safe 6 [] stdin of
          None \<Rightarrow> (ERR_IO, [])
        | Some mac \<Rightarrow> if length mac \<noteq> 6 then (ERR_IO, []) else (0, print_mac mac))"

definition maccalc_main :: "abi \<Rightarrow> (bytes \<Rightarrow> int) \<Rightarrow> rd list \<Rightarrow> bytes list \<Rightarrow> int \<times> bytes" where
  "maccalc_main A write stdin argv =
     (let run = (\<lambda>(ret, out). (if ret \<noteq> 0 then 1 else 0, out))
      in case argv of
           [] \<Rightarrow> (1, [])
         | cmd # args \<Rightarrow>
             if cmd = lit ''add'' then run (maccalc_do_add A args)
             else if cmd = lit ''and'' then run (maccalc_do_logical (AND) args)
             else if cmd = lit ''or'' then run (maccalc_do_logical (OR) args)
             else if cmd = lit ''xor'' then run (maccalc_do_logical (XOR) args)
             else if cmd = lit ''mac2bin'' then run (maccalc_do_mac2bin write args)
             else if cmd = lit ''bin2mac'' then run (maccalc_do_bin2mac stdin args)
             else (1, []))"

section \<open>Printing and parsing\<close>

lemma hex_lower_digit: "d < 16 \<Longrightarrow> digit_of (hex_lower d) = d \<and> \<not> isspace (hex_lower d) \<and> hex_lower d \<noteq> 43 \<and> hex_lower d \<noteq> 45"
proof -
  assume "d < 16"
  then have "d \<in> set [0..<16]" by simp
  moreover have "\<forall>d\<in>set [0..<16]. digit_of (hex_lower d) = d \<and> \<not> isspace (hex_lower d) \<and> hex_lower d \<noteq> 43 \<and> hex_lower d \<noteq> 45" by code_simp
  ultimately show ?thesis by blast
qed

lemma scan_fmt: "scan_hex2 (fmt_02x b @ r) = Some (b, r)"
proof -
  have d: "unat b div 16 < 16" "unat b mod 16 < 16" using unsigned_less [of b, where ?'a = nat] by (simp_all add: less_mult_imp_div_less)
  have "16 * (unat b div 16) + unat b mod 16 = unat b" by simp
  then show ?thesis using hex_lower_digit [OF d(1)] hex_lower_digit [OF d(2)] d
    by (simp add: scan_hex2_def fmt_02x_def del: of_nat_add of_nat_mult)
qed

lemma scan_rest_join: "bs \<noteq> [] \<Longrightarrow> scan_rest (length bs) (58 # join_colon (map fmt_02x bs) @ r) = Some bs"
proof (induction bs rule: induct_list012)
  case (2 b)
  then show ?case using scan_fmt [of b r] by simp
next
  case (3 b c bs)
  have "scan_hex2 (fmt_02x b @ 58 # join_colon (map fmt_02x (c # bs)) @ r) = Some (b, 58 # join_colon (map fmt_02x (c # bs)) @ r)" by (rule scan_fmt)
  then show ?case using "3.IH" by simp
qed simp

lemma parse_print:
  assumes "length mac = 6"
  shows "parse_mac (join_colon (map fmt_02x mac) @ r) = Some mac"
proof -
  obtain b c bs where m: "mac = b # c # bs" "length (c # bs) = 5" using assms by (cases mac; cases "tl mac") auto
  have "scan_hex2 (fmt_02x b @ 58 # join_colon (map fmt_02x (c # bs)) @ r) = Some (b, 58 # join_colon (map fmt_02x (c # bs)) @ r)" by (rule scan_fmt)
  moreover have "scan_rest 5 (58 # join_colon (map fmt_02x (c # bs)) @ r) = Some (c # bs)" using scan_rest_join [of "c # bs" r] m(2) by (simp only:) simp
  ultimately show ?thesis using m(1) by (simp add: parse_mac_def del: scan_rest.simps)
qed

lemma parse_mac_length: "parse_mac s = Some mac \<Longrightarrow> length mac = 6"
proof -
  have "scan_rest k t = Some bs \<Longrightarrow> length bs = k" for k t bs
    by (induction k arbitrary: t bs) (auto split: list.splits if_splits option.splits)
  then show "parse_mac s = Some mac \<Longrightarrow> length mac = 6" by (fastforce simp: parse_mac_def split: option.splits)
qed

section \<open>Adding\<close>

text \<open>The lower half of an address as a number.\<close>

definition mac_low :: "bytes \<Rightarrow> int" where
  "mac_low mac = uint (mac ! 3) * 2 ^ 16 + uint (mac ! 4) * 2 ^ 8 + uint (mac ! 5)"

lemma low_word: "push_bit 16 (ucast a) OR push_bit 8 (ucast b) OR (ucast c :: u32) = word_of_int (uint a * 2 ^ 16 + uint b * 2 ^ 8 + uint c)" for a b c :: byte
proof -
  have d: "bit x n \<Longrightarrow> n < 8" for x :: byte and n using bit_imp_le_length [of x n] by simp
  have "push_bit 8 (ucast b) + (ucast c :: u32) = push_bit 8 (ucast b) OR ucast c"
    by (rule disjunctive_add) (auto simp: bit_simps dest: d)
  moreover have "push_bit 16 (ucast a) + (push_bit 8 (ucast b) OR (ucast c :: u32)) = push_bit 16 (ucast a) OR (push_bit 8 (ucast b) OR ucast c)"
    by (rule disjunctive_add) (auto simp: bit_simps dest!: d)
  moreover have "push_bit 16 (ucast a) + (push_bit 8 (ucast b) + (ucast c :: u32)) = word_of_int (uint a * 2 ^ 16 + uint b * 2 ^ 8 + uint c)"
    by (simp add: push_bit_eq_mult)
  ultimately show ?thesis by (metis or.assoc)
qed

lemma byte_of_word: "uint (ucast (drop_bit k t AND 0xff) :: byte) = uint (t :: u32) div 2 ^ k mod 256"
proof -
  have m: "(0xff :: u32) = mask 8" by (simp add: mask_eq_exp_minus_1)
  have "(ucast (drop_bit k t AND 0xff) :: byte) = ucast (drop_bit k t)" unfolding m by (rule bit_word_eqI) (auto simp: bit_simps)
  moreover have "uint (ucast (drop_bit k t) :: byte) = uint (drop_bit k t) mod 256" by (simp add: unsigned_ucast_eq take_bit_eq_mod)
  moreover have "uint (drop_bit k t) = uint t div 2 ^ k" 
    unfolding unsigned_drop_bit_eq using take_bit_int_eq_self [of "uint t" 32] uint_lt2p [of t] by (simp add: drop_bit_eq_div)
  ultimately show ?thesis by (simp only:)
qed

lemma low_digits: "(x :: int) div 2 ^ 16 mod 256 * 2 ^ 16 + x div 2 ^ 8 mod 256 * 2 ^ 8 + x mod 256 = x mod 2 ^ 24"
proof -
  have "x mod (256 * 65536) = 256 * (x div 256 mod 65536) + x mod 256" "x div 256 mod (256 * 256) = 256 * (x div 256 div 256 mod 256) + x div 256 mod 256"
    by (simp_all only: zmod_zmult2_eq)
  moreover have "x div 256 div 256 = x div 65536" by (simp add: zdiv_zmult2_eq [symmetric])
  ultimately show ?thesis by simp
qed

lemma add_mac_low:
  assumes "length mac = 6"
  shows "length (add_mac mac i) = 6" "take 3 (add_mac mac i) = take 3 mac" "mac_low (add_mac mac i) = (mac_low mac + i) mod 2 ^ 24"
proof -
  define t :: u32 where "t = word_of_int (mac_low mac + i)"
  have "uint t mod 2 ^ 24 = (mac_low mac + i) mod 2 ^ 24" unfolding t_def uint_word_of_int by (rule mod_mod_cancel) simp
  then have lo: "uint t div 2 ^ 16 mod 256 * 2 ^ 16 + uint t div 2 ^ 8 mod 256 * 2 ^ 8 + uint t div 2 ^ 0 mod 256 = (mac_low mac + i) mod 2 ^ 24"
    using low_digits [of "uint t"] by simp
  have am: "add_mac mac i = mac[3 := ucast (drop_bit 16 t AND 0xff), 4 := ucast (drop_bit 8 t AND 0xff), 5 := ucast (drop_bit 0 t AND 0xff)]"
    unfolding add_mac_def low_word by (simp add: Let_def t_def mac_low_def wi_hom_add)
  show "length (add_mac mac i) = 6" "take 3 (add_mac mac i) = take 3 mac" unfolding am using assms by simp_all
  have "mac_low (mac[3 := a, 4 := b, 5 := c]) = uint a * 2 ^ 16 + uint b * 2 ^ 8 + uint c" for a b c using assms by (simp add: mac_low_def)
  then show "mac_low (add_mac mac i) = (mac_low mac + i) mod 2 ^ 24" unfolding am by (simp only: byte_of_word lo)
qed

text \<open>An address is determined by its two halves.\<close>

lemma mac_eqI:
  assumes "length m = 6" "length m' = 6" "take 3 m = take 3 m'" "mac_low m = mac_low m'"
  shows "m = m'"
proof -
  have int_step: "256 * x + p = 256 * x' + p' \<Longrightarrow> 0 \<le> p \<Longrightarrow> p < 256 \<Longrightarrow> 0 \<le> p' \<Longrightarrow> p' < 256 \<Longrightarrow> x = x' \<and> p = p'" for x x' p p' :: int
    by (cases x x' rule: linorder_cases) linarith+
  have step: "256 * (x :: int) + uint (p :: byte) = 256 * x' + uint (p' :: byte) \<Longrightarrow> x = x' \<and> uint p = uint p'" for x x' p p'
    using int_step [of x "uint p" x' "uint p'"] uint_lt2p [of p] uint_lt2p [of p'] by simp
  have "256 * (256 * uint (m ! 3) + uint (m ! 4)) + uint (m ! 5) = 256 * (256 * uint (m' ! 3) + uint (m' ! 4)) + uint (m' ! 5)"
    using assms(4) by (simp add: mac_low_def algebra_simps)
  from step [OF this] have "uint (m ! 3) = uint (m' ! 3) \<and> uint (m ! 4) = uint (m' ! 4) \<and> uint (m ! 5) = uint (m' ! 5)" using step by blast
  then have n: "m ! 3 = m' ! 3" "m ! 4 = m' ! 4" "m ! 5 = m' ! 5" by (simp_all add: word_uint_eq_iff)
  have "m = take 3 m @ [m ! 3, m ! 4, m ! 5]" "m' = take 3 m' @ [m' ! 3, m' ! 4, m' ! 5]"
    using assms(1,2) by (simp_all add: list_eq_iff_nth_eq nth_append less_Suc_eq numeral_eq_Suc)
  then show ?thesis using n assms(3) by metis
qed

section \<open>Runs of the program\<close>

lemma read_safe_all: "length mac = 6 \<Longrightarrow> readable evs \<Longrightarrow> image_bytes evs = mac \<Longrightarrow> read_safe 6 [] evs = Some mac"
proof -
  have "readable evs \<Longrightarrow> read_safe k b evs = Some (b @ take k (image_bytes evs))" for k b
  proof (induction k b evs rule: read_safe.induct)
    case (1 k b evs)
    obtain ev evs1 where r: "fd_read k evs = (ev, evs1)" by force
    show ?case
    proof (cases "k = 0")
      case False
      note f = fd_read_bytes [OF "1.prems" _ r]
      show ?thesis
        using 1 False r f by (cases ev) (auto simp: read_safe.simps [of k b evs])
    qed (simp add: read_safe.simps)
  qed
  then show "length mac = 6 \<Longrightarrow> readable evs \<Longrightarrow> image_bytes evs = mac \<Longrightarrow> read_safe 6 [] evs = Some mac" by auto
qed

text \<open>\<open>maccalc bin2mac\<close> prints the six bytes it reads, however they arrive, and \<open>maccalc mac2bin\<close> gives them back from the text, with or without the line end.\<close>

theorem maccalc_bin_roundtrip:
  assumes "length mac = 6" "readable stdin" "image_bytes stdin = mac" "write mac = 6"
  shows "\<exists>text. maccalc_main A write' stdin [lit ''bin2mac''] = (0, text @ [10]) \<and> maccalc_main A write stdin' [lit ''mac2bin'', text] = (0, mac) \<and>
    maccalc_main A write stdin' [lit ''mac2bin'', text @ [10]] = (0, mac)"
  using read_safe_all [OF assms(1-3)] assms(1,4) parse_print [OF assms(1), of "[]"] parse_print [OF assms(1), of "[10]"]
  by (intro exI [of _ "join_colon (map fmt_02x mac)"])
    (simp add: maccalc_main_def maccalc_do_bin2mac_def maccalc_do_mac2bin_def print_mac_def lit_def)

theorem maccalc_bin_roundtrip_witness:
  "\<exists>text. maccalc_main mips_le (\<lambda>_. 6) [Chunk [0x00, 0x11], Intr, Chunk [0x22, 0xaa, 0xbb, 0xcc]] [lit ''bin2mac''] = (0, text @ [10]) \<and>
    maccalc_main mips_le (\<lambda>_. 6) [] [lit ''mac2bin'', text] = (0, [0x00, 0x11, 0x22, 0xaa, 0xbb, 0xcc])"
  using maccalc_bin_roundtrip [of "[0x00, 0x11, 0x22, 0xaa, 0xbb, 0xcc]" "[Chunk [0x00, 0x11], Intr, Chunk [0x22, 0xaa, 0xbb, 0xcc]]" "\<lambda>_. 6" mips_le "\<lambda>_. 6" "[]"]
  by (auto simp: readable_def)

text \<open>\<open>maccalc add\<close> prints the address with the same first three bytes whose lower three bytes, as a number, are those of the argument plus the number modulo \<open>2 ^ 24\<close>. Adding the negated
  number to the output gives the normal form of the argument back.\<close>

theorem maccalc_add_low:
  assumes "parse_mac a = Some mac" "atoi A n = i" "atoi A n' = - i"
  shows "\<exists>mac'. maccalc_main A write stdin [lit ''add'', a, n] = (0, print_mac mac') \<and> length mac' = 6 \<and> take 3 mac' = take 3 mac \<and>
    mac_low mac' = (mac_low mac + i) mod 2 ^ 24 \<and> maccalc_main A write stdin [lit ''add'', print_mac mac', n'] = (0, print_mac mac)"
proof -
  have l: "length mac = 6" using parse_mac_length [OF assms(1)] .
  note a1 = add_mac_low [OF l, of i]
  note a2 = add_mac_low [OF a1(1), of "- i"]
  have b: "0 \<le> mac_low mac" "mac_low mac < 2 ^ 24"
  proof -
    have "uint x \<le> 255" for x :: byte using uint_lt2p [of x] by simp
    from this [of "mac ! 3"] this [of "mac ! 4"] this [of "mac ! 5"] show "0 \<le> mac_low mac" "mac_low mac < 2 ^ 24" by (auto simp: mac_low_def)
  qed
  have "mac_low (add_mac (add_mac mac i) (- i)) = mac_low mac"
    unfolding a2(3) a1(3) using b by (simp add: mod_diff_left_eq)
  then have same: "add_mac (add_mac mac i) (- i) = mac" using mac_eqI [OF a2(1) l] a1(2) a2(2) by simp
  have "parse_mac (print_mac (add_mac mac i)) = Some (add_mac mac i)" using parse_print [OF a1(1)] by (simp add: print_mac_def)
  then show ?thesis
    using assms a1 same by (intro exI [of _ "add_mac mac i"]) (simp add: maccalc_main_def maccalc_do_add_def lit_def)
qed

theorem maccalc_add_low_witness:
  "\<exists>mac'. maccalc_main mips_le (\<lambda>_. 6) [] [lit ''add'', lit ''0:11:22:ff:ff:ff'', lit ''1''] = (0, print_mac mac') \<and> take 3 mac' = [0x00, 0x11, 0x22] \<and> mac_low mac' = 0 \<and>
    maccalc_main mips_le (\<lambda>_. 6) [] [lit ''add'', print_mac mac', lit ''-1''] = (0, lit ''00:11:22:ff:ff:ff'' @ [10])"
proof -
  have p: "parse_mac (lit ''0:11:22:ff:ff:ff'') = Some [0x00, 0x11, 0x22, 0xff, 0xff, 0xff]" by code_simp
  have n: "atoi mips_le (lit ''1'') = 1" "atoi mips_le (lit ''-1'') = - 1" by code_simp+
  have l: "(mac_low [0x00, 0x11, 0x22, 0xff, 0xff, 0xff] + 1) mod 2 ^ 24 = 0" "print_mac [0x00, 0x11, 0x22, 0xff, 0xff, 0xff] = lit ''00:11:22:ff:ff:ff'' @ [10]" by code_simp+
  show ?thesis using maccalc_add_low [OF p n, of "\<lambda>_. 6" "[]"] unfolding l by auto
qed

end
