(* ===== verification/Jffs2.thy ===== *)
theory Jffs2
  imports Mtd
begin

text \<open>
  \<^verbatim>\<open>package/system/mtd/src/jffs2.c\<close>: the \<open>jffs2write\<close> command of the flash writer, which appends a file to a JFFS2 file system in
  flash, and \<open>trx_fixup\<close> of \<^verbatim>\<open>trx.c\<close>, which it calls at the end.

  The static variables of the file are a record. The numbers \<open>last_ino\<close>, \<open>last_version\<close> and \<open>target_ino\<close> are kept at 32 bits; offsets
  are natural numbers and the theorems about devices below 2 GiB, as in \<^verbatim>\<open>Mtd\<close>. The erase block under construction is the buffer \<open>j_buf\<close>, whose content after
  \<open>malloc\<close> is an argument; a write behind its end is a \<open>Fault\<close>, and so are a read behind it and a division by an erase size of zero. The file
  to add is what \<open>stat\<close>, \<open>open\<close> and \<open>read\<close> give for its name.
\<close>

section \<open>Nodes\<close>

definition JFFS2_MAGIC_BITMASK :: u16 where "JFFS2_MAGIC_BITMASK = 0x1985"
definition KSAMTIB_CIGAM_2SFFJ :: u16 where "KSAMTIB_CIGAM_2SFFJ = 0x8519"
definition JFFS2_NODETYPE_DIRENT :: u16 where "JFFS2_NODETYPE_DIRENT = 0xc000 OR 0x2000 OR 1"
definition JFFS2_NODETYPE_INODE :: u16 where "JFFS2_NODETYPE_INODE = 0xc000 OR 0x2000 OR 2"
definition JFFS2_EOF :: bytes where "JFFS2_EOF = [0xde, 0xad, 0xc0, 0xde]"

definition CLEANMARKER :: "abi \<Rightarrow> bytes" where
  "CLEANMARKER A = (if big_endian A
     then [0x19, 0x85, 0x20, 0x03, 0x00, 0x00, 0x00, 0x0c, 0xf0, 0x60, 0xdc, 0x98]
     else [0x85, 0x19, 0x03, 0x20, 0x0c, 0x00, 0x00, 0x00, 0xb1, 0xb0, 0x1e, 0xe4])"

definition PAD :: "u32 \<Rightarrow> u32" where
  "PAD x = (x + 3) AND NOT 3"

text \<open>The fields that start every node, \<open>struct jffs2_unknown_node\<close>, and the two structures that are written, with the bytes they have
  in memory.\<close>

record jffs2_unknown_node =
  magic :: u16
  nodetype :: u16
  totlen :: u32
  hdr_crc :: u32

record jffs2_raw_dirent = jffs2_unknown_node +
  de_pino :: u32
  de_version :: u32
  de_ino :: u32
  de_mctime :: u32
  de_nsize :: byte
  de_type :: byte
  de_node_crc :: u32
  de_name_crc :: u32

record jffs2_raw_inode = jffs2_unknown_node +
  ri_ino :: u32
  ri_version :: u32
  ri_mode :: u32
  ri_uid :: u16
  ri_gid :: u16
  ri_isize :: u32
  ri_atime :: u32
  ri_mtime :: u32
  ri_ctime :: u32
  ri_offset :: u32
  ri_csize :: u32
  ri_dsize :: u32
  ri_compr :: byte
  ri_usercompr :: byte
  ri_flags :: u16
  ri_data_crc :: u32
  ri_node_crc :: u32

definition hdr_enc :: "abi \<Rightarrow> ('a) jffs2_unknown_node_scheme \<Rightarrow> bytes" where
  "hdr_enc A h = native16_enc A (magic h) @ native16_enc A (nodetype h) @ native32_enc A (totlen h)"

definition dirent_enc :: "abi \<Rightarrow> jffs2_raw_dirent \<Rightarrow> bytes" where
  "dirent_enc A de = hdr_enc A de @ native32_enc A (hdr_crc de) @ native32_enc A (de_pino de) @ native32_enc A (de_version de) @
     native32_enc A (de_ino de) @ native32_enc A (de_mctime de) @ [de_nsize de, de_type de, 0, 0] @ native32_enc A (de_node_crc de) @
     native32_enc A (de_name_crc de)"

definition inode_enc :: "abi \<Rightarrow> jffs2_raw_inode \<Rightarrow> bytes" where
  "inode_enc A ri = hdr_enc A ri @ native32_enc A (hdr_crc ri) @ native32_enc A (ri_ino ri) @ native32_enc A (ri_version ri) @
     native32_enc A (ri_mode ri) @ native16_enc A (ri_uid ri) @ native16_enc A (ri_gid ri) @ native32_enc A (ri_isize ri) @
     native32_enc A (ri_atime ri) @ native32_enc A (ri_mtime ri) @ native32_enc A (ri_ctime ri) @ native32_enc A (ri_offset ri) @
     native32_enc A (ri_csize ri) @ native32_enc A (ri_dsize ri) @ [ri_compr ri, ri_usercompr ri] @ native16_enc A (ri_flags ri) @
     native32_enc A (ri_data_crc ri) @ native32_enc A (ri_node_crc ri)"

text \<open>The structures after \<open>memset\<close>.\<close>

definition dirent_zero :: jffs2_raw_dirent where
  "dirent_zero = \<lparr>magic = 0, nodetype = 0, totlen = 0, hdr_crc = 0, de_pino = 0, de_version = 0, de_ino = 0, de_mctime = 0, de_nsize = 0,
     de_type = 0, de_node_crc = 0, de_name_crc = 0\<rparr>"

definition inode_zero :: jffs2_raw_inode where
  "inode_zero = \<lparr>magic = 0, nodetype = 0, totlen = 0, hdr_crc = 0, ri_ino = 0, ri_version = 0, ri_mode = 0, ri_uid = 0, ri_gid = 0, ri_isize = 0,
     ri_atime = 0, ri_mtime = 0, ri_ctime = 0, ri_offset = 0, ri_csize = 0, ri_dsize = 0, ri_compr = 0, ri_usercompr = 0, ri_flags = 0,
     ri_data_crc = 0, ri_node_crc = 0\<rparr>"

section \<open>The erase block under construction\<close>

text \<open>The globals \<open>mtdsize\<close> and \<open>erasesize\<close> with the type of the device, and the static variables; \<open>j_dev\<close> and \<open>j_pos\<close> are the device of
  \<open>outfd\<close> and its file position.\<close>

record geometry =
  g_size :: nat
  g_erase :: nat
  g_nand :: bool

record 'd jffs2 =
  j_dev :: 'd
  j_pos :: nat
  j_buf :: bytes
  j_ofs :: nat
  j_mtdofs :: nat
  last_ino :: u32
  last_version :: u32
  target_ino :: u32

text \<open>The loop of \<open>pad\<close> over bad blocks; the erase size is not 0 there.\<close>

function skip_bad :: "'d mtd_ops \<Rightarrow> geometry \<Rightarrow> 'd jffs2 \<Rightarrow> (stop + unit) \<times> 'd jffs2" where
  "skip_bad ops g s =
     (case mtd_block_is_bad ops (g_nand g) (j_dev s) (j_mtdofs s) of
        Inl st \<Rightarrow> (Inl st, s)
      | Inr bad \<Rightarrow>
          if bad \<and> j_mtdofs s < g_size g \<and> 0 < g_erase g
          then skip_bad ops g (s\<lparr>j_mtdofs := j_mtdofs s + g_erase g, j_pos := j_pos s + g_erase g\<rparr>)
          else (Inr (), s))"
  by pat_completeness auto
termination by (relation "measure (\<lambda>(ops, g, s). g_size g - j_mtdofs s)") auto

declare skip_bad.simps [simp del]

text \<open>Erasing and writing the block; the results of both are ignored.\<close>

definition write_eraseblock :: "'d mtd_ops \<Rightarrow> geometry \<Rightarrow> 'd jffs2 \<Rightarrow> (stop + unit) \<times> 'd jffs2" where
  "write_eraseblock ops g s =
     and_then (skip_bad ops g s)
       (\<lambda>_ s1. let (_, d1) = mtd_erase_block ops (g_erase g) (j_dev s1) (j_mtdofs s1);
                    (r, d2) = op_pwrite ops d1 (j_pos s1) (j_buf s1)
                in (Inr (), s1\<lparr>j_dev := d2, j_pos := j_pos s1 + nat r, j_mtdofs := j_mtdofs s1 + g_erase g\<rparr>))"

definition pad :: "'d mtd_ops \<Rightarrow> geometry \<Rightarrow> nat \<Rightarrow> 'd jffs2 \<Rightarrow> (stop + unit) \<times> 'd jffs2" where
  "pad ops g sz s =
     (if sz = 0 \<or> g_erase g = 0 then (Inl Fault, s)
      else if j_ofs s mod sz = 0 \<and> j_ofs s < g_erase g then (Inr (), s)
      else let n = sz - j_ofs s mod sz
           in if j_ofs s < g_erase g \<and> j_ofs s + n > g_erase g then (Inl Fault, s)
              else let s1 = (if j_ofs s < g_erase g
                             then s\<lparr>j_buf := put (j_ofs s) (replicate n 0xff) (j_buf s), j_ofs := j_ofs s + n\<rparr> else s);
                       s2 = s1\<lparr>j_ofs := j_ofs s1 mod g_erase g\<rparr>
                   in if j_ofs s2 = 0 then write_eraseblock ops g s2 else (Inr (), s2))"

definition rbytes :: "geometry \<Rightarrow> 'd jffs2 \<Rightarrow> nat" where
  "rbytes g s = g_erase g - j_ofs s mod g_erase g"

text \<open>\<open>add_data\<close> and \<open>prep_eraseblock\<close> call each other: a clean marker that does not fit into an erase block would make them call each other
  until the stack is exhausted.\<close>

definition copy_in :: "geometry \<Rightarrow> bytes \<Rightarrow> 'd jffs2 \<Rightarrow> (stop + unit) \<times> 'd jffs2" where
  "copy_in g p s =
     (if j_ofs s + length p > g_erase g then (Inl Fault, s)
      else (Inr (), s\<lparr>j_buf := put (j_ofs s) p (j_buf s), j_ofs := j_ofs s + length p\<rparr>))"

definition prep_eraseblock :: "abi \<Rightarrow> geometry \<Rightarrow> 'd jffs2 \<Rightarrow> (stop + unit) \<times> 'd jffs2" where
  "prep_eraseblock A g s = (if j_ofs s > 0 then (Inr (), s) else copy_in g (CLEANMARKER A) s)"

definition add_data :: "abi \<Rightarrow> 'd mtd_ops \<Rightarrow> geometry \<Rightarrow> bytes \<Rightarrow> 'd jffs2 \<Rightarrow> (stop + unit) \<times> 'd jffs2" where
  "add_data A ops g p s =
     (if j_ofs s + length p > g_erase g
      then and_then (pad ops g (g_erase g) s) (\<lambda>_ s1. and_then (prep_eraseblock A g s1) (\<lambda>_ s2. copy_in g p s2))
      else copy_in g p s)"

section \<open>Directory entries and files\<close>

text \<open>The room left is \<open>ofs - erasesize\<close> in the code, compared as a \<open>size_t\<close>. The entry is written into the buffer, and then its name; the
  inode number is incremented before and after it is stored.\<close>

definition new_dirent :: "abi \<Rightarrow> bytes \<Rightarrow> byte \<Rightarrow> u32 \<Rightarrow> u32 \<Rightarrow> u32 \<Rightarrow> jffs2_raw_dirent" where
  "new_dirent A name type parent ino version =
     (let de = dirent_zero\<lparr>magic := JFFS2_MAGIC_BITMASK, nodetype := JFFS2_NODETYPE_DIRENT, de_type := type,
                 de_name_crc := mtd_crc32 0 name, de_ino := ino, de_pino := parent, totlen := of_nat (40 + length name)\<rparr>;
          de1 = de\<lparr>hdr_crc := mtd_crc32 0 (take 8 (dirent_enc A de))\<rparr>;
          de2 = de1\<lparr>de_version := version, de_mctime := 0, de_nsize := of_nat (length name)\<rparr>
      in de2\<lparr>de_node_crc := mtd_crc32 0 (take 32 (dirent_enc A de2))\<rparr>)"

definition add_dirent :: "abi \<Rightarrow> 'd mtd_ops \<Rightarrow> geometry \<Rightarrow> bytes \<Rightarrow> byte \<Rightarrow> u32 \<Rightarrow> 'd jffs2 \<Rightarrow> (stop + u32) \<times> 'd jffs2" where
  "add_dirent A ops g name type parent s =
     and_then (if size_sub A (j_ofs s) (g_erase g) < size_add A 40 (length name) then pad ops g (g_erase g) s else (Inr (), s))
       (\<lambda>_ s1. and_then (prep_eraseblock A g s1)
       (\<lambda>_ s2. let ino = last_ino s2 + 1; de = new_dirent A name type parent ino (last_version s2);
                    s3 = s2\<lparr>last_ino := ino + 1, last_version := last_version s2 + 1\<rparr>
                in if j_ofs s3 + 40 + length name > g_erase g then (Inl Fault, s3)
                   else let s4 = s3\<lparr>j_buf := put (j_ofs s3) (dirent_enc A de @ name) (j_buf s3), j_ofs := j_ofs s3 + 40 + unat (de_nsize de)\<rparr>
                        in and_then (pad ops g 4 s4) (\<lambda>_ s5. (Inr ino, s5))))"

definition S_IFDIR :: u32 where "S_IFDIR = 0x4000"
definition DT_DIR :: byte where "DT_DIR = 4"
definition DT_REG :: byte where "DT_REG = 8"

definition add_dir :: "abi \<Rightarrow> 'd mtd_ops \<Rightarrow> geometry \<Rightarrow> bytes \<Rightarrow> u32 \<Rightarrow> 'd jffs2 \<Rightarrow> (stop + u32) \<times> 'd jffs2" where
  "add_dir A ops g name parent s =
     and_then (add_dirent A ops g name DT_DIR parent s)
       (\<lambda>inode s1. and_then (if rbytes g s1 < 68 then pad ops g (g_erase g) s1 else (Inr (), s1))
       (\<lambda>_ s2. and_then (prep_eraseblock A g s2)
       (\<lambda>_ s3. let ri = inode_zero\<lparr>magic := JFFS2_MAGIC_BITMASK, nodetype := JFFS2_NODETYPE_INODE, totlen := 68\<rparr>;
                    ri1 = ri\<lparr>hdr_crc := mtd_crc32 0 (take 8 (inode_enc A ri)), ri_ino := inode, ri_mode := S_IFDIR OR 0x1ed, ri_version := 1\<rparr>;
                    ri2 = ri1\<lparr>ri_node_crc := mtd_crc32 0 (take 60 (inode_enc A ri1)), ri_data_crc := 0\<rparr>
                in and_then (add_data A ops g (inode_enc A ri2) s3) (\<lambda>_ s4. and_then (pad ops g 4 s4) (\<lambda>_ s5. (Inr inode, s5))))))"

text \<open>What \<open>stat\<close> gives of a file.\<close>

record jstat =
  st_mode :: u32
  st_atime :: u32
  st_mtime :: u32
  st_ctime :: u32
  st_size :: u32

definition base_name :: "bytes \<Rightarrow> bytes" where
  "base_name name = rev (takeWhile (\<lambda>c. c \<noteq> 0x2f) (rev name))"

definition file_inode :: "jstat \<Rightarrow> u32 \<Rightarrow> jffs2_raw_inode" where
  "file_inode st inode = inode_zero\<lparr>magic := JFFS2_MAGIC_BITMASK, nodetype := JFFS2_NODETYPE_INODE, ri_ino := inode, ri_mode := st_mode st,
     ri_atime := st_atime st, ri_ctime := st_ctime st, ri_mtime := st_mtime st, ri_isize := st_size st\<rparr>"

text \<open>The loop that starts new blocks until a node with more than 128 bytes of data fits.\<close>

fun make_room :: "abi \<Rightarrow> 'd mtd_ops \<Rightarrow> geometry \<Rightarrow> nat \<Rightarrow> 'd jffs2 \<Rightarrow> (stop + nat) \<times> 'd jffs2" where
  "make_room A ops g 0 s = (Inl Fuel, s)"
| "make_room A ops g (Suc fuel) s =
     (let len = int (rbytes g s) - 68
      in if len > 128 then (Inr (nat len), s)
         else and_then (pad ops g (g_erase g) s) (\<lambda>_ s1. and_then (prep_eraseblock A g s1) (\<lambda>_ s2. make_room A ops g fuel s2)))"

lemma make_room_len: "make_room A ops g fuel s = (Inr len, s') \<Longrightarrow> 128 < len"
proof (induction A ops g fuel s rule: make_room.induct)
  case (2 A ops g fuel s)
  then show ?case by (auto simp: and_then_def Let_def split: if_splits prod.splits sum.splits)
qed simp

definition data_inode :: "abi \<Rightarrow> jffs2_raw_inode \<Rightarrow> u32 \<Rightarrow> u32 \<Rightarrow> bytes \<Rightarrow> jffs2_raw_inode" where
  "data_inode A ri version f_offset c =
     (let ri1 = ri\<lparr>totlen := of_nat (68 + length c)\<rparr>;
          ri2 = ri1\<lparr>hdr_crc := mtd_crc32 0 (take 8 (inode_enc A ri1)), ri_version := version, ri_offset := f_offset, ri_csize := of_nat (length c),
                ri_dsize := of_nat (length c)\<rparr>
      in ri2\<lparr>ri_node_crc := mtd_crc32 0 (take 60 (inode_enc A ri2)), ri_data_crc := mtd_crc32 0 c\<rparr>)"

definition write_node :: "abi \<Rightarrow> 'd mtd_ops \<Rightarrow> geometry \<Rightarrow> jffs2_raw_inode \<Rightarrow> bytes \<Rightarrow> 'd jffs2 \<Rightarrow> (stop + unit) \<times> 'd jffs2" where
  "write_node A ops g ri c s =
     and_then (add_data A ops g (inode_enc A ri) s) (\<lambda>_ s1. and_then (add_data A ops g c s1)
       (\<lambda>_ s2. and_then (pad ops g 4 s2) (\<lambda>_ s3. prep_eraseblock A g s3)))"

text \<open>The loop over the file: it ends where \<open>read\<close> gives nothing, with an error too.\<close>

function add_file_loop :: "abi \<Rightarrow> 'd mtd_ops \<Rightarrow> geometry \<Rightarrow> nat \<Rightarrow> jffs2_raw_inode \<Rightarrow> u32 \<Rightarrow> rd list \<Rightarrow> 'd jffs2
    \<Rightarrow> (stop + unit) \<times> 'd jffs2" where
  "add_file_loop A ops g fuel ri f_offset evs s =
     (case make_room A ops g fuel s of
        (Inl st, s1) \<Rightarrow> (Inl st, s1)
      | (Inr len, s1) \<Rightarrow>
          (case fd_read (min len 4096) evs of
             (Chunk c, evs') \<Rightarrow>
               if c = [] then (Inr (), s1)
               else let ri' = data_inode A ri (last_version s1 + 1) f_offset c
                    in (case write_node A ops g ri' c (s1\<lparr>last_version := last_version s1 + 1\<rparr>) of
                          (Inl st, s2) \<Rightarrow> (Inl st, s2)
                        | (Inr _, s2) \<Rightarrow> add_file_loop A ops g fuel ri' (f_offset + of_nat (length c)) evs' s2)
           | (_, evs') \<Rightarrow> (Inr (), s1)))"
  by pat_completeness auto
termination
  by (relation "measure (\<lambda>(A, ops, g, fuel, ri, f_offset, evs, s). rd_size evs)") (auto dest!: make_room_len [OF sym] fd_read_less [OF sym])

declare add_file_loop.simps [simp del]

definition add_file :: "abi \<Rightarrow> 'd mtd_ops \<Rightarrow> geometry \<Rightarrow> nat \<Rightarrow> (bytes \<Rightarrow> (jstat \<times> rd list option) option) \<Rightarrow> bytes \<Rightarrow> u32 \<Rightarrow> 'd jffs2
    \<Rightarrow> (stop + unit) \<times> 'd jffs2" where
  "add_file A ops g fuel files name parent s =
     (case files name of
        None \<Rightarrow> (Inr (), s)
      | Some (st, file) \<Rightarrow>
          and_then (add_dirent A ops g (base_name name) DT_REG parent s)
            (\<lambda>inode s1. case file of
                None \<Rightarrow> (Inr (), s1)
              | Some evs \<Rightarrow> add_file_loop A ops g fuel (file_inode st inode) 0 evs s1))"

text \<open>The end of \<open>mtd_write_jffs2\<close> and of \<open>mtd_replace_jffs2\<close>: the last block, and a block with the end marker.\<close>

definition finish_fs :: "abi \<Rightarrow> 'd mtd_ops \<Rightarrow> geometry \<Rightarrow> 'd jffs2 \<Rightarrow> (stop + unit) \<times> 'd jffs2" where
  "finish_fs A ops g s =
     and_then (pad ops g (g_erase g) s) (\<lambda>_ s1. and_then (add_data A ops g JFFS2_EOF s1) (\<lambda>_ s2. pad ops g (g_erase g) s2))"

text \<open>\<open>mtd_replace_jffs2\<close>, called with the device and its position, and \<open>mem\<close> the block \<open>malloc\<close> gives.\<close>

definition mtd_replace_jffs2 :: "abi \<Rightarrow> 'd mtd_ops \<Rightarrow> geometry \<Rightarrow> nat \<Rightarrow> (bytes \<Rightarrow> (jstat \<times> rd list option) option) \<Rightarrow> bytes \<Rightarrow> nat \<Rightarrow> bytes
    \<Rightarrow> 'd jffs2 \<Rightarrow> (stop + nat) \<times> 'd jffs2" where
  "mtd_replace_jffs2 A ops g fuel files mem start filename s =
     (let s1 = s\<lparr>j_mtdofs := start, j_buf := mem, target_ino := 1, last_ino := (if last_ino s = 0 then 1 else last_ino s)\<rparr>
      in and_then (add_file A ops g fuel files filename (target_ino s1) s1)
           (\<lambda>_ s2. and_then (finish_fs A ops g s2) (\<lambda>_ s3. (Inr (j_mtdofs s3 - start), s3))))"

section \<open>Finding the end of the file system\<close>

text \<open>\<open>strncmp(a, b, n) == 0\<close>, where \<open>b\<close> is a string and \<open>a\<close> what is left of a buffer: \<open>None\<close> behind its end.\<close>

fun strncmp_eq :: "nat \<Rightarrow> bytes \<Rightarrow> bytes \<Rightarrow> bool option" where
  "strncmp_eq n [] b = (if n = 0 then Some True else None)"
| "strncmp_eq n (x # a) b =
     (if n = 0 then Some True
      else case b of
          [] \<Rightarrow> Some (x = 0)
        | y # b' \<Rightarrow> if x \<noteq> y then Some False else if x = 0 then Some True else strncmp_eq (n - 1) a b')"

text \<open>A field of the node at \<open>ofs\<close>, which has to be inside the block.\<close>

definition fld16 :: "abi \<Rightarrow> bytes \<Rightarrow> nat \<Rightarrow> u16 option" where
  "fld16 A b p = (if p + 2 \<le> length b then Some (native16_dec A (slice p 2 b)) else None)"

definition fld32 :: "abi \<Rightarrow> bytes \<Rightarrow> nat \<Rightarrow> u32 option" where
  "fld32 A b p = (if p + 4 \<le> length b then Some (native32_dec A (slice p 4 b)) else None)"

definition fld8 :: "bytes \<Rightarrow> nat \<Rightarrow> byte option" where
  "fld8 b p = (if p < length b then Some (b ! p) else None)"

text \<open>The numbers the parser keeps: \<open>target_ino\<close>, \<open>last_ino\<close> and \<open>last_version\<close>.\<close>

type_synonym numbers = "u32 \<times> u32 \<times> u32"

definition is_target :: "abi \<Rightarrow> bytes \<Rightarrow> bytes \<Rightarrow> nat \<Rightarrow> bool option" where
  "is_target A dir b p =
     (if dir = [] then Some False
      else Option.bind (fld32 A b (p + 12))
        (\<lambda>pino. if pino \<noteq> 1 then Some False else Option.bind (fld8 b (p + 28)) (\<lambda>nsize. strncmp_eq (unat nsize) (drop (p + 40) b) dir)))"

definition parse_dirent :: "abi \<Rightarrow> bytes \<Rightarrow> bytes \<Rightarrow> nat \<Rightarrow> numbers \<Rightarrow> numbers option" where
  "parse_dirent A dir b p st =
     (case st of (target, ino0, version0) \<Rightarrow>
        Option.bind (is_target A dir b p)
          (\<lambda>is. Option.bind (fld32 A b (p + 20))
          (\<lambda>ino. Option.bind (fld32 A b (p + 16))
          (\<lambda>version. Some (if is then ino else target, max ino0 ino, max version0 version)))))"

fun parse_loop :: "abi \<Rightarrow> bytes \<Rightarrow> bytes \<Rightarrow> nat \<Rightarrow> u32 \<Rightarrow> numbers \<Rightarrow> stop + numbers" where
  "parse_loop A dir b 0 ofs st = Inl Fuel"
| "parse_loop A dir b (Suc fuel) ofs st =
     (if unat ofs < length b
      then (case fld16 A b (unat ofs) of
              None \<Rightarrow> Inl Fault
            | Some m \<Rightarrow>
                if m \<noteq> 0x1985 then Inr st
                else (case (fld32 A b (unat ofs + 4), fld16 A b (unat ofs + 2)) of
                        (Some len, Some t) \<Rightarrow>
                          (case (if t = JFFS2_NODETYPE_DIRENT then parse_dirent A dir b (unat ofs) st else Some st) of
                             None \<Rightarrow> Inl Fault
                           | Some st' \<Rightarrow> parse_loop A dir b fuel (ofs + PAD len) st')
                      | _ \<Rightarrow> Inl Fault))
      else Inr st)"

definition mtd_parse_jffs2data :: "abi \<Rightarrow> nat \<Rightarrow> bytes \<Rightarrow> bytes \<Rightarrow> numbers \<Rightarrow> stop + numbers" where
  "mtd_parse_jffs2data A fuel b dir st = parse_loop A dir b fuel 0 st"

text \<open>The loop that reads the blocks of the file system, and why it ends.\<close>

datatype fs_end = Fs_end | No_room | Wrong_endian

fun find_fs_end :: "abi \<Rightarrow> 'd mtd_ops \<Rightarrow> geometry \<Rightarrow> nat \<Rightarrow> nat \<Rightarrow> bytes \<Rightarrow> 'd jffs2 \<Rightarrow> (stop + fs_end) \<times> 'd jffs2" where
  "find_fs_end A ops g pfuel 0 dir s = (Inl Fuel, s)"
| "find_fs_end A ops g pfuel (Suc fuel) dir s =
     (case op_pread ops (j_dev s) (j_pos s) (g_erase g) of
        None \<Rightarrow> (Inr No_room, s)
      | Some b \<Rightarrow>
          if length b \<noteq> g_erase g then (Inr No_room, s\<lparr>j_pos := j_pos s + length b\<rparr>)
          else let s1 = s\<lparr>j_buf := b, j_pos := j_pos s + g_erase g, j_mtdofs := j_mtdofs s + g_erase g\<rparr>
               in (case fld16 A b 0 of
                     None \<Rightarrow> (Inl Fault, s1)
                   | Some m \<Rightarrow>
                       if m = KSAMTIB_CIGAM_2SFFJ then (Inr Wrong_endian, s1)
                       else if m \<noteq> JFFS2_MAGIC_BITMASK then (Inr Fs_end, s1)
                       else (case mtd_parse_jffs2data A pfuel b dir (target_ino s1, last_ino s1, last_version s1) of
                               Inl st \<Rightarrow> (Inl st, s1)
                             | Inr (t, i, v) \<Rightarrow>
                                 find_fs_end A ops g pfuel fuel dir (s1\<lparr>target_ino := t, last_ino := i, last_version := v\<rparr>))))"

section \<open>The checksum of a trx image\<close>

text \<open>\<open>trx_fixup\<close> maps the block device of the partition: \<open>map_dev\<close> is what the mapping shows, \<open>None\<close> where \<open>mmap\<close> fails, and \<open>sync_dev\<close> the
  device after the mapping was changed. The length given to \<open>crc32buf\<close> is a \<open>size_t\<close> that becomes an \<open>int\<close>, the number of bytes of the loop.\<close>

definition crc_count :: "abi \<Rightarrow> nat \<Rightarrow> nat" where
  "crc_count A len = nat (sint (word_of_nat len :: u32))"

definition trx_fixup :: "abi \<Rightarrow> 'd mtd_ops \<Rightarrow> ('d \<Rightarrow> bytes option) \<Rightarrow> ('d \<Rightarrow> bytes \<Rightarrow> 'd) \<Rightarrow> 'd \<Rightarrow> (stop + int) \<times> 'd" where
  "trx_fixup A ops map_dev sync_dev d =
     (case op_info ops d of
        None \<Rightarrow> (Inr (-1), d)
      | Some (sz, _, _) \<Rightarrow>
          if sz = 0 then (Inr (-1), d)
          else (case map_dev d of
                  None \<Rightarrow> (Inr (-1), d)
                | Some m \<Rightarrow>
                    if length m < 12 then (Inl Fault, d)
                    else if native32_dec A (slice 0 4 m) \<noteq> MTD_TRX_MAGIC then (Inr (-1), d)
                    else let n = crc_count A (size_sub A (unat (native32_dec A (slice 4 4 m))) 12)
                         in if 12 + n > length m then (Inl Fault, d)
                            else (Inr 0, sync_dev d (put 8 (native32_enc A (crc32buf (slice 12 n m))) m))))"

section \<open>The command\<close>

text \<open>\<open>mtd_write_jffs2\<close>, with the static variables as they are when the program starts. \<open>fixup\<close> is the weak symbol \<open>trx_fixup\<close>, \<open>None\<close> where it is
  not linked; its result is ignored.\<close>

definition jffs2_start :: "'d \<Rightarrow> bytes \<Rightarrow> 'd jffs2" where
  "jffs2_start d mem = \<lparr>j_dev = d, j_pos = 0, j_buf = mem, j_ofs = 0, j_mtdofs = 0, last_ino = 0, last_version = 0, target_ino = 0\<rparr>"

definition append_file :: "abi \<Rightarrow> 'd mtd_ops \<Rightarrow> geometry \<Rightarrow> nat \<Rightarrow> (bytes \<Rightarrow> (jstat \<times> rd list option) option) \<Rightarrow> bytes \<Rightarrow> bytes \<Rightarrow> 'd jffs2
    \<Rightarrow> (stop + unit) \<times> 'd jffs2" where
  "append_file A ops g fuel files filename dir s =
     (let s1 = s\<lparr>last_ino := (if last_ino s = 0 then 1 else last_ino s)\<rparr>
      in and_then (if target_ino s1 = 0 then add_dir A ops g dir 1 s1 else (Inr (target_ino s1), s1))
           (\<lambda>t s2. and_then (add_file A ops g fuel files filename t (s2\<lparr>target_ino := t\<rparr>)) (\<lambda>_ s3. finish_fs A ops g s3)))"

definition after_fixup :: "('d \<Rightarrow> (stop + int) \<times> 'd) option \<Rightarrow> 'd \<Rightarrow> (stop + int) \<times> 'd" where
  "after_fixup fixup d = (case fixup of None \<Rightarrow> (Inr 0, d) | Some f \<Rightarrow> and_then (f d) (\<lambda>_ d'. (Inr 0, d')))"

definition mtd_write_jffs2 :: "abi \<Rightarrow> 'd mtd_ops \<Rightarrow> nat \<Rightarrow> ('d \<Rightarrow> (stop + int) \<times> 'd) option \<Rightarrow> (nat \<Rightarrow> bytes)
    \<Rightarrow> (bytes \<Rightarrow> (jstat \<times> rd list option) option) \<Rightarrow> bytes \<Rightarrow> bytes \<Rightarrow> bytes \<Rightarrow> 'd mtd \<Rightarrow> (stop + int) \<times> 'd mtd" where
  "mtd_write_jffs2 A ops fuel fixup mem files name filename dir s =
     (case mtd_check_open ops name s of
        (None, s1) \<Rightarrow> (Inr (-1), s1)
      | (Some d, s1) \<Rightarrow>
          let g = \<lparr>g_size = mtdsize s1, g_erase = erasesize s1, g_nand = mtd_nand s1\<rparr>;
              j0 = (jffs2_start d (mem (g_erase g)))\<lparr>target_ino := (if dir = [] then 1 else 0)\<rparr>;
              (r, j) = and_then (find_fs_end A ops g fuel fuel dir j0)
                 (\<lambda>e j1. if e \<noteq> Fs_end then (Inr (-1), j1)
                          else let j2 = j1\<lparr>j_mtdofs := j_mtdofs j1 - g_erase g, j_pos := j_mtdofs j1 - g_erase g, j_ofs := 0\<rparr>
                               in and_then (append_file A ops g fuel files filename dir j2)
                                    (\<lambda>_ j3. let (r, d') = after_fixup fixup (j_dev j3) in (r, j3\<lparr>j_dev := d'\<rparr>)))
          in (r, s1\<lparr>devs := (devs s1)(name \<mapsto> j_dev j)\<rparr>))"

text \<open>\<open>main\<close> for \<open>jffs2write\<close>: the devices are checked, those to erase are erased, and the device is unlocked.\<close>

definition main_jffs2write :: "abi \<Rightarrow> 'd mtd_ops \<Rightarrow> nat \<Rightarrow> ('d \<Rightarrow> (stop + int) \<times> 'd) option \<Rightarrow> (nat \<Rightarrow> bytes)
    \<Rightarrow> (bytes \<Rightarrow> (jstat \<times> rd list option) option) \<Rightarrow> mtd_opts \<Rightarrow> bytes \<Rightarrow> bytes \<Rightarrow> 'd mtd \<Rightarrow> (stop + bytes) \<times> 'd mtd" where
  "main_jffs2write A ops fuel fixup mem files opts file device s =
     (let (ok, s1) = mtd_check ops (split_colon device) s
      in if \<not> ok then (Inl (Exit 1), s1)
         else and_then (erase_args ops (o_erase opts) s1)
           (\<lambda>_ s2. and_then (unlock_first ops opts device s2)
           (\<lambda>_ s3. and_then (mtd_write_jffs2 A ops fuel fixup mem files device file (o_jffs2dir opts) s3) finished)))"

end
