(* ===== verification/Jffs2Log.thy ===== *)
theory Jffs2Log
  imports Jffs2
begin

text \<open>
  What \<open>jffs2write\<close> leaves in flash. The reader it is compared with is \<open>scan\<close>, which splits an erase block into its nodes with the checksums
  of their headers checked, and \<open>dir_lookup\<close> and \<open>inode_data\<close> on the nodes, which check the other ones. \<open>log\<close> is the writer without the
  device: the nodes of the blocks that are finished, and those of the current one. The functions of \<^verbatim>\<open>jffs2.c\<close> are shown to follow the log, block by
  block, on every device that behaves as \<open>chip\<close> states (locale \<open>jffs2_flash\<close>).
\<close>

section \<open>Reading a file system\<close>

text \<open>The nodes of an erase block, up to the first one that is damaged or missing.\<close>

definition node_len :: "abi \<Rightarrow> bytes \<Rightarrow> nat" where
  "node_len A b = unat (native32_dec A (slice 4 4 b))"

definition node_ok :: "abi \<Rightarrow> bytes \<Rightarrow> bool" where
  "node_ok A b \<longleftrightarrow> native16_dec A (slice 0 2 b) = 0x1985 \<and> native32_dec A (slice 8 4 b) = mtd_crc32 0 (take 8 b) \<and>
     12 \<le> node_len A b \<and> node_len A b \<le> length b"

definition align4 :: "nat \<Rightarrow> nat" where
  "align4 n = n + (4 - n mod 4) mod 4"

function scan :: "abi \<Rightarrow> bytes \<Rightarrow> bytes list" where
  "scan A b = (if node_ok A b then take (node_len A b) b # scan A (drop (align4 (node_len A b)) b) else [])"
  by pat_completeness auto
termination by (relation "measure (\<lambda>(A, b). length b)") (auto simp: node_ok_def align4_def)

declare scan.simps [simp del]

text \<open>Directory entries and inodes whose checksums hold; the data of an inode is not compressed.\<close>

definition node_type :: "abi \<Rightarrow> bytes \<Rightarrow> u16" where
  "node_type A nd = native16_dec A (slice 2 2 nd)"

definition dirent_ok :: "abi \<Rightarrow> bytes \<Rightarrow> bool" where
  "dirent_ok A nd \<longleftrightarrow> 40 \<le> length nd \<and> node_type A nd = JFFS2_NODETYPE_DIRENT \<and> native32_dec A (slice 32 4 nd) = mtd_crc32 0 (take 32 nd) \<and>
     native32_dec A (slice 36 4 nd) = mtd_crc32 0 (drop 40 nd) \<and> unat (nd ! 28) = length nd - 40"

definition inode_ok :: "abi \<Rightarrow> bytes \<Rightarrow> bool" where
  "inode_ok A nd \<longleftrightarrow> 68 \<le> length nd \<and> node_type A nd = JFFS2_NODETYPE_INODE \<and> native32_dec A (slice 64 4 nd) = mtd_crc32 0 (take 60 nd) \<and>
     native32_dec A (slice 60 4 nd) = mtd_crc32 0 (drop 68 nd) \<and> nd ! 56 = 0 \<and> unat (native32_dec A (slice 52 4 nd)) = length nd - 68"

text \<open>The inode of a name in a directory, by the latest entry; the data of an inode, each node written at its offset. The nodes are in the
  order of their versions.\<close>

definition dir_step :: "abi \<Rightarrow> u32 \<Rightarrow> bytes \<Rightarrow> bytes \<Rightarrow> u32 option \<Rightarrow> u32 option" where
  "dir_step A pino name nd r =
     (if dirent_ok A nd \<and> native32_dec A (slice 12 4 nd) = pino \<and> drop 40 nd = name then Some (native32_dec A (slice 20 4 nd)) else r)"

definition dir_lookup :: "abi \<Rightarrow> u32 \<Rightarrow> bytes \<Rightarrow> bytes list \<Rightarrow> u32 option" where
  "dir_lookup A pino name nodes = fold (dir_step A pino name) nodes None"

definition inode_step :: "abi \<Rightarrow> u32 \<Rightarrow> bytes \<Rightarrow> bytes \<Rightarrow> bytes" where
  "inode_step A ino nd c =
     (if inode_ok A nd \<and> native32_dec A (slice 12 4 nd) = ino
      then (let off = unat (native32_dec A (slice 44 4 nd)) in put off (drop 68 nd) (c @ replicate (off - length c) 0)) else c)"

definition inode_data :: "abi \<Rightarrow> u32 \<Rightarrow> bytes list \<Rightarrow> bytes" where
  "inode_data A ino nodes = fold (inode_step A ino) nodes []"

section \<open>The log\<close>

text \<open>The nodes of the finished blocks and of the current one. A block is its nodes, each padded to four bytes, and ones up to its end.\<close>

type_synonym log = "bytes list list \<times> bytes list"

definition pad4 :: "bytes \<Rightarrow> bytes" where
  "pad4 nd = nd @ replicate (align4 (length nd) - length nd) 0xff"

definition render :: "bytes list \<Rightarrow> bytes" where
  "render ns = concat (map pad4 ns)"

definition fs_block :: "nat \<Rightarrow> bytes list \<Rightarrow> bytes" where
  "fs_block eb ns = pad_block eb (render ns)"

definition log_flush :: "log \<Rightarrow> log" where
  "log_flush lg = (if snd lg = [] then lg else (fst lg @ [snd lg], []))"

definition log_prep :: "abi \<Rightarrow> log \<Rightarrow> log" where
  "log_prep A lg = (if snd lg = [] then (fst lg, [CLEANMARKER A]) else lg)"

definition log_node :: "nat \<Rightarrow> bytes \<Rightarrow> log \<Rightarrow> log" where
  "log_node eb nd lg = (let ns = snd lg @ [nd] in if length (render ns) = eb then (fst lg @ [ns], []) else (fst lg, ns))"

definition log_left :: "nat \<Rightarrow> log \<Rightarrow> nat" where
  "log_left eb lg = eb - length (render (snd lg))"

definition log_room :: "abi \<Rightarrow> nat \<Rightarrow> log \<Rightarrow> log" where
  "log_room A eb lg = (if log_left eb lg > 196 then lg else log_prep A (log_flush lg))"

function log_file :: "abi \<Rightarrow> nat \<Rightarrow> jffs2_raw_inode \<Rightarrow> u32 \<Rightarrow> u32 \<Rightarrow> rd list \<Rightarrow> log \<Rightarrow> log" where
  "log_file A eb ri f_offset version evs lg =
     (let lg1 = log_room A eb lg; len = log_left eb lg1 - 68
      in case fd_read (min len 4096) evs of
           (Chunk c, evs') \<Rightarrow>
             if c = [] \<or> len = 0 then lg1
             else let ri' = data_inode A ri (version + 1) f_offset c
                  in log_file A eb ri' (f_offset + of_nat (length c)) (version + 1) evs' (log_prep A (log_node eb (inode_enc A ri' @ c) lg1))
         | (_, _) \<Rightarrow> lg1)"
  by pat_completeness auto
termination
  by (relation "measure (\<lambda>(A, eb, ri, f_offset, version, evs, lg). rd_size evs)") (auto dest!: fd_read_less [OF sym])

declare log_file.simps [simp del]

definition dirent_node :: "abi \<Rightarrow> bytes \<Rightarrow> byte \<Rightarrow> u32 \<Rightarrow> u32 \<Rightarrow> u32 \<Rightarrow> bytes" where
  "dirent_node A name type parent ino version = dirent_enc A (new_dirent A name type parent ino version) @ name"

definition dir_node :: "abi \<Rightarrow> u32 \<Rightarrow> bytes" where
  "dir_node A inode =
     (let ri = inode_zero\<lparr>magic := JFFS2_MAGIC_BITMASK, nodetype := JFFS2_NODETYPE_INODE, totlen := 68\<rparr>;
          ri1 = ri\<lparr>hdr_crc := mtd_crc32 0 (take 8 (inode_enc A ri)), ri_ino := inode, ri_mode := S_IFDIR OR 0x1ed, ri_version := 1\<rparr>
      in inode_enc A (ri1\<lparr>ri_node_crc := mtd_crc32 0 (take 60 (inode_enc A ri1))\<rparr>))"

text \<open>The blocks written for a file, by the numbers found in the file system before: with a new directory where there is none.\<close>

definition first_nodes :: "abi \<Rightarrow> bytes \<Rightarrow> bytes \<Rightarrow> numbers \<Rightarrow> (u32 \<times> u32 \<times> u32) \<times> bytes list" where
  "first_nodes A dir fname st =
     (case st of (target, ino, version) \<Rightarrow>
        let i = (if ino = 0 then 1 else ino)
        in if target = 0
           then ((i + 1, i + 3, version + 2),
             [CLEANMARKER A, dirent_node A dir DT_DIR 1 (i + 1) version, dir_node A (i + 1), dirent_node A fname DT_REG (i + 1) (i + 3) (version + 1)])
           else ((target, i + 1, version + 1), [CLEANMARKER A, dirent_node A fname DT_REG target (i + 1) version]))"

definition file_blocks :: "abi \<Rightarrow> nat \<Rightarrow> jstat \<Rightarrow> rd list \<Rightarrow> bytes \<Rightarrow> bytes \<Rightarrow> numbers \<Rightarrow> bytes list list" where
  "file_blocks A eb st evs dir fname nums =
     (case first_nodes A dir fname nums of
        ((parent, ino, version), ns) \<Rightarrow> fst (log_flush (log_file A eb (file_inode st ino) 0 version evs ([], ns))) @ [[JFFS2_EOF]])"

section \<open>Blocks and their nodes\<close>

lemma align4_facts: "n \<le> align4 n" "align4 n < n + 4" "align4 n mod 4 = 0" "n mod 4 = 0 \<Longrightarrow> align4 n = n"
proof -
  define r where "r = n mod 4"
  have r: "r < 4" by (simp add: r_def)
  have al: "align4 n = (if r = 0 then n else n + (4 - r))" by (simp add: align4_def r_def)
  have "(n + (4 - r)) mod 4 = (r + (4 - r)) mod 4" unfolding r_def by (metis mod_add_left_eq)
  then have m: "(n + (4 - r)) mod 4 = 0" using r by simp
  show "n \<le> align4 n" "align4 n < n + 4" using r by (auto simp: al)
  show "n mod 4 = 0 \<Longrightarrow> align4 n = n" by (simp add: al r_def)
  show "align4 n mod 4 = 0" unfolding al using m by (cases "r = 0") (simp_all add: r_def del: mod_eq_0_iff_dvd)
qed

lemma length_pad4 [simp]: "length (pad4 nd) = align4 (length nd)"
  using align4_facts(1) [of "length nd"] by (simp add: pad4_def)

lemma render_simps [simp]: "render [] = []" "render (nd # ns) = pad4 nd @ render ns" "render (ns @ ms) = render ns @ render ms"
  by (simp_all add: render_def)

lemma render_aligned: "length (render ns) mod 4 = 0"
proof (induction ns)
  case (Cons nd ns)
  then show ?case using align4_facts(3) [of "length nd"] by (simp add: mod_add_eq [symmetric, of "align4 (length nd)"])
qed simp

lemma render_Nil: "[] \<notin> set ns \<Longrightarrow> render ns = [] \<longleftrightarrow> ns = []"
  by (cases ns) (auto simp: pad4_def)

lemma fs_block_length: "length (render ns) \<le> eb \<Longrightarrow> length (fs_block eb ns) = eb"
  by (simp add: fs_block_def pad_block_def)

lemma fs_block_full: "length (render ns) = eb \<Longrightarrow> fs_block eb ns = render ns"
  by (simp add: fs_block_def pad_block_def)

lemma cleanmarker_length [simp]: "length (CLEANMARKER B) = 12"
  by (simp add: CLEANMARKER_def)

lemma inode_enc_length [simp]: "length (inode_enc B ri) = 68"
  by (simp add: inode_enc_def hdr_enc_def)

lemma dirent_enc_length [simp]: "length (dirent_enc B de) = 40"
  by (simp add: dirent_enc_def hdr_enc_def)

lemma dirent_node_length [simp]: "length (dirent_node B name type parent ino v) = 40 + length name"
  by (simp add: dirent_node_def)

lemma dir_node_length [simp]: "length (dir_node B ino) = 68"
  by (simp add: dir_node_def Let_def)

lemma align4_68 [simp]: "align4 68 = 68" "align4 12 = 12"
  by (simp_all add: align4_def)

text \<open>A node with what was read for it fits into the current block.\<close>

lemma frag_fits:
  assumes "fd_read (min (log_left eb lg - 68) 4096) evs = (Chunk c, evs')" "68 < log_left eb lg" "eb mod 4 = 0" "length (render (snd lg)) < eb"
  shows "length (render (snd lg)) + align4 (68 + length c) \<le> eb"
proof -
  have clen: "length c \<le> log_left eb lg - 68"
    using assms(1) by (cases "(min (log_left eb lg - 68) 4096, evs)" rule: fd_read.cases) (auto split: if_splits)
  have "align4 (68 + length c) \<le> log_left eb lg"
  proof (rule ccontr)
    assume "\<not> ?thesis"
    then have lt: "log_left eb lg < align4 (68 + length c)" by simp
    have "log_left eb lg mod 4 = 0" using assms(3) render_aligned [of "snd lg"] by (simp add: log_left_def mod_eq_0_iff_dvd)
    then show False using lt clen assms(2) align4_facts(2,3) [of "68 + length c"] by presburger
  qed
  then show ?thesis using assms(4) unfolding log_left_def by linarith
qed

text \<open>The room left, as \<open>add_dirent\<close> computes it, is never too small for an entry.\<close>

lemma size_sub_room:
  assumes "x < y" "y < 2 ^ 31" "32 \<le> ulong_bits A" "m < 256"
  shows "\<not> size_sub A x y < size_add A 40 m"
proof -
  have w: "(2 :: nat) ^ 32 \<le> 2 ^ ulong_bits A" using assms(3) by (rule power_increasing) simp
  have y: "y < 2 ^ ulong_bits A" "y < 2147483648" using w assms(2) by simp_all
  have "x + (2 ^ ulong_bits A - y) < 2 ^ ulong_bits A" using y(1) assms(1) by linarith
  then have "size_sub A x y = x + (2 ^ ulong_bits A - y)" using y(1) by (simp add: size_sub_def)
  moreover have "size_add A 40 m \<le> 40 + m" by (simp add: size_add_def)
  ultimately show ?thesis using w y(2) assms(4) by simp
qed

section \<open>The writer follows the log\<close>

text \<open>\<open>tracks\<close>: the buffer holds the nodes of the current block, and the device what the finished blocks make of it, placed from block \<open>k0\<close>
  on.\<close>

definition statics :: "'d jffs2 \<Rightarrow> numbers" where
  "statics s = (target_ino s, last_ino s, last_version s)"

definition tracks :: "('d \<Rightarrow> bool) \<Rightarrow> ('d \<Rightarrow> bytes) \<Rightarrow> nat \<Rightarrow> nat \<Rightarrow> (nat \<Rightarrow> bool) \<Rightarrow> nat \<Rightarrow> bytes \<Rightarrow> 'd jffs2 \<Rightarrow> log \<Rightarrow> bool" where
  "tracks valid cells n eb bad k0 c0 s lg \<longleftrightarrow> valid (j_dev s) \<and> length (j_buf s) = eb \<and> j_ofs s = length (render (snd lg)) \<and> j_ofs s < eb \<and>
     take (j_ofs s) (j_buf s) = render (snd lg) \<and> [] \<notin> set (snd lg) \<and>
     (\<exists>k. j_mtdofs s = k * eb \<and> j_pos s = k * eb \<and>
        (\<forall>bs. place bad n eb k0 (map (fs_block eb) (fst lg) @ bs) c0 = place bad n eb k bs (cells (j_dev s))))"

definition placeable :: "nat \<Rightarrow> nat \<Rightarrow> (nat \<Rightarrow> bool) \<Rightarrow> nat \<Rightarrow> bytes \<Rightarrow> bytes list list \<Rightarrow> bool" where
  "placeable n eb bad k0 c0 bs \<longleftrightarrow> place bad n eb k0 (map (fs_block eb) bs) c0 \<noteq> None"

definition runs :: "('d jffs2 \<Rightarrow> log \<Rightarrow> bool) \<Rightarrow> (stop + 'a) \<times> 'd jffs2 \<Rightarrow> 'a \<Rightarrow> log \<Rightarrow> numbers \<Rightarrow> bool" where
  "runs T r v lg st \<longleftrightarrow> (\<exists>s. r = (Inr v, s) \<and> T s lg \<and> statics s = st)"

lemma runs_return: "T s lg \<Longrightarrow> statics s = st \<Longrightarrow> runs T (Inr v, s) v lg st"
  by (simp add: runs_def)

lemma runs_then:
  assumes "runs T r v lg st" "\<And>s. T s lg \<Longrightarrow> statics s = st \<Longrightarrow> runs T (k v s) v' lg' st'"
  shows "runs T (and_then r k) v' lg' st'"
  using assms by (auto simp: runs_def and_then_def)

lemma place_prefix_some: "place bad n eb k (bs @ cs) c \<noteq> None \<Longrightarrow> place bad n eb k bs c \<noteq> None"
  by (induction bad n eb k bs c rule: place.induct) (auto split: option.splits)

lemma placeable_prefix: "placeable n eb bad k0 c0 (bs @ cs) \<Longrightarrow> placeable n eb bad k0 c0 bs"
  using place_prefix_some [of bad n eb k0 "map (fs_block eb) bs" "map (fs_block eb) cs" c0] by (simp add: placeable_def)

locale jffs2_flash =
  fixes ops :: "'d mtd_ops" and valid :: "'d \<Rightarrow> bool" and cells :: "'d \<Rightarrow> bytes" and n eb :: nat and nand :: bool and bad :: "nat \<Rightarrow> bool"
    and k0 :: nat and c0 :: bytes and A :: abi and g :: geometry and T :: "'d jffs2 \<Rightarrow> log \<Rightarrow> bool" and R :: "bytes list list \<Rightarrow> bool"
  assumes flash: "chip ops valid cells n eb nand bad" and aligned: "eb mod 4 = 0" and large: "1024 \<le> eb"
    and widths: "eb < 2 ^ 31" "32 \<le> ulong_bits A"
    and g_eq: "g = \<lparr>g_size = n * eb, g_erase = eb, g_nand = nand\<rparr>"
    and T_eq: "T = tracks valid cells n eb bad k0 c0" and R_eq: "R = placeable n eb bad k0 c0"
begin

lemma g_simps [simp]: "g_size g = n * eb" "g_erase g = eb" "g_nand g = nand"
  by (simp_all add: g_eq)

lemma skip_bad_find:
  assumes "List.find (\<lambda>j. \<not> bad j) [k..<n] = Some j" "valid (j_dev s)" "j_mtdofs s = k * eb" "j_pos s = k * eb"
  shows "skip_bad ops g s = (Inr (), s\<lparr>j_mtdofs := j * eb, j_pos := j * eb\<rparr>)"
  using assms
proof (induction "n - k" arbitrary: k s)
  case (Suc x)
  then have k: "k < n" by simp
  then have fnd: "List.find (\<lambda>j. \<not> bad j) (k # [Suc k..<n]) = Some j" using Suc.prems(1) by (simp add: upt_conv_Cons)
  have isbad: "mtd_block_is_bad ops nand (j_dev s) (k * eb) = Inr (bad k)" using chip_bad [OF flash Suc.prems(2)] k by simp
  show ?case
  proof (cases "bad k")
    case True
    let ?s = "s\<lparr>j_mtdofs := k * eb + eb, j_pos := k * eb + eb\<rparr>"
    have "skip_bad ops g ?s = (Inr (), ?s\<lparr>j_mtdofs := j * eb, j_pos := j * eb\<rparr>)"
      by (rule Suc.hyps(1) [of "Suc k"]) (use Suc fnd True in \<open>simp_all add: add.commute\<close>)
    then show ?thesis using True isbad k Suc.prems large by (simp add: skip_bad.simps [of ops g s])
  next
    case False
    then have "j = k" using fnd by simp
    then show ?thesis using False isbad Suc.prems by (simp add: skip_bad.simps [of ops g s])
  qed
qed simp

lemma write_eraseblock_runs:
  assumes "valid (j_dev s)" "j_buf s = fs_block eb ns" "length (render ns) \<le> eb" "j_ofs s = 0" "j_mtdofs s = k * eb" "j_pos s = k * eb"
    "\<And>bs. place bad n eb k0 (map (fs_block eb) dn @ bs) c0 = place bad n eb k bs (cells (j_dev s))" "R (dn @ [ns])"
  shows "runs T (write_eraseblock ops g s) () (dn @ [ns], []) (statics s)"
proof -
  let ?b = "fs_block eb ns"
  have "place bad n eb k [?b] (cells (j_dev s)) \<noteq> None" using assms(8) assms(7) [of "[?b]"] by (simp add: R_eq placeable_def)
  then obtain j where j: "List.find (\<lambda>j. \<not> bad j) [k..<n] = Some j" by (auto split: option.splits)
  then have good: "j < n" "\<not> bad j" by (auto simp: find_Some_iff)
  obtain d1 d2 where d: "mtd_erase_block ops eb (j_dev s) (j * eb) = (True, d1)" "op_pwrite ops d1 (j * eb) ?b = (int eb, d2)" "valid d2"
      "cells d2 = put (j * eb) ?b (cells (j_dev s))"
    using chip_erase_write [OF flash assms(1) good fs_block_length [OF assms(3)]] by metis
  have len: "length ?b = eb" using fs_block_length [OF assms(3)] .
  define s' where "s' = s\<lparr>j_mtdofs := Suc j * eb, j_pos := Suc j * eb, j_dev := d2\<rparr>"
  have run: "write_eraseblock ops g s = (Inr (), s')"
    using d assms(2) skip_bad_find [OF j assms(1,5,6)] by (simp add: write_eraseblock_def and_then_def s'_def add.commute)
  have "place bad n eb k0 (map (fs_block eb) (dn @ [ns]) @ bs) c0 = place bad n eb (Suc j) bs (cells d2)" for bs
    using assms(7) [of "?b # bs"] j d(4) by simp
  moreover have "j_dev s' = d2" "j_buf s' = ?b" "j_ofs s' = 0" "j_mtdofs s' = Suc j * eb" "j_pos s' = Suc j * eb" "statics s' = statics s"
    using assms(2,4) by (simp_all add: s'_def statics_def)
  ultimately have "T s' (dn @ [ns], [])" "statics s' = statics s"
    using d(3) len large unfolding T_eq tracks_def by (auto intro!: exI [of _ "Suc j"])
  then show ?thesis using run by (simp add: runs_def)
qed

lemma pad_erase_runs:
  assumes "T s lg" "R (fst (log_flush lg))"
  shows "runs T (pad ops g eb s) () (log_flush lg) (statics s)"
proof -
  obtain dn ns where lg: "lg = (dn, ns)" by (cases lg)
  have t: "valid (j_dev s)" "length (j_buf s) = eb" "j_ofs s = length (render ns)" "j_ofs s < eb" "take (j_ofs s) (j_buf s) = render ns" "[] \<notin> set ns"
    using assms(1) by (auto simp: T_eq tracks_def lg)
  obtain k where k: "j_mtdofs s = k * eb" "j_pos s = k * eb"
      "\<And>bs. place bad n eb k0 (map (fs_block eb) dn @ bs) c0 = place bad n eb k bs (cells (j_dev s))"
    using assms(1) by (auto simp: T_eq tracks_def lg)
  show ?thesis
  proof (cases "ns = []")
    case True
    then have "pad ops g eb s = (Inr (), s)" using t large by (simp add: pad_def)
    then show ?thesis using assms(1) True by (simp add: runs_return log_flush_def lg)
  next
    case False
    then have o: "0 < j_ofs s" using t(3) render_Nil [OF t(6)] by simp
    let ?s = "s\<lparr>j_buf := fs_block eb ns, j_ofs := 0\<rparr>"
    have "put (j_ofs s) (replicate (eb - j_ofs s) 0xff) (j_buf s) = fs_block eb ns"
      using t(2-5) by (simp add: put_def fs_block_def pad_block_def)
    then have run: "pad ops g eb s = write_eraseblock ops g ?s" using o t(4) large by (simp add: pad_def Let_def)
    have "runs T (write_eraseblock ops g ?s) () (dn @ [ns], []) (statics ?s)"
      by (rule write_eraseblock_runs [where k = k]) (use t k assms(2) False in \<open>simp_all add: log_flush_def lg\<close>)
    then show ?thesis using run False by (simp add: log_flush_def lg statics_def)
  qed
qed

text \<open>A node that was copied to the end of the current block, and the padding after it.\<close>

lemma pad4_runs:
  assumes "T s lg" "nd \<noteq> []" "length (render (snd lg)) + align4 (length nd) \<le> eb" "R (fst (log_node eb nd lg))"
    and s1: "j_dev s1 = j_dev s" "j_pos s1 = j_pos s" "j_mtdofs s1 = j_mtdofs s" "j_buf s1 = put (j_ofs s) nd (j_buf s)" "j_ofs s1 = j_ofs s + length nd"
  shows "runs T (pad ops g 4 s1) () (log_node eb nd lg) (statics s1)"
proof -
  obtain dn ns where lg: "lg = (dn, ns)" by (cases lg)
  let ?ns = "ns @ [nd]"
  let ?L = "length (render ?ns)"
  have t: "valid (j_dev s)" "length (j_buf s) = eb" "j_ofs s = length (render ns)" "j_ofs s < eb" "take (j_ofs s) (j_buf s) = render ns" "[] \<notin> set ns"
    using assms(1) by (auto simp: T_eq tracks_def lg)
  obtain k where k: "j_mtdofs s = k * eb" "j_pos s = k * eb"
      "\<And>bs. place bad n eb k0 (map (fs_block eb) dn @ bs) c0 = place bad n eb k bs (cells (j_dev s))"
    using assms(1) by (auto simp: T_eq tracks_def lg)
  have L: "?L \<le> eb" "?L mod 4 = 0" "j_ofs s1 \<le> ?L" using assms(3) t(3) align4_facts(1) [of "length nd"] render_aligned [of ?ns] by (simp_all add: lg s1)
  have gap: "replicate (?L - j_ofs s1) 0xff = replicate (align4 (length nd) - length nd) (0xff :: byte)" by (simp add: s1 t(3))
  define b where "b = put (j_ofs s1) (replicate (?L - j_ofs s1) 0xff) (j_buf s1)"
  have bt: "take ?L b = render ?ns" "length b = eb"
    using t L align4_facts(1) [of "length nd"] by (simp_all add: b_def gap s1 put_def pad4_def lg min_def)
  define s2 where "s2 = s1\<lparr>j_buf := b, j_ofs := ?L mod eb\<rparr>"
  have mod4: "j_ofs s1 mod 4 = length nd mod 4" using render_aligned [of ns] by (simp add: s1 t(3) mod_add_left_eq [symmetric, of "length (render ns)"])
  have run: "pad ops g 4 s1 = (if ?L = eb then write_eraseblock ops g s2 else (Inr (), s2))"
  proof (cases "j_ofs s1 mod 4 = 0")
    case True
    then have "?L = j_ofs s1" using mod4 align4_facts(4) [of "length nd"] by (simp add: s1 t(3))
    moreover have "b = j_buf s1" using calculation by (simp add: b_def)
    ultimately have "s2 = s1\<lparr>j_ofs := j_ofs s1 mod eb\<rparr>" by (simp add: s2_def)
    then show ?thesis using True \<open>?L = j_ofs s1\<close> L(1) large by (auto simp: pad_def Let_def)
  next
    case False
    have "4 - j_ofs s1 mod 4 = ?L - j_ofs s1"
    proof -
      have "align4 (length nd) - length nd = (4 - length nd mod 4) mod 4" by (simp add: align4_def)
      then show ?thesis using False mod4 by (simp add: s1 t(3))
    qed
    moreover have "j_ofs s1 \<noteq> ?L" using False L(2) by auto
    ultimately show ?thesis using False L large by (auto simp: pad_def Let_def s2_def b_def)
  qed
  show ?thesis
  proof (cases "?L = eb")
    case True
    have "runs T (write_eraseblock ops g s2) () (dn @ [?ns], []) (statics s2)"
      by (rule write_eraseblock_runs [where k = k])
        (use t k s1 True assms(4) bt in \<open>simp_all add: s2_def fs_block_full log_node_def lg\<close>)
    then show ?thesis using run True by (simp add: log_node_def lg s2_def statics_def)
  next
    case False
    then have "T s2 (dn, ?ns)" using t k s1 bt L(1) assms(2) unfolding T_eq tracks_def s2_def by auto
    then show ?thesis using run False by (simp add: log_node_def lg s2_def statics_def runs_return)
  qed
qed

lemma T_facts: "T s lg \<Longrightarrow> length (j_buf s) = eb \<and> j_ofs s = length (render (snd lg)) \<and> j_ofs s < eb"
  by (simp add: T_eq tracks_def)

lemma copy_in_runs:
  assumes "T s lg" "nd \<noteq> []" "length nd mod 4 = 0" "length (render (snd lg)) + length nd < eb"
  shows "runs T (copy_in g nd s) () (fst lg, snd lg @ [nd]) (statics s)"
proof -
  let ?s = "s\<lparr>j_buf := put (j_ofs s) nd (j_buf s), j_ofs := j_ofs s + length nd\<rparr>"
  have "pad4 nd = nd" using align4_facts(4) [OF assms(3)] by (simp add: pad4_def)
  then have "T ?s (fst lg, snd lg @ [nd])"
    using assms unfolding T_eq tracks_def by (auto simp: put_def align4_facts(4) [OF assms(3)] min_def)
  then show ?thesis using assms(4) T_facts [OF assms(1)] by (simp add: copy_in_def runs_return statics_def)
qed

lemma prep_runs: "T s lg \<Longrightarrow> runs T (prep_eraseblock A g s) () (log_prep A lg) (statics s)"
proof (cases "snd lg = []")
  case True
  assume t: "T s lg"
  have "runs T (copy_in g (CLEANMARKER A) s) () (fst lg, snd lg @ [CLEANMARKER A]) (statics s)"
    by (rule copy_in_runs [OF t]) (use True large cleanmarker_length [of A] in \<open>auto simp del: cleanmarker_length\<close>)
  then show ?thesis using True T_facts [OF t] by (simp add: prep_eraseblock_def log_prep_def)
next
  case False
  assume t: "T s lg"
  then have "0 < j_ofs s" using False render_Nil [of "snd lg"] by (auto simp: T_eq tracks_def)
  then show ?thesis using False t by (simp add: prep_eraseblock_def log_prep_def runs_return)
qed

lemma add_data_fits: "T s lg \<Longrightarrow> j_ofs s' + length p \<le> eb \<Longrightarrow>
    add_data A ops g p s' = (Inr (), s'\<lparr>j_buf := put (j_ofs s') p (j_buf s'), j_ofs := j_ofs s' + length p\<rparr>)"
  by (simp add: add_data_def copy_in_def)

lemma node_data_runs:
  assumes "T s lg" "length (render (snd lg)) + align4 (68 + length c) \<le> eb" "R (fst (log_node eb (inode_enc A ri @ c) lg))"
  shows "runs T (and_then (add_data A ops g (inode_enc A ri) s) (\<lambda>_ s1. and_then (add_data A ops g c s1) (\<lambda>_ s2. pad ops g 4 s2))) ()
    (log_node eb (inode_enc A ri @ c) lg) (statics s)"
proof -
  let ?nd = "inode_enc A ri @ c"
  let ?s = "s\<lparr>j_buf := put (j_ofs s) ?nd (j_buf s), j_ofs := j_ofs s + length ?nd\<rparr>"
  note t = T_facts [OF assms(1)]
  have fit: "j_ofs s + 68 + length c \<le> eb" using assms(2) t align4_facts(1) [of "68 + length c"] by simp
  then have "put (j_ofs s + 68) c (put (j_ofs s) (inode_enc A ri) (j_buf s)) = put (j_ofs s) ?nd (j_buf s)"
    using put_put_append [of "j_ofs s" "inode_enc A ri" c "j_buf s"] t by simp
  then have run: "and_then (add_data A ops g (inode_enc A ri) s) (\<lambda>_ s1. and_then (add_data A ops g c s1) (\<lambda>_ s2. pad ops g 4 s2)) = pad ops g 4 ?s"
    using fit by (simp add: and_then_def add_data_fits [OF assms(1)] add.assoc)
  have "?nd \<noteq> []" using inode_enc_length [of A ri] by (metis append_is_Nil_conv list.size(3) zero_neq_numeral)
  then have "runs T (pad ops g 4 ?s) () (log_node eb ?nd lg) (statics ?s)"
    by (intro pad4_runs [OF assms(1)]) (use assms in simp_all)
  then show ?thesis using run by (simp add: statics_def)
qed

lemma write_node_runs:
  assumes "T s lg" "length (render (snd lg)) + align4 (68 + length c) \<le> eb" "R (fst (log_node eb (inode_enc A ri @ c) lg))"
  shows "runs T (write_node A ops g ri c s) () (log_prep A (log_node eb (inode_enc A ri @ c) lg)) (statics s)"
proof -
  have "write_node A ops g ri c s = and_then (and_then (add_data A ops g (inode_enc A ri) s)
      (\<lambda>_ s1. and_then (add_data A ops g c s1) (\<lambda>_ s2. pad ops g 4 s2))) (\<lambda>_ s3. prep_eraseblock A g s3)"
    by (simp add: write_node_def and_then_def split: prod.splits sum.splits)
  then show ?thesis using runs_then [OF node_data_runs [OF assms]] prep_runs by metis
qed

lemma make_room_runs:
  assumes "T s lg" "2 \<le> fuel" "R (fst (log_room A eb lg))"
  shows "runs T (make_room A ops g fuel s) (log_left eb (log_room A eb lg) - 68) (log_room A eb lg) (statics s)"
proof -
  obtain f where f: "fuel = Suc (Suc f)" using assms(2) by (metis add_2_eq_Suc le_Suc_ex)
  have left: "T s' lg' \<Longrightarrow> rbytes g s' = log_left eb lg'" for s' lg' using T_facts [of s' lg'] by (simp add: rbytes_def log_left_def)
  have here: "T s' lg' \<Longrightarrow> log_left eb lg' > 196 \<Longrightarrow> statics s' = statics s \<Longrightarrow>
      runs T (make_room A ops g (Suc f') s') (log_left eb lg' - 68) lg' (statics s)" for s' lg' f'
  proof -
    assume a: "T s' lg'" "log_left eb lg' > 196" "statics s' = statics s"
    then have "nat (int (log_left eb lg') - 68) = log_left eb lg' - 68" by linarith
    then show ?thesis using a left [OF a(1)] by (simp add: Let_def runs_return)
  qed
  show ?thesis
  proof (cases "log_left eb lg > 196")
    case True
    then show ?thesis using here [OF assms(1) True refl, of "Suc f"] by (simp only: f log_room_def if_True)
  next
    case False
    let ?lg = "log_prep A (log_flush lg)"
    have big: "log_left eb ?lg > 196"
    proof -
      have "snd (log_flush lg) = []" by (simp add: log_flush_def)
      moreover have "align4 12 = 12" by (simp add: align4_def)
      ultimately show ?thesis using large by (simp add: log_left_def log_prep_def)
    qed
    have room: "log_room A eb lg = ?lg" using False by (simp add: log_room_def)
    have "fst ?lg = fst (log_flush lg)" by (simp add: log_prep_def)
    then have "R (fst (log_flush lg))" using assms(3) room by simp
    then have "runs T (and_then (pad ops g eb s) (\<lambda>_ s1. and_then (prep_eraseblock A g s1) (\<lambda>_ s2. make_room A ops g (Suc f) s2)))
        (log_left eb ?lg - 68) ?lg (statics s)"
      using here [OF _ big, of _ f] by (intro runs_then [OF pad_erase_runs [OF assms(1)]] runs_then [OF prep_runs]) (auto simp del: make_room.simps)
    moreover have "make_room A ops g fuel s =
        and_then (pad ops g eb s) (\<lambda>_ s1. and_then (prep_eraseblock A g s1) (\<lambda>_ s2. make_room A ops g (Suc f) s2))"
      unfolding f by (subst make_room.simps) (use False left [OF assms(1)] in \<open>simp del: make_room.simps add: Let_def\<close>)
    ultimately show ?thesis by (simp only: room)
  qed
qed

lemma log_fst: "\<exists>xs. fst (log_flush lg) = fst lg @ xs" "fst (log_prep A lg) = fst lg" "\<exists>xs. fst (log_node eb nd lg) = fst lg @ xs"
    "\<exists>xs. fst (log_room A eb lg) = fst lg @ xs"
  by (auto simp: log_flush_def log_prep_def log_node_def log_room_def Let_def)

lemma log_file_fst: "\<exists>xs. fst (log_file A eb ri off ver evs lg) = fst (log_room A eb lg) @ xs"
proof (induction "rd_size evs" arbitrary: ri off ver evs lg rule: less_induct)
  case less
  let ?lg1 = "log_room A eb lg"
  let ?len = "log_left eb ?lg1 - 68"
  obtain ev evs' where r: "fd_read (min ?len 4096) evs = (ev, evs')" by force
  show ?case
  proof (cases "\<exists>c. ev = Chunk c \<and> c \<noteq> [] \<and> ?len \<noteq> 0")
    case True
    then obtain c where c: "ev = Chunk c" "c \<noteq> []" "?len \<noteq> 0" by blast
    let ?lg2 = "log_node eb (inode_enc A (data_inode A ri (ver + 1) off c) @ c) ?lg1"
    have "rd_size evs' < rd_size evs" using fd_read_less [OF r] c by simp
    note ih = less.hyps [OF this, of "data_inode A ri (ver + 1) off c" "off + of_nat (length c)" "ver + 1" "log_prep A ?lg2"]
    have "log_file A eb ri off ver evs lg = log_file A eb (data_inode A ri (ver + 1) off c) (off + of_nat (length c)) (ver + 1) evs' (log_prep A ?lg2)"
      using r c by (simp add: log_file.simps [of A eb ri off ver evs lg] Let_def)
    then obtain xs where "fst (log_file A eb ri off ver evs lg) = fst (log_room A eb (log_prep A ?lg2)) @ xs" using ih by metis
    moreover obtain ys where "fst (log_room A eb (log_prep A ?lg2)) = fst (log_prep A ?lg2) @ ys" using log_fst(4) by blast
    moreover obtain zs where "fst ?lg2 = fst ?lg1 @ zs" using log_fst(3) by blast
    ultimately show ?thesis by (simp add: log_prep_def)
  next
    case False
    then have "log_file A eb ri off ver evs lg = ?lg1" using r by (cases ev) (auto simp: log_file.simps [of A eb ri off ver evs lg] Let_def)
    then show ?thesis by simp
  qed
qed

lemma add_file_loop_runs:
  assumes "T s lg" "statics s = (t, i, ver)" "2 \<le> fuel" "R (fst (log_file A eb ri off ver evs lg))"
  shows "\<exists>v. runs T (add_file_loop A ops g fuel ri off evs s) () (log_file A eb ri off ver evs lg) (t, i, v)"
  using assms
proof (induction "rd_size evs" arbitrary: ri off ver evs lg s rule: less_induct)
  case less
  let ?lg1 = "log_room A eb lg"
  let ?len = "log_left eb ?lg1 - 68"
  obtain xs where xs: "fst (log_file A eb ri off ver evs lg) = fst ?lg1 @ xs" using log_file_fst by blast
  have "R (fst ?lg1)" using less.prems(4) placeable_prefix [of n eb bad k0 c0 "fst ?lg1" xs] by (simp add: xs R_eq)
  then obtain s1 where s1: "make_room A ops g fuel s = (Inr ?len, s1)" "T s1 ?lg1" "statics s1 = (t, i, ver)"
    using make_room_runs [OF less.prems(1,3)] less.prems(2) by (auto simp: runs_def)
  have len: "128 < ?len" using make_room_len [OF s1(1)] .
  obtain ev evs' where r: "fd_read (min ?len 4096) evs = (ev, evs')" by force
  show ?case
  proof (cases "\<exists>c. ev = Chunk c \<and> c \<noteq> []")
    case True
    then obtain c where c: "ev = Chunk c" "c \<noteq> []" by blast
    let ?ri = "data_inode A ri (ver + 1) off c"
    let ?lg2 = "log_prep A (log_node eb (inode_enc A ?ri @ c) ?lg1)"
    let ?s = "s1\<lparr>last_version := ver + 1\<rparr>"
    have small: "rd_size evs' < rd_size evs" using fd_read_less [OF r] len c by simp
    have "?len \<noteq> 0" using len by linarith
    then have lf: "log_file A eb ri off ver evs lg = log_file A eb ?ri (off + of_nat (length c)) (ver + 1) evs' ?lg2"
      using r c by (simp add: log_file.simps [of A eb ri off ver evs lg] Let_def)
    have T: "T ?s ?lg1" using s1(2) by (auto simp: T_eq tracks_def)
    have fit: "length (render (snd ?lg1)) + align4 (68 + length c) \<le> eb"
      using frag_fits [of eb ?lg1 evs c evs'] r c len T_facts [OF s1(2)] aligned by simp
    obtain ys where ys: "fst (log_file A eb ri off ver evs lg) = fst (log_room A eb ?lg2) @ ys" using log_file_fst lf by metis
    obtain zs where zs: "fst (log_room A eb ?lg2) = fst ?lg2 @ zs" using log_fst(4) by blast
    have "R (fst ?lg2)" using less.prems(4) placeable_prefix [of n eb bad k0 c0 "fst ?lg2" "zs @ ys"] by (simp add: ys zs R_eq)
    then have "R (fst (log_node eb (inode_enc A ?ri @ c) ?lg1))" by (simp add: log_prep_def split: if_splits)
    then obtain s2 where s2: "write_node A ops g ?ri c ?s = (Inr (), s2)" "T s2 ?lg2" "statics s2 = (t, i, ver + 1)"
      using write_node_runs [OF T fit, of ?ri] s1(3) by (auto simp: runs_def statics_def)
    have "add_file_loop A ops g fuel ri off evs s = add_file_loop A ops g fuel ?ri (off + of_nat (length c)) evs' s2"
      using s1 s2(1) r c by (simp add: add_file_loop.simps [of A ops g fuel ri off evs s] statics_def)
    then show ?thesis using less.hyps [OF small s2(2,3) less.prems(3), of ?ri "off + of_nat (length c)"] less.prems(4) lf by simp
  next
    case False
    then have "log_file A eb ri off ver evs lg = ?lg1" "add_file_loop A ops g fuel ri off evs s = (Inr (), s1)"
      using r s1(1) by (cases ev; auto simp: log_file.simps [of A eb ri off ver evs lg] add_file_loop.simps [of A ops g fuel ri off evs s] Let_def)+
    then show ?thesis using s1(2,3) by (auto intro: runs_return)
  qed
qed

lemma add_dirent_runs:
  assumes "T s lg" "statics s = (t, i, v)" "length name < 256" "length (render (snd (log_prep A lg))) + align4 (40 + length name) \<le> eb"
    "R (fst (log_node eb (dirent_node A name type parent (i + 1) v) (log_prep A lg)))"
  shows "runs T (add_dirent A ops g name type parent s) (i + 1) (log_node eb (dirent_node A name type parent (i + 1) v) (log_prep A lg)) (t, i + 2, v + 1)"
proof -
  let ?nd = "dirent_node A name type parent (i + 1) v"
  have big: "\<not> size_sub A (j_ofs s) (g_erase g) < size_add A 40 (length name)"
    using size_sub_room [of "j_ofs s" eb A "length name"] T_facts [OF assms(1)] widths assms(3) by simp
  obtain s2 where s2: "prep_eraseblock A g s = (Inr (), s2)" "T s2 (log_prep A lg)" "statics s2 = (t, i, v)"
    using prep_runs [OF assms(1)] assms(2) by (auto simp: runs_def)
  have st: "last_ino s2 = i" "last_version s2 = v" "target_ino s2 = t" using s2(3) by (simp_all add: statics_def)
  define s4 where "s4 = s2\<lparr>last_ino := i + 1 + 1, last_version := v + 1, j_buf := put (j_ofs s2) ?nd (j_buf s2), j_ofs := j_ofs s2 + 40 + length name\<rparr>"
  have fit: "j_ofs s2 + 40 + length name \<le> eb" using assms(4) T_facts [OF s2(2)] align4_facts(1) [of "40 + length name"] by simp
  have "unat (de_nsize (new_dirent A name type parent (i + 1) v)) = length name"
    using assms(3) by (simp add: new_dirent_def Let_def unat_of_nat)
  then have run: "add_dirent A ops g name type parent s = and_then (pad ops g 4 s4) (\<lambda>_ s5. (Inr (i + 1), s5))"
    using big s2(1) st fit by (simp add: add_dirent_def and_then_def Let_def s4_def dirent_node_def)
  have len: "length ?nd = 40 + length name" by (rule dirent_node_length)
  then have "?nd \<noteq> []" by (metis add_is_0 list.size(3) zero_neq_numeral)
  have "runs T (pad ops g 4 s4) () (log_node eb ?nd (log_prep A lg)) (statics s4)"
    by (rule pad4_runs [OF s2(2)]) (use assms(4,5) len \<open>?nd \<noteq> []\<close> in \<open>simp_all add: s4_def\<close>)
  moreover have "statics s4 = (t, i + 2, v + 1)" using st by (simp add: s4_def statics_def)
  ultimately show ?thesis unfolding run by (auto simp: runs_def and_then_def)
qed

lemma finish_fs_runs:
  assumes "T s lg" "R (fst (log_flush lg) @ [[JFFS2_EOF]])"
  shows "runs T (finish_fs A ops g s) () (fst (log_flush lg) @ [[JFFS2_EOF]], []) (statics s)"
proof -
  let ?dn = "fst (log_flush lg)"
  have "R ?dn" using assms(2) unfolding R_eq by (rule placeable_prefix)
  then obtain s1 where s1: "pad ops g eb s = (Inr (), s1)" "T s1 (log_flush lg)" "statics s1 = statics s"
    using pad_erase_runs [OF assms(1)] by (auto simp: runs_def)
  have empty: "snd (log_flush lg) = []" by (simp add: log_flush_def)
  then have "add_data A ops g JFFS2_EOF s1 = copy_in g JFFS2_EOF s1" using T_facts [OF s1(2)] large by (simp add: add_data_def JFFS2_EOF_def)
  then obtain s2 where s2: "add_data A ops g JFFS2_EOF s1 = (Inr (), s2)" "T s2 (?dn, [JFFS2_EOF])" "statics s2 = statics s"
    using copy_in_runs [OF s1(2), of JFFS2_EOF] s1(3) large empty by (auto simp: JFFS2_EOF_def runs_def)
  have flush: "log_flush (?dn, [JFFS2_EOF]) = (?dn @ [[JFFS2_EOF]], [])" by (simp add: log_flush_def)
  have "runs T (pad ops g eb s2) () (?dn @ [[JFFS2_EOF]], []) (statics s)"
    using pad_erase_runs [OF s2(2)] assms(2) s2(3) unfolding flush by simp
  then show ?thesis using s1(1) s2(1) by (simp add: finish_fs_def and_then_def)
qed

lemma R_Nil: "R []"
  by (simp add: R_eq placeable_def)

lemma log_node_small: "length (render (snd lg)) + align4 (length nd) < eb \<Longrightarrow> log_node eb nd lg = (fst lg, snd lg @ [nd])"
  by (simp add: log_node_def Let_def)

text \<open>A directory entry near the start of a block, and a new directory.\<close>

lemma add_dirent_small:
  assumes "T s ([], ns)" "statics s = (t, i, v)" "length name < 256" "length (render ns) + 12 + length name + 43 < eb"
  shows "runs T (add_dirent A ops g name type parent s) (i + 1)
    ([], (if ns = [] then [CLEANMARKER A] else ns) @ [dirent_node A name type parent (i + 1) v]) (t, i + 2, v + 1)"
proof -
  let ?lg = "log_prep A ([], ns)"
  have lg: "?lg = ([], if ns = [] then [CLEANMARKER A] else ns)" by (simp add: log_prep_def)
  have fit: "length (render (snd ?lg)) + align4 (40 + length name) < eb"
    using assms(4) align4_facts(2) [of "40 + length name"] by (auto simp: lg align4_68)
  then have "log_node eb (dirent_node A name type parent (i + 1) v) ?lg = ([], snd ?lg @ [dirent_node A name type parent (i + 1) v])"
    using log_node_small [of ?lg] by (simp add: lg)
  then show ?thesis using add_dirent_runs [OF assms(1-3) less_imp_le [OF fit], of type parent] R_Nil lg by simp
qed

lemma add_dir_small:
  assumes "T s ([], [])" "statics s = (t, i, v)" "length name < 256"
  shows "runs T (add_dir A ops g name parent s) (i + 1)
    ([], [CLEANMARKER A, dirent_node A name DT_DIR parent (i + 1) v, dir_node A (i + 1)]) (t, i + 2, v + 1)"
proof -
  let ?ns = "[CLEANMARKER A, dirent_node A name DT_DIR parent (i + 1) v]"
  obtain s1 where s1: "add_dirent A ops g name DT_DIR parent s = (Inr (i + 1), s1)" "T s1 ([], ?ns)" "statics s1 = (t, i + 2, v + 1)"
    using add_dirent_small [OF assms, of DT_DIR parent] assms(3) large by (auto simp: runs_def)
  have ofs: "j_ofs s1 = length (render ?ns)" "j_ofs s1 < eb" using T_facts [OF s1(2)] by simp_all
  have small: "length (render ?ns) < 312" using align4_facts(2) [of "40 + length name"] assms(3) by (simp add: align4_68)
  then have room: "\<not> rbytes g s1 < 68" "0 < j_ofs s1" using ofs large by (simp_all add: rbytes_def align4_68)
  let ?ri = "inode_zero\<lparr>magic := JFFS2_MAGIC_BITMASK, nodetype := JFFS2_NODETYPE_INODE, totlen := 68\<rparr>"
  let ?ri1 = "?ri\<lparr>hdr_crc := mtd_crc32 0 (take 8 (inode_enc A ?ri)), ri_ino := i + 1, ri_mode := S_IFDIR OR 0x1ed, ri_version := 1\<rparr>"
  let ?ri2 = "?ri1\<lparr>ri_node_crc := mtd_crc32 0 (take 60 (inode_enc A ?ri1)), ri_data_crc := 0\<rparr>"
  have nd: "inode_enc A ?ri2 = dir_node A (i + 1)" by (simp add: dir_node_def Let_def inode_zero_def inode_enc_def hdr_enc_def)
  have add: "add_data A ops g [] s' = (Inr (), s')" if "j_ofs s' \<le> eb" for s' :: "'d jffs2"
    using that by (simp add: add_data_def copy_in_def)
  have "log_node eb (dir_node A (i + 1)) ([], ?ns) = ([], ?ns @ [dir_node A (i + 1)])"
    by (rule log_node_small [of "([], ?ns)", simplified fst_conv snd_conv]) (use small large in \<open>simp add: align4_68\<close>)
  then have "runs T (and_then (add_data A ops g (inode_enc A ?ri2) s1) (\<lambda>_ s3. pad ops g 4 s3)) () ([], ?ns @ [dir_node A (i + 1)]) (t, i + 2, v + 1)"
    using node_data_runs [OF s1(2), of "[]" ?ri2] small large R_Nil s1(3) ofs nd
    by (simp add: align4_68 and_then_def add add_data_fits [OF s1(2)])
  then obtain s4 where "and_then (add_data A ops g (inode_enc A ?ri2) s1) (\<lambda>_ s3. pad ops g 4 s3) = (Inr (), s4)" "T s4 ([], ?ns @ [dir_node A (i + 1)])"
      "statics s4 = (t, i + 2, v + 1)" by (auto simp: runs_def)
  moreover have "add_dir A ops g name parent s =
      and_then (and_then (add_data A ops g (inode_enc A ?ri2) s1) (\<lambda>_ s3. pad ops g 4 s3)) (\<lambda>_ s5. (Inr (i + 1), s5))"
    using s1(1) room by (simp add: add_dir_def and_then_def prep_eraseblock_def Let_def split: prod.splits sum.splits)
  ultimately show ?thesis by (simp add: and_then_def runs_return)
qed

lemma add_file_runs:
  assumes "T s ([], ns)" "statics s = (t, i, v)" "length (base_name filename) < 256" "length (render ns) + 12 + length (base_name filename) + 43 < eb"
    "files filename = Some (st, Some evs)" "2 \<le> fuel"
    and lg: "lg = log_file A eb (file_inode st (i + 1)) 0 (v + 1) evs
        ([], (if ns = [] then [CLEANMARKER A] else ns) @ [dirent_node A (base_name filename) DT_REG parent (i + 1) v])" and R: "R (fst lg)"
  shows "\<exists>v'. runs T (add_file A ops g fuel files filename parent s) () lg (t, i + 2, v')"
proof -
  let ?lg = "([], (if ns = [] then [CLEANMARKER A] else ns) @ [dirent_node A (base_name filename) DT_REG parent (i + 1) v])"
  obtain s1 where s1: "add_dirent A ops g (base_name filename) DT_REG parent s = (Inr (i + 1), s1)" "T s1 ?lg" "statics s1 = (t, i + 2, v + 1)"
    using add_dirent_small [OF assms(1-4), of DT_REG parent] by (auto simp: runs_def)
  have "add_file A ops g fuel files filename parent s = add_file_loop A ops g fuel (file_inode st (i + 1)) 0 evs s1"
    using assms(5) s1(1) by (simp add: add_file_def and_then_def)
  then show ?thesis using add_file_loop_runs [OF s1(2,3) assms(6), of "file_inode st (i + 1)" 0 evs] R lg by simp
qed

lemma append_file_runs:
  assumes "T s ([], [])" "statics s = (t, i, v)" "length dir < 256" "length (base_name filename) < 256" "files filename = Some (st, Some evs)" "2 \<le> fuel"
    and bs: "bs = file_blocks A eb st evs dir (base_name filename) (t, i, v)" and R: "R bs"
  shows "\<exists>st'. runs T (append_file A ops g fuel files filename dir s) () (bs, []) st'"
proof -
  let ?i = "if i = 0 then 1 else i"
  let ?f = "base_name filename"
  let ?s = "s\<lparr>last_ino := ?i\<rparr>"
  have s: "T ?s ([], [])" "statics ?s = (t, ?i, v)" "last_ino s = i" "target_ino s = t"
    using assms(1,2) by (simp_all add: T_eq tracks_def statics_def)
  obtain p ino ver ns where first: "first_nodes A dir ?f (t, i, v) = ((p, ino, ver), ns)" by (metis surj_pair)
  let ?lg = "log_file A eb (file_inode st ino) 0 ver evs ([], ns)"
  have bs': "bs = fst (log_flush ?lg) @ [[JFFS2_EOF]]" using first by (simp add: bs file_blocks_def)
  have Rl: "R (fst ?lg)"
  proof -
    obtain xs where "fst (log_flush ?lg) = fst ?lg @ xs" using log_fst(1) by blast
    then show ?thesis using R placeable_prefix [of n eb bad k0 c0 "fst ?lg" "xs @ [[JFFS2_EOF]]"] by (simp add: bs' R_eq)
  qed
  have "\<exists>v' s2. runs T (add_file A ops g fuel files filename p s2) () ?lg v' \<and>
      append_file A ops g fuel files filename dir s = and_then (add_file A ops g fuel files filename p s2) (\<lambda>_ s3. finish_fs A ops g s3)"
  proof (cases "t = 0")
    case True
    let ?ns = "[CLEANMARKER A, dirent_node A dir DT_DIR 1 (?i + 1) v, dir_node A (?i + 1)]"
    obtain s1 where s1: "add_dir A ops g dir 1 ?s = (Inr (?i + 1), s1)" "T s1 ([], ?ns)" "statics s1 = (t, ?i + 2, v + 1)"
      using add_dir_small [OF s(1,2) assms(3), of 1] by (auto simp: runs_def)
    let ?s2 = "s1\<lparr>target_ino := ?i + 1\<rparr>"
    have s2: "T ?s2 ([], ?ns)" "statics ?s2 = (?i + 1, ?i + 2, v + 1)" using s1(2,3) by (auto simp: T_eq tracks_def statics_def)
    have small: "length (render ?ns) + 12 + length ?f + 43 < eb" using align4_facts(2) [of "40 + length dir"] assms(3,4) large by (simp add: align4_68)
    have fn: "p = ?i + 1" "ino = ?i + 2 + 1" "ver = v + 1 + 1" "ns = ?ns @ [dirent_node A ?f DT_REG (?i + 1) (?i + 2 + 1) (v + 1)]"
      using first True by (auto simp: first_nodes_def Let_def add.assoc)
    have run: "append_file A ops g fuel files filename dir s = and_then (add_file A ops g fuel files filename p ?s2) (\<lambda>_ s3. finish_fs A ops g s3)"
      using s1(1) s(3,4) True fn(1) by (cases "i = 0") (simp_all add: append_file_def Let_def and_then_def)
    have "\<exists>v'. runs T (add_file A ops g fuel files filename p ?s2) () ?lg (?i + 1, ?i + 2 + 2, v')"
      by (rule add_file_runs [where files = files, OF s2 assms(4) small assms(5,6) _ Rl]) (simp add: fn)
    then show ?thesis using run by blast
  next
    case False
    let ?s2 = "?s\<lparr>target_ino := t\<rparr>"
    have s2: "T ?s2 ([], [])" "statics ?s2 = (t, ?i, v)" using s by (simp_all add: T_eq tracks_def statics_def)
    have fn: "p = t" "ino = ?i + 1" "ver = v + 1" "ns = [CLEANMARKER A] @ [dirent_node A ?f DT_REG t (?i + 1) v]"
      using first False by (auto simp: first_nodes_def Let_def)
    have run: "append_file A ops g fuel files filename dir s = and_then (add_file A ops g fuel files filename p ?s2) (\<lambda>_ s3. finish_fs A ops g s3)"
      using s(3,4) False fn(1) by (simp add: append_file_def Let_def and_then_def)
    have "\<exists>v'. runs T (add_file A ops g fuel files filename p ?s2) () ?lg (t, ?i + 2, v')"
      by (rule add_file_runs [where files = files, OF s2 assms(4) _ assms(5,6) _ Rl]) (use assms(4) large in \<open>simp_all add: fn\<close>)
    then show ?thesis using run by blast
  qed
  then obtain v' s2 s3 where "add_file A ops g fuel files filename p s2 = (Inr (), s3)" "T s3 ?lg"
      "append_file A ops g fuel files filename dir s = and_then (add_file A ops g fuel files filename p s2) (\<lambda>_ s3. finish_fs A ops g s3)"
    by (auto simp: runs_def)
  then have "append_file A ops g fuel files filename dir s = finish_fs A ops g s3" "runs T (finish_fs A ops g s3) () (bs, []) (statics s3)"
    using finish_fs_runs [of s3 ?lg] R bs' by (simp_all add: and_then_def)
  then show ?thesis by metis
qed

end

section \<open>Reading the nodes back\<close>

text \<open>A well formed node: its header is valid and has its length, and a directory entry has valid checksums and a name without NUL.\<close>

definition wf_node :: "abi \<Rightarrow> bytes \<Rightarrow> bool" where
  "wf_node A nd \<longleftrightarrow> node_ok A nd \<and> node_len A nd = length nd \<and> length nd < 2 ^ 31 \<and>
     (node_type A nd = JFFS2_NODETYPE_DIRENT \<longrightarrow> dirent_ok A nd \<and> 0 \<notin> set (drop 40 nd))"

definition wf_block :: "abi \<Rightarrow> nat \<Rightarrow> bytes list \<Rightarrow> bool" where
  "wf_block A eb ns \<longleftrightarrow> list_all (wf_node A) ns \<and> length (render ns) \<le> eb"

lemma slice_prefix: "p + m \<le> length nd \<Longrightarrow> slice p m (nd @ r) = slice p m nd"
  by (rule slice_append_left)

lemma wf_node_length: "wf_node A nd \<Longrightarrow> 12 \<le> length nd"
  by (simp add: wf_node_def node_ok_def)

lemma wf_node_front:
  assumes "wf_node A nd"
  shows "node_len A (nd @ r) = length nd" "node_ok A (nd @ r)" "node_type A (nd @ r) = node_type A nd"
proof -
  have 12: "12 \<le> length nd" using wf_node_length [OF assms] .
  show len: "node_len A (nd @ r) = length nd" using assms 12 by (simp add: node_len_def slice_prefix wf_node_def)
  show "node_ok A (nd @ r)" using assms 12 len by (simp add: node_ok_def wf_node_def slice_prefix)
  show "node_type A (nd @ r) = node_type A nd" using 12 by (simp add: node_type_def slice_prefix)
qed

lemma ones_no_node: "native16_dec A (slice 0 2 (replicate m 0xff)) \<noteq> 0x1985"
proof (cases m rule: nat.exhaust [case_names 0 Suc])
  case (Suc m')
  show ?thesis
  proof (cases m')
    case 0
    then show ?thesis using Suc by (simp add: slice_def native16_dec_def be16_dec_def)
  next
    case (Suc m'')
    then have "slice 0 2 (replicate m (0xff :: byte)) = [0xff, 0xff]" using \<open>m = Suc m'\<close> by (simp add: slice_def numeral_2_eq_2)
    then show ?thesis by (simp add: native16_dec_def be16_dec_def)
  qed
qed (simp add: slice_def native16_dec_def be16_dec_def)

text \<open>Scanning a block gives its nodes.\<close>

lemma scan_render: "list_all (wf_node A) ns \<Longrightarrow> scan A (render ns @ replicate m 0xff) = ns"
proof (induction ns)
  case Nil
  then show ?case using ones_no_node [of A m] by (simp add: scan.simps [of A "replicate m 0xff"] node_ok_def)
next
  case (Cons nd ns)
  let ?r = "replicate (align4 (length nd) - length nd) 0xff @ render ns @ replicate m 0xff"
  have b: "render (nd # ns) @ replicate m 0xff = nd @ ?r" by (simp add: pad4_def)
  have "drop (align4 (length nd)) (nd @ ?r) = render ns @ replicate m 0xff" using align4_facts(1) [of "length nd"] by simp
  then show ?case using Cons wf_node_front [of A nd ?r] unfolding b by (simp add: scan.simps [of A "nd @ ?r"])
qed

lemma scan_fs_block: "wf_block A eb ns \<Longrightarrow> scan A (fs_block eb ns) = ns"
  by (simp add: wf_block_def fs_block_def pad_block_def scan_render)

lemma scan_eof: "scan A (fs_block eb [JFFS2_EOF]) = []"
proof -
  have "slice 0 2 (fs_block eb [JFFS2_EOF]) = [0xde, 0xad]"
    by (simp add: fs_block_def pad_block_def pad4_def JFFS2_EOF_def slice_def numeral_2_eq_2)
  then show ?thesis by (simp add: scan.simps [of A "fs_block eb [JFFS2_EOF]"] node_ok_def native16_dec_def be16_dec_def)
qed

section \<open>The parser\<close>

text \<open>What the parser takes from a node: it looks at directory entries only, and takes an entry of the root directory for the directory wanted
  whose name is a prefix of its name.\<close>

definition num_step :: "abi \<Rightarrow> bytes \<Rightarrow> bytes \<Rightarrow> numbers \<Rightarrow> numbers" where
  "num_step A dir nd st =
     (if node_type A nd = JFFS2_NODETYPE_DIRENT
      then (case st of (t, i, v) \<Rightarrow>
        let ino = native32_dec A (slice 20 4 nd)
        in (if dir \<noteq> [] \<and> native32_dec A (slice 12 4 nd) = 1 \<and> prefix (drop 40 nd) dir then ino else t, max i ino,
            max v (native32_dec A (slice 16 4 nd))))
      else st)"

lemma strncmp_prefix: "0 \<notin> set a \<Longrightarrow> strncmp_eq (length a) (a @ r) b = Some (prefix a b)"
proof (induction a arbitrary: b)
  case Nil
  then show ?case by (cases r) simp_all
next
  case (Cons x a)
  then show ?case by (cases b) auto
qed

lemma unat_small32: "k < 2 ^ 31 \<Longrightarrow> unat (word_of_nat k :: u32) = k"
  by (simp add: unat_of_nat)

lemma PAD_align4:
  assumes "unat w + 3 < 2 ^ 32"
  shows "unat (PAD w) = align4 (unat w)"
proof -
  let ?a = "w + 3"
  have a: "unat ?a = unat w + 3" using assms by (simp add: unat_add_lem [THEN iffD1])
  have "?a AND NOT 3 = ?a - take_bit 2 ?a"
  proof -
    have "(3 :: u32) = mask 2" by (simp add: mask_eq_exp_minus_1)
    moreover have "Suc (Suc (m - 2)) = m" if "2 \<le> m" for m using that by arith
    then have "?a AND NOT (mask 2) = push_bit 2 (drop_bit 2 ?a)" by (intro bit_word_eqI) (auto simp: bit_simps not_less)
    ultimately have "?a AND NOT 3 = push_bit 2 (drop_bit 2 ?a)" by metis
    then show ?thesis using bits_ident [of 2 ?a] by (simp add: eq_diff_eq)
  qed
  moreover have tb: "unat (take_bit 2 ?a) = (unat w + 3) mod 4" by (simp add: take_bit_eq_mod unat_mod a)
  moreover have "take_bit 2 ?a \<le> ?a" unfolding word_le_nat_alt tb a by simp
  ultimately have "unat (PAD w) = (unat w + 3) - (unat w + 3) mod 4" by (simp add: PAD_def unat_sub a)
  also have "\<dots> = align4 (unat w)"
  proof -
    define r where "r = unat w mod 4"
    have "r < 4" "unat w = 4 * (unat w div 4) + r" by (simp_all add: r_def)
    then have "(unat w + 3) mod 4 = (r + 3) mod 4" by (metis mod_mult_self4 add.assoc)
    moreover have "r = 0 \<or> r = 1 \<or> r = 2 \<or> r = 3" using \<open>r < 4\<close> by linarith
    ultimately show ?thesis by (auto simp: align4_def r_def)
  qed
  finally show ?thesis .
qed

lemma parse_dirent_node:
  assumes "wf_node A nd" "node_type A nd = JFFS2_NODETYPE_DIRENT"
  shows "parse_dirent A dir (pre @ nd @ r) (length pre) st = Some (num_step A dir nd st)"
proof -
  have d: "40 \<le> length nd" "unat (nd ! 28) = length nd - 40" "0 \<notin> set (drop 40 nd)" using assms by (auto simp: wf_node_def dirent_ok_def)
  have f: "fld32 A (pre @ nd @ r) (length pre + p) = Some (native32_dec A (slice p 4 nd))" if "p + 4 \<le> 40" for p
    using that d(1) by (simp add: fld32_def slice_append_right slice_prefix)
  have "fld8 (pre @ nd @ r) (length pre + 28) = Some (nd ! 28)" using d(1) by (simp add: fld8_def nth_append)
  moreover have "drop (length pre + 40) (pre @ nd @ r) = drop 40 nd @ r" using d(1) by simp
  moreover have "strncmp_eq (length nd - 40) (drop 40 nd @ r) dir = Some (prefix (drop 40 nd) dir)"
    using strncmp_prefix [OF d(3), of r dir] by simp
  ultimately show ?thesis
    using f [of 12] f [of 16] f [of 20] assms(2) d(2) by (auto simp: parse_dirent_def is_target_def num_step_def Let_def split: prod.splits)
qed

lemma parse_loop_nodes:
  assumes "list_all (wf_node A) ns" "length (pre @ render ns @ replicate m 0xff) < 2 ^ 31" "length pre mod 4 = 0" "m mod 4 = 0" "length ns < fuel"
  shows "parse_loop A dir (pre @ render ns @ replicate m 0xff) fuel (of_nat (length pre)) st = Inr (fold (num_step A dir) ns st)"
  using assms
proof (induction ns arbitrary: pre fuel st)
  case Nil
  obtain f where f: "fuel = Suc f" using Nil.prems(5) by (cases fuel) simp_all
  have o: "unat (word_of_nat (length pre) :: u32) = length pre" using Nil.prems(2) by (simp add: unat_small32)
  show ?case
  proof (cases "m = 0")
    case True
    then show ?thesis using o by (simp add: f)
  next
    case False
    then have "2 \<le> m" using Nil.prems(4) by presburger
    then have "fld16 A (pre @ replicate m 0xff) (length pre) = Some (native16_dec A (slice 0 2 (replicate m 0xff)))"
      by (simp add: fld16_def slice_append_right)
    then show ?thesis using o ones_no_node [of A m] False by (simp add: f)
  qed
next
  case (Cons nd ns)
  obtain f where f: "fuel = Suc f" using Cons.prems(5) by (cases fuel) simp_all
  let ?b = "pre @ render (nd # ns) @ replicate m 0xff"
  let ?r = "replicate (align4 (length nd) - length nd) 0xff @ render ns @ replicate m 0xff"
  let ?pre = "pre @ pad4 nd"
  have b: "?b = pre @ nd @ ?r" "?b = ?pre @ render ns @ replicate m 0xff" by (simp_all add: pad4_def)
  have wf: "wf_node A nd" using Cons.prems(1) by simp
  have 12: "12 \<le> length nd" "length nd < 2 ^ 31" using wf_node_length [OF wf] wf by (simp_all add: wf_node_def)
  have o: "unat (word_of_nat (length pre) :: u32) = length pre" using Cons.prems(2) by (simp add: unat_small32)
  define B where "B = ?b"
  have fl: "fld16 A B (length pre + p) = Some (native16_dec A (slice p 2 nd))" if "p + 2 \<le> 12" for p
    using that 12(1) unfolding B_def b(1) by (simp add: fld16_def slice_append_right slice_prefix)
  have "fld32 A B (length pre + 4) = Some (native32_dec A (slice 4 4 nd))"
    using 12(1) unfolding B_def b(1) by (simp add: fld32_def slice_append_right slice_prefix)
  moreover have "native32_dec A (slice 4 4 nd) = of_nat (length nd)" using wf by (metis wf_node_def node_len_def of_nat_unat ucast_id)
  moreover have "native16_dec A (slice 0 2 nd) = 0x1985" using wf by (simp add: wf_node_def node_ok_def)
  moreover have "length pre < length B" using 12(1) unfolding B_def b(1) by (cases nd) simp_all
  moreover have "node_type A nd = JFFS2_NODETYPE_DIRENT \<Longrightarrow> parse_dirent A dir B (length pre) st = Some (num_step A dir nd st)"
    using parse_dirent_node [OF wf] unfolding B_def b(1) by simp
  moreover have "node_type A nd \<noteq> JFFS2_NODETYPE_DIRENT \<Longrightarrow> num_step A dir nd st = st" by (simp add: num_step_def)
  ultimately have step: "parse_loop A dir ?b fuel (of_nat (length pre)) st =
      parse_loop A dir ?b f (of_nat (length pre) + PAD (of_nat (length nd))) (num_step A dir nd st)"
    using fl [of 0] fl [of 2] o unfolding B_def [symmetric]
    by (cases "node_type A nd = JFFS2_NODETYPE_DIRENT") (simp_all add: f node_type_def)
  have "unat (PAD (of_nat (length nd))) = align4 (length nd)" using PAD_align4 [of "of_nat (length nd)"] 12(2) by (simp add: unat_small32)
  then have "PAD (of_nat (length nd)) = of_nat (align4 (length nd))" by (metis of_nat_unat ucast_id)
  then have nx: "of_nat (length pre) + PAD (of_nat (length nd)) = (of_nat (length ?pre) :: u32)" by simp
  have "length ?pre mod 4 = 0" using Cons.prems(3) align4_facts(3) [of "length nd"] by (simp add: mod_eq_0_iff_dvd)
  then have "parse_loop A dir (?pre @ render ns @ replicate m 0xff) f (of_nat (length ?pre)) (num_step A dir nd st) =
      Inr (fold (num_step A dir) ns (num_step A dir nd st))"
    using Cons.prems unfolding f b(2) by (intro Cons.IH) simp_all
  then show ?case using step unfolding nx b(2) by simp
qed

lemma parse_fs_block:
  assumes "wf_block A eb ns" "eb mod 4 = 0" "eb < 2 ^ 31" "eb < fuel"
  shows "mtd_parse_jffs2data A fuel (fs_block eb ns) dir st = Inr (fold (num_step A dir) ns st)"
proof -
  have len: "length ns \<le> length (render ns)"
    using assms(1) unfolding wf_block_def
  proof (elim conjE, induction ns)
    case (Cons nd ns)
    then show ?case using wf_node_length [of A nd] align4_facts(1) [of "length nd"] by simp
  qed simp
  show ?thesis
    using parse_loop_nodes [of A ns "[]" "eb - length (render ns)" fuel dir st] assms len render_aligned [of ns]
    by (simp add: mtd_parse_jffs2data_def fs_block_def pad_block_def wf_block_def mod_eq_0_iff_dvd)
qed

section \<open>The command\<close>

text \<open>A device whose first blocks are a file system and the next one is not.\<close>

definition fs_ends :: "abi \<Rightarrow> nat \<Rightarrow> nat \<Rightarrow> bytes list list \<Rightarrow> bytes \<Rightarrow> bool" where
  "fs_ends A n eb old c \<longleftrightarrow> length old < n \<and>
     (\<forall>j<length old. slice (j * eb) eb c = fs_block eb (old ! j) \<and> wf_block A eb (old ! j) \<and> old ! j \<noteq> []) \<and>
     native16_dec A (slice (length old * eb) 2 c) \<noteq> JFFS2_MAGIC_BITMASK \<and> native16_dec A (slice (length old * eb) 2 c) \<noteq> KSAMTIB_CIGAM_2SFFJ"

lemma fs_block_magic:
  assumes "wf_block A eb ns" "ns \<noteq> []"
  shows "native16_dec A (slice 0 2 (fs_block eb ns)) = JFFS2_MAGIC_BITMASK"
proof -
  obtain nd ms where ns: "ns = nd # ms" using assms(2) by (cases ns) simp_all
  then have "wf_node A nd" using assms(1) by (simp add: wf_block_def)
  moreover have "slice 0 2 (nd @ r) = slice 0 2 nd" for r using wf_node_length [OF calculation] by (simp add: slice_prefix)
  ultimately show ?thesis by (simp add: ns fs_block_def pad_block_def pad4_def wf_node_def node_ok_def JFFS2_MAGIC_BITMASK_def)
qed

context jffs2_flash
begin

lemma find_fs_end_finds:
  assumes "fs_ends A n eb old c" "valid (j_dev s)" "cells (j_dev s) = c" "j \<le> length old" "j_pos s = j * eb" "j_mtdofs s = j * eb"
    "length old - j < fuel" "eb < pfuel"
  shows "\<exists>s'. find_fs_end A ops g pfuel fuel dir s = (Inr Fs_end, s') \<and> j_dev s' = j_dev s \<and> j_mtdofs s' = Suc (length old) * eb \<and> length (j_buf s') = eb \<and>
    statics s' = fold (num_step A dir) (concat (drop j old)) (statics s)"
  using assms(2-7)
proof (induction "length old - j" arbitrary: j s fuel)
  case 0
  then have j: "j = length old" by simp
  have fe: "j < n" "native16_dec A (slice (j * eb) 2 c) \<noteq> JFFS2_MAGIC_BITMASK" "native16_dec A (slice (j * eb) 2 c) \<noteq> KSAMTIB_CIGAM_2SFFJ"
    using assms(1) unfolding fs_ends_def j by simp_all
  let ?b = "slice (j * eb) eb c"
  obtain f where f: "fuel = Suc f" using 0 by (cases fuel) simp_all
  have "length c = n * eb" using chip_geometry(2) [OF flash 0(2)] 0(3) by simp
  then have len: "length ?b = eb" using block_inside [OF fe(1), of eb] by simp
  have rd: "op_pread ops (j_dev s) (j_pos s) eb = Some ?b" using chip_geometry(4) [OF flash 0(2)] 0(3,5) by simp
  have "fld16 A ?b 0 = Some (native16_dec A (slice (j * eb) 2 c))" using len large by (simp add: fld16_def slice_slice)
  then show ?case using fe(2,3) rd len 0(6) by (simp add: f Let_def j statics_def)
next
  case (Suc x)
  then have j: "j < length old" by simp
  have fe: "j < n" "slice (j * eb) eb c = fs_block eb (old ! j)" "wf_block A eb (old ! j)" "old ! j \<noteq> []"
    using assms(1) j unfolding fs_ends_def by simp_all
  let ?b = "fs_block eb (old ! j)"
  obtain f where f: "fuel = Suc f" using Suc.prems(6) by (cases fuel) simp_all
  have len: "length ?b = eb" using fe(3) by (simp add: fs_block_length wf_block_def)
  have rd: "op_pread ops (j_dev s) (j_pos s) eb = Some ?b" using chip_geometry(4) [OF flash Suc.prems(1)] Suc.prems(2,4) fe(2) by simp
  have mg: "fld16 A ?b 0 = Some JFFS2_MAGIC_BITMASK" using fs_block_magic [OF fe(3,4)] len large by (simp add: fld16_def)
  have ps: "mtd_parse_jffs2data A pfuel ?b dir st = Inr (fold (num_step A dir) (old ! j) st)" for st
    using parse_fs_block [OF fe(3) aligned widths(1) assms(8)] .
  obtain t i v where st: "fold (num_step A dir) (old ! j) (statics s) = (t, i, v)" by (metis surj_pair)
  define s1 where "s1 = s\<lparr>j_buf := ?b, j_pos := Suc j * eb, j_mtdofs := Suc j * eb, target_ino := t, last_ino := i, last_version := v\<rparr>"
  have "JFFS2_MAGIC_BITMASK \<noteq> KSAMTIB_CIGAM_2SFFJ" by (simp add: JFFS2_MAGIC_BITMASK_def KSAMTIB_CIGAM_2SFFJ_def)
  then have run: "find_fs_end A ops g pfuel fuel dir s = find_fs_end A ops g pfuel f dir s1"
    using rd mg ps len st Suc.prems(4,5) by (simp add: f Let_def s1_def statics_def add.commute)
  have s1: "valid (j_dev s1)" "cells (j_dev s1) = c" "Suc j \<le> length old" "j_pos s1 = Suc j * eb" "j_mtdofs s1 = Suc j * eb" "length old - Suc j < f"
      "j_dev s1 = j_dev s" "statics s1 = fold (num_step A dir) (old ! j) (statics s)"
    using Suc.prems j f st by (simp_all add: s1_def statics_def)
  have "x = length old - Suc j" using Suc.hyps(2) by simp
  from Suc.hyps(1) [OF this s1(1-6)] show ?case using s1(7,8) run j by (simp add: Cons_nth_drop_Suc [symmetric])
qed

lemma write_jffs2_flash:
  assumes d: "devs s name = Some d" "valid d" "c0 = cells d" and fs: "fs_ends A n eb old (cells d)" "k0 = length old" and fuel: "eb + n < fuel"
    and f: "files filename = Some (st, Some evs)" "length dir < 256" "length (base_name filename) < 256"
    and nums: "nums = fold (num_step A dir) (concat old) (if dir = [] then 1 else 0, 0, 0)"
    and c': "place bad n eb (length old) (map (fs_block eb) (file_blocks A eb st evs dir (base_name filename) nums)) (cells d) = Some c'"
  shows "\<exists>d' s'. valid d' \<and> cells d' = c' \<and> mtd_write_jffs2 A ops fuel fixup mem files name filename dir s = (fst (after_fixup fixup d'), s') \<and>
    devs s' name = Some (snd (after_fixup fixup d'))"
proof -
  define s1 where "s1 = s\<lparr>mtdsize := n * eb, erasesize := eb, mtd_nand := nand\<rparr>"
  have op: "mtd_check_open ops name s = (Some d, s1)" using d(1) chip_geometry(3) [OF flash d(2)] by (simp add: mtd_check_open_def s1_def)
  have geo: "\<lparr>g_size = mtdsize s1, g_erase = erasesize s1, g_nand = mtd_nand s1\<rparr> = g" by (simp add: g_eq s1_def)
  define j0 where "j0 = (jffs2_start d (mem eb))\<lparr>target_ino := (if dir = [] then 1 else 0)\<rparr>"
  have j0: "j_dev j0 = d" "j_pos j0 = 0 * eb" "j_mtdofs j0 = 0 * eb" "statics j0 = (if dir = [] then 1 else 0, 0, 0)"
    by (simp_all add: j0_def jffs2_start_def statics_def)
  have old: "length old < n" using fs(1) by (simp add: fs_ends_def)
  obtain j1 where j1: "find_fs_end A ops g fuel fuel dir j0 = (Inr Fs_end, j1)" "j_dev j1 = d" "j_mtdofs j1 = Suc (length old) * eb" "length (j_buf j1) = eb"
      "statics j1 = nums"
    using find_fs_end_finds [OF fs(1), of j0 0 fuel fuel dir] d(2) fuel j0 old nums by auto
  define j2 where "j2 = j1\<lparr>j_mtdofs := j_mtdofs j1 - g_erase g, j_pos := j_mtdofs j1 - g_erase g, j_ofs := 0\<rparr>"
  have T: "T j2 ([], [])"
    using j1 d(2,3) fs(2) large by (auto simp: T_eq tracks_def j2_def intro!: exI [of _ "length old"])
  have st2: "statics j2 = nums" using j1(5) by (simp add: j2_def statics_def)
  define bs where "bs = file_blocks A eb st evs dir (base_name filename) nums"
  have R: "R bs" using c' d(3) fs(2) by (simp add: R_eq placeable_def bs_def)
  obtain t i v where num: "nums = (t, i, v)" by (metis surj_pair)
  obtain j3 where j3: "append_file A ops g fuel files filename dir j2 = (Inr (), j3)" "T j3 (bs, [])"
    using append_file_runs [where files = files and fuel = fuel, OF T st2 [unfolded num] f(2,3,1) _ _ R] fuel large by (auto simp: runs_def bs_def num)
  have dev: "valid (j_dev j3)" "cells (j_dev j3) = c'"
  proof -
    obtain k where "\<And>cs. place bad n eb k0 (map (fs_block eb) bs @ cs) c0 = place bad n eb k cs (cells (j_dev j3))" "valid (j_dev j3)"
      using j3(2) by (auto simp: T_eq tracks_def)
    from this(1) [of "[]"] this(2) show "valid (j_dev j3)" "cells (j_dev j3) = c'" using c' d(3) fs(2) by (simp_all add: bs_def)
  qed
  obtain r d2 where af: "after_fixup fixup (j_dev j3) = (r, d2)" by force
  have "mtd_write_jffs2 A ops fuel fixup mem files name filename dir s = (r, s1\<lparr>devs := (devs s1)(name \<mapsto> d2)\<rparr>)"
    unfolding mtd_write_jffs2_def op prod.case option.case Let_def geo g_simps(2) j0_def [symmetric]
    using j1(1) j3(1) af j2_def by (simp add: and_then_def)
  then show ?thesis using dev af by (intro exI [of _ "j_dev j3"]) simp
qed

end

lemma jffs2_write_places:
  assumes "chip ops valid cells n eb nand bad" "eb mod 4 = 0" "1024 \<le> eb" "eb < 2 ^ 31" "32 \<le> ulong_bits A"
    and "devs s name = Some d" "valid d" "fs_ends A n eb old (cells d)" "eb + n < fuel"
    and "files filename = Some (st, Some evs)" "length dir < 256" "length (base_name filename) < 256"
    and "nums = fold (num_step A dir) (concat old) (if dir = [] then 1 else 0, 0, 0)"
    and "place bad n eb (length old) (map (fs_block eb) (file_blocks A eb st evs dir (base_name filename) nums)) (cells d) = Some c'"
  shows "\<exists>d' s'. valid d' \<and> cells d' = c' \<and> mtd_write_jffs2 A ops fuel fixup mem files name filename dir s = (fst (after_fixup fixup d'), s') \<and>
    devs s' name = Some (snd (after_fixup fixup d'))"
proof -
  have "jffs2_flash ops valid cells n eb nand bad (length old) (cells d) A \<lparr>g_size = n * eb, g_erase = eb, g_nand = nand\<rparr>
      (tracks valid cells n eb bad (length old) (cells d)) (placeable n eb bad (length old) (cells d))"
    using assms(1-5) by unfold_locales simp_all
  from jffs2_flash.write_jffs2_flash [where files = files, OF this assms(6,7) refl assms(8) refl assms(9-14)] show ?thesis .
qed

section \<open>The nodes that are written\<close>

lemma hdr_enc_length [simp]: "length (hdr_enc A h) = 8"
  by (simp add: hdr_enc_def)

lemma header_ok:
  assumes x: "x = hdr_enc A h @ native32_enc A (mtd_crc32 0 (hdr_enc A h)) @ r" and h: "magic h = 0x1985" "totlen h = of_nat (length x)" "length x < 2 ^ 31"
  shows "node_ok A x" "node_len A x = length x" "node_type A x = nodetype h"
proof -
  have s: "slice 0 2 x = native16_enc A (magic h)" "slice 2 2 x = native16_enc A (nodetype h)" "slice 4 4 x = native32_enc A (totlen h)"
      "slice 8 4 x = native32_enc A (mtd_crc32 0 (hdr_enc A h))" "take 8 x = hdr_enc A h" "12 \<le> length x"
    by (simp_all add: x hdr_enc_def slice_append_left slice_append_right slice_all)
  show len: "node_len A x = length x" using h by (simp add: node_len_def s(3) unat_small32)
  show "node_ok A x" using h(1) s len by (simp add: node_ok_def)
  show "node_type A x = nodetype h" by (simp add: node_type_def s(2))
qed

lemma dirent_node_facts:
  assumes "length name < 256" "0 \<notin> set name" "nd = dirent_node A name type parent ino version"
  shows "wf_node A nd" "dirent_ok A nd" "node_type A nd = JFFS2_NODETYPE_DIRENT" "native32_dec A (slice 12 4 nd) = parent" "native32_dec A (slice 20 4 nd) = ino"
    "native32_dec A (slice 16 4 nd) = version" "drop 40 nd = name"
proof -
  define de where "de = new_dirent A name type parent ino version"
  let ?f = "hdr_enc A de @ native32_enc A (mtd_crc32 0 (hdr_enc A de)) @ native32_enc A parent @ native32_enc A version @ native32_enc A ino @
    native32_enc A 0 @ [of_nat (length name), type, 0, 0]"
  have de: "magic de = 0x1985" "nodetype de = JFFS2_NODETYPE_DIRENT" "totlen de = of_nat (40 + length name)"
    by (simp_all add: de_def new_dirent_def Let_def JFFS2_MAGIC_BITMASK_def)
  have nd: "nd = ?f @ native32_enc A (mtd_crc32 0 ?f) @ native32_enc A (mtd_crc32 0 name) @ name"
    unfolding assms(3) dirent_node_def de_def by (simp add: new_dirent_def Let_def dirent_enc_def dirent_zero_def hdr_enc_def)
  define F where "F = ?f"
  have F: "nd = F @ native32_enc A (mtd_crc32 0 F) @ native32_enc A (mtd_crc32 0 name) @ name" "length F = 32" using nd by (simp_all add: F_def)
  have len: "length nd = 40 + length name" by (simp add: F)
  have hd: "node_ok A nd" "node_len A nd = length nd" "node_type A nd = nodetype de"
    by (rule header_ok [of nd A de "drop 12 nd"]; use de len assms(1) in \<open>simp add: nd\<close>)+
  have sl: "slice 12 4 nd = native32_enc A parent" "slice 16 4 nd = native32_enc A version" "slice 20 4 nd = native32_enc A ino"
    by (simp_all add: nd slice_append_left slice_append_right slice_all)
  have crc: "slice 32 4 nd = native32_enc A (mtd_crc32 0 F)" "slice 36 4 nd = native32_enc A (mtd_crc32 0 name)" "take 32 nd = F"
    by (simp_all add: F slice_append_left slice_append_right slice_all)
  have n28: "nd ! 28 = of_nat (length name)" by (simp add: nd nth_append)
  show nm: "drop 40 nd = name" by (simp add: F)
  show ty: "node_type A nd = JFFS2_NODETYPE_DIRENT" using hd(3) de(2) by simp
  have "unat (nd ! 28) = length name" unfolding n28 using assms(1) by (simp add: unat_of_nat)
  then show ok: "dirent_ok A nd" using ty nm len by (simp add: dirent_ok_def crc)
  show "wf_node A nd" using hd ok nm assms(1,2) len by (simp add: wf_node_def)
  show "native32_dec A (slice 12 4 nd) = parent" "native32_dec A (slice 20 4 nd) = ino" "native32_dec A (slice 16 4 nd) = version"
    by (simp_all add: sl)
qed

text \<open>An inode without its two checksums at the end.\<close>

definition inode_front :: "abi \<Rightarrow> jffs2_raw_inode \<Rightarrow> bytes" where
  "inode_front A ri = hdr_enc A ri @ native32_enc A (hdr_crc ri) @ native32_enc A (ri_ino ri) @ native32_enc A (ri_version ri) @
     native32_enc A (ri_mode ri) @ native16_enc A (ri_uid ri) @ native16_enc A (ri_gid ri) @ native32_enc A (ri_isize ri) @
     native32_enc A (ri_atime ri) @ native32_enc A (ri_mtime ri) @ native32_enc A (ri_ctime ri) @ native32_enc A (ri_offset ri) @
     native32_enc A (ri_csize ri) @ native32_enc A (ri_dsize ri) @ [ri_compr ri, ri_usercompr ri] @ native16_enc A (ri_flags ri)"

lemma inode_front_length [simp]: "length (inode_front A ri) = 60"
  by (simp add: inode_front_def hdr_enc_def)

lemma inode_enc_front: "inode_enc A ri = inode_front A ri @ native32_enc A (ri_data_crc ri) @ native32_enc A (ri_node_crc ri)"
  by (simp add: inode_enc_def inode_front_def)

lemma inode_node_facts:
  assumes "nd = inode_enc A ri @ c" "magic ri = 0x1985" "nodetype ri = JFFS2_NODETYPE_INODE" "totlen ri = of_nat (68 + length c)"
    "hdr_crc ri = mtd_crc32 0 (hdr_enc A ri)" "ri_node_crc ri = mtd_crc32 0 (inode_front A ri)" "68 + length c < 2 ^ 31"
  shows "wf_node A nd" "node_type A nd = JFFS2_NODETYPE_INODE" "native32_dec A (slice 12 4 nd) = ri_ino ri" "\<not> dirent_ok A nd"
    "ri_data_crc ri = mtd_crc32 0 c \<Longrightarrow> ri_compr ri = 0 \<Longrightarrow> ri_dsize ri = of_nat (length c) \<Longrightarrow> inode_ok A nd"
    "native32_dec A (slice 44 4 nd) = ri_offset ri" "drop 68 nd = c"
proof -
  have nd: "nd = inode_front A ri @ native32_enc A (ri_data_crc ri) @ native32_enc A (ri_node_crc ri) @ c" using assms(1) by (simp add: inode_enc_front)
  have len: "length nd = 68 + length c" by (simp add: nd)
  have hd: "node_ok A nd" "node_len A nd = length nd" "node_type A nd = nodetype ri"
    by (rule header_ok [of nd A ri "drop 12 nd"]; use assms len in \<open>simp add: nd inode_front_def\<close>)+
  have differ: "JFFS2_NODETYPE_INODE \<noteq> JFFS2_NODETYPE_DIRENT" by (simp add: JFFS2_NODETYPE_INODE_def JFFS2_NODETYPE_DIRENT_def)
  then show "wf_node A nd" "node_type A nd = JFFS2_NODETYPE_INODE" "\<not> dirent_ok A nd" using hd assms(3,7) len by (simp_all add: wf_node_def dirent_ok_def)
  have f: "slice p 4 nd = slice p 4 (inode_front A ri)" if "p + 4 \<le> 60" for p using that unfolding nd by (simp add: slice_append_left)
  show "native32_dec A (slice 12 4 nd) = ri_ino ri" "native32_dec A (slice 44 4 nd) = ri_offset ri"
    by (simp_all add: f inode_front_def slice_append_left slice_append_right slice_all)
  show dr: "drop 68 nd = c" by (simp add: nd)
  assume a: "ri_data_crc ri = mtd_crc32 0 c" "ri_compr ri = 0" "ri_dsize ri = of_nat (length c)"
  have "slice 52 4 nd = native32_enc A (ri_dsize ri)" by (simp add: f inode_front_def slice_append_left slice_append_right slice_all)
  moreover have "nd ! 56 = 0" by (simp add: nd nth_append) (simp add: inode_front_def nth_append a(2))
  moreover have "slice 60 4 nd = native32_enc A (mtd_crc32 0 c)" "slice 64 4 nd = native32_enc A (mtd_crc32 0 (inode_front A ri))" "take 60 nd = inode_front A ri"
    using a(1) assms(6) by (simp_all add: nd slice_append_left slice_append_right slice_all)
  ultimately show "inode_ok A nd" using hd(3) assms(3,7) a(3) len dr by (simp add: inode_ok_def unat_small32)
qed

lemma take_inode: "take 8 (inode_enc A ri) = hdr_enc A ri" "take 60 (inode_enc A ri) = inode_front A ri"
  by (simp add: inode_enc_def, simp add: inode_enc_front)

definition base_inode :: "u32 \<Rightarrow> jffs2_raw_inode \<Rightarrow> bool" where
  "base_inode ino ri \<longleftrightarrow> magic ri = 0x1985 \<and> nodetype ri = JFFS2_NODETYPE_INODE \<and> ri_ino ri = ino \<and> ri_compr ri = 0"

lemma base_inode_file: "base_inode ino (file_inode st ino)"
  by (simp add: base_inode_def file_inode_def inode_zero_def JFFS2_MAGIC_BITMASK_def)

lemma data_inode_facts:
  assumes "base_inode ino ri" "68 + length c < 2 ^ 31" "r = data_inode A ri version f_offset c"
  shows "base_inode ino r" "wf_node A (inode_enc A r @ c)" "\<not> dirent_ok A (inode_enc A r @ c)" "inode_ok A (inode_enc A r @ c)"
    "native32_dec A (slice 12 4 (inode_enc A r @ c)) = ino" "native32_dec A (slice 44 4 (inode_enc A r @ c)) = f_offset"
proof -
  have r: "magic r = magic ri" "nodetype r = nodetype ri" "totlen r = of_nat (68 + length c)" "hdr_crc r = mtd_crc32 0 (hdr_enc A r)"
      "ri_node_crc r = mtd_crc32 0 (inode_front A r)" "ri_data_crc r = mtd_crc32 0 c" "ri_compr r = ri_compr ri" "ri_dsize r = of_nat (length c)"
      "ri_offset r = f_offset" "ri_ino r = ri_ino ri"
    unfolding assms(3) by (simp_all add: data_inode_def Let_def take_inode hdr_enc_def inode_front_def)
  show b: "base_inode ino r" using r assms(1) by (simp add: base_inode_def)
  note f = inode_node_facts [OF refl _ _ r(3,4,5) assms(2)]
  show "wf_node A (inode_enc A r @ c)" "\<not> dirent_ok A (inode_enc A r @ c)" "inode_ok A (inode_enc A r @ c)"
      "native32_dec A (slice 12 4 (inode_enc A r @ c)) = ino" "native32_dec A (slice 44 4 (inode_enc A r @ c)) = f_offset"
    using f b r by (simp_all add: base_inode_def)
qed

lemma dir_node_facts: "wf_node A (dir_node A ino)" "\<not> dirent_ok A (dir_node A ino)" "native32_dec A (slice 12 4 (dir_node A ino)) = ino"
proof -
  define ri where "ri = inode_zero\<lparr>magic := JFFS2_MAGIC_BITMASK, nodetype := JFFS2_NODETYPE_INODE, totlen := 68\<rparr>"
  define ri1 where "ri1 = ri\<lparr>hdr_crc := mtd_crc32 0 (take 8 (inode_enc A ri)), ri_ino := ino, ri_mode := S_IFDIR OR 0x1ed, ri_version := 1\<rparr>"
  define r where "r = ri1\<lparr>ri_node_crc := mtd_crc32 0 (take 60 (inode_enc A ri1))\<rparr>"
  have nd: "dir_node A ino = inode_enc A r @ []" by (simp add: dir_node_def Let_def r_def ri1_def ri_def)
  have "magic r = 0x1985" "nodetype r = JFFS2_NODETYPE_INODE" "totlen r = of_nat (68 + length ([] :: bytes))" "hdr_crc r = mtd_crc32 0 (hdr_enc A r)"
      "ri_node_crc r = mtd_crc32 0 (inode_front A r)" "ri_ino r = ino"
    by (simp_all add: r_def ri1_def ri_def take_inode hdr_enc_def inode_front_def JFFS2_MAGIC_BITMASK_def)
  then show "wf_node A (dir_node A ino)" "\<not> dirent_ok A (dir_node A ino)" "native32_dec A (slice 12 4 (dir_node A ino)) = ino"
    using inode_node_facts [OF nd] by simp_all
qed

lemma cleanmarker_crc: "mtd_crc32 0 [0x85, 0x19, 0x03, 0x20, 0x0c, 0x00, 0x00, 0x00] = 0xe41eb0b1"
    "mtd_crc32 0 [0x19, 0x85, 0x20, 0x03, 0x00, 0x00, 0x00, 0x0c] = 0xf060dc98"
  by code_simp+

lemma cleanmarker_facts: "wf_node A (CLEANMARKER A)" "\<not> dirent_ok A (CLEANMARKER A)" "\<not> inode_ok A (CLEANMARKER A)"
proof -
  have h: "CLEANMARKER A = hdr_enc A (\<lparr>magic = 0x1985, nodetype = 0x2003, totlen = 12, hdr_crc = 0\<rparr>) @
      native32_enc A (mtd_crc32 0 (hdr_enc A (\<lparr>magic = 0x1985, nodetype = 0x2003, totlen = 12, hdr_crc = 0\<rparr>))) @ []"
  proof (cases "big_endian A")
    case True
    have "hdr_enc A (\<lparr>magic = 0x1985, nodetype = 0x2003, totlen = 12, hdr_crc = 0\<rparr>) = [0x19, 0x85, 0x20, 0x03, 0x00, 0x00, 0x00, 0x0c]"
      using True by (simp add: hdr_enc_def native16_enc_def native32_enc_def le16_enc_def be32_enc_def le32_enc_def)
    then show ?thesis using True by (simp add: CLEANMARKER_def cleanmarker_crc native32_enc_def be32_enc_def le32_enc_def)
  next
    case False
    have "hdr_enc A (\<lparr>magic = 0x1985, nodetype = 0x2003, totlen = 12, hdr_crc = 0\<rparr>) = [0x85, 0x19, 0x03, 0x20, 0x0c, 0x00, 0x00, 0x00]"
      using False by (simp add: hdr_enc_def native16_enc_def native32_enc_def le16_enc_def le32_enc_def)
    then show ?thesis using False by (simp add: CLEANMARKER_def cleanmarker_crc native32_enc_def le32_enc_def)
  qed
  have l: "length (CLEANMARKER A) = 12" by (simp add: CLEANMARKER_def)
  note f = header_ok [OF h]
  have "(0x2003 :: u16) \<noteq> JFFS2_NODETYPE_DIRENT" by (simp add: JFFS2_NODETYPE_DIRENT_def)
  then show "wf_node A (CLEANMARKER A)" using f l by (simp add: wf_node_def)
  show "\<not> dirent_ok A (CLEANMARKER A)" "\<not> inode_ok A (CLEANMARKER A)" using l by (simp_all add: dirent_ok_def inode_ok_def)
qed

section \<open>The log read back\<close>

text \<open>The nodes of a log; \<open>good_log\<close>: its blocks can be scanned, and only the current one may be empty.\<close>

definition log_nodes :: "log \<Rightarrow> bytes list" where
  "log_nodes lg = concat (fst lg) @ snd lg"

definition good_log :: "abi \<Rightarrow> nat \<Rightarrow> log \<Rightarrow> bool" where
  "good_log A eb lg \<longleftrightarrow> (\<forall>ns\<in>set (fst lg). wf_block A eb ns \<and> ns \<noteq> []) \<and> wf_block A eb (snd lg) \<and> length (render (snd lg)) < eb"

fun file_bytes :: "rd list \<Rightarrow> bytes" where
  "file_bytes [] = []"
| "file_bytes (Chunk c # evs) = (if c = [] then [] else c @ file_bytes evs)"
| "file_bytes (_ # evs) = []"

lemma fd_read_file_bytes:
  assumes "fd_read m evs = (ev, evs')" "0 < m"
  shows "file_bytes evs = (case ev of Chunk c \<Rightarrow> if c = [] then [] else c @ file_bytes evs' | _ \<Rightarrow> [])"
  using assms by (cases "(m, evs)" rule: fd_read.cases) (auto split: if_splits)

lemma good_log_flush: "good_log A eb lg \<Longrightarrow> good_log A eb (log_flush lg) \<and> log_nodes (log_flush lg) = log_nodes lg"
  by (auto simp: good_log_def log_flush_def log_nodes_def wf_block_def)

lemma good_log_prep:
  assumes "good_log A eb lg" "1024 \<le> eb"
  shows "good_log A eb (log_prep A lg) \<and> (log_nodes (log_prep A lg) = log_nodes lg \<or> log_nodes (log_prep A lg) = log_nodes lg @ [CLEANMARKER A])"
proof -
  have "length (render [CLEANMARKER A]) = 12" by (simp add: CLEANMARKER_def align4_def)
  then show ?thesis using assms cleanmarker_facts(1) [of A] by (auto simp: good_log_def log_prep_def log_nodes_def wf_block_def)
qed

lemma good_log_node:
  assumes "good_log A eb lg" "wf_node A nd" "length (render (snd lg)) + align4 (length nd) \<le> eb" "1024 \<le> eb"
  shows "good_log A eb (log_node eb nd lg)" "log_nodes (log_node eb nd lg) = log_nodes lg @ [nd]"
  using assms by (auto simp: good_log_def log_node_def log_nodes_def wf_block_def Let_def)

lemma good_log_room:
  assumes "good_log A eb lg" "1024 \<le> eb"
  shows "good_log A eb (log_room A eb lg) \<and> (log_nodes (log_room A eb lg) = log_nodes lg \<or> log_nodes (log_room A eb lg) = log_nodes lg @ [CLEANMARKER A]) \<and>
    196 < log_left eb (log_room A eb lg)"
proof (cases "log_left eb lg > 196")
  case False
  have "snd (log_prep A (log_flush lg)) = [CLEANMARKER A]" by (simp add: log_prep_def log_flush_def)
  then have "log_left eb (log_prep A (log_flush lg)) = eb - 12" by (simp add: log_left_def CLEANMARKER_def align4_def)
  then show ?thesis using False good_log_prep [of A eb "log_flush lg"] good_log_flush [OF assms(1)] assms(2) by (auto simp: log_room_def)
qed (use assms in \<open>simp add: log_room_def\<close>)

lemma steps_cleanmarker: "dir_step A p nm (CLEANMARKER A) r = r" "inode_step A ino (CLEANMARKER A) c = c"
  using cleanmarker_facts [of A] by (simp_all add: dir_step_def inode_step_def)

lemma log_file_reads:
  assumes "good_log A eb lg" "1024 \<le> eb" "eb mod 4 = 0" "eb < 2 ^ 31" "base_inode ino ri" "fold (inode_step A ino) (log_nodes lg) b = c"
    "length c = unat off" "length c + length (file_bytes evs) < 2 ^ 32"
  shows "good_log A eb (log_file A eb ri off ver evs lg) \<and> fold (inode_step A ino) (log_nodes (log_file A eb ri off ver evs lg)) b = c @ file_bytes evs \<and>
    fold (dir_step A p nm) (log_nodes (log_file A eb ri off ver evs lg)) r = fold (dir_step A p nm) (log_nodes lg) r"
  using assms
proof (induction "rd_size evs" arbitrary: ri off ver evs lg c rule: less_induct)
  case less
  let ?lg1 = "log_room A eb lg"
  let ?len = "log_left eb ?lg1 - 68"
  obtain ev evs' where rd: "fd_read (min ?len 4096) evs = (ev, evs')" by force
  have room: "good_log A eb ?lg1" "196 < log_left eb ?lg1" "fold (inode_step A ino) (log_nodes ?lg1) b = c"
      "fold (dir_step A p nm) (log_nodes ?lg1) r = fold (dir_step A p nm) (log_nodes lg) r"
    using good_log_room [OF less.prems(1,2)] less.prems(6) steps_cleanmarker by auto
  have fb: "file_bytes evs = (case ev of Chunk c \<Rightarrow> if c = [] then [] else c @ file_bytes evs' | _ \<Rightarrow> [])"
    using fd_read_file_bytes [OF rd] room(2) by simp
  show ?case
  proof (cases "\<exists>c1. ev = Chunk c1 \<and> c1 \<noteq> []")
    case True
    then obtain c1 where c1: "ev = Chunk c1" "c1 \<noteq> []" by blast
    define ri1 where "ri1 = data_inode A ri (ver + 1) off c1"
    let ?nd = "inode_enc A ri1 @ c1"
    let ?lg2 = "log_node eb ?nd ?lg1"
    let ?off = "off + of_nat (length c1)"
    have small: "rd_size evs' < rd_size evs" using fd_read_less [OF rd] room(2) c1 by simp
    have fit: "length (render (snd ?lg1)) + align4 (68 + length c1) \<le> eb"
      using frag_fits [of eb ?lg1 evs c1 evs'] rd c1 room less.prems(3) by (simp add: good_log_def)
    then have len: "68 + length c1 < 2 ^ 31" using align4_facts(1) [of "68 + length c1"] less.prems(4) by linarith
    note d = data_inode_facts [OF less.prems(5) len ri1_def]
    have "length ?nd = 68 + length c1" by (simp add: inode_enc_front)
    then have lg2: "good_log A eb ?lg2" "log_nodes ?lg2 = log_nodes ?lg1 @ [?nd]"
      using good_log_node [OF room(1) d(2) _ less.prems(2)] fit by simp_all
    have drop: "drop 68 ?nd = c1" by (simp add: inode_enc_front)
    have "inode_step A ino ?nd c = c @ c1" using d(4-6) less.prems(7) drop by (simp add: inode_step_def put_def Let_def)
    moreover have "dir_step A p nm ?nd x = x" for x using d(3) by (simp add: dir_step_def)
    ultimately have folds: "fold (inode_step A ino) (log_nodes (log_prep A ?lg2)) b = c @ c1"
        "fold (dir_step A p nm) (log_nodes (log_prep A ?lg2)) r = fold (dir_step A p nm) (log_nodes lg) r"
      using good_log_prep [OF lg2(1) less.prems(2)] lg2(2) room(3,4) steps_cleanmarker by auto
    have sum: "length c + length c1 + length (file_bytes evs') < 2 ^ 32" using less.prems(8) fb c1 by simp
    have "unat ?off = (unat off + length c1) mod 2 ^ 32" by (simp add: unat_word_ariths(1) unat_of_nat mod_add_right_eq)
    then have off: "length (c @ c1) = unat ?off" using sum less.prems(7) by simp
    have "?len \<noteq> 0" using room(2) by linarith
    then have lf: "log_file A eb ri off ver evs lg = log_file A eb ri1 ?off (ver + 1) evs' (log_prep A ?lg2)"
      using rd c1 by (simp add: log_file.simps [of A eb ri off ver evs lg] Let_def ri1_def)
    have "good_log A eb (log_prep A ?lg2)" using good_log_prep [OF lg2(1) less.prems(2)] by blast
    from less.hyps [OF small this less.prems(2-4) d(1) folds(1) off] sum show ?thesis using fb c1 folds(2) lf by simp
  next
    case False
    then have "log_file A eb ri off ver evs lg = ?lg1" "file_bytes evs = []"
      using rd fb by (cases ev; auto simp: log_file.simps [of A eb ri off ver evs lg] Let_def)+
    then show ?thesis using room by simp
  qed
qed

text \<open>The first nodes, for a file and the directory it is in.\<close>

lemma first_nodes_read:
  assumes first: "first_nodes A dir fname (t, i0, v) = ((parent, ino, ver), ns)" and n: "length dir < 256" "length fname < 256" "0 \<notin> set dir" "0 \<notin> set fname"
    and eb: "1024 \<le> eb"
  shows "good_log A eb ([], ns)" "fold (inode_step A ino) ns c = c" "fold (dir_step A parent fname) ns r = Some ino"
    "t = 0 \<Longrightarrow> fold (dir_step A 1 dir) ns r = Some parent"
proof -
  define i where "i = (if i0 = 0 then 1 else i0)"
  have i: "i \<noteq> 0" by (simp add: i_def)
  have no: "inode_step A k (dirent_node A nm type p x y) c = c" if "length nm < 256" "0 \<notin> set nm" for nm type p x y k c
    using dirent_node_facts(3) [OF that refl, of A type p x y]
    by (simp add: inode_step_def inode_ok_def JFFS2_NODETYPE_INODE_def JFFS2_NODETYPE_DIRENT_def)
  have yes: "dir_step A q nm' (dirent_node A nm type p x y) r = (if q = p \<and> nm = nm' then Some x else r)" if "length nm < 256" "0 \<notin> set nm" for nm nm' type p x y q r
    using dirent_node_facts [OF that refl, of A type p x y] by (auto simp: dir_step_def)
  have dn: "dir_step A q nm (dir_node A x) r = r" for q nm x r using dir_node_facts(2) [of A x] by (simp add: dir_step_def)
  have dl: "inode_step A (3 + i) (dir_node A (i + 1)) c = c" for c using dir_node_facts(3) [of A "i + 1"] by (simp add: inode_step_def add.commute [of i])
  have al: "align4 (40 + length dir) < 300" "align4 (40 + length fname) < 300" "align4 68 = 68" "align4 12 = 12"
    using align4_facts(2) [of "40 + length dir"] align4_facts(2) [of "40 + length fname"] n by (simp_all add: align4_def)
  have ln: "length (CLEANMARKER A) = 12" "length (dir_node A x) = 68" "length (dirent_node A nm type p x y) = 40 + length nm" for x nm type p y
    by (simp_all add: CLEANMARKER_def dir_node_def dirent_node_def Let_def inode_enc_front dirent_enc_def hdr_enc_def)
  have wf: "wf_node A (dirent_node A dir type p x y)" "wf_node A (dirent_node A fname type p x y)" for type p x y
    using dirent_node_facts(1) [OF n(1,3) refl] dirent_node_facts(1) [OF n(2,4) refl] by blast+
  have "good_log A eb ([], ns) \<and> fold (inode_step A ino) ns c = c \<and> fold (dir_step A parent fname) ns r = Some ino \<and>
      (t = 0 \<longrightarrow> fold (dir_step A 1 dir) ns r = Some parent)"
  proof (cases "t = 0")
    case True
    then have f: "parent = i + 1" "ino = i + 1 + 2"
        "ns = [CLEANMARKER A, dirent_node A dir DT_DIR 1 (i + 1) v, dir_node A (i + 1), dirent_node A fname DT_REG (i + 1) (i + 1 + 2) (v + 1)]"
      using first by (auto simp: first_nodes_def Let_def i_def add.assoc)
    have "i + 1 \<noteq> 1" using i by simp
    then show ?thesis
      using al eb wf cleanmarker_facts(1) [of A] dir_node_facts(1) [of A "i + 1"] unfolding f
      by (simp add: good_log_def wf_block_def steps_cleanmarker no [OF n(1,3)] no [OF n(2,4)] yes [OF n(1,3)] yes [OF n(2,4)] dn dl ln)
  next
    case False
    then have f: "parent = t" "ino = i + 1" "ns = [CLEANMARKER A, dirent_node A fname DT_REG t (i + 1) v]"
      using first by (auto simp: first_nodes_def Let_def i_def)
    then show ?thesis
      using False al eb wf cleanmarker_facts(1) [of A] unfolding f
      by (simp add: good_log_def wf_block_def steps_cleanmarker no [OF n(2,4)] yes [OF n(2,4)] ln)
  qed
  then show "good_log A eb ([], ns)" "fold (inode_step A ino) ns c = c" "fold (dir_step A parent fname) ns r = Some ino"
      "t = 0 \<Longrightarrow> fold (dir_step A 1 dir) ns r = Some parent" by blast+
qed

lemma file_blocks_read:
  assumes "eb mod 4 = 0" "1024 \<le> eb" "eb < 2 ^ 31" "length dir < 256" "length fname < 256" "0 \<notin> set dir" "0 \<notin> set fname"
    and "length (file_bytes evs) < 2 ^ 32" "first_nodes A dir fname (t, i, v) = ((parent, ino, ver), ns)" "inode_data A ino pre = []"
  obtains bs where "file_blocks A eb st evs dir fname (t, i, v) = bs @ [[JFFS2_EOF]]" "\<And>b. b \<in> set bs \<Longrightarrow> wf_block A eb b \<and> b \<noteq> []"
    "inode_data A ino (pre @ concat bs) = file_bytes evs" "dir_lookup A parent fname (pre @ concat bs) = Some ino"
    "t = 0 \<Longrightarrow> dir_lookup A 1 dir (pre @ concat bs) = Some parent"
proof -
  define lg where "lg = log_file A eb (file_inode st ino) 0 ver evs ([], ns)"
  note first = first_nodes_read [OF assms(9,4-7,2)]
  have c: "fold (inode_step A ino) (log_nodes ([], ns)) (inode_data A ino pre) = []" using first(2) assms(10) by (simp add: log_nodes_def)
  have lg: "good_log A eb lg" "fold (inode_step A ino) (log_nodes lg) (inode_data A ino pre) = file_bytes evs"
      "\<And>p nm r. fold (dir_step A p nm) (log_nodes lg) r = fold (dir_step A p nm) ns r"
    using log_file_reads [OF first(1) assms(2,1,3) base_inode_file c, of 0 evs st ver] assms(8) by (simp_all add: lg_def log_nodes_def)
  define bs where "bs = fst (log_flush lg)"
  have "snd (log_flush lg) = []" by (simp add: log_flush_def)
  then have nodes: "concat bs = log_nodes lg" "\<And>b. b \<in> set bs \<Longrightarrow> wf_block A eb b \<and> b \<noteq> []"
    using good_log_flush [OF lg(1)] by (simp_all add: bs_def log_nodes_def good_log_def)
  show thesis
  proof (rule that)
    show "file_blocks A eb st evs dir fname (t, i, v) = bs @ [[JFFS2_EOF]]" using assms(9) by (simp add: file_blocks_def bs_def lg_def)
    show "b \<in> set bs \<Longrightarrow> wf_block A eb b \<and> b \<noteq> []" for b by (rule nodes(2))
    show "inode_data A ino (pre @ concat bs) = file_bytes evs" using lg(2) by (simp add: nodes(1) inode_data_def)
    show "dir_lookup A parent fname (pre @ concat bs) = Some ino" using lg(3) first(3) by (simp add: nodes(1) dir_lookup_def)
    show "t = 0 \<Longrightarrow> dir_lookup A 1 dir (pre @ concat bs) = Some parent" using lg(3) first(4) by (simp add: nodes(1) dir_lookup_def)
  qed
qed

section \<open>The file system in flash\<close>

text \<open>Reading a device from the start: its good blocks, up to one without nodes.\<close>

fun read_fs :: "abi \<Rightarrow> nat \<Rightarrow> (nat \<Rightarrow> bool) \<Rightarrow> bytes \<Rightarrow> nat list \<Rightarrow> bytes list" where
  "read_fs A eb bad c [] = []"
| "read_fs A eb bad c (j # js) =
     (if bad j then read_fs A eb bad c js
      else let ns = scan A (slice (j * eb) eb c) in if ns = [] then [] else ns @ read_fs A eb bad c js)"

lemma read_fs_place:
  assumes "\<And>b. b \<in> set bs \<Longrightarrow> wf_block A eb b \<and> b \<noteq> []" "1024 \<le> eb"
  shows "place bad n eb k (map (fs_block eb) (bs @ [[JFFS2_EOF]])) c = Some c' \<Longrightarrow> length c = n * eb \<Longrightarrow> read_fs A eb bad c' [k..<n] = concat bs"
  using assms(1)
proof (induction "n - k" arbitrary: k bs c)
  case 0
  then show ?case by (cases bs) auto
next
  case (Suc m)
  then have k: "k < n" by simp
  have up: "[k..<n] = k # [Suc k..<n]" using k by (simp add: upt_conv_Cons)
  obtain b bs' where b: "bs @ [[JFFS2_EOF]] = b # bs'" by (cases bs) auto
  have len: "length (fs_block eb x) = eb" if "x \<in> set (bs @ [[JFFS2_EOF]])" for x
    using that Suc.prems(3) assms(2) by (auto simp: wf_block_def JFFS2_EOF_def align4_def intro!: fs_block_length)
  show ?case
  proof (cases "bad k")
    case True
    then have "place bad n eb (Suc k) (map (fs_block eb) (bs @ [[JFFS2_EOF]])) c = Some c'" using Suc.prems(1) unfolding b by (simp add: up)
    then show ?thesis using Suc True by (simp add: up)
  next
    case False
    then have pl: "place bad n eb (Suc k) (map (fs_block eb) bs') (put (k * eb) (fs_block eb b) c) = Some c'"
      using Suc.prems(1) unfolding b by (simp add: up)
    have bl: "length (fs_block eb b) = eb" "\<And>x. x \<in> set (map (fs_block eb) bs') \<Longrightarrow> length x = eb" using len b by auto
    have sl: "slice (k * eb) eb c' = fs_block eb b" using place_slice [OF pl Suc.prems(2) k bl] .
    have lp: "length (put (k * eb) (fs_block eb b) c) = n * eb" using block_inside [OF k, of eb] Suc.prems(2) bl by simp
    show ?thesis
    proof (cases bs)
      case Nil
      then show ?thesis using b sl scan_eof False by (simp add: up)
    next
      case (Cons x xs)
      then have x: "x = b" "bs' = xs @ [[JFFS2_EOF]]" using b by auto
      have "read_fs A eb bad c' [Suc k..<n] = concat xs"
        using Suc.hyps(2) Suc.prems(3) k pl lp Cons x by (intro Suc.hyps(1) [of "Suc k" xs "put (k * eb) (fs_block eb b) c"]) simp_all
      moreover have "scan A (fs_block eb b) = b" "b \<noteq> []" using scan_fs_block Suc.prems(3) [of b] Cons x by auto
      ultimately show ?thesis using sl False Cons x by (simp add: up)
    qed
  qed
qed

lemma read_fs_old:
  assumes "fs_ends A n eb old c" "\<And>j. j < length old \<Longrightarrow> \<not> bad j" "take (length old * eb) c' = take (length old * eb) c"
  shows "read_fs A eb bad c' [0..<n] = concat old @ read_fs A eb bad c' [length old..<n]"
proof -
  have "read_fs A eb bad c' [j..<n] = concat (drop j old) @ read_fs A eb bad c' [length old..<n]" if "j \<le> length old" for j
    using that
  proof (induction "length old - j" arbitrary: j)
    case (Suc m)
    then have j: "j < length old" by simp
    then have fe: "j < n" "slice (j * eb) eb c = fs_block eb (old ! j)" "wf_block A eb (old ! j)" "old ! j \<noteq> []"
      using assms(1) unfolding fs_ends_def by simp_all
    have "slice (j * eb) eb (take (length old * eb) x) = slice (j * eb) eb x" for x :: bytes
      using block_inside [OF j, of eb] by (simp add: slice_def drop_take min_def)
    then have "slice (j * eb) eb c' = fs_block eb (old ! j)" using assms(3) fe(2) by metis
    then have "scan A (slice (j * eb) eb c') = old ! j" using scan_fs_block [OF fe(3)] by simp
    moreover have "read_fs A eb bad c' [Suc j..<n] = concat (drop (Suc j) old) @ read_fs A eb bad c' [length old..<n]" using Suc j by simp
    ultimately show ?case using fe(1,4) assms(2) [OF j] j by (simp add: upt_conv_Cons Cons_nth_drop_Suc [symmetric])
  qed simp
  from this [of 0] show ?thesis by simp
qed

text \<open>The inode number of a new file is above all that the directory entries before it have.\<close>

lemma num_step_max: "fold (num_step A dir) ns (t, i, v) = (t', i', v') \<Longrightarrow>
    i \<le> i' \<and> (\<forall>nd\<in>set ns. node_type A nd = JFFS2_NODETYPE_DIRENT \<longrightarrow> native32_dec A (slice 20 4 nd) \<le> i')"
proof (induction ns arbitrary: t i v)
  case (Cons nd ns)
  obtain t1 i1 v1 where st: "num_step A dir nd (t, i, v) = (t1, i1, v1)" by (metis surj_pair)
  then have "i \<le> i1" "node_type A nd = JFFS2_NODETYPE_DIRENT \<Longrightarrow> native32_dec A (slice 20 4 nd) \<le> i1"
    by (auto simp: num_step_def Let_def split: if_splits)
  then show ?case using Cons.IH [of t1 i1 v1] Cons.prems st by (auto intro: order_trans)
qed simp

definition inodes_named :: "abi \<Rightarrow> bytes list \<Rightarrow> bool" where
  "inodes_named A ns \<longleftrightarrow> (\<forall>nd\<in>set ns. inode_ok A nd \<longrightarrow> native32_dec A (slice 12 4 nd) = 1 \<or>
     (\<exists>de\<in>set ns. node_type A de = JFFS2_NODETYPE_DIRENT \<and> native32_dec A (slice 20 4 de) = native32_dec A (slice 12 4 nd)))"

lemma fresh_inode:
  assumes "fold (num_step A dir) ns st0 = (t, i, v)" "inodes_named A ns" "unat i < 2 ^ 32 - 4" "first_nodes A dir' fname (t', i, v) = ((parent, ino, ver), ms)"
  shows "inode_data A ino ns = []" "i < ino"
proof -
  have ino: "ino = (if i = 0 then 1 else i) + 1 \<or> ino = (if i = 0 then 1 else i) + 3" using assms(4) by (auto simp: first_nodes_def Let_def split: if_splits)
  have "unat (i + 1) = unat i + 1" "unat (i + 3) = unat i + 3" using assms(3) by (simp_all add: unat_word_ariths(1))
  then show big: "i < ino" using ino by (auto simp: word_less_nat_alt split: if_splits)
  have one: "ino \<noteq> 1" using ino big by (cases "i = 0") (auto simp: word_less_nat_alt unat_eq_zero)
  obtain t0 i0 v0 where "st0 = (t0, i0, v0)" by (metis surj_pair)
  then have "\<forall>nd\<in>set ns. node_type A nd = JFFS2_NODETYPE_DIRENT \<longrightarrow> native32_dec A (slice 20 4 nd) \<le> i" using num_step_max assms(1) by blast
  then have "inode_ok A nd \<Longrightarrow> native32_dec A (slice 12 4 nd) \<noteq> ino" if "nd \<in> set ns" for nd
    using assms(2) that big one unfolding inodes_named_def by (metis not_le)
  then have "fold (inode_step A ino) ns c = c" for c by (induction ns) (auto simp: inode_step_def)
  then show "inode_data A ino ns = []" by (simp add: inode_data_def)
qed

lemma place_enough:
  assumes "length bs \<le> length (filter (\<lambda>j. \<not> bad j) [k..<n])"
  shows "\<exists>c'. place bad n eb k bs c = Some c'"
  using assms
proof (induction "n - k" arbitrary: k bs c)
  case 0
  then show ?case by (cases bs) auto
next
  case (Suc m)
  then have up: "[k..<n] = k # [Suc k..<n]" by (simp add: upt_conv_Cons)
  show ?case
  proof (cases bs)
    case (Cons b bs')
    show ?thesis
    proof (cases "bad k")
      case True
      then have "\<exists>c'. place bad n eb (Suc k) bs c = Some c'" using Suc.hyps Suc.prems by (intro Suc.hyps(1)) (simp_all add: up)
      then show ?thesis using True by (simp add: up Cons)
    next
      case False
      then have "\<exists>c'. place bad n eb (Suc k) bs' (put (k * eb) b c) = Some c'"
        using Suc.hyps Suc.prems Cons by (intro Suc.hyps(1)) (simp_all add: up)
      then show ?thesis using False by (simp add: up Cons)
    qed
  qed simp
qed

text \<open>C10. \<open>mtd jffs2write\<close> adds the file: on a device of less than 2 GiB whose first blocks are a well formed file system, with enough good blocks behind it, the command
  succeeds, and the device read from its start gives the nodes that were there, followed by new ones. In these the name of the file leads to an inode whose
  number no directory entry had before, and whose data is the file, with every checksum valid; the directory is the one found in the root directory, or a
  new one with the name asked for. What follows is the update of the trx checksum, where it is linked.\<close>

theorem jffs2write_adds_file:
  assumes "chip ops valid cells n eb nand bad" "eb mod 4 = 0" "1024 \<le> eb" "n * eb < 2 ^ 31" "eb < 2 ^ 31" "32 \<le> ulong_bits A"
    and "devs s name = Some d" "valid d" "fs_ends A n eb old (cells d)" "\<forall>j<length old. \<not> bad j" "inodes_named A (concat old)" "eb + n < fuel"
    and "files filename = Some (st, Some evs)" "base_name filename = fname" "length (file_bytes evs) < 2 ^ 32"
    and "length dir < 256" "length fname < 256" "0 \<notin> set dir" "0 \<notin> set fname"
    and "fold (num_step A dir) (concat old) (if dir = [] then 1 else 0, 0, 0) = (t, i, v)" "unat i < 2 ^ 32 - 4"
    and "length (file_blocks A eb st evs dir fname (t, i, v)) \<le> length (filter (\<lambda>j. \<not> bad j) [length old..<n])"
  shows "\<exists>d' s' new parent ino. mtd_write_jffs2 A ops fuel fixup mem files name filename dir s = (fst (after_fixup fixup d'), s') \<and>
    devs s' name = Some (snd (after_fixup fixup d')) \<and> valid d' \<and> read_fs A eb bad (cells d') [0..<n] = concat old @ new \<and>
    dir_lookup A parent fname (concat old @ new) = Some ino \<and> inode_data A ino (concat old @ new) = file_bytes evs \<and> i < ino \<and>
    (if t = 0 then dir_lookup A 1 dir (concat old @ new) = Some parent else parent = t)"
proof -
  obtain parent ino ver ns where first: "first_nodes A dir fname (t, i, v) = ((parent, ino, ver), ns)" by (metis surj_pair)
  note fresh = fresh_inode [OF assms(20,11,21) first]
  obtain bs where bs: "file_blocks A eb st evs dir fname (t, i, v) = bs @ [[JFFS2_EOF]]" "\<And>b. b \<in> set bs \<Longrightarrow> wf_block A eb b \<and> b \<noteq> []"
      "inode_data A ino (concat old @ concat bs) = file_bytes evs" "dir_lookup A parent fname (concat old @ concat bs) = Some ino"
      "t = 0 \<Longrightarrow> dir_lookup A 1 dir (concat old @ concat bs) = Some parent"
    using file_blocks_read [OF assms(2,3,5,16-19,15) first fresh(1)] by metis
  obtain c' where c': "place bad n eb (length old) (map (fs_block eb) (bs @ [[JFFS2_EOF]])) (cells d) = Some c'"
    using place_enough [of "map (fs_block eb) (bs @ [[JFFS2_EOF]])" bad "length old" n eb "cells d"] assms(22) bs(1) by auto
  obtain d' s' where d': "valid d'" "cells d' = c'" "mtd_write_jffs2 A ops fuel fixup mem files name filename dir s = (fst (after_fixup fixup d'), s')"
      "devs s' name = Some (snd (after_fixup fixup d'))"
    using jffs2_write_places [where files = files and nums = "(t, i, v)" and c' = c' and fixup = fixup and mem = mem, OF assms(1-3,5-9,12,13,16) _ _ _] assms(14,17,20) c' bs(1) by auto
  have lc: "length (cells d) = n * eb" using chip_geometry(2) [OF assms(1,8)] .
  have "x \<in> set (map (fs_block eb) (bs @ [[JFFS2_EOF]])) \<Longrightarrow> length x = eb" for x
    using bs(2) assms(3) by (auto simp: wf_block_def JFFS2_EOF_def align4_def intro!: fs_block_length)
  then have "take (length old * eb) c' = take (length old * eb) (cells d)" using place_keeps [OF c' lc] by blast
  then have "read_fs A eb bad (cells d') [0..<n] = concat old @ concat bs"
    using read_fs_old [OF assms(9)] read_fs_place [OF bs(2) assms(3) c' lc] assms(10) d'(2) by simp
  moreover have "t \<noteq> 0 \<Longrightarrow> parent = t" using first by (auto simp: first_nodes_def Let_def)
  ultimately show ?thesis using d' bs(3-5) fresh(2)
    by - (rule exI [of _ d'], rule exI [of _ s'], rule exI [of _ "concat bs"], rule exI [of _ parent], rule exI [of _ ino], simp)
qed

text \<open>An empty partition of four blocks, the second one bad, and a file of three bytes.\<close>

definition jffs2_cells :: bytes where
  "jffs2_cells = replicate (4 * 1024) 0xff"

definition jffs2_state :: "bytes mtd" where
  "jffs2_state = \<lparr>devs = [lit ''fs'' \<mapsto> jffs2_cells], mtdsize = 0, erasesize = 0, mtd_nand = False, buf = [], bufcap = None,
     imageformat = MTD_IMAGE_FORMAT_UNKNOWN, image = []\<rparr>"

definition jffs2_stat :: jstat where
  "jffs2_stat = \<lparr>st_mode = 0x81a4, st_atime = 0, st_mtime = 0, st_ctime = 0, st_size = 3\<rparr>"

definition jffs2_files :: "bytes \<Rightarrow> (jstat \<times> rd list option) option" where
  "jffs2_files = [lit ''/tmp/a'' \<mapsto> (jffs2_stat, Some [Chunk [1, 2, 3]])]"

lemma file_blocks_small:
  assumes "1024 \<le> eb" "c \<noteq> []" "length c \<le> 128" "length fname < 100" "t \<noteq> 0"
  shows "length (file_blocks A eb st [Chunk c] dir fname (t, i, v)) = 2"
proof -
  obtain p ino ver ns where first: "first_nodes A dir fname (t, i, v) = ((p, ino, ver), ns)" by (metis surj_pair)
  then obtain x where ns: "ns = [CLEANMARKER A, dirent_node A fname DT_REG t x v]" using assms(5) by (auto simp: first_nodes_def Let_def)
  define L where "L = length (render ns)"
  have L: "L < 160" using align4_facts(2) [of "40 + length fname"] assms(4) by (simp add: L_def ns)
  let ?ri = "data_inode A (file_inode st ino) (ver + 1) 0 c"
  let ?ns = "ns @ [inode_enc A ?ri @ c]"
  have len: "length (render ?ns) < 360" using L align4_facts(2) [of "68 + length c"] assms(3) by (simp add: L_def)
  have left: "log_left eb ([], ns) = eb - L" "196 < log_left eb ([], ?ns)" "log_left eb ([], ns) > 196"
    using L len assms(1) by (simp_all add: log_left_def L_def)
  have room: "log_room A eb ([], ns) = ([], ns)" using left(3) by (simp add: log_room_def)
  have rd: "fd_read (min (eb - L - 68) 4096) [Chunk c] = (Chunk c, [])" using assms(1,3) L by simp
  have node: "log_prep A (log_node eb (inode_enc A ?ri @ c) ([], ns)) = ([], ?ns)" using len assms(1) by (simp add: log_node_def log_prep_def Let_def)
  have "log_file A eb (file_inode st ino) 0 ver [Chunk c] ([], ns) = log_file A eb ?ri (of_nat (length c)) (ver + 1) [] ([], ?ns)"
    unfolding log_file.simps [of A eb "file_inode st ino" 0 ver "[Chunk c]"] room Let_def left(1) rd using node L assms(1,2) by simp
  also have "\<dots> = ([], ?ns)" using left(2) by (simp add: log_file.simps [of A eb ?ri "of_nat (length c)" "ver + 1" "[]"] log_room_def Let_def)
  finally show ?thesis by (simp add: file_blocks_def first log_flush_def ns)
qed

theorem jffs2write_adds_file_witness:
  "\<exists>s' d' new ino. mtd_write_jffs2 mips_be (sim_ops 4 1024 True (\<lambda>k. k = 1)) 2000 None (\<lambda>m. replicate m 0) jffs2_files (lit ''fs'') (lit ''/tmp/a'') [] jffs2_state
      = (Inr 0, s') \<and> devs s' (lit ''fs'') = Some d' \<and> read_fs mips_be 1024 (\<lambda>k. k = 1) d' [0..<4] = new \<and>
    dir_lookup mips_be 1 (lit ''a'') new = Some ino \<and> inode_data mips_be ino new = [1, 2, 3]"
proof -
  have "length jffs2_cells = 4 * 1024" by (simp add: jffs2_cells_def)
  moreover have "fs_ends mips_be 4 1024 [] jffs2_cells"
  proof -
    have "slice 0 2 jffs2_cells = [0xff, 0xff]" by (simp add: jffs2_cells_def slice_def numeral_2_eq_2)
    then show ?thesis by (simp add: fs_ends_def native16_dec_def be16_dec_def mips_be_def JFFS2_MAGIC_BITMASK_def KSAMTIB_CIGAM_2SFFJ_def)
  qed
  moreover have "base_name (lit ''/tmp/a'') = lit ''a''" by (simp add: base_name_def lit_def)
  moreover have "devs jffs2_state (lit ''fs'') = Some jffs2_cells" "jffs2_files (lit ''/tmp/a'') = Some (jffs2_stat, Some [Chunk [1, 2, 3]])"
    "0 \<notin> set (lit ''a'')" "length (lit ''a'') = 1" "32 \<le> ulong_bits mips_be" "length (filter (\<lambda>j. \<not> j = 1) [0..<4]) = 3"
    by (simp_all add: jffs2_state_def jffs2_files_def lit_def mips_be_def upt_rec)
  ultimately show ?thesis
    using jffs2write_adds_file [where files = jffs2_files and fixup = None and mem = "\<lambda>m. replicate m 0" and fuel = 2000 and old = "[]" and dir = "[]" and A = mips_be,
        OF sim_chip [of 1024 True "\<lambda>k. k = 1" 4], of jffs2_state "lit ''fs''" jffs2_cells "lit ''/tmp/a''" jffs2_stat "[Chunk [1, 2, 3]]" "lit ''a''" 1 0 0]
      file_blocks_small [of 1024 "[1, 2, 3]" "lit ''a''" 1 mips_be jffs2_stat "[]" 0 0]
    by (auto simp: inodes_named_def after_fixup_def)
qed

text \<open>A device with erase blocks of 64 KiB, NOR or NAND.\<close>

interpretation sim_flash: jffs2_flash "sim_ops n 65536 nand (\<lambda>k. nand \<and> bad k)" "\<lambda>d. length d = n * 65536" "\<lambda>d. d" n 65536 nand "\<lambda>k. nand \<and> bad k" k0 c0
    mips_le "\<lparr>g_size = n * 65536, g_erase = 65536, g_nand = nand\<rparr>" "tracks (\<lambda>d. length d = n * 65536) (\<lambda>d. d) n 65536 (\<lambda>k. nand \<and> bad k) k0 c0"
    "placeable n 65536 (\<lambda>k. nand \<and> bad k) k0 c0" for n nand bad k0 c0
  by unfold_locales (use sim_chip [of 65536 nand "\<lambda>k. nand \<and> bad k" n] in \<open>simp_all add: mips_le_def\<close>)

section \<open>What goes wrong\<close>

lemma parse_stays:
  assumes "8 \<le> length b" "native16_dec A (slice 0 2 b) = 0x1985" "node_type A b \<noteq> JFFS2_NODETYPE_DIRENT" "node_len A b = 0"
  shows "parse_loop A dir b fuel 0 st = Inl Fuel"
proof (induction fuel)
  case (Suc fuel)
  have "fld16 A b 0 = Some 0x1985" "fld32 A b 4 = Some 0" "fld16 A b 2 = Some (node_type A b)"
    using assms by (simp_all add: fld16_def fld32_def node_type_def node_len_def unat_eq_zero)
  moreover have "PAD 0 = 0" by (simp add: PAD_def)
  moreover have "b \<noteq> []" using assms(1) by auto
  ultimately show ?case using Suc assms(3) by (simp add: numeral_2_eq_2)
qed simp

lemma dirent_overflow:
  assumes "0 < j_ofs s" "j_ofs s < g_erase g" "g_erase g < 2 ^ 31" "32 \<le> ulong_bits A" "length name < 256" "g_erase g < j_ofs s + 40 + length name"
  shows "fst (add_dirent A ops g name type parent s) = Inl Fault"
proof -
  have "\<not> size_sub A (j_ofs s) (g_erase g) < size_add A 40 (length name)"
    using size_sub_room [of "j_ofs s" "g_erase g" A "length name"] assms by simp
  then show ?thesis using assms(1,6) by (simp add: add_dirent_def prep_eraseblock_def and_then_def Let_def)
qed

text \<open>C12. The parser never leaves a node of length zero, however long it runs; and the test for the room left in the erase block does not see that a
  directory entry is too long for it, so that the entry is written behind the end of the buffer.\<close>

theorem jffs2_faults:
  "(8 \<le> length b \<longrightarrow> native16_dec A (slice 0 2 b) = 0x1985 \<longrightarrow> node_type A b \<noteq> JFFS2_NODETYPE_DIRENT \<longrightarrow> node_len A b = 0 \<longrightarrow>
      (\<forall>fuel. mtd_parse_jffs2data A fuel b dir st = Inl Fuel)) \<and>
   (0 < j_ofs s \<longrightarrow> j_ofs s < g_erase g \<longrightarrow> g_erase g < 2 ^ 31 \<longrightarrow> 32 \<le> ulong_bits A \<longrightarrow> length name < 256 \<longrightarrow> g_erase g < j_ofs s + 40 + length name \<longrightarrow>
      fst (add_dirent A ops g name type parent s) = Inl Fault)"
  using parse_stays [of b A dir _ st] dirent_overflow [of s g A name ops type parent] by (auto simp: mtd_parse_jffs2data_def)

definition full_block :: "bytes jffs2" where
  "full_block = (jffs2_start [] (replicate 1024 0xff))\<lparr>j_ofs := 1000\<rparr>"

theorem jffs2_faults_witness:
  "(\<forall>fuel. mtd_parse_jffs2data mips_le fuel ([0x85, 0x19, 0x02, 0xe0, 0, 0, 0, 0] @ replicate 1016 0xff) [] (0, 0, 0) = Inl Fuel) \<and>
   fst (add_dirent mips_le (sim_ops 4 1024 False (\<lambda>_. False)) \<lparr>g_size = 4096, g_erase = 1024, g_nand = False\<rparr> (lit ''config'') DT_REG 1 full_block) = Inl Fault"
proof -
  let ?b = "[0x85, 0x19, 0x02, 0xe0, 0, 0, 0, 0] @ replicate 1016 0xff :: bytes"
  have "slice 0 2 ?b = [0x85, 0x19]" "slice 2 2 ?b = [0x02, 0xe0]" "slice 4 4 ?b = [0, 0, 0, 0]" by (simp_all add: slice_def numeral_eq_Suc)
  then have "native16_dec mips_le (slice 0 2 ?b) = 0x1985" "node_type mips_le ?b \<noteq> JFFS2_NODETYPE_DIRENT" "node_len mips_le ?b = 0" "8 \<le> length ?b"
    by (simp_all add: node_type_def node_len_def native16_dec_def native32_dec_def mips_le_def JFFS2_NODETYPE_DIRENT_def)
  moreover have "j_ofs full_block = 1000" by (simp add: full_block_def)
  ultimately show ?thesis
    using jffs2_faults [of ?b mips_le "[]" "(0, 0, 0)" full_block "\<lparr>g_size = 4096, g_erase = 1024, g_nand = False\<rparr>" "lit ''config''" "sim_ops 4 1024 False (\<lambda>_. False)" DT_REG 1]
    by (simp add: mips_le_def lit_def)
qed

end
