(* ===== verification/MtdFix.thy ===== *)
theory MtdFix
  imports Mtd
begin

text \<open>
  What \<open>mtd fixtrx\<close> (\<open>mtd_fixtrx\<close> in \<^verbatim>\<open>package/system/mtd/src/trx.c\<close>) does to a device: the data it computes the checksum of, over
  the good blocks only, and the header it writes.
\<close>

section \<open>Blocks by masking\<close>

lemma block_rest_mod: "block_rest (2 ^ k) p = p mod 2 ^ k"
proof -
  have "int p AND (2 ^ k - 1) = take_bit k (int p)" by (simp add: take_bit_eq_mask mask_eq_exp_minus_1)
  then have "block_rest (2 ^ k) p = nat (int p mod 2 ^ k)" by (simp add: block_rest_def take_bit_eq_mod)
  also have "int p mod 2 ^ k = int (p mod 2 ^ k)" by (simp add: zmod_int)
  finally show ?thesis by simp
qed

lemma block_base_div: "block_base (2 ^ k) p = p div 2 ^ k * 2 ^ k"
proof -
  let ?m = "(2 :: int) ^ k - 1" and ?p = "int p"
  have "?p AND NOT ?m = ?p AND NOT (?p AND ?m)" by (simp add: bit_eq_iff bit_simps) blast
  also have "\<dots> = ?p - (?p AND ?m)" by (rule disjunctive_diff_eq_and_not [symmetric]) (simp add: bit_eq_iff bit_simps)
  also have "?p AND ?m = int (p mod 2 ^ k)"
    by (simp add: take_bit_eq_mod zmod_int flip: take_bit_eq_mask mask_eq_exp_minus_1)
  also have "int p - int (p mod 2 ^ k) = int (p div 2 ^ k * 2 ^ k)" by (simp add: minus_mod_eq_div_mult [symmetric] of_nat_diff)
  finally have "?p AND NOT ?m = int (p div 2 ^ k * 2 ^ k)" .
  moreover have "int (2 ^ k) - 1 = ?m" by simp
  ultimately show ?thesis unfolding block_base_def by (metis nat_int)
qed

section \<open>The data under the checksum\<close>

definition good_data :: "(nat \<Rightarrow> bool) \<Rightarrow> nat \<Rightarrow> nat \<Rightarrow> nat \<Rightarrow> bytes \<Rightarrow> bytes" where
  "good_data bad eb off n m = map (\<lambda>i. m ! i) (filter (\<lambda>i. \<not> bad (i div eb)) [off..<off + n])"

lemma slice_map_nth: "off + n \<le> length m \<Longrightarrow> slice off n m = map (\<lambda>i. m ! i) [off..<off + n]"
  by (rule nth_equalityI) (simp_all add: slice_def)

lemma same_block:
  fixes eb :: nat
  assumes "0 < eb" "p \<le> i" "i < p + (eb - p mod eb)"
  shows "i div eb = p div eb"
proof -
  have "p div eb * eb \<le> i" using assms(2) by (metis div_times_less_eq_dividend le_trans)
  moreover have "i < Suc (p div eb) * eb"
    unfolding mult_Suc using assms(3) div_mult_mod_eq [of p eb] mod_less_divisor [OF assms(1), of p] by linarith
  ultimately show ?thesis using assms(1) by (intro div_nat_eqI) (auto simp: mult.commute)
qed

lemma good_data_split:
  assumes "0 < eb" "c \<le> n" "c \<le> eb - off mod eb" "off + n \<le> length m"
  shows "good_data bad eb off n m = (if bad (off div eb) then [] else slice off c m) @ good_data bad eb (off + c) (n - c) m"
proof -
  have "[off..<off + n] = [off..<off + c] @ [off + c..<off + c + (n - c)]"
    using assms(2) upt_add_eq_append [of off "off + c" "n - c"] by simp
  moreover have "filter (\<lambda>i. \<not> bad (i div eb)) [off..<off + c] = (if bad (off div eb) then [] else [off..<off + c])"
  proof -
    have e: "i div eb = off div eb" if "i \<in> set [off..<off + c]" for i
      using that assms(3) by (intro same_block [OF assms(1)]) auto
    have "filter (\<lambda>i. \<not> bad (i div eb)) [off..<off + c] = filter (\<lambda>i. \<not> bad (off div eb)) [off..<off + c]"
    proof (rule filter_cong [OF refl])
      fix x
      assume "x \<in> set [off..<off + c]"
      then show "(\<not> bad (x div eb)) = (\<not> bad (off div eb))" using e [of x] by simp
    qed
    then show ?thesis by simp
  qed
  moreover have "slice off c m = map (\<lambda>i. m ! i) [off..<off + c]" using assms(2,4) by (intro slice_map_nth) simp
  ultimately show ?thesis by (simp add: good_data_def)
qed

lemma fix_read_good:
  assumes ch: "chip ops valid cells n eb nand bad" and eb2: "eb = 2 ^ k" and d: "valid d"
  shows "off + len \<le> n * eb \<Longrightarrow> fix_read ops eb nand d off len acc = Inr (acc @ good_data bad eb off len (cells d))"
proof (induction len arbitrary: off acc rule: less_induct)
  case (less len)
  have eb: "0 < eb" using eb2 by simp
  note step = fix_read.simps [of ops eb nand d off len acc]
  show ?case
  proof (cases "len = 0")
    case True
    then show ?thesis by (simp add: fix_read.simps [of ops eb nand d off 0 acc] good_data_def)
  next
    case False
    let ?c = "min (eb - off mod eb) len"
    have br: "block_rest eb off = off mod eb" "block_base eb off = off div eb * eb"
      using block_rest_mod [of k off] block_base_div [of k off] eb2 by simp_all
    have c: "0 < ?c" "?c \<le> len" "len - ?c < len" using False mod_less_divisor [OF eb, of off] by auto
    have lc: "length (cells d) = n * eb" using chip_geometry(2) [OF ch d] .
    have "off div eb < n" using less.prems False eb by (simp add: less_mult_imp_div_less)
    then have bd: "mtd_block_is_bad ops nand d (off div eb * eb) = Inr (bad (off div eb))" using chip_bad [OF ch d] by simp
    have rd: "op_pread ops d off ?c = Some (slice off ?c (cells d))" "length (slice off ?c (cells d)) = ?c"
      using chip_geometry(4) [OF ch d] less.prems c lc by simp_all
    have split: "good_data bad eb off len (cells d) = (if bad (off div eb) then [] else slice off ?c (cells d)) @ good_data bad eb (off + ?c) (len - ?c) (cells d)"
      using eb less.prems lc by (intro good_data_split) auto
    have IH: "fix_read ops eb nand d (off + ?c) (len - ?c) acc' = Inr (acc' @ good_data bad eb (off + ?c) (len - ?c) (cells d))" for acc'
      using less.prems c by (intro less.IH) auto
    show ?thesis using False eb bd rd IH by (simp add: step br split Let_def)
  qed
qed

section \<open>The fixed header\<close>

lemma put_slice_append:
  "length x = base \<Longrightarrow> length y = eb \<Longrightarrow> p + length b \<le> eb \<Longrightarrow> put base (put p b (slice base eb (x @ y @ z))) (x @ y @ z) = put (base + p) b (x @ y @ z)"
  by (simp add: put_def slice_def)

lemma put_slice:
  assumes "p + length b \<le> eb" "base + eb \<le> length m"
  shows "put base (put p b (slice base eb m)) m = put (base + p) b m"
proof -
  have "m = take base m @ take eb (drop base m) @ drop eb (drop base m)" by (metis append_take_drop_id)
  then show ?thesis
    using put_slice_append [of "take base m" base "take eb (drop base m)" eb p b "drop eb (drop base m)"] assms by (metis diff_le_mono add_le_imp_le_diff add_diff_cancel_left' add_leD1 length_drop length_take min.absorb2)
qed

lemma native_eq_le: "length b = 4 \<Longrightarrow> native32_dec A b = le32_to_cpu A w \<longleftrightarrow> le32_dec b = w"
  by (metis le32_to_cpu_le32_to_cpu le32_to_cpu_native)

lemma put_same: "off + length b \<le> length m \<Longrightarrow> slice off (length b) m = b \<Longrightarrow> put off b m = m"
  unfolding put_def slice_def by (metis append_take_drop_id drop_drop add.commute)

definition trx_fields :: "bytes \<Rightarrow> bytes" where
  "trx_fields data = le32_enc (of_nat (length data + 12)) @ le32_enc (crc32buf data)"

lemma fixtrx_run:
  assumes ch: "chip ops valid cells n eb nand bad" and eb: "eb = 2 ^ k" "12 \<le> eb" and d: "valid d" "devs s name = Some d"
    and hdr: "\<not> bad (offset div eb)" "offset mod eb + 12 \<le> eb" "le32_dec (slice offset 4 (cells d)) = MTD_TRX_MAGIC"
    and size: "n * eb < 2 ^ 31" "32 \<le> ulong_bits A" "ds = (if data_size = 0 then eb - 12 else data_size + 16)" "offset + 12 + ds \<le> n * eb"
  shows "\<exists>s' d'. mtd_fixtrx A ops name offset data_size s = (Inr 0, s') \<and> devs s' name = Some d' \<and> valid d' \<and>
    cells d' = put (offset + 4) (trx_fields (good_data bad eb (offset + 12) ds (cells d))) (cells d)"
proof -
  let ?s = "s\<lparr>mtdsize := n * eb, erasesize := eb, mtd_nand := nand\<rparr>" and ?c = "cells d" and ?data = "good_data bad eb (offset + 12) ds (cells d)"
  let ?base = "offset div eb * eb" and ?off = "offset mod eb" and ?len = "of_nat (length ?data + 12) :: u32" and ?crc = "crc32buf ?data"
  have lc: "length ?c = n * eb" using chip_geometry(2) [OF ch d(1)] .
  have op: "mtd_check_open ops name s = (Some d, ?s)" using d(2) chip_geometry(3) [OF ch d(1)] by (simp add: mtd_check_open_def)
  have "(2 :: nat) ^ 31 \<le> 2 ^ ulong_bits A" using size(2) by (intro power_increasing) auto
  then have U: "n * eb < 2 ^ ulong_bits A" using size(1) by linarith
  have sz: "size_add A offset 12 = offset + 12" "data_size \<noteq> 0 \<Longrightarrow> size_add A data_size 16 = ds" "data_size = 0 \<Longrightarrow> size_sub A eb 12 = ds"
    "size_add A (offset + 12) ds = offset + 12 + ds"
    using U size(3,4) eb(2) by (auto simp: size_add_small size_sub_small split: if_splits)
  have bb: "block_base eb offset = ?base" "offset - ?base = ?off"
    using block_base_div [of k offset] eb(1) by (simp_all add: minus_div_mult_eq_mod)
  have bo: "?base + ?off = offset" by (rule div_mult_mod_eq)
  have kn: "offset div eb < n" using size(4) eb(2) by (intro less_mult_imp_div_less) linarith
  have le: "?base + eb \<le> n * eb" using block_inside [OF kn] .
  have rd: "op_pread ops d ?base eb = Some (slice ?base eb ?c)" "length (slice ?base eb ?c) = eb"
    using chip_geometry(4) [OF ch d(1)] le lc by simp_all
  have sl: "slice (?off + q) 4 (slice ?base eb ?c) = slice (offset + q) 4 ?c" if "q \<le> 8" for q
    using hdr(2) that bo by (simp add: slice_slice add.assoc [symmetric])
  have l4: "length (slice (offset + q) 4 ?c) = 4" if "q \<le> 8" for q using size(4) that lc by simp
  have data: "fix_read ops eb nand d (offset + 12) ds [] = Inr ?data" using fix_read_good [OF ch eb(1) d(1), of "offset + 12" ds "[]"] size(4) by simp
  note eqs = native_eq_le [OF l4 [of 0], simplified] native_eq_le [OF l4 [of 4], simplified] native_eq_le [OF l4 [of 8], simplified]
  note sls = sl [of 0, simplified] sl [of 4, simplified] sl [of 8, simplified]
  let ?block = "put (?off + 8) (le32_enc ?crc) (put (?off + 4) (le32_enc ?len) (slice ?base eb ?c))"
  have run: "mtd_fixtrx A ops name offset data_size s =
      (if le32_dec (slice (offset + 4) 4 ?c) = ?len \<and> le32_dec (slice (offset + 8) 4 ?c) = ?crc then (Inr 0, ?s)
       else let (ok, d1) = mtd_erase_block ops eb d ?base
            in if \<not> ok then (Inl (Exit 1), ?s\<lparr>devs := (devs ?s)(name \<mapsto> d1)\<rparr>)
               else let (res, d2) = op_pwrite ops d1 ?base ?block
                    in (if res \<noteq> int eb then Inl (Exit 1) else Inr 0, ?s\<lparr>devs := (devs ?s)(name \<mapsto> d2)\<rparr>))"
    using hdr(2,3) size(4) by (cases "data_size = 0") (simp_all add: mtd_fixtrx_def op sz bb rd data sls eqs native32_enc_le Let_def split: prod.split)
  show ?thesis
  proof (cases "le32_dec (slice (offset + 4) 4 ?c) = ?len \<and> le32_dec (slice (offset + 8) 4 ?c) = ?crc")
    case True
    then have "slice (offset + 4) 4 ?c = le32_enc ?len" "slice (offset + 8) 4 ?c = le32_enc ?crc"
      using le32_enc_dec [OF l4 [of 4]] le32_enc_dec [OF l4 [of 8]] by auto
    then have "slice (offset + 4) 8 ?c = trx_fields ?data" using slice_split [of 4 8 "offset + 4" ?c] by (simp add: trx_fields_def add.commute [of 8])
    then have "put (offset + 4) (trx_fields ?data) ?c = ?c" using size(4) lc by (intro put_same) (simp_all add: trx_fields_def)
    then show ?thesis using run True d by simp
  next
    case False
    have bl: "?block = put (?off + 4) (trx_fields ?data) (slice ?base eb ?c)"
      using put_put_append [of "?off + 4" "le32_enc ?len" "le32_enc ?crc" "slice ?base eb ?c"] hdr(2) rd(2) by (simp add: trx_fields_def add.commute [of 8])
    have lb: "length ?block = eb" using hdr(2) rd(2) by simp
    obtain d1 d2 where w: "mtd_erase_block ops eb d ?base = (True, d1)" "op_pwrite ops d1 ?base ?block = (int eb, d2)" "valid d2"
      "cells d2 = put ?base ?block ?c" using chip_erase_write [OF ch d(1) kn hdr(1) lb] by blast
    have "put ?base ?block ?c = put (offset + 4) (trx_fields ?data) ?c"
      unfolding bl using put_slice [of "?off + 4" "trx_fields ?data" eb ?base ?c] hdr(2) le lc bo by (simp add: trx_fields_def add.assoc [symmetric])
    moreover have "mtd_fixtrx A ops name offset data_size s = (Inr 0, ?s\<lparr>devs := (devs ?s)(name \<mapsto> d2)\<rparr>)"
      unfolding run if_not_P [OF False] Let_def w(1) prod.case not_True_eq_False if_False w(2) by simp
    ultimately show ?thesis using w(3,4) by (intro exI [of _ "?s\<lparr>devs := (devs ?s)(name \<mapsto> d2)\<rparr>"] exI [of _ d2]) simp
  qed
qed

text \<open>C31. \<open>mtd fixtrx\<close> on a device with a trx header in a good block, the erase size a power of two: the length field becomes the
  length of the image, the CRC field the CRC of its data, taken from the good blocks only; no other byte of the device changes.\<close>

theorem mtd_fixtrx_header:
  assumes "chip ops valid cells n eb nand bad" "eb = 2 ^ k" "12 \<le> eb" "valid d" "devs s name = Some d"
    and "\<not> bad (offset div eb)" "offset mod eb + 12 \<le> eb" "le32_dec (slice offset 4 (cells d)) = MTD_TRX_MAGIC"
    and "n * eb < 2 ^ 31" "32 \<le> ulong_bits A" "ds = (if data_size = 0 then eb - 12 else data_size + 16)" "offset + 12 + ds \<le> n * eb"
    and "data = good_data bad eb (offset + 12) ds (cells d)"
  shows "\<exists>s' d'. mtd_fixtrx A ops name offset data_size s = (Inr 0, s') \<and> devs s' name = Some d' \<and>
    cells d' = put (offset + 4) (le32_enc (of_nat (length data + 12)) @ le32_enc (crc32buf data)) (cells d)"
  using fixtrx_run [OF assms(1-12)] unfolding assms(13) trx_fields_def by blast

lemma good_data_put:
  assumes "off + length b \<le> p" "off + length b \<le> length m"
  shows "good_data bad eb p n (put off b m) = good_data bad eb p n m"
proof -
  have "put off b m ! i = m ! i" if "p \<le> i" for i
  proof -
    have "off + length b \<le> i" using that assms(1) by linarith
    then have "\<not> i < off" "\<not> i - off < length b" "off + length b + (i - off - length b) = i" by linarith+
    moreover have "min (length m) off = off" using assms(2) by linarith
    ultimately show ?thesis using assms(2) by (simp add: put_def nth_append)
  qed
  then show ?thesis unfolding good_data_def by (intro map_cong) auto
qed

text \<open>\<open>mtd fixtrx\<close> is idempotent: a second run succeeds and leaves the device as the first one did, also where blocks are bad.\<close>

theorem mtd_fixtrx_idempotent:
  assumes "chip ops valid cells n eb nand bad" "eb = 2 ^ k" "12 \<le> eb" "valid d" "devs s name = Some d"
    and "\<not> bad (offset div eb)" "offset mod eb + 12 \<le> eb" "le32_dec (slice offset 4 (cells d)) = MTD_TRX_MAGIC"
    and "n * eb < 2 ^ 31" "32 \<le> ulong_bits A" "ds = (if data_size = 0 then eb - 12 else data_size + 16)" "offset + 12 + ds \<le> n * eb"
  shows "\<exists>s1 s2 d1 d2. mtd_fixtrx A ops name offset data_size s = (Inr 0, s1) \<and> mtd_fixtrx A ops name offset data_size s1 = (Inr 0, s2) \<and>
    devs s1 name = Some d1 \<and> devs s2 name = Some d2 \<and> cells d2 = cells d1"
proof -
  let ?f = "trx_fields (good_data bad eb (offset + 12) ds (cells d))"
  obtain s1 d1 where r1: "mtd_fixtrx A ops name offset data_size s = (Inr 0, s1)" "devs s1 name = Some d1" "valid d1"
    "cells d1 = put (offset + 4) ?f (cells d)" using fixtrx_run [OF assms] by blast
  have lf: "length ?f = 8" by (simp add: trx_fields_def)
  have lc: "length (cells d) = n * eb" using chip_geometry(2) [OF assms(1,4)] .
  have m1: "le32_dec (slice offset 4 (cells d1)) = MTD_TRX_MAGIC" unfolding r1(4) using assms(8,12) lc by (simp add: slice_put_before)
  obtain s2 d2 where r2: "mtd_fixtrx A ops name offset data_size s1 = (Inr 0, s2)" "devs s2 name = Some d2"
    "cells d2 = put (offset + 4) (trx_fields (good_data bad eb (offset + 12) ds (cells d1))) (cells d1)"
    using fixtrx_run [OF assms(1-3) r1(3,2) assms(6,7) m1 assms(9-12)] by blast
  have "good_data bad eb (offset + 12) ds (cells d1) = good_data bad eb (offset + 12) ds (cells d)"
    unfolding r1(4) using lf lc assms(12) by (intro good_data_put) auto
  then have "cells d2 = cells d1" using r2(3) r1(4) lf lc assms(12) by (simp add: put_put_same)
  then show ?thesis using r1 r2 by blast
qed

text \<open>A NAND device of four blocks of 16 bytes whose second block is bad, with a trx header in the first block.\<close>

definition fix_ops :: "bytes mtd_ops" where
  "fix_ops = sim_ops 4 16 True demo_bad"

definition fix_cells :: bytes where
  "fix_cells = le32_enc MTD_TRX_MAGIC @ replicate 12 0 @ replicate 16 7 @ replicate 32 1"

definition fix_state :: "bytes mtd" where
  "fix_state = \<lparr>devs = [lit ''fw'' \<mapsto> fix_cells], mtdsize = 0, erasesize = 0, mtd_nand = False, buf = [], bufcap = None,
     imageformat = MTD_IMAGE_FORMAT_UNKNOWN, image = []\<rparr>"

lemma fix_chip: "chip fix_ops (\<lambda>d. length d = 4 * 16) (\<lambda>d. d) 4 16 True demo_bad"
  unfolding fix_ops_def by (rule sim_chip) simp_all

lemma fix_facts: "length fix_cells = 4 * 16" "devs fix_state (lit ''fw'') = Some fix_cells" "le32_dec (slice 0 4 fix_cells) = MTD_TRX_MAGIC"
  "\<not> demo_bad (0 div 16)" "good_data demo_bad 16 (0 + 12) 36 fix_cells = [0, 0, 0, 0] @ replicate 16 1"
  by (simp_all add: fix_cells_def fix_state_def slice_def demo_bad_def) code_simp

theorem mtd_fixtrx_header_witness:
  "\<exists>s' d'. mtd_fixtrx mips_le fix_ops (lit ''fw'') 0 20 fix_state = (Inr 0, s') \<and> devs s' (lit ''fw'') = Some d' \<and>
     d' = put 4 (le32_enc 32 @ le32_enc (crc32buf ([0, 0, 0, 0] @ replicate 16 1))) fix_cells"
  using mtd_fixtrx_header [OF fix_chip, of 4 fix_cells fix_state "lit ''fw''" 0 mips_le 36 20 "[0, 0, 0, 0] @ replicate 16 1"] fix_facts
  by (simp add: mips_le_def)

theorem mtd_fixtrx_idempotent_witness:
  "\<exists>s1 s2 d1 d2. mtd_fixtrx mips_le fix_ops (lit ''fw'') 0 20 fix_state = (Inr 0, s1) \<and> mtd_fixtrx mips_le fix_ops (lit ''fw'') 0 20 s1 = (Inr 0, s2) \<and>
    devs s1 (lit ''fw'') = Some d1 \<and> devs s2 (lit ''fw'') = Some d2 \<and> d2 = d1"
  using mtd_fixtrx_idempotent [OF fix_chip, of 4 fix_cells fix_state "lit ''fw''" 0 mips_le 36 20] fix_facts
  by (simp add: mips_le_def)

end
