(* ===== verification/MtdMd5.thy ===== *)
theory MtdMd5
  imports MtdFix Md5
begin

text \<open>
  The header fixers of the flash writer for images with an MD5 digest: \<^verbatim>\<open>package/system/mtd/src/seama.c\<close>, \<^verbatim>\<open>wrg.c\<close> and \<^verbatim>\<open>wrgg.c\<close>. The three files have the same code
  for three headers; the model has the code once, with the header as a record, and an instance for each file. The locale \<open>md5_header\<close> states what the code needs of a header
  and holds the proofs; it is interpreted on the three headers.
\<close>

section \<open>The headers\<close>

text \<open>The size of a header, its fields and their byte order; the size of the meta data behind it (Seama only); the fields that are hashed before the data, with their sizes.\<close>

record hdr_format =
  h_len :: nat
  h_magic_at :: nat
  h_magic :: "abi \<Rightarrow> bytes \<Rightarrow> bool"
  h_size_at :: nat
  h_size_dec :: "bytes \<Rightarrow> u32"
  h_size_enc :: "u32 \<Rightarrow> bytes"
  h_meta :: "bytes \<Rightarrow> nat"
  h_hashed :: "(nat \<times> nat) list"
  h_digest_at :: nat

definition seama_format :: hdr_format where
  "seama_format = \<lparr>h_len = 28, h_magic_at = 0, h_magic = (\<lambda>A b. native32_dec A b = htonl A 0x5EA3A417), h_size_at = 8, h_size_dec = be32_dec, h_size_enc = be32_enc,
     h_meta = (\<lambda>h. unat (be16_dec (slice 6 2 h))), h_hashed = [], h_digest_at = 12\<rparr>"

definition wrg_format :: hdr_format where
  "wrg_format = \<lparr>h_len = 96, h_magic_at = 32, h_magic = (\<lambda>A b. le32_to_cpu A (native32_dec A b) = 0x20040220), h_size_at = 40, h_size_dec = le32_dec, h_size_enc = le32_enc,
     h_meta = (\<lambda>h. 0), h_hashed = [(44, 4), (48, 32)], h_digest_at = 80\<rparr>"

text \<open>\<open>htonl (STORE32_LE (WRGG03_MAGIC))\<close>\<close>

definition wrgg_format :: hdr_format where
  "wrgg_format = \<lparr>h_len = 160, h_magic_at = 32, h_magic = (\<lambda>A b. native32_dec A b = htonl A (le32_to_cpu A 0x20080321)), h_size_at = 104, h_size_dec = be32_dec, h_size_enc = be32_enc,
     h_meta = (\<lambda>h. 0), h_hashed = [(108, 4), (112, 32)], h_digest_at = 144\<rparr>"

section \<open>Fixing a header\<close>

text \<open>\<open>shdr\<close> is the header and what follows it in the block that was read; the header may be cut off at the end of the block, and what is behind it may not be accessed. \<open>stack\<close> is the content
  of the digest context before it is initialised. The result is the error number and the header.\<close>

definition fix_md5 :: "hdr_format \<Rightarrow> 'd mtd_ops \<Rightarrow> bytes \<Rightarrow> bytes \<Rightarrow> 'd \<Rightarrow> nat \<Rightarrow> nat \<Rightarrow> stop + int \<times> bytes" where
  "fix_md5 f ops stack shdr d data_offset data_size =
     (case op_pread ops d data_offset data_size of
        None \<Rightarrow> Inr (-5, shdr)
      | Some b \<Rightarrow>
          if length b \<noteq> data_size then Inr (-5, shdr)
          else if length shdr < h_len f then Inl Fault
          else let digest = MD5_Final (MD5_Update (foldl (\<lambda>c (at, n). MD5_Update c (slice at n shdr)) (MD5_Init stack) (h_hashed f)) b)
               in if digest = slice (h_digest_at f) 16 shdr then Inr (-1, shdr)
                  else Inr (0, put (h_digest_at f) digest (put (h_size_at f) (h_size_enc f (of_nat data_size)) shdr)))"

text \<open>The start of the block is computed with the erase size before the device is opened, 0 for the first device.\<close>

definition mtd_fixhdr :: "hdr_format \<Rightarrow> abi \<Rightarrow> 'd mtd_ops \<Rightarrow> bytes \<Rightarrow> bytes \<Rightarrow> nat \<Rightarrow> nat \<Rightarrow> 'd mtd \<Rightarrow> (stop + int) \<times> 'd mtd" where
  "mtd_fixhdr f A ops stack name offset data_size s =
     (let block_offset = block_base (erasesize s) offset; off = offset - block_offset
      in case mtd_check_open ops name s of
           (None, s1) \<Rightarrow> (Inl (Exit 1), s1)
         | (Some d, s1) \<Rightarrow>
             let eb = erasesize s1
             in if size_add A block_offset eb > mtdsize s1 then (Inl (Exit 1), s1)
                else case op_pread ops d block_offset eb of
                    None \<Rightarrow> (Inl (Exit 1), s1)
                  | Some first_block \<Rightarrow>
                      let shdr = drop off first_block
                      in if length first_block \<noteq> eb then (Inl (Exit 1), s1)
                         else if length shdr < h_magic_at f + 4 then (Inl Fault, s1)
                         else if \<not> h_magic f A (slice (h_magic_at f) 4 shdr) then (Inl (Exit 1), s1)
                         else if length shdr < h_size_at f + 4 then (Inl Fault, s1)
                         else let hsize = unat (h_size_dec f (slice (h_size_at f) 4 shdr));
                                  data_offset = size_add A off (h_len f + h_meta f shdr);
                                  data_size1 = (if data_size = 0 then size_sub A (mtdsize s1) data_offset else data_size);
                                  data_size2 = (if data_size1 > hsize then hsize else data_size1)
                              in if hsize = 0 then (Inl (Exit 1), s1)
                                 else case fix_md5 f ops stack shdr d data_offset data_size2 of
                                     Inl st \<Rightarrow> (Inl st, s1)
                                   | Inr (err, shdr') \<Rightarrow>
                                       if err \<noteq> 0 then (Inr 0, s1)
                                       else let (ok, d1) = mtd_erase_block ops eb d block_offset
                                            in if \<not> ok then (Inl (Exit 1), s1\<lparr>devs := (devs s1)(name \<mapsto> d1)\<rparr>)
                                               else let (res, d2) = op_pwrite ops d1 block_offset (take off first_block @ shdr')
                                                    in (if res \<noteq> int eb then Inl (Exit 1) else Inr 0, s1\<lparr>devs := (devs s1)(name \<mapsto> d2)\<rparr>))"

definition seama_fix_md5 :: "'d mtd_ops \<Rightarrow> bytes \<Rightarrow> bytes \<Rightarrow> 'd \<Rightarrow> nat \<Rightarrow> nat \<Rightarrow> stop + int \<times> bytes" where
  "seama_fix_md5 = fix_md5 seama_format"

definition wrg_fix_md5 :: "'d mtd_ops \<Rightarrow> bytes \<Rightarrow> bytes \<Rightarrow> 'd \<Rightarrow> nat \<Rightarrow> nat \<Rightarrow> stop + int \<times> bytes" where
  "wrg_fix_md5 = fix_md5 wrg_format"

definition wrgg_fix_md5 :: "'d mtd_ops \<Rightarrow> bytes \<Rightarrow> bytes \<Rightarrow> 'd \<Rightarrow> nat \<Rightarrow> nat \<Rightarrow> stop + int \<times> bytes" where
  "wrgg_fix_md5 = fix_md5 wrgg_format"

definition mtd_fixseama :: "abi \<Rightarrow> 'd mtd_ops \<Rightarrow> bytes \<Rightarrow> bytes \<Rightarrow> nat \<Rightarrow> nat \<Rightarrow> 'd mtd \<Rightarrow> (stop + int) \<times> 'd mtd" where
  "mtd_fixseama = mtd_fixhdr seama_format"

definition mtd_fixwrg :: "abi \<Rightarrow> 'd mtd_ops \<Rightarrow> bytes \<Rightarrow> bytes \<Rightarrow> nat \<Rightarrow> nat \<Rightarrow> 'd mtd \<Rightarrow> (stop + int) \<times> 'd mtd" where
  "mtd_fixwrg = mtd_fixhdr wrg_format"

definition mtd_fixwrgg :: "abi \<Rightarrow> 'd mtd_ops \<Rightarrow> bytes \<Rightarrow> bytes \<Rightarrow> nat \<Rightarrow> nat \<Rightarrow> 'd mtd \<Rightarrow> (stop + int) \<times> 'd mtd" where
  "mtd_fixwrgg = mtd_fixhdr wrgg_format"

text \<open>The commands in \<open>main\<close>. The functions are weak symbols: which of the three are there depends on the objects that are linked for a target.\<close>

datatype fixer = Fix_Seama | Fix_Wrg | Fix_Wrgg

fun fixer_command :: "fixer \<Rightarrow> bytes" where
  "fixer_command Fix_Seama = lit ''fixseama''"
| "fixer_command Fix_Wrg = lit ''fixwrg''"
| "fixer_command Fix_Wrgg = lit ''fixwrgg''"

fun fixer_function :: "fixer \<Rightarrow> abi \<Rightarrow> 'd mtd_ops \<Rightarrow> bytes \<Rightarrow> bytes \<Rightarrow> nat \<Rightarrow> nat \<Rightarrow> 'd mtd \<Rightarrow> (stop + int) \<times> 'd mtd" where
  "fixer_function Fix_Seama = mtd_fixseama"
| "fixer_function Fix_Wrg = mtd_fixwrg"
| "fixer_function Fix_Wrgg = mtd_fixwrgg"

definition mtd_main_fix :: "fixer list \<Rightarrow> abi \<Rightarrow> 'd mtd_ops \<Rightarrow> bytes \<Rightarrow> mtd_opts \<Rightarrow> bytes list \<Rightarrow> 'd mtd \<Rightarrow> (stop + bytes) \<times> 'd mtd" where
  "mtd_main_fix linked A ops stack opts args s =
     (case args of
        [cmd, device] \<Rightarrow>
          (case filter (\<lambda>f. cmd = fixer_command f) linked of
             [] \<Rightarrow> (Inl (Exit 1), s)
           | f # _ \<Rightarrow> and_then (erase_args ops (o_erase opts) s) (\<lambda>_ s1. and_then (fixer_function f A ops stack device 0 (o_data_size opts) s1) finished))
      | _ \<Rightarrow> (Inl (Exit 1), s))"

section \<open>What the code needs of a header\<close>

definition overlap_free :: "nat \<Rightarrow> nat \<Rightarrow> nat \<Rightarrow> nat \<Rightarrow> bool" where
  "overlap_free at1 n1 at2 n2 \<longleftrightarrow> at1 + n1 \<le> at2 \<or> at2 + n2 \<le> at1"

lemma slice_put_free:
  assumes "overlap_free at1 n at2 (length b)" "at2 + length b \<le> length m"
  shows "slice at1 n (put at2 b m) = slice at1 n m"
  using assms by (auto simp: overlap_free_def intro: slice_put_before slice_put_after)

text \<open>The bytes under the digest of a header \<open>h\<close>, and what becomes of a header.\<close>

definition hashed_data :: "hdr_format \<Rightarrow> bytes \<Rightarrow> bytes \<Rightarrow> bytes" where
  "hashed_data f h data = concat (map (\<lambda>(at, n). slice at n h) (h_hashed f)) @ data"

definition fixed :: "hdr_format \<Rightarrow> bytes \<Rightarrow> bytes \<Rightarrow> bytes" where
  "fixed f data h =
     (let g = md5_ref (hashed_data f h data)
      in if g = slice (h_digest_at f) 16 h then h else put (h_digest_at f) g (put (h_size_at f) (h_size_enc f (of_nat (length data))) h))"

locale md5_header =
  fixes f :: hdr_format
  assumes inside: "h_magic_at f + 4 \<le> h_len f" "h_size_at f + 4 \<le> h_len f" "h_digest_at f + 16 \<le> h_len f"
    and sizes: "length (h_size_enc f w) = 4" "h_size_dec f (h_size_enc f w) = w"
    and apart: "overlap_free (h_magic_at f) 4 (h_size_at f) 4" "overlap_free (h_magic_at f) 4 (h_digest_at f) 16" "overlap_free (h_size_at f) 4 (h_digest_at f) 16"
    and hashed: "(at, n) \<in> set (h_hashed f) \<Longrightarrow> at + n \<le> h_len f \<and> n < 64 \<and> overlap_free at n (h_size_at f) 4 \<and> overlap_free at n (h_digest_at f) 16"
    and meta: "\<lbrakk>length b = 4; h_len f \<le> length h\<rbrakk> \<Longrightarrow> h_meta f (put (h_size_at f) b h) = h_meta f h"
      "\<lbrakk>length g = 16; h_len f \<le> length h\<rbrakk> \<Longrightarrow> h_meta f (put (h_digest_at f) g h) = h_meta f h"
      "\<lbrakk>h_len f \<le> k; h_len f \<le> length h\<rbrakk> \<Longrightarrow> h_meta f (take k h) = h_meta f h"
begin

lemma hashed_take:
  assumes "h_len f \<le> k"
  shows "hashed_data f (take k h) data = hashed_data f h data"
proof -
  have "map (\<lambda>(at, n). slice at n (take k h)) (h_hashed f) = map (\<lambda>(at, n). slice at n h) (h_hashed f)"
    using hashed assms by (intro map_cong) (force simp: slice_def drop_take)+
  then show ?thesis by (simp only: hashed_data_def)
qed

lemma hashed_put:
  assumes "h_len f \<le> length h" "length b = 4" "length g = 16"
  shows "hashed_data f (put (h_digest_at f) g (put (h_size_at f) b h)) data = hashed_data f h data"
proof -
  have "slice at n (put (h_digest_at f) g (put (h_size_at f) b h)) = slice at n h" if "(at, n) \<in> set (h_hashed f)" for at n
    using hashed [OF that] inside assms by (simp add: slice_put_free)
  then have "map (\<lambda>(at, n). slice at n (put (h_digest_at f) g (put (h_size_at f) b h))) (h_hashed f) = map (\<lambda>(at, n). slice at n h) (h_hashed f)"
    by (intro map_cong) auto
  then show ?thesis by (simp only: hashed_data_def)
qed

lemma fix_md5_run:
  assumes "op_pread ops d off ds = Some data" "length data = ds" "ds < 2 ^ 32" "h_len f \<le> length h" "length stack = 64"
  shows "fix_md5 f ops stack h d off ds =
    (let g = md5_ref (hashed_data f h data)
     in if g = slice (h_digest_at f) 16 h then Inr (-1, h) else Inr (0, put (h_digest_at f) g (put (h_size_at f) (h_size_enc f (of_nat ds)) h)))"
proof -
  let ?ps = "map (\<lambda>(at, n). slice at n h) (h_hashed f)"
  have "foldl (\<lambda>c (at, n). MD5_Update c (slice at n h)) c xs = foldl MD5_Update c (map (\<lambda>(at, n). slice at n h) xs)" for c xs
    by (induction xs arbitrary: c) auto
  then have "MD5_Update (foldl (\<lambda>c (at, n). MD5_Update c (slice at n h)) (MD5_Init stack) (h_hashed f)) data = foldl MD5_Update (MD5_Init stack) (?ps @ [data])"
    by simp
  moreover have "\<forall>x\<in>set (?ps @ [data]). length x < 2 ^ 32"
  proof -
    have "length (slice at n h) < 2 ^ 32" if "(at, n) \<in> set (h_hashed f)" for at n
      using hashed [OF that] by (simp add: length_slice min_def)
    then show ?thesis using assms(2,3) by auto
  qed
  from md5_rsa_ref [OF assms(5) this] have "MD5_Final (foldl MD5_Update (MD5_Init stack) (?ps @ [data])) = md5_ref (hashed_data f h data)"
    by (simp only: md5_rsa_def hashed_data_def concat_append concat.simps append_Nil2)
  ultimately show ?thesis using assms(1,2,4) by (simp add: fix_md5_def Let_def)
qed

lemma fixhdr_run:
  assumes ch: "chip ops valid cells n eb nand bad" and d: "valid d" "devs s name = Some d"
    and hdr: "\<not> bad 0" "h_len f \<le> eb" "h_magic f A (slice (h_magic_at f) 4 (cells d))"
    and size: "n * eb < 2 ^ 31" "32 \<le> ulong_bits A" "hs = unat (h_size_dec f (slice (h_size_at f) 4 (cells d)))" "0 < hs"
    and dat: "off = h_len f + h_meta f (cells d)" "ds = min (if data_size = 0 then n * eb - off else data_size) hs" "off + ds \<le> n * eb"
    and stack: "length stack = 64"
  shows "\<exists>s' d'. mtd_fixhdr f A ops stack name 0 data_size s = (Inr 0, s') \<and> devs s' name = Some d' \<and> valid d' \<and>
    cells d' = fixed f (slice off ds (cells d)) (cells d)"
proof -
  define s1 where "s1 = s\<lparr>mtdsize := n * eb, erasesize := eb, mtd_nand := nand\<rparr>"
  have s1: "mtdsize s1 = n * eb" "erasesize s1 = eb" "devs s1 = devs s" by (simp_all add: s1_def)
  let ?c = "cells d" and ?data = "slice off ds (cells d)"
  let ?h = "take eb ?c"
  have lc: "length ?c = n * eb" using chip_geometry(2) [OF ch d(1)] .
  have op: "mtd_check_open ops name s = (Some d, s1)" using d(2) chip_geometry(3) [OF ch d(1)] by (simp add: mtd_check_open_def s1_def)
  have n0: "0 < n" using dat(1,3) inside(1) by (cases n) auto
  then have eb: "eb \<le> n * eb" by simp
  have "(2 :: nat) ^ 31 \<le> 2 ^ ulong_bits A" using size(2) by (intro power_increasing) auto
  then have U: "n * eb < 2 ^ ulong_bits A" using size(1) by linarith
  have ebU: "eb < 2 ^ ulong_bits A" using eb U by linarith
  have len: "length ?h = eb" "h_len f \<le> length ?c" using eb lc hdr(2) by (simp, linarith)
  have tk: "slice at m ?h = slice at m ?c" if "at + m \<le> h_len f" for at m
    using that hdr(2) by (simp add: slice_def drop_take)
  have mt: "h_meta f ?h = h_meta f ?c" using meta(3) [OF hdr(2) len(2)] .
  have sz: "size_add A 0 eb = eb" "size_add A 0 (h_len f + h_meta f ?c) = off" "size_sub A (n * eb) off = n * eb - off"
    using ebU U dat(1,3) by (simp_all add: size_add_small size_sub_small)
  have rd: "op_pread ops d 0 eb = Some ?h" "op_pread ops d off ds = Some ?data" "length ?data = ds"
    using chip_geometry(4) [OF ch d(1)] dat(3) lc by (simp_all add: slice_def)
  have bb: "block_base e 0 = 0" for e by (simp add: block_base_def)
  have ds: "(if (if data_size = 0 then n * eb - off else data_size) > hs then hs else if data_size = 0 then n * eb - off else data_size) = ds"
    by (simp add: dat(2) min_def)
  let ?g = "md5_ref (hashed_data f ?c ?data)"
  have "ds < 2 ^ 32" using dat(3) size(1) by simp
  then have fx: "fix_md5 f ops stack ?h d off ds =
     (if ?g = slice (h_digest_at f) 16 ?c then Inr (-1, ?h) else Inr (0, put (h_digest_at f) ?g (put (h_size_at f) (h_size_enc f (of_nat ds)) ?h)))"
    using fix_md5_run [OF rd(2,3), of ?h stack] len(1) hdr(2) stack by (simp add: hashed_take tk inside(3) Let_def)
  let ?block = "put (h_digest_at f) ?g (put (h_size_at f) (h_size_enc f (of_nat ds)) ?h)"
  have facts: "\<not> n * eb < size_add A 0 eb" "length ?h = eb" "\<not> eb < h_magic_at f + 4" "\<not> eb < h_size_at f + 4" "h_magic f A (slice (h_magic_at f) 4 ?h)"
    "unat (h_size_dec f (slice (h_size_at f) 4 ?h)) = hs" "hs \<noteq> 0" "size_add A 0 (h_len f + h_meta f ?h) = off" "size_sub A (n * eb) off = n * eb - off"
    "fix_md5 f ops stack ?h d off ds = (if ?g = slice (h_digest_at f) 16 ?c then Inr (-1, ?h) else Inr (0, ?block))"
    using inside hdr(2,3) size(3,4) eb sz len(1) tk mt fx by (simp_all del: length_take)
  have run: "mtd_fixhdr f A ops stack name 0 data_size s =
      (if ?g = slice (h_digest_at f) 16 ?c then (Inr 0, s1)
       else let (ok, d1) = mtd_erase_block ops eb d 0
            in if \<not> ok then (Inl (Exit 1), s1\<lparr>devs := (devs s1)(name \<mapsto> d1)\<rparr>)
               else let (res, d2) = op_pwrite ops d1 0 ?block
                    in (if res \<noteq> int eb then Inl (Exit 1) else Inr 0, s1\<lparr>devs := (devs s1)(name \<mapsto> d2)\<rparr>))"
    unfolding mtd_fixhdr_def Let_def bb op prod.case option.case diff_zero drop_0 s1 rd(1)
    by (cases "?g = slice (h_digest_at f) 16 ?c") (simp_all only: facts rd(1) prod.case option.case sum.case if_True if_False simp_thms take_0 append_Nil ds, simp_all)
  show ?thesis
  proof (cases "?g = slice (h_digest_at f) 16 ?c")
    case True
    then show ?thesis using run d s1 by (simp add: fixed_def)
  next
    case False
    have b: "put (h_size_at f) (h_size_enc f (of_nat ds)) ?h = take eb (put (h_size_at f) (h_size_enc f (of_nat ds)) ?c)"
      using inside(2) hdr(2) sizes(1) len by (simp add: take_put)
    have blk: "?block = take eb (put (h_digest_at f) ?g (put (h_size_at f) (h_size_enc f (of_nat ds)) ?c))"
      unfolding b using inside hdr(2) sizes(1) len by (simp add: take_put)
    have lb: "length ?block = eb" using inside hdr(2) sizes(1) len by simp
    obtain d1 d2 where w: "mtd_erase_block ops eb d 0 = (True, d1)" "op_pwrite ops d1 0 ?block = (int eb, d2)" "valid d2" "cells d2 = put 0 ?block ?c"
      using chip_erase_write [OF ch d(1) n0 hdr(1) lb] unfolding mult_0 by blast
    have "put 0 ?block ?c = put (h_digest_at f) ?g (put (h_size_at f) (h_size_enc f (of_nat ds)) ?c)"
    proof -
      let ?m = "put (h_digest_at f) ?g (put (h_size_at f) (h_size_enc f (of_nat ds)) ?c)"
      have "drop eb ?m = drop eb ?c" using inside hdr(2) sizes(1) len(2) by (simp add: drop_put_after)
      then have "take eb ?m @ drop eb ?c = ?m" by (metis append_take_drop_id)
      then show ?thesis unfolding put_def [of 0] using lb blk by simp
    qed
    then have "cells d2 = fixed f ?data ?c" using w(4) False rd(3) by (simp add: fixed_def)
    moreover have "mtd_fixhdr f A ops stack name 0 data_size s = (Inr 0, s1\<lparr>devs := (devs s1)(name \<mapsto> d2)\<rparr>)"
      unfolding run if_not_P [OF False] Let_def w(1) prod.case not_True_eq_False if_False w(2) by simp
    ultimately show ?thesis using w(3) by (intro exI [of _ "s1\<lparr>devs := (devs s1)(name \<mapsto> d2)\<rparr>"] exI [of _ d2]) simp
  qed
qed

text \<open>After a run the header is one for a second run, over the same data.\<close>

lemma fixed_again:
  assumes "h_len f \<le> length c" "h_magic f A (slice (h_magic_at f) 4 c)" "data = slice off ds c" "length data = ds" "ds < 2 ^ 32" "h_len f \<le> off"
    and "ds \<le> unat (h_size_dec f (slice (h_size_at f) 4 c))" "c' = fixed f data c"
  shows "length c' = length c" "h_magic f A (slice (h_magic_at f) 4 c')" "h_meta f c' = h_meta f c" "slice off ds c' = data" "fixed f data c' = c'"
    "ds \<le> unat (h_size_dec f (slice (h_size_at f) 4 c'))" "unat (h_size_dec f (slice (h_size_at f) 4 c')) \<in> {ds, unat (h_size_dec f (slice (h_size_at f) 4 c))}"
proof -
  let ?g = "md5_ref (hashed_data f c data)" and ?z = "h_size_enc f (of_nat ds)"
  have z: "length ?z = 4" "length ?g = 16" using sizes by simp_all
  consider "c' = c" "?g = slice (h_digest_at f) 16 c" | "c' = put (h_digest_at f) ?g (put (h_size_at f) ?z c)"
    using assms(4,8) by (auto simp: fixed_def Let_def split: if_splits)
  note cases = this
  show "length c' = length c" using cases inside assms(1) z by cases (simp_all del: length_md5_ref)
  show "h_magic f A (slice (h_magic_at f) 4 c')" using cases inside assms(1,2) apart z by cases (simp_all add: slice_put_free del: length_md5_ref)
  show "h_meta f c' = h_meta f c" using cases inside assms(1) meta z by cases (simp_all del: length_md5_ref)
  show "slice off ds c' = data" using cases inside assms(1,3,6) z by cases (simp_all add: slice_put_after del: length_md5_ref)
  have sz: "slice (h_size_at f) 4 c' = ?z" if "c' = put (h_digest_at f) ?g (put (h_size_at f) ?z c)"
    unfolding that using inside assms(1) apart(3) z by (simp add: slice_put_free slice_put_same)
  have "unat (of_nat ds :: u32) = ds" using assms(5) by (simp add: unsigned_of_nat take_bit_eq_mod)
  then show "ds \<le> unat (h_size_dec f (slice (h_size_at f) 4 c'))" "unat (h_size_dec f (slice (h_size_at f) 4 c')) \<in> {ds, unat (h_size_dec f (slice (h_size_at f) 4 c))}"
    using assms(7) sz sizes(2) by (cases rule: cases; simp)+
  show "fixed f data c' = c'"
  proof (rule cases)
    assume "c' = c" "?g = slice (h_digest_at f) 16 c"
    then show ?thesis by (simp add: fixed_def)
  next
    assume c: "c' = put (h_digest_at f) ?g (put (h_size_at f) ?z c)"
    have "hashed_data f c' data = hashed_data f c data" unfolding c using hashed_put [OF assms(1) z] by blast
    moreover have "slice (h_digest_at f) 16 c' = ?g" unfolding c using inside assms(1) z by (simp add: slice_put_same)
    ultimately show ?thesis by (simp add: fixed_def)
  qed
qed

lemma fixhdr_twice:
  assumes ch: "chip ops valid cells n eb nand bad" and d: "valid d" "devs s name = Some d"
    and hdr: "\<not> bad 0" "h_len f \<le> eb" "h_magic f A (slice (h_magic_at f) 4 (cells d))"
    and size: "n * eb < 2 ^ 31" "32 \<le> ulong_bits A" "hs = unat (h_size_dec f (slice (h_size_at f) 4 (cells d)))" "0 < hs"
    and dat: "off = h_len f + h_meta f (cells d)" "ds = min (if data_size = 0 then n * eb - off else data_size) hs" "off + ds \<le> n * eb" "0 < ds"
    and stack: "length stack = 64" "length stack' = 64"
  shows "\<exists>s1 s2 d1 d2. mtd_fixhdr f A ops stack name 0 data_size s = (Inr 0, s1) \<and> mtd_fixhdr f A ops stack' name 0 data_size s1 = (Inr 0, s2) \<and>
    devs s1 name = Some d1 \<and> devs s2 name = Some d2 \<and> cells d2 = cells d1"
proof -
  let ?data = "slice off ds (cells d)"
  obtain s1 d1 where r1: "mtd_fixhdr f A ops stack name 0 data_size s = (Inr 0, s1)" "devs s1 name = Some d1" "valid d1" "cells d1 = fixed f ?data (cells d)"
    using fixhdr_run [OF ch d hdr size dat(1-3) stack(1)] by blast
  have lc: "length (cells d) = n * eb" using chip_geometry(2) [OF ch d(1)] .
  have l: "h_len f \<le> length (cells d)" "length ?data = ds" "ds < 2 ^ 32" "h_len f \<le> off" "ds \<le> unat (h_size_dec f (slice (h_size_at f) 4 (cells d)))"
    using dat size(1,3) lc by simp_all
  note a = fixed_again [OF l(1) hdr(3) refl l(2,3,4,5) r1(4)]
  let ?hs = "unat (h_size_dec f (slice (h_size_at f) 4 (cells d1)))"
  have hs: "0 < ?hs" "ds = min (if data_size = 0 then n * eb - off else data_size) ?hs" using a(6,7) dat(2,4) size(3) by auto
  obtain s2 d2 where "mtd_fixhdr f A ops stack' name 0 data_size s1 = (Inr 0, s2)" "devs s2 name = Some d2" "cells d2 = fixed f (slice off ds (cells d1)) (cells d1)"
    using fixhdr_run [OF ch r1(3,2) hdr(1,2) a(2) size(1,2) refl hs(1) _ hs(2) dat(3) stack(2)] dat(1) a(3) by auto
  then show ?thesis using r1 a(4,5) by auto
qed

end

interpretation seama: md5_header seama_format
proof unfold_locales
  fix k and h :: bytes
  assume "h_len seama_format \<le> k" "h_len seama_format \<le> length h"
  then have "slice 6 2 (take k h) = slice 6 2 h" by (simp add: seama_format_def slice_def drop_take)
  then show "h_meta seama_format (take k h) = h_meta seama_format h" by (simp add: seama_format_def)
qed (auto simp: seama_format_def overlap_free_def slice_put_before)

interpretation wrg: md5_header wrg_format
  by unfold_locales (auto simp: wrg_format_def overlap_free_def)

interpretation wrgg: md5_header wrgg_format
  by unfold_locales (auto simp: wrgg_format_def overlap_free_def)

text \<open>C19. \<open>mtd fixseama\<close>, \<open>fixwrg\<close> and \<open>fixwrgg\<close> on a device whose first block is good and starts with the header: if the stored digest is not the MD5 digest of the hashed fields and of
  the data behind the header, up to the given size, the size in the header and the end of the device, then the size and the digest are written into the header; no other byte of the device changes. If it is,
  the device is not written to. A second run, on data that is not empty, finds the digest it expects and leaves the device as the first one did.\<close>

theorem mtd_fix_md5_header:
  assumes "chip ops valid cells n eb nand bad" "valid d" "devs s name = Some d" "\<not> bad 0" "n * eb < 2 ^ 31" "32 \<le> ulong_bits A" "length stack = 64" "length stack' = 64"
    and "(f, fixhdr) \<in> {(seama_format, mtd_fixseama), (wrg_format, mtd_fixwrg), (wrgg_format, mtd_fixwrgg)}"
    and "h_len f \<le> eb" "h_magic f A (slice (h_magic_at f) 4 (cells d))" "hs = unat (h_size_dec f (slice (h_size_at f) 4 (cells d)))" "0 < hs"
    and "off = h_len f + h_meta f (cells d)" "ds = min (if data_size = 0 then n * eb - off else data_size) hs" "off + ds \<le> n * eb"
    and "digest = md5_ref (hashed_data f (cells d) (slice off ds (cells d)))"
  shows "\<exists>s' d'. fixhdr A ops stack name 0 data_size s = (Inr 0, s') \<and> devs s' name = Some d' \<and> valid d' \<and>
    cells d' = (if digest = slice (h_digest_at f) 16 (cells d) then cells d
      else put (h_digest_at f) digest (put (h_size_at f) (h_size_enc f (of_nat ds)) (cells d))) \<and>
    (0 < ds \<longrightarrow> (\<exists>s2 d2. fixhdr A ops stack' name 0 data_size s' = (Inr 0, s2) \<and> devs s2 name = Some d2 \<and> cells d2 = cells d'))"
proof -
  have l: "length (slice off ds (cells d)) = ds" using assms(16) chip_geometry(2) [OF assms(1,2)] by simp
  have f: "md5_header f" "fixhdr = mtd_fixhdr f"
    using assms(9) seama.md5_header_axioms wrg.md5_header_axioms wrgg.md5_header_axioms by (auto simp: mtd_fixseama_def mtd_fixwrg_def mtd_fixwrgg_def)
  obtain s' d' where r: "fixhdr A ops stack name 0 data_size s = (Inr 0, s')" "devs s' name = Some d'" "valid d'"
      "cells d' = (if digest = slice (h_digest_at f) 16 (cells d) then cells d
        else put (h_digest_at f) digest (put (h_size_at f) (h_size_enc f (of_nat ds)) (cells d)))"
    using md5_header.fixhdr_run [OF f(1) assms(1-4,10,11,5,6,12-16,7)] f(2) unfolding assms(17) fixed_def Let_def l by auto
  moreover have "\<exists>s2 d2. fixhdr A ops stack' name 0 data_size s' = (Inr 0, s2) \<and> devs s2 name = Some d2 \<and> cells d2 = cells d'" if "0 < ds"
    using md5_header.fixhdr_twice [OF f(1) assms(1-4,10,11,5,6,12-16) that assms(7,8)] r(1,2) f(2) by auto
  ultimately show ?thesis by blast
qed

text \<open>The magic number of a WRGG header is the same for the kernel on every machine; \<open>fixwrgg\<close> expects its bytes in reverse on a little endian one.\<close>

lemma wrgg_magic_order:
  assumes "length b = 4"
  shows "h_magic wrgg_format A b \<longleftrightarrow> (if big_endian A then le32_dec b = 0x20080321 else be32_dec b = 0x20080321)"
proof -
  have "be32_dec b = bswap_32 w \<longleftrightarrow> le32_dec b = w" "le32_dec b = bswap_32 w \<longleftrightarrow> be32_dec b = w" for w
    using bswap_dec [OF assms] by (metis bswap_bswap)+
  then show ?thesis by (simp add: wrgg_format_def native32_dec_def htonl_def le32_to_cpu_def)
qed

text \<open>A device of two blocks with a Seama header whose digest is missing, in front of the data \<open>abc\<close>.\<close>

definition seama_ops :: "bytes mtd_ops" where
  "seama_ops = sim_ops 2 64 False (\<lambda>_. False)"

definition seama_cells :: "bytes \<Rightarrow> bytes" where
  "seama_cells digest = be32_enc 0x5EA3A417 @ [0, 0, 0, 0] @ be32_enc 3 @ digest @ [0x61, 0x62, 0x63] @ replicate 97 0xff"

definition seama_state :: "bytes mtd" where
  "seama_state = \<lparr>devs = [lit ''fw'' \<mapsto> seama_cells (replicate 16 0)], mtdsize = 0, erasesize = 0, mtd_nand = False, buf = [], bufcap = None,
     imageformat = MTD_IMAGE_FORMAT_UNKNOWN, image = []\<rparr>"

definition abc_digest :: bytes where
  "abc_digest = [0x90, 0x01, 0x50, 0x98, 0x3c, 0xd2, 0x4f, 0xb0, 0xd6, 0x96, 0x3f, 0x7d, 0x28, 0xe1, 0x7f, 0x72]"

lemma seama_chip: "chip seama_ops (\<lambda>d. length d = 2 * 64) (\<lambda>d. d) 2 64 False (\<lambda>_. False)"
  unfolding seama_ops_def by (rule sim_chip) simp_all

lemma seama_facts:
  assumes "c = seama_cells (replicate 16 0)"
  shows "length c = 2 * 64" "h_len seama_format \<le> 64" "devs seama_state (lit ''fw'') = Some c" "h_magic seama_format mips_le (slice (h_magic_at seama_format) 4 c)"
    "unat (h_size_dec seama_format (slice (h_size_at seama_format) 4 c)) = 3" "h_len seama_format + h_meta seama_format c = 28"
    "hashed_data seama_format c (slice 28 3 c) = [0x61, 0x62, 0x63]" "slice (h_digest_at seama_format) 16 c = replicate 16 0"
  unfolding assms
  by (simp add: seama_cells_def, simp add: seama_format_def, simp add: seama_state_def, code_simp, code_simp, code_simp, code_simp, code_simp)

lemma abc_ref: "md5_ref [0x61, 0x62, 0x63] = abc_digest"
  using md5_rsa_ref [of "replicate 64 0" "[[0x61, 0x62, 0x63]]"] md5_abc by (simp add: md5_rsa_def abc_digest_def)

theorem mtd_fix_md5_header_witness:
  "\<exists>s' d' s2. mtd_fixseama mips_le seama_ops (replicate 64 9) (lit ''fw'') 0 0 seama_state = (Inr 0, s') \<and> devs s' (lit ''fw'') = Some d' \<and> d' = seama_cells abc_digest \<and>
    mtd_fixseama mips_le seama_ops (replicate 64 8) (lit ''fw'') 0 0 s' = (Inr 0, s2) \<and> devs s2 (lit ''fw'') = Some d'"
proof -
  define c where "c = seama_cells (replicate 16 0)"
  note f = seama_facts [OF c_def]
  have dg: "md5_ref (hashed_data seama_format c (slice 28 3 c)) = abc_digest" unfolding f(7) by (rule abc_ref)
  have "put (h_digest_at seama_format) abc_digest (put (h_size_at seama_format) (h_size_enc seama_format (of_nat 3)) c) = seama_cells abc_digest"
    unfolding c_def by code_simp
  moreover have "abc_digest \<noteq> replicate 16 0" by code_simp
  ultimately show ?thesis
    using mtd_fix_md5_header [OF seama_chip f(1,3), of mips_le "replicate 64 9" "replicate 64 8" seama_format mtd_fixseama 3 28 3 0 abc_digest] f(2,4-6,8) dg
    by (auto simp: mips_le_def)
qed

end
