(* ===== verification/MtdJffs2.thy ===== *)
theory MtdJffs2
  imports Jffs2Log MtdMd5
begin

text \<open>
  \<open>mtd write\<close> with the option \<open>-j\<close>: \<open>mtd_write\<close> of \<^verbatim>\<open>package/system/mtd/src/mtd.c\<close> with the parts that \<^verbatim>\<open>Mtd\<close> leaves out. While the image is written, the
  JFFS2 nodes in it are parsed; where a block of it starts with the end marker of the file system, the file given with \<open>-j\<close> is written instead, and as much of
  the image behind it is skipped as the file took. At the end the checksum in the header of the image is updated. Without the option the loop is the one of
  \<^verbatim>\<open>Mtd\<close>.
\<close>

section \<open>The loop\<close>

text \<open>The globals for \<open>-j\<close>, \<open>-d\<close> and \<open>-s\<close>, the files, and the memory \<open>malloc\<close> gives.\<close>

record jffs2_env =
  je_dir :: bytes
  je_skip_bytes :: int
  je_files :: "bytes \<Rightarrow> (jstat \<times> rd list option) option"
  je_mem :: "nat \<Rightarrow> bytes"

text \<open>What is kept in the loop beside the state of \<open>Mtd\<close>: \<open>skip\<close>, \<open>jffs2file\<close>, \<open>jffs2_replaced\<close>, and the numbers of \<^verbatim>\<open>jffs2.c\<close>.\<close>

record 'd wrj =
  wj :: "'d wr"
  wj_skip :: int
  wj_file :: "bytes option"
  wj_replaced :: bool
  wj_nums :: numbers

definition replace_here :: "abi \<Rightarrow> 'd mtd_ops \<Rightarrow> geometry \<Rightarrow> nat \<Rightarrow> jffs2_env \<Rightarrow> bytes \<Rightarrow> nat \<Rightarrow> 'd wrj \<Rightarrow> (stop + unit) \<times> 'd wrj" where
  "replace_here A ops g fuel env file buflen y =
     (let x = wj y; (t, i, v) = wj_nums y;
          j = (jffs2_start (wr_dev x) [])\<lparr>j_pos := wr_pos x, target_ino := t, last_ino := i, last_version := v\<rparr>;
          (r, j') = mtd_replace_jffs2 A ops g fuel (je_files env) (je_mem env (g_erase g)) (wr_e x) file j;
          x' = x\<lparr>wr_dev := j_dev j', wr_pos := j_pos j'\<rparr>
      in case r of
           Inl st \<Rightarrow> (Inl st, y\<lparr>wj := x'\<rparr>)
         | Inr skip \<Rightarrow> (Inr (), \<lparr>wj = x'\<lparr>wr_w := wr_w x + skip, wr_e := wr_e x + skip\<rparr>, wj_skip = int skip - int buflen, wj_file = None,
             wj_replaced = True, wj_nums = (target_ino j', last_ino j', last_version j')\<rparr>))"

text \<open>The part of a round between the padding and the erasing: whether the block was replaced.\<close>

definition jffs2_round :: "abi \<Rightarrow> 'd mtd_ops \<Rightarrow> geometry \<Rightarrow> nat \<Rightarrow> jffs2_env \<Rightarrow> bytes \<Rightarrow> 'd wrj \<Rightarrow> (stop + bool) \<times> 'd wrj" where
  "jffs2_round A ops g fuel env p y =
     (case wj_file y of
        None \<Rightarrow> (Inr False, y)
      | Some file \<Rightarrow>
          if int (wr_w (wj y)) < je_skip_bytes env then (Inr False, y)
          else if length p < 4 then (Inl Fault, y)
          else if take 4 p = JFFS2_EOF then and_then (replace_here A ops g fuel env file (length p) y) (\<lambda>_ y'. (Inr True, y'))
          else (case mtd_parse_jffs2data A fuel (take (g_erase g) p) (je_dir env) (wj_nums y) of
                  Inl st \<Rightarrow> (Inl st, y)
                | Inr nums \<Rightarrow> (Inr False, y\<lparr>wj_nums := nums\<rparr>)))"

function write_loop_j :: "abi \<Rightarrow> 'd mtd_ops \<Rightarrow> geometry \<Rightarrow> jffs2_env \<Rightarrow> nat \<Rightarrow> nat \<Rightarrow> bool \<Rightarrow> nat \<Rightarrow> bool \<Rightarrow> nat \<Rightarrow> bytes \<Rightarrow> rd list \<Rightarrow> 'd wrj
    \<Rightarrow> (stop + wr_end) \<times> rd list \<times> 'd wrj" where
  "write_loop_j A ops g env cap part_offset no_erase fuel has_next offset b evs y =
     (let (b1, evs1) = fill_buf (g_erase g) b evs; p = pad_block (g_erase g) b1
      in if b1 = [] then (Inr Written, evs1, y)
         else if g_erase g > cap then (Inl Fault, evs1, y)
         else if wj_skip y > 0
         then write_loop_j A ops g env cap part_offset no_erase fuel has_next offset [] evs1 (y\<lparr>wj_skip := wj_skip y - int (length p)\<rparr>)
         else case jffs2_round A ops g fuel env p y of
             (Inl st, y1) \<Rightarrow> (Inl st, evs1, y1)
           | (Inr True, y1) \<Rightarrow> write_loop_j A ops g env cap part_offset no_erase fuel has_next 0 [] evs1 y1
           | (Inr False, y1) \<Rightarrow>
               (case write_block ops (g_erase g) (g_nand g) part_offset no_erase fuel has_next offset p (wj y1) of
                  (Inl st, x) \<Rightarrow> (Inl st, evs1, y1\<lparr>wj := x\<rparr>)
                | (Inr (Some r), x) \<Rightarrow> (Inr r, evs1, y1\<lparr>wj := x\<rparr>)
                | (Inr None, x) \<Rightarrow> write_loop_j A ops g env cap part_offset no_erase fuel has_next 0 [] evs1 (y1\<lparr>wj := x\<rparr>)))"
  by pat_completeness auto
termination
  by (relation "measure (\<lambda>(A, ops, g, env, cap, po, ne, fuel, has_next, offset, b, evs, y). rd_size evs + (if b = [] then 0 else 1))")
    (auto dest!: fill_buf_size [OF sym] split: if_splits)

declare write_loop_j.simps [simp del]

section \<open>The command\<close>

text \<open>After the image: the header is fixed with the function for its format, where it is linked (\<open>linked\<close>); the results are ignored. \<open>exit\<close> in one of them ends
  the program.\<close>

definition image_fixup :: "abi \<Rightarrow> 'd mtd_ops \<Rightarrow> ('d \<Rightarrow> bytes option) \<Rightarrow> ('d \<Rightarrow> bytes \<Rightarrow> 'd) \<Rightarrow> bytes \<Rightarrow> mtd_image_format set \<Rightarrow> bytes \<Rightarrow> 'd mtd
    \<Rightarrow> (stop + int) \<times> 'd mtd" where
  "image_fixup A ops map_dev sync_dev mem linked name s =
     (if imageformat s \<notin> linked then (Inr 0, s)
      else case imageformat s of
          MTD_IMAGE_FORMAT_UNKNOWN \<Rightarrow> (Inr 0, s)
        | MTD_IMAGE_FORMAT_TRX \<Rightarrow>
            (case devs s name of
               None \<Rightarrow> (Inr 0, s)
             | Some d \<Rightarrow> let (r, d') = trx_fixup A ops map_dev sync_dev d in (r, s\<lparr>devs := (devs s)(name \<mapsto> d')\<rparr>))
        | MTD_IMAGE_FORMAT_SEAMA \<Rightarrow> mtd_fixseama A ops mem name 0 0 s
        | MTD_IMAGE_FORMAT_WRG \<Rightarrow> mtd_fixwrg A ops mem name 0 0 s
        | MTD_IMAGE_FORMAT_WRGG03 \<Rightarrow> mtd_fixwrgg A ops mem name 0 0 s)"

fun write_devs_j :: "abi \<Rightarrow> 'd mtd_ops \<Rightarrow> jffs2_env \<Rightarrow> (bytes \<Rightarrow> 'd mtd \<Rightarrow> (stop + int) \<times> 'd mtd) \<Rightarrow> nat \<Rightarrow> bool \<Rightarrow> nat \<Rightarrow> bytes list \<Rightarrow> nat \<Rightarrow> nat
    \<Rightarrow> 'd mtd \<Rightarrow> int \<times> bytes option \<times> bool \<times> numbers \<Rightarrow> (stop + int) \<times> 'd mtd" where
  "write_devs_j A ops env fixup part_offset no_erase fuel [] skipped offset s js = (Inl (Exit 1), s)"
| "write_devs_j A ops env fixup part_offset no_erase fuel (name # names) skipped offset s js =
     (case mtd_check_open ops name s of
        (None, s1) \<Rightarrow> (Inl (Exit 1), s1)
      | (Some d, s1) \<Rightarrow>
          let (skip, file, replaced, nums) = js;
              g = \<lparr>g_size = mtdsize s1, g_erase = erasesize s1, g_nand = mtd_nand s1\<rparr>;
              (r, evs, y) = write_loop_j A ops g env (case bufcap s1 of None \<Rightarrow> 0 | Some n \<Rightarrow> n) part_offset no_erase fuel
                (names \<noteq> []) offset (buf s1) (image s1)
                \<lparr>wj = \<lparr>wr_dev = d, wr_pos = part_offset, wr_w = 0, wr_e = 0, wr_skip = skipped\<rparr>, wj_skip = skip, wj_file = file,
                  wj_replaced = replaced, wj_nums = nums\<rparr>;
              s2 = s1\<lparr>devs := (devs s1)(name \<mapsto> wr_dev (wj y)), buf := [], image := evs\<rparr>
          in case r of
               Inl st \<Rightarrow> (Inl st, s2)
             | Inr Written \<Rightarrow> if wj_replaced y then and_then (fixup name s2) (\<lambda>_ s3. (Inr 0, s3)) else (Inr 0, s2)
             | Inr (Unwritten b off) \<Rightarrow>
                 write_devs_j A ops env fixup part_offset no_erase fuel names (wr_skip (wj y)) off (s2\<lparr>buf := b\<rparr>)
                   (wj_skip y, wj_file y, wj_replaced y, wj_nums y))"

definition mtd_write_j :: "abi \<Rightarrow> 'd mtd_ops \<Rightarrow> jffs2_env \<Rightarrow> (bytes \<Rightarrow> 'd mtd \<Rightarrow> (stop + int) \<times> 'd mtd) \<Rightarrow> nat \<Rightarrow> bool \<Rightarrow> nat \<Rightarrow> bytes option \<Rightarrow> bytes
    \<Rightarrow> 'd mtd \<Rightarrow> (stop + int) \<times> 'd mtd" where
  "mtd_write_j A ops env fixup part_offset no_erase fuel jffs2file name s =
     write_devs_j A ops env fixup part_offset no_erase fuel (split_colon name) 0 0 s (0, jffs2file, False, (0, 0, 0))"

text \<open>\<open>main\<close> for \<open>write\<close>, with the options \<open>-j\<close>, \<open>-d\<close> and \<open>-s\<close>.\<close>

definition main_write :: "'d build \<Rightarrow> abi \<Rightarrow> 'd mtd_ops \<Rightarrow> (bytes \<Rightarrow> (jstat \<times> rd list option) option) \<Rightarrow> (nat \<Rightarrow> bytes) \<Rightarrow> (bytes \<Rightarrow> 'd mtd \<Rightarrow> (stop + int) \<times> 'd mtd) \<Rightarrow> nat
    \<Rightarrow> (bytes \<Rightarrow> rd list option) \<Rightarrow> rd list \<Rightarrow> mtd_opts \<Rightarrow> bytes \<Rightarrow> bytes \<Rightarrow> 'd mtd \<Rightarrow> (stop + bytes) \<times> 'd mtd" where
  "main_write B A ops files mem fixup fuel images stdin opts imagefile device s =
     and_then (prepare_write B ops (o_force opts) (if imagefile = lit ''-'' then Some stdin else images imagefile) device s)
       (\<lambda>_ s0. and_then (erase_args ops (o_erase opts) s0)
       (\<lambda>_ s1. and_then (unlock_first ops opts device s1)
       (\<lambda>_ s2. and_then (mtd_write_j A ops \<lparr>je_dir = o_jffs2dir opts, je_skip_bytes = o_skip_bytes opts, je_files = files, je_mem = mem\<rparr> fixup (o_part_offset opts)
            (o_no_erase opts) fuel (o_jffs2file opts) device s2) finished)))"

section \<open>Without the option\<close>

lemma write_loop_j_plain:
  "wj_file y = None \<Longrightarrow> wj_skip y \<le> 0 \<Longrightarrow> write_loop_j A ops g env cap po ne fuel has_next offset b evs y =
    (let (r, evs', x) = write_loop ops (g_erase g) (g_nand g) cap po ne fuel has_next offset b evs (wj y) in (r, evs', y\<lparr>wj := x\<rparr>))"
proof (induction A ops g env cap po ne fuel has_next offset b evs y rule: write_loop_j.induct)
  case (1 A ops g env cap po ne fuel has_next offset b evs y)
  obtain b1 evs1 where fill: "fill_buf (g_erase g) b evs = (b1, evs1)" by force
  note steps = write_loop_j.simps [of A ops g env cap po ne fuel has_next offset b evs y]
    write_loop.simps [of ops "g_erase g" "g_nand g" cap po ne fuel has_next offset b evs "wj y"]
  show ?case
  proof (cases "b1 = [] \<or> g_erase g > cap")
    case True
    then show ?thesis using fill by (auto simp: steps)
  next
    case False
    let ?p = "pad_block (g_erase g) b1"
    have rnd: "jffs2_round A ops g fuel env ?p y = (Inr False, y)" using "1.prems" by (simp add: jffs2_round_def)
    obtain w x where wb: "write_block ops (g_erase g) (g_nand g) po ne fuel has_next offset ?p (wj y) = (w, x)" by force
    show ?thesis
    proof (cases "w = Inr None")
      case True
      have "write_loop_j A ops g env cap po ne fuel has_next 0 [] evs1 (y\<lparr>wj := x\<rparr>) =
          (let (r, evs', x') = write_loop ops (g_erase g) (g_nand g) cap po ne fuel has_next 0 [] evs1 x in (r, evs', y\<lparr>wj := x'\<rparr>))"
        using "1.IH"(3) [OF refl fill [symmetric] refl _ _ _ rnd [symmetric] refl refl wb [symmetric] True refl] False "1.prems" by simp
      then show ?thesis using False fill rnd wb True "1.prems" by (simp add: steps)
    next
      case other: False
      then show ?thesis using False fill rnd wb "1.prems" by (auto simp: steps split: sum.splits option.splits)
    qed
  qed
qed

lemma write_devs_j_plain:
  "skip \<le> 0 \<Longrightarrow> write_devs_j A ops env fixup po ne fuel names skipped offset s (skip, None, False, nums) = write_devs ops po ne fuel names skipped offset s"
proof (induction names arbitrary: skipped offset s)
  case (Cons name names)
  show ?case
    using Cons by (auto simp: write_loop_j_plain Let_def split: prod.splits option.splits sum.splits wr_end.splits)
qed simp

text \<open>Without \<open>-j\<close> the loop of the flash writer is the one of \<^verbatim>\<open>Mtd\<close>.\<close>

lemma mtd_write_j_plain: "mtd_write_j A ops env fixup po ne fuel None name s = mtd_write ops po ne fuel name s"
  by (simp add: mtd_write_j_def mtd_write_def write_devs_j_plain)

lemma main_write_plain:
  "o_jffs2file opts = None \<Longrightarrow>
    main_write B A ops files mem fixup fuel images stdin opts imagefile device s = mtd_main B ops md5 fuel images fs stdin opts [lit ''write'', imagefile, device] s"
  by (simp add: main_write_def mtd_main_def mtd_write_j_plain lit_def)

section \<open>The file in the image\<close>

lemma mtd_replace_append:
  "mtd_replace_jffs2 A ops g fuel files mem start filename s =
    and_then (append_file A ops g fuel files filename [] (s\<lparr>j_mtdofs := start, j_buf := mem, target_ino := 1\<rparr>)) (\<lambda>_ s3. (Inr (j_mtdofs s3 - start), s3))"
  by (cases s) (simp add: mtd_replace_jffs2_def append_file_def Let_def and_then_def split: prod.splits sum.splits)

context jffs2_flash
begin

lemma replace_jffs2_flash:
  assumes "valid (j_dev s)" "c0 = cells (j_dev s)" "j_pos s = k0 * eb" "j_ofs s = 0" "last_ino s = i" "last_version s = v" "length mem = eb" "2 \<le> fuel"
    and f: "files filename = Some (st, Some evs)" "length (base_name filename) < 256"
    and c': "place bad n eb k0 (map (fs_block eb) (file_blocks A eb st evs [] (base_name filename) (1, i, v))) c0 = Some c'"
  shows "\<exists>m s'. mtd_replace_jffs2 A ops g fuel files mem (k0 * eb) filename s = (Inr m, s') \<and> valid (j_dev s') \<and> cells (j_dev s') = c'"
proof -
  let ?s = "s\<lparr>j_mtdofs := k0 * eb, j_buf := mem, target_ino := 1\<rparr>"
  let ?bs = "file_blocks A eb st evs [] (base_name filename) (1, i, v)"
  have T: "T ?s ([], [])" using assms(1-4,7) large by (auto simp: T_eq tracks_def intro!: exI [of _ k0])
  have st: "statics ?s = (1, i, v)" using assms(5,6) by (simp add: statics_def)
  have R: "R ?bs" using c' by (simp add: R_eq placeable_def)
  obtain s' where s': "append_file A ops g fuel files filename [] ?s = (Inr (), s')" "T s' (?bs, [])"
    using append_file_runs [where files = files and fuel = fuel, OF T st _ f(2,1) assms(8) refl R] by (auto simp: runs_def)
  have run: "mtd_replace_jffs2 A ops g fuel files mem (k0 * eb) filename s = (Inr (j_mtdofs s' - k0 * eb), s')"
    using s'(1) by (simp add: mtd_replace_append and_then_def)
  obtain k where "\<And>cs. place bad n eb k0 (map (fs_block eb) ?bs @ cs) c0 = place bad n eb k cs (cells (j_dev s'))" "valid (j_dev s')"
    using s'(2) by (auto simp: T_eq tracks_def)
  from this(1) [of "[]"] this(2) show ?thesis using c' run by auto
qed

end

text \<open>A block of the image before the end marker: nodes of a file system, or something else.\<close>

definition plain_block :: "abi \<Rightarrow> nat \<Rightarrow> bytes \<Rightarrow> bytes list \<Rightarrow> bool" where
  "plain_block A eb p ns \<longleftrightarrow> take 4 p \<noteq> JFFS2_EOF \<and>
     (p = fs_block eb ns \<and> wf_block A eb ns \<or> ns = [] \<and> native16_dec A (slice 0 2 p) \<noteq> 0x1985)"

lemma parse_plain_block:
  assumes "plain_block A eb p ns" "length p = eb" "eb mod 4 = 0" "1024 \<le> eb" "eb < 2 ^ 31" "eb < fuel"
  shows "mtd_parse_jffs2data A fuel p dir st = Inr (fold (num_step A dir) ns st)"
proof (cases "p = fs_block eb ns \<and> wf_block A eb ns")
  case True
  then show ?thesis using parse_fs_block [OF _ assms(3,5,6)] by simp
next
  case False
  then have "ns = []" "native16_dec A (slice 0 2 p) \<noteq> 0x1985" using assms(1) by (auto simp: plain_block_def)
  moreover obtain f where "fuel = Suc f" using assms(6) by (cases fuel) simp_all
  ultimately show ?thesis using assms(2,4) by (auto simp: mtd_parse_jffs2data_def fld16_def)
qed

lemma write_loop_j_places:
  assumes ch: "chip ops valid cells n eb nand bad" and eb: "eb mod 4 = 0" "1024 \<le> eb" "eb < 2 ^ 31" "32 \<le> ulong_bits A" "eb \<le> cap" "eb + n < fuel"
    and g: "g = \<lparr>g_size = n * eb, g_erase = eb, g_nand = nand\<rparr>"
    and env: "je_skip_bytes env \<le> 0" "length (je_mem env eb) = eb" "je_files env file = Some (st, Some fevs)" "length (base_name file) < 256"
  shows "\<lbrakk>valid (wr_dev (wj y)); wr_at eb k (wj y); wj_file y = Some file; wj_skip y \<le> 0; readable evs; length b \<le> eb; img = b @ image_bytes evs;
      image_blocks eb img = pre @ [lst]; list_all2 (plain_block A eb) pre old; take 4 lst = JFFS2_EOF;
      fold (num_step A (je_dir env)) (concat old) (wj_nums y) = (t, i, v);
      place bad n eb k (pre @ map (fs_block eb) (file_blocks A eb st fevs [] (base_name file) (1, i, v))) (cells (wr_dev (wj y))) = Some c'\<rbrakk> \<Longrightarrow>
    \<exists>evs' y'. write_loop_j A ops g env cap 0 False fuel False 0 b evs y = (Inr Written, evs', y') \<and> valid (wr_dev (wj y')) \<and>
      cells (wr_dev (wj y')) = c' \<and> wj_replaced y'"
proof (induction pre arbitrary: k y b evs img old)
  case Nil
  note prems = Nil.prems
  have gs: "g_erase g = eb" "g_nand g = nand" by (simp_all add: g)
  obtain b1 evs1 where fill: "fill_buf eb b evs = (b1, evs1)" by force
  note f = fill_buf_bytes [OF prems(5,6) fill, folded prems(7)]
  have img: "img \<noteq> []" using prems(8) by (auto simp: image_blocks.simps [of eb "[]"])
  then have ib: "pad_block eb (take eb img) = lst" "image_blocks eb (drop eb img) = []"
    using prems(8) eb(2) image_blocks.simps [of eb img] by auto
  have "drop eb img = []" using ib(2) image_blocks.simps [of eb "drop eb img"] eb(2) by (auto split: if_splits)
  then obtain evs2 where rest: "fill_buf eb [] evs1 = ([], evs2)"
    using fill_buf_bytes [of evs1 "[]" eb] f by (metis append_Nil length_greater_0_conv list.size(3) not_less prod.collapse take_Nil zero_le)
  have b1: "b1 = take eb img" "b1 \<noteq> []" "pad_block eb b1 = lst" "length lst = eb" "length lst \<ge> 4"
    using f img eb(2) ib(1) pad_block_length [of "take eb img" eb] by auto
  let ?x = "wj y"
  obtain t0 where nums: "wj_nums y = (t0, i, v)" using prems(9,11) by auto
  define j where "j = (jffs2_start (wr_dev ?x) [])\<lparr>j_pos := wr_pos ?x, target_ino := t0, last_ino := i, last_version := v\<rparr>"
  have at: "wr_e ?x = k * eb" "wr_pos ?x = k * eb" using prems(2) by (simp_all add: wr_at_def)
  have "jffs2_flash ops valid cells n eb nand bad k (cells (wr_dev ?x)) A g (tracks valid cells n eb bad k (cells (wr_dev ?x)))
      (placeable n eb bad k (cells (wr_dev ?x)))"
    using ch eb(1-4) g by unfold_locales simp_all
  from jffs2_flash.replace_jffs2_flash [where files = "je_files env" and s = j and mem = "je_mem env eb" and fuel = fuel and i = i and v = v, OF this _ _ _ _ _ _ env(2) _ env(3,4)]
  obtain m j' where rp: "mtd_replace_jffs2 A ops g fuel (je_files env) (je_mem env eb) (k * eb) file j = (Inr m, j')" "valid (j_dev j')" "cells (j_dev j') = c'"
    using prems(1,12) at(2) eb(2,6) by (auto simp: j_def jffs2_start_def)
  obtain y1 where y1: "replace_here A ops g fuel env file eb y = (Inr (), y1)" "wr_dev (wj y1) = j_dev j'" "wj_file y1 = None" "wj_replaced y1"
    using rp(1) nums at(1) by (auto simp: replace_here_def Let_def j_def [symmetric] g)
  have rnd: "jffs2_round A ops g fuel env lst y = (Inr True, y1)"
    using prems(3,10) env(1) b1(4,5) y1(1) by (auto simp: jffs2_round_def and_then_def)
  have "write_loop_j A ops g env cap 0 False fuel False 0 b evs y = write_loop_j A ops g env cap 0 False fuel False 0 [] evs1 y1"
    using fill b1 eb(5) prems(4) rnd gs by (simp add: write_loop_j.simps [of A ops g env cap 0 False fuel False 0 b evs y])
  also have "\<dots> = (Inr Written, evs2, y1)" using rest gs by (simp add: write_loop_j.simps [of A ops g env cap 0 False fuel False 0 "[]" evs1])
  finally show ?case using rp(2,3) y1(2,4) by auto
next
  case (Cons p ps)
  note prems = Cons.prems
  have gs: "g_erase g = eb" "g_nand g = nand" by (simp_all add: g)
  obtain b1 evs1 where fill: "fill_buf eb b evs = (b1, evs1)" by force
  note f = fill_buf_bytes [OF prems(5,6) fill, folded prems(7)]
  have img: "img \<noteq> []" using prems(8) by (auto simp: image_blocks.simps [of eb "[]"])
  then have ib: "pad_block eb (take eb img) = p" "image_blocks eb (drop eb img) = ps @ [lst]"
    using prems(8) eb(2) image_blocks.simps [of eb img] by auto
  have b1: "b1 = take eb img" "b1 \<noteq> []" "pad_block eb b1 = p" "length p = eb"
    using f img eb(2) ib(1) pad_block_length [of "take eb img" eb] by auto
  obtain ns old' where old: "old = ns # old'" "plain_block A eb p ns" "list_all2 (plain_block A eb) ps old'" using prems(9) by (auto simp: list_all2_Cons1)
  let ?nums = "fold (num_step A (je_dir env)) ns (wj_nums y)"
  have rnd: "jffs2_round A ops g fuel env p y = (Inr False, y\<lparr>wj_nums := ?nums\<rparr>)"
    using prems(3) env(1) b1(4) eb(2,6) old(2) parse_plain_block [OF old(2) b1(4) eb(1-3), of fuel "je_dir env"] g
    by (auto simp: jffs2_round_def plain_block_def)
  obtain j where j: "List.find (\<lambda>j. \<not> bad j) [k..<n] = Some j" using prems(12) by (auto split: option.splits)
  have "n - k + 2 \<le> fuel" using eb(2,6) by linarith
  then obtain x' where x': "write_block ops eb nand 0 False fuel False 0 p (wj y) = (Inr None, x')" "valid (wr_dev x')" "wr_at eb (Suc j) x'"
      "cells (wr_dev x') = put (j * eb) p (cells (wr_dev (wj y)))"
    using write_block_place [OF ch prems(1,2) _ b1(4), of fuel] j by auto
  let ?y = "y\<lparr>wj_nums := ?nums, wj := x'\<rparr>"
  have run: "write_loop_j A ops g env cap 0 False fuel False 0 b evs y = write_loop_j A ops g env cap 0 False fuel False 0 [] evs1 ?y"
    using fill b1 eb(5) prems(4) rnd x'(1) gs by (simp add: write_loop_j.simps [of A ops g env cap 0 False fuel False 0 b evs y])
  have pl: "place bad n eb (Suc j) (ps @ map (fs_block eb) (file_blocks A eb st fevs [] (base_name file) (1, i, v))) (cells (wr_dev (wj ?y))) = Some c'"
    using prems(12) j x'(4) by simp
  show ?case unfolding run
    by (rule Cons.IH [OF _ _ _ _ _ _ _ ib(2) old(3) prems(10) _ pl]) (use x' prems f old(1) in \<open>auto simp: fold_append\<close>)
qed

text \<open>Blocks placed one after the other: the good blocks up to some block hold the first ones, and the others are behind it.\<close>

lemma filter_first_good:
  assumes "List.find (\<lambda>j. \<not> bad j) [k..<n] = Some j" "Suc j \<le> k'"
  shows "filter (\<lambda>j. \<not> bad j) [k..<k'] = j # filter (\<lambda>j. \<not> bad j) [Suc j..<k']"
proof -
  obtain m where m: "m < n - k" "j = k + m" "\<not> bad j" "\<And>m'. m' < m \<Longrightarrow> bad (k + m')" using assms(1) by (auto simp: find_Some_iff)
  have j: "k \<le> j" "\<not> bad j" using m(2,3) by simp_all
  have before: "bad i" if "k \<le> i" "i < j" for i using m(4) [of "i - k"] m(2) that by simp
  have "[k..<k'] = [k..<j] @ [j..<k']" using upt_add_eq_append [OF j(1), of "k' - j"] assms(2) by simp
  also have "[j..<k'] = j # [Suc j..<k']" using assms(2) by (simp add: upt_conv_Cons)
  finally have "[k..<k'] = [k..<j] @ j # [Suc j..<k']" .
  moreover have "filter (\<lambda>j. \<not> bad j) [k..<j] = []" using before by (auto simp: filter_empty_conv)
  ultimately show ?thesis using j(2) by simp
qed

lemma place_append:
  "place bad n eb k (as @ bs) c = Some c' \<Longrightarrow> length c = n * eb \<Longrightarrow> (\<And>b. b \<in> set as \<Longrightarrow> length b = eb) \<Longrightarrow> k \<le> n \<Longrightarrow>
    \<exists>k' c1. k \<le> k' \<and> k' \<le> n \<and> place bad n eb k as c = Some c1 \<and> map (\<lambda>j. slice (j * eb) eb c1) (filter (\<lambda>j. \<not> bad j) [k..<k']) = as \<and>
      place bad n eb k' bs c1 = Some c'"
proof (induction as arbitrary: k c)
  case Nil
  then show ?case by (intro exI [of _ k] exI [of _ c]) simp
next
  case (Cons a as)
  then obtain j where j: "List.find (\<lambda>j. \<not> bad j) [k..<n] = Some j" "place bad n eb (Suc j) (as @ bs) (put (j * eb) a c) = Some c'"
    by (auto split: option.splits)
  then have kj: "k \<le> j" "j < n" by (auto simp: find_Some_iff)
  have l: "length (put (j * eb) a c) = n * eb" using block_inside [OF kj(2), of eb] Cons.prems(2,3) by simp
  obtain k' c1 where k': "Suc j \<le> k'" "k' \<le> n" "place bad n eb (Suc j) as (put (j * eb) a c) = Some c1"
      "map (\<lambda>j. slice (j * eb) eb c1) (filter (\<lambda>j. \<not> bad j) [Suc j..<k']) = as" "place bad n eb k' bs c1 = Some c'"
    using Cons.IH [OF j(2) l] Cons.prems(3) kj by auto
  have "slice (j * eb) eb c1 = a" using place_slice [OF k'(3) Cons.prems(2) kj(2)] Cons.prems(3) by simp
  then show ?case using k' kj j(1) filter_first_good [OF j(1) k'(1)] by (intro exI [of _ k'] exI [of _ c1]) simp
qed

text \<open>C11. \<open>mtd -j\<close>: an image whose last erase block starts with the end marker is written together with a file. The device has less than
  2 GiB. The blocks before the marker are where a plain write puts them, and are all the good blocks before some block of the device; the nodes from that block on, read behind those
  of the image, make the name of the file in the root directory lead to an inode whose data is the file, with every checksum valid, and whose number is above the highest one that the
  directory entries of the image have. The last step is the update of the header.\<close>

theorem mtd_write_j_adds_file:
  assumes "chip ops valid cells n eb nand bad" "eb mod 4 = 0" "1024 \<le> eb" "eb < 2 ^ 31" "32 \<le> ulong_bits A" "eb + n < fuel" "n * eb < 2 ^ 31"
    and "devs s name = Some d" "valid d" "0x3a \<notin> set name" "bufcap s = Some cap" "eb \<le> cap" "length (buf s) \<le> eb" "readable (image s)"
    and "je_skip_bytes env \<le> 0" "length (je_mem env eb) = eb" "je_files env jfile = Some (st, Some fevs)" "base_name jfile = fname" "length fname < 256"
    and "0 \<notin> set fname" "length (file_bytes fevs) < 2 ^ 32"
    and "image_blocks eb (buf s @ image_bytes (image s)) = pre @ [lst]" "take 4 lst = JFFS2_EOF" "list_all2 (plain_block A eb) pre old"
    and "inodes_named A (concat old)" "fold (num_step A (je_dir env)) (concat old) (0, 0, 0) = (t, i, v)" "unat i < 2 ^ 32 - 4"
    and "length pre + length (file_blocks A eb st fevs [] fname (1, i, v)) \<le> length (filter (\<lambda>j. \<not> bad j) [0..<n])"
  shows "\<exists>d' s' k c1 ino. mtd_write_j A ops env fixup 0 False fuel (Some jfile) name s = and_then (fixup name s') (\<lambda>_ s''. (Inr 0, s'')) \<and>
    devs s' name = Some d' \<and> imageformat s' = imageformat s \<and> place bad n eb 0 pre (cells d) = Some c1 \<and> take (k * eb) (cells d') = take (k * eb) c1 \<and>
    map (\<lambda>j. slice (j * eb) eb (cells d')) (filter (\<lambda>j. \<not> bad j) [0..<k]) = pre \<and> i < ino \<and>
    dir_lookup A 1 fname (concat old @ read_fs A eb bad (cells d') [k..<n]) = Some ino \<and>
    inode_data A ino (concat old @ read_fs A eb bad (cells d') [k..<n]) = file_bytes fevs"
proof -
  let ?fb = "file_blocks A eb st fevs [] fname (1, i, v)"
  obtain p ino ver ns where first: "first_nodes A [] fname (1, i, v) = ((p, ino, ver), ns)" by (metis surj_pair)
  then have p: "p = 1" by (auto simp: first_nodes_def Let_def)
  note fresh = fresh_inode [OF assms(26,25,27) first]
  obtain bs where bs: "?fb = bs @ [[JFFS2_EOF]]" "\<And>b. b \<in> set bs \<Longrightarrow> wf_block A eb b \<and> b \<noteq> []" "inode_data A ino (concat old @ concat bs) = file_bytes fevs"
      "dir_lookup A p fname (concat old @ concat bs) = Some ino"
    using file_blocks_read [OF assms(2-4) _ assms(19) _ assms(20,21) first fresh(1)] by auto
  obtain c' where c': "place bad n eb 0 (pre @ map (fs_block eb) ?fb) (cells d) = Some c'"
    using place_enough [of "pre @ map (fs_block eb) ?fb" bad 0 n eb "cells d"] assms(28) by auto
  have lp: "b \<in> set pre \<Longrightarrow> length b = eb" for b using image_blocks_length [of b eb "buf s @ image_bytes (image s)"] assms(22) by auto
  obtain k c1 where k: "place bad n eb 0 pre (cells d) = Some c1" "place bad n eb k (map (fs_block eb) (bs @ [[JFFS2_EOF]])) c1 = Some c'"
      "map (\<lambda>j. slice (j * eb) eb c1) (filter (\<lambda>j. \<not> bad j) [0..<k]) = pre"
    using place_append [OF c' chip_geometry(2) [OF assms(1,9)] lp] bs(1) by auto
  have lc: "length c1 = n * eb" using place_keeps [OF k(1) chip_geometry(2) [OF assms(1,9)]] lp by blast
  have "x \<in> set (map (fs_block eb) (bs @ [[JFFS2_EOF]])) \<Longrightarrow> length x = eb" for x
    using bs(2) assms(3) by (auto simp: wf_block_def JFFS2_EOF_def align4_def intro!: fs_block_length)
  then have keep: "take (k * eb) c' = take (k * eb) c1" using place_keeps [OF k(2) lc] by blast
  have "slice (j * eb) eb c' = slice (j * eb) eb c1" if "j < k" for j
    using arg_cong [OF keep, of "\<lambda>x. slice (j * eb) eb x"] block_inside [OF that, of eb] by (simp add: slice_def drop_take min_absorb1)
  then have image: "map (\<lambda>j. slice (j * eb) eb c') (filter (\<lambda>j. \<not> bad j) [0..<k]) = pre" using k(3) by (auto cong: map_cong)
  have rd: "read_fs A eb bad c' [k..<n] = concat bs" using read_fs_place [OF bs(2) assms(3) k(2) lc] by simp
  define s1 where "s1 = s\<lparr>mtdsize := n * eb, erasesize := eb, mtd_nand := nand\<rparr>"
  define g where "g = \<lparr>g_size = mtdsize s1, g_erase = erasesize s1, g_nand = mtd_nand s1\<rparr>"
  define y where "y = \<lparr>wj = \<lparr>wr_dev = d, wr_pos = 0, wr_w = 0, wr_e = 0, wr_skip = 0\<rparr>, wj_skip = 0, wj_file = Some jfile, wj_replaced = False, wj_nums = (0, 0, 0)\<rparr>"
  have op: "mtd_check_open ops name s = (Some d, s1)" using assms(8) chip_geometry(3) [OF assms(1,9)] by (simp add: mtd_check_open_def s1_def)
  have s1: "bufcap s1 = bufcap s" "buf s1 = buf s" "image s1 = image s" by (simp_all add: s1_def)
  have g: "g = \<lparr>g_size = n * eb, g_erase = eb, g_nand = nand\<rparr>" by (simp add: g_def s1_def)
  have y: "valid (wr_dev (wj y))" "wr_at eb 0 (wj y)" "wj_file y = Some jfile" "wj_skip y \<le> 0" "wj_nums y = (0, 0, 0)" "cells (wr_dev (wj y)) = cells d"
    using assms(9) by (simp_all add: y_def wr_at_def)
  obtain evs' y' where w: "write_loop_j A ops g env cap 0 False fuel False 0 (buf s) (image s) y = (Inr Written, evs', y')" "cells (wr_dev (wj y')) = c'" "wj_replaced y'"
    using write_loop_j_places [OF assms(1-5,12,6) g assms(15-17) _ y(1-4) assms(14,13) refl assms(22,24,23), of t i v c'] assms(18,19,26) c' y(5,6) by auto
  define s' where "s' = s1\<lparr>devs := (devs s1)(name \<mapsto> wr_dev (wj y')), buf := [], image := evs'\<rparr>"
  have "mtd_write_j A ops env fixup 0 False fuel (Some jfile) name s = and_then (fixup name s') (\<lambda>_ s''. (Inr 0, s''))"
    unfolding mtd_write_j_def split_colon_plain [OF assms(10)] write_devs_j.simps op
    using w assms(11) s1 by (simp add: g_def [symmetric] y_def [symmetric] s'_def)
  moreover have "devs s' name = Some (wr_dev (wj y'))" "imageformat s' = imageformat s" by (simp_all add: s'_def s1_def)
  ultimately show ?thesis
    using k(1) keep image fresh(2) rd bs(3,4) p w(2)
    by - (rule exI [of _ "wr_dev (wj y')"], rule exI [of _ s'], rule exI [of _ k], rule exI [of _ c1], rule exI [of _ ino], simp)
qed

text \<open>An image of one block and the end marker, written with a file of three bytes to a device of four blocks.\<close>

definition j_state :: "bytes mtd" where
  "j_state = jffs2_state\<lparr>bufcap := Some 1024, image := [Chunk (replicate 1024 7 @ JFFS2_EOF)]\<rparr>"

definition j_env :: jffs2_env where
  "j_env = \<lparr>je_dir = [], je_skip_bytes = 0, je_files = jffs2_files, je_mem = (\<lambda>m. replicate m 0)\<rparr>"

lemma j_image_blocks: "image_blocks 1024 (replicate 1024 7 @ JFFS2_EOF) = [replicate 1024 7] @ [pad_block 1024 JFFS2_EOF]"
proof -
  have "image_blocks 1024 JFFS2_EOF = [pad_block 1024 JFFS2_EOF]"
    by (subst image_blocks.simps) (simp add: JFFS2_EOF_def image_blocks.simps [of _ "[]"])
  then show ?thesis by (subst image_blocks.simps) (simp add: pad_block_def)
qed

theorem mtd_write_j_adds_file_witness:
  "\<exists>d' s' k ino. 0 < k \<and> k \<le> Suc 0 \<and> slice 0 1024 d' = replicate 1024 7 \<and>
    mtd_write_j mips_le (sim_ops 4 1024 False (\<lambda>_. False)) j_env (\<lambda>_ s. (Inr 0, s)) 0 False 2000 (Some (lit ''/tmp/a'')) (lit ''fs'') j_state = (Inr 0, s') \<and>
    devs s' (lit ''fs'') = Some d' \<and> dir_lookup mips_le 1 (lit ''a'') (read_fs mips_le 1024 (\<lambda>_. False) d' [k..<4]) = Some ino \<and>
    inode_data mips_le ino (read_fs mips_le 1024 (\<lambda>_. False) d' [k..<4]) = [1, 2, 3]"
proof -
  have s: "devs j_state (lit ''fs'') = Some jffs2_cells" "bufcap j_state = Some 1024" "buf j_state = []" "length jffs2_cells = 4 * 1024"
      "image j_state = [Chunk (replicate 1024 7 @ JFFS2_EOF)]" "readable (image j_state)" "0x3a \<notin> set (lit ''fs'')"
    by (simp_all add: j_state_def jffs2_state_def jffs2_cells_def readable_def lit_def JFFS2_EOF_def)
  have e: "je_skip_bytes j_env \<le> 0" "length (je_mem j_env 1024) = 1024" "je_files j_env (lit ''/tmp/a'') = Some (jffs2_stat, Some [Chunk [1, 2, 3]])"
      "je_dir j_env = []" "base_name (lit ''/tmp/a'') = lit ''a''" "length (lit ''a'') = 1" "0 \<notin> set (lit ''a'')"
    by (simp_all add: j_env_def jffs2_files_def base_name_def lit_def)
  have "slice 0 2 (replicate 1024 (7 :: byte)) = [7, 7]" "take 4 (replicate 1024 (7 :: byte)) \<noteq> JFFS2_EOF" "take 4 (pad_block 1024 JFFS2_EOF) = JFFS2_EOF"
    by code_simp+
  then have pb: "list_all2 (plain_block mips_le 1024) [replicate 1024 7] [[]]" "take 4 (pad_block 1024 JFFS2_EOF) = JFFS2_EOF"
    by (simp_all add: plain_block_def native16_dec_def mips_le_def)
  have "length (filter (\<lambda>j. True) [0..<4]) = 4" "32 \<le> ulong_bits mips_le" by (simp_all add: mips_le_def)
  then show ?thesis
    using mtd_write_j_adds_file [where env = j_env and A = mips_le and fuel = 2000 and jfile = "lit ''/tmp/a''" and fixup = "\<lambda>_ s. (Inr 0, s)" and old = "[[]]" and cap = 1024,
        OF sim_chip [of 1024 False "\<lambda>_. False" 4] _ _ _ _ _ _ s(1) _ s(7,2) _ _ s(6) e(1-3,5), of "[replicate 1024 7]" "pad_block 1024 JFFS2_EOF" 0 0 0]
      file_blocks_small [of 1024 "[1, 2, 3]" "lit ''a''" 1 mips_le jffs2_stat "[]" 0 0] j_image_blocks s(3-5) e(4,6,7) pb
    by (auto simp: and_then_def inodes_named_def upt_eq_Cons_conv) blast
qed

end
