(* ===== verification/Fis.thy ===== *)
theory Fis
  imports MtdJffs2
begin

text \<open>
  The option \<open>-F\<close> of \<open>mtd write\<close>: RedBoot's table of partitions, \<^verbatim>\<open>package/system/mtd/src/fis.c\<close>, and the lines of \<open>mtd_write\<close> in
  \<^verbatim>\<open>mtd.c\<close> under \<open>FIS_SUPPORT\<close>. The partitions that are written are replaced in the table by the ones given with the option.

  The table is the first erase block of the device named FIS directory, mapped into memory: \<open>map_dev\<close> shows a number of bytes of the device, \<open>sync_dev\<close> is the device after they were
  changed. Pointers to descriptors are indices; an access outside of the mapping and a copy of a negative length are a \<open>Fault\<close>. The erase size is a multiple of the
  256 bytes of a descriptor.
\<close>

section \<open>Descriptors\<close>

text \<open>\<open>struct fis_image_desc\<close>: its fields in the 256 bytes of a descriptor.\<close>

record fis_image_desc =
  fd_name :: bytes
  fd_flash_base :: u32
  fd_mem_base :: u32
  fd_size :: u32
  fd_entry_point :: u32
  fd_data_length :: u32

definition desc_dec :: "abi \<Rightarrow> bytes \<Rightarrow> fis_image_desc" where
  "desc_dec A d = \<lparr>fd_name = slice 0 16 d, fd_flash_base = native32_dec A (slice 16 4 d), fd_mem_base = native32_dec A (slice 20 4 d), fd_size = native32_dec A (slice 24 4 d),
     fd_entry_point = native32_dec A (slice 28 4 d), fd_data_length = native32_dec A (slice 32 4 d)\<rparr>"

text \<open>A descriptor as \<open>fis_remap\<close> writes it: the rest and the checksums are 0.\<close>

definition desc_enc :: "abi \<Rightarrow> fis_image_desc \<Rightarrow> bytes" where
  "desc_enc A d = fd_name d @ native32_enc A (fd_flash_base d) @ native32_enc A (fd_mem_base d) @ native32_enc A (fd_size d) @
     native32_enc A (fd_entry_point d) @ native32_enc A (fd_data_length d) @ replicate 220 0"

record fis_part =
  fp_name :: bytes
  fp_loadaddr :: u32
  fp_size :: u32

text \<open>\<open>strncmp\<close> of two names, and the test that ends the loops over the table.\<close>

definition same_name :: "bytes \<Rightarrow> bytes \<Rightarrow> bool" where
  "same_name a b \<longleftrightarrow> takeWhile (\<lambda>c. c \<noteq> 0) (take 16 a) = takeWhile (\<lambda>c. c \<noteq> 0) (take 16 b)"

definition unused :: "bytes \<Rightarrow> bool" where
  "unused d \<longleftrightarrow> d ! 0 = 0 \<or> d ! 0 = 0xff"

definition is_old :: "fis_part list \<Rightarrow> bytes \<Rightarrow> bool" where
  "is_old old d \<longleftrightarrow> (\<exists>p\<in>set old. same_name d (fp_name p))"

definition fis_table :: "bytes \<Rightarrow> bytes list" where
  "fis_table m = map (\<lambda>i. slice (256 * i) 256 m) [0..<length m div 256]"

definition FIS_DIRECTORY :: bytes where "FIS_DIRECTORY = lit ''FIS directory''"

definition fis_open :: "'d mtd_ops \<Rightarrow> ('d \<Rightarrow> nat \<Rightarrow> bytes option) \<Rightarrow> 'd mtd \<Rightarrow> ('d \<times> bytes) option \<times> 'd mtd" where
  "fis_open ops map_dev s =
     (case mtd_check_open ops FIS_DIRECTORY s of
        (None, s1) \<Rightarrow> (None, s1)
      | (Some d, s1) \<Rightarrow> (case map_dev d (erasesize s1) of None \<Rightarrow> (None, s1) | Some m \<Rightarrow> (Some (d, m), s1)))"

section \<open>Checking the new layout\<close>

definition fis_validate :: "'d mtd_ops \<Rightarrow> ('d \<Rightarrow> nat \<Rightarrow> bytes option) \<Rightarrow> fis_part list \<Rightarrow> fis_part list \<Rightarrow> 'd mtd \<Rightarrow> (stop + int) \<times> 'd mtd" where
  "fis_validate ops map_dev old new s =
     (case fis_open ops map_dev s of
        (None, s1) \<Rightarrow> (Inr (-1), s1)
      | (Some (d, m), s1) \<Rightarrow>
          if \<exists>p\<in>set (butlast new). fp_size p = 0 then (Inr (-1), s1)
          else if length m mod 256 \<noteq> 0 then (Inl Fault, s1)
          else let found = length (filter (is_old old) (takeWhile (\<lambda>d. \<not> unused d) (fis_table m)))
               in (Inr (if found = length old then 1 else -1), s1))"

section \<open>Changing the table\<close>

text \<open>The first loop: the first and the last descriptor of an old partition, and the highest address.\<close>

fun scan_loop :: "abi \<Rightarrow> fis_part list \<Rightarrow> nat \<Rightarrow> bytes list \<Rightarrow> (nat \<times> nat) option \<times> u32 \<Rightarrow> (nat \<times> nat) option \<times> u32" where
  "scan_loop A old i [] r = r"
| "scan_loop A old i (d # ds) (fl, offset) =
     (if unused d then (fl, offset)
      else let base = fd_flash_base (desc_dec A d); offset' = (if offset < base then base else offset);
               fl' = (if is_old old d then (case fl of None \<Rightarrow> Some (i, i) | Some (f, l) \<Rightarrow> Some (f, i)) else fl)
           in scan_loop A old (Suc i) ds (fl', offset'))"

text \<open>The second one: the lowest address above that of the last partition.\<close>

fun space_loop :: "abi \<Rightarrow> u32 \<Rightarrow> bytes list \<Rightarrow> u32 \<Rightarrow> u32" where
  "space_loop A last_base [] offset = offset"
| "space_loop A last_base (d # ds) offset =
     (if unused d then offset
      else let base = fd_flash_base (desc_dec A d)
           in space_loop A last_base ds (if base > last_base \<and> base < offset then base else offset))"

definition new_desc :: "fis_part \<Rightarrow> u32 \<Rightarrow> u32 \<Rightarrow> fis_image_desc" where
  "new_desc p offset sz = \<lparr>fd_name = fp_name p, fd_flash_base = offset, fd_mem_base = fp_loadaddr p, fd_size = (if fp_size p > 0 then fp_size p else sz),
     fd_entry_point = fp_loadaddr p, fd_data_length = (if fp_size p > 0 then fp_size p else sz)\<rparr>"

fun part_loop :: "abi \<Rightarrow> fis_part list \<Rightarrow> nat \<Rightarrow> u32 \<Rightarrow> u32 \<Rightarrow> bytes \<Rightarrow> bytes" where
  "part_loop A [] i offset sz m = m"
| "part_loop A (p # ps) i offset sz m =
     (let d = new_desc p offset sz in part_loop A ps (Suc i) (offset + fd_size d) (sz - fd_size d) (put (256 * i) (desc_enc A d) m))"

text \<open>\<open>memset\<close> gets \<open>tmp - end\<close>, a negative length.\<close>

definition move_rest :: "nat \<Rightarrow> nat \<Rightarrow> bytes \<Rightarrow> stop + bytes" where
  "move_rest desc lst m =
     (if desc = lst then Inr m
      else if length m < 256 * max desc lst then Inl Fault
      else let m1 = put (256 * desc) (slice (256 * lst) (length m - 256 * max desc lst) m) m
           in if desc < lst then Inl Fault else Inr m1)"

definition remap_table :: "abi \<Rightarrow> fis_part list \<Rightarrow> fis_part list \<Rightarrow> bytes \<Rightarrow> stop + bytes" where
  "remap_table A old new m =
     (if length m mod 256 \<noteq> 0 then Inl Fault
      else case scan_loop A old 0 (fis_table m) (None, 0) of
          (None, _) \<Rightarrow> Inl Fault
        | (Some (f, l), offset) \<Rightarrow>
            let base = (\<lambda>i. fd_flash_base (desc_dec A (fis_table m ! i)));
                (first_fb, last_fb) = (if base f > base l then (base l, base f) else (base f, base l));
                sz = space_loop A last_fb (fis_table m) offset - first_fb
            in case move_rest (f + length new) (Suc l) m of
                 Inl st \<Rightarrow> Inl st
               | Inr m1 \<Rightarrow> if length m < 256 * (f + length new) then Inl Fault else Inr (part_loop A new f first_fb sz m1))"

definition fis_remap :: "abi \<Rightarrow> 'd mtd_ops \<Rightarrow> ('d \<Rightarrow> nat \<Rightarrow> bytes option) \<Rightarrow> ('d \<Rightarrow> bytes \<Rightarrow> 'd) \<Rightarrow> fis_part list \<Rightarrow> fis_part list \<Rightarrow> 'd mtd \<Rightarrow> (stop + int) \<times> 'd mtd" where
  "fis_remap A ops map_dev sync_dev old new s =
     (case fis_open ops map_dev s of
        (None, s1) \<Rightarrow> (Inr (-1), s1)
      | (Some (d, m), s1) \<Rightarrow>
          (case remap_table A old new m of
             Inl st \<Rightarrow> (Inl st, s1)
           | Inr m' \<Rightarrow> (Inr 0, s1\<lparr>devs := (devs s1)(FIS_DIRECTORY \<mapsto> sync_dev d m')\<rparr>)))"

section \<open>The option\<close>

text \<open>The names of the old partitions, from the devices to write, and the new ones from the option. The arrays have eight elements and the names 16 bytes; \<open>strtok\<close> skips
  empty words, and gives none for a word of colons.\<close>

fun split_at :: "byte \<Rightarrow> bytes \<Rightarrow> bytes list" where
  "split_at x [] = [[]]"
| "split_at x (c # cs) = (if c = x then [] # split_at x cs else case split_at x cs of w # ws \<Rightarrow> (c # w) # ws | [] \<Rightarrow> [[c]])"

definition tokens :: "byte \<Rightarrow> bytes \<Rightarrow> bytes list" where
  "tokens x s = filter (\<lambda>w. w \<noteq> []) (split_at x s)"

definition pad_name :: "bytes \<Rightarrow> bytes" where
  "pad_name s = s @ replicate (16 - length s) 0"

definition old_parts :: "bytes \<Rightarrow> fis_part list option" where
  "old_parts mtd =
     (let names = split_at 0x3a mtd
      in if length names > 8 \<or> (\<exists>w\<in>set names. length w > 16) then None
         else Some (map (\<lambda>w. \<lparr>fp_name = pad_name w, fp_loadaddr = 0, fp_size = 0\<rparr>) names))"

definition new_part :: "abi \<Rightarrow> bytes \<Rightarrow> fis_part option" where
  "new_part A word =
     (case tokens 0x3a word of
        [] \<Rightarrow> None
      | name # rest \<Rightarrow>
          Some \<lparr>fp_name = pad_name (take 15 name),
            fp_loadaddr = (case rest of _ # addr # _ \<Rightarrow> of_nat (fst (strtoul A 16 addr)) | _ \<Rightarrow> 0),
            fp_size = (case rest of sz # _ \<Rightarrow> of_nat (fst (strtoul A 0 sz)) | [] \<Rightarrow> 0)\<rparr>)"

definition new_parts :: "abi \<Rightarrow> bytes \<Rightarrow> fis_part list option" where
  "new_parts A layout1 =
     (let ps = map (new_part A) (tokens 0x2c layout1)
      in if length ps > 8 \<or> None \<in> set ps then None else Some (map the ps))"

text \<open>\<open>mtd_write\<close> with the option; \<open>write\<close> is the rest of it.\<close>

definition mtd_write_fis :: "abi \<Rightarrow> 'd mtd_ops \<Rightarrow> ('d \<Rightarrow> nat \<Rightarrow> bytes option) \<Rightarrow> ('d \<Rightarrow> bytes \<Rightarrow> 'd) \<Rightarrow> (bytes \<Rightarrow> 'd mtd \<Rightarrow> (stop + int) \<times> 'd mtd)
    \<Rightarrow> bytes option \<Rightarrow> bytes \<Rightarrow> 'd mtd \<Rightarrow> (stop + int) \<times> 'd mtd" where
  "mtd_write_fis A ops map_dev sync_dev write fis_layout mtd s =
     (case fis_layout of
        None \<Rightarrow> write mtd s
      | Some l \<Rightarrow>
          (case (old_parts mtd, new_parts A l) of
             (Some old, Some new) \<Rightarrow>
               and_then (fis_validate ops map_dev old new s)
                 (\<lambda>ret s1. if ret < 0 then (Inl (Exit 1), s1)
                   else and_then (write mtd s1) (\<lambda>r s2. and_then (fis_remap A ops map_dev sync_dev old new s2) (\<lambda>_ s3. (Inr r, s3))))
           | _ \<Rightarrow> (Inl Fault, s)))"

section \<open>Tables as lists\<close>

lemma concat_slice:
  fixes ds :: "bytes list"
  assumes "\<And>d. d \<in> set ds \<Longrightarrow> length d = 256"
  shows "slice (256 * i) (256 * k) (concat ds) = concat (take k (drop i ds))"
proof -
  have dr: "drop (256 * i) (concat ds) = concat (drop i ds)" using assms
  proof (induction i arbitrary: ds)
    case (Suc i)
    then show ?case by (cases ds) simp_all
  qed simp
  have tk: "(\<And>d. d \<in> set es \<Longrightarrow> length d = 256) \<Longrightarrow> take (256 * k) (concat es) = concat (take k es)" for es :: "bytes list"
  proof (induction k arbitrary: es)
    case (Suc k)
    then show ?case by (cases es) simp_all
  qed simp
  show ?thesis unfolding slice_def dr using assms by (intro tk) (meson in_set_dropD)
qed

lemma length_concat_table: "(\<And>d. d \<in> set ds \<Longrightarrow> length d = 256) \<Longrightarrow> length (concat ds) = 256 * length ds"
  by (induction ds) simp_all

lemma fis_table_concat:
  assumes "\<And>d. d \<in> set ds \<Longrightarrow> length d = 256"
  shows "fis_table (concat ds) = ds"
proof (rule nth_equalityI)
  show "length (fis_table (concat ds)) = length ds" using length_concat_table [OF assms] by (simp add: fis_table_def)
next
  fix i
  assume "i < length (fis_table (concat ds))"
  then have i: "i < length ds" "length (concat ds) div 256 = length ds" using length_concat_table [OF assms] by (simp_all add: fis_table_def)
  have "slice (256 * i) (256 * 1) (concat ds) = concat (take 1 (drop i ds))" using assms by (rule concat_slice)
  then show "fis_table (concat ds) ! i = ds ! i" using i by (simp add: fis_table_def Cons_nth_drop_Suc [symmetric])
qed

lemma concat_fis_table:
  assumes "length m mod 256 = 0"
  shows "concat (fis_table m) = m" "d \<in> set (fis_table m) \<Longrightarrow> length d = 256"
proof -
  obtain k where k: "length m = 256 * k" using assms by auto
  then have l: "length (slice (256 * i) 256 m) = 256" if "i < k" for i using that by (intro length_slice_eq) simp
  show "d \<in> set (fis_table m) \<Longrightarrow> length d = 256" using l k by (auto simp: fis_table_def)
  have "concat (map (\<lambda>i. slice (256 * i) 256 m) [0..<j]) = take (256 * j) m" for j
    by (induction j) (simp_all add: slice_take_drop add.commute [of 256])
  then show "concat (fis_table m) = m" using k by (simp add: fis_table_def)
qed

lemma put_concat:
  fixes ds :: "bytes list"
  assumes "\<And>d. d \<in> set (ds @ es) \<Longrightarrow> length d = 256" "i + length es \<le> length ds"
  shows "put (256 * i) (concat es) (concat ds) = concat (take i ds @ es @ drop (i + length es) ds)"
proof -
  have l: "length (concat es) = 256 * length es" "length (concat ds) = 256 * length ds" using assms(1) by (intro length_concat_table; simp)+
  have t: "take (256 * i) (concat ds) = concat (take i ds)" using concat_slice [of ds 0 i] assms(1) by (simp add: slice_def)
  have d: "drop (256 * k) (concat ds) = concat (drop k ds)" for k
    using concat_slice [of ds k "length ds"] assms(1) l(2) by (simp add: slice_def)
  show ?thesis using d [of "i + length es"] by (simp add: put_def t l)
qed

section \<open>The loops\<close>

definition desc_base :: "abi \<Rightarrow> bytes \<Rightarrow> u32" where
  "desc_base A d = fd_flash_base (desc_dec A d)"

definition used :: "bytes list \<Rightarrow> bytes list" where
  "used ds = takeWhile (\<lambda>d. \<not> unused d) ds"

lemma scan_append: "(\<And>d. d \<in> set xs \<Longrightarrow> \<not> unused d) \<Longrightarrow> scan_loop A old i (xs @ ys) r = scan_loop A old (i + length xs) ys (scan_loop A old i xs r)"
  by (induction xs arbitrary: i r) (auto simp: Let_def split: prod.splits)

lemma scan_skip: "(\<And>d. d \<in> set (used xs) \<Longrightarrow> \<not> is_old old d) \<Longrightarrow> fst (scan_loop A old i xs (fl, offset)) = fl"
  by (induction xs arbitrary: i offset) (auto simp: Let_def used_def)

lemma scan_first: "(\<And>d. d \<in> set xs \<Longrightarrow> \<not> unused d) \<Longrightarrow> \<exists>l'. fst (scan_loop A old i xs (Some (f, l), offset)) = Some (f, l')"
  by (induction xs arbitrary: i l offset) (auto simp: Let_def)

lemma scan_max: "snd (scan_loop A old i xs (fl, offset)) = fold max (map (desc_base A) (used xs)) offset"
  by (induction xs arbitrary: i fl offset) (auto simp: Let_def used_def desc_base_def max_def)

lemma scan_olds:
  assumes "\<And>d. d \<in> set olds \<Longrightarrow> \<not> unused d" "olds \<noteq> []" "is_old old (hd olds)" "is_old old (List.last olds)"
  shows "fst (scan_loop A old i olds (None, offset)) = Some (i, i + length olds - 1)"
proof -
  obtain d ys where ys: "olds = d # ys" using assms(2) by (cases olds) auto
  show ?thesis
  proof (cases ys rule: rev_cases)
    case Nil
    then show ?thesis using ys assms by (simp add: Let_def)
  next
    case (snoc zs z)
    let ?o = "if offset < fd_flash_base (desc_dec A d) then fd_flash_base (desc_dec A d) else offset"
    have u: "\<And>d. d \<in> set zs \<Longrightarrow> \<not> unused d" "\<not> unused d" "\<not> unused z" using assms(1) ys snoc by auto
    obtain l' off' where r: "scan_loop A old (Suc i) zs (Some (i, i), ?o) = (Some (i, l'), off')"
      using scan_first [where xs = zs and old = old and A = A and i = "Suc i" and f = i and l = i and offset = ?o, OF u(1)] by (metis prod.collapse)
    have "scan_loop A old i olds (None, offset) = scan_loop A old (Suc i) (zs @ [z]) (Some (i, i), ?o)" using assms(3) u ys snoc by (simp add: Let_def)
    also have "\<dots> = scan_loop A old (Suc i + length zs) [z] (Some (i, l'), off')" using scan_append [OF u(1), where ys = "[z]"] r by simp
    finally show ?thesis using u assms(4) ys snoc by (simp add: Let_def)
  qed
qed

lemma scan_table:
  assumes "\<And>d. d \<in> set (pre @ olds) \<Longrightarrow> \<not> unused d" "\<And>d. d \<in> set (pre @ used post) \<Longrightarrow> \<not> is_old old d"
    and "olds \<noteq> []" "is_old old (hd olds)" "is_old old (List.last olds)"
  shows "scan_loop A old 0 (pre @ olds @ post) (None, 0) =
    (Some (length pre, length pre + length olds - 1), fold max (map (desc_base A) (used (pre @ olds @ post))) 0)"
proof -
  have p: "used pre = pre" using assms(1) by (simp add: used_def)
  obtain o1 where o1: "scan_loop A old 0 pre (None, 0) = (None, o1)" using scan_skip [of pre old A 0 None 0] assms(2) p by (metis Un_iff prod.collapse set_append)
  obtain o2 where o2: "scan_loop A old (length pre) olds (None, o1) = (Some (length pre, length pre + length olds - 1), o2)"
    using scan_olds [of olds old A "length pre" o1] assms by (metis Un_iff prod.collapse set_append)
  have "fst (scan_loop A old 0 (pre @ olds @ post) (None, 0)) = Some (length pre, length pre + length olds - 1)"
    using scan_append [of pre A old 0 "olds @ post"] scan_append [of olds A old "length pre" post] scan_skip [of post old A] assms(1,2) o1 o2 by simp
  then show ?thesis by (metis prod.collapse scan_max)
qed

text \<open>The end of the space: the lowest address above that of the last partition, or that address if it is the highest.\<close>

definition area_end :: "u32 \<Rightarrow> u32 set \<Rightarrow> u32" where
  "area_end l bs = (if \<exists>b\<in>bs. l < b then Min {b\<in>bs. l < b} else l)"

lemma space_fold: "space_loop A l ds offset = fold (\<lambda>b r. if l < b \<and> b < r then b else r) (map (desc_base A) (used ds)) offset"
  by (induction ds arbitrary: offset) (auto simp: Let_def used_def desc_base_def)

lemma space_above: "l < r \<Longrightarrow> fold (\<lambda>b r. if l < b \<and> b < r then b else r) bs r = Min (insert r {b\<in>set bs. l < b})"
proof (induction bs arbitrary: r)
  case (Cons b bs)
  have e: "{x\<in>set (b # bs). l < x} = (if l < b then insert b {x\<in>set bs. l < x} else {x\<in>set bs. l < x})" by auto
  have m: "Min (insert r (insert b S)) = Min (insert (min b r) S)" if "finite S" for S
    using that by (cases "S = {}") (simp_all add: min.left_commute min.commute min.assoc)
  show ?case using Cons.IH [of b] Cons.IH [of r] Cons.prems m [of "{x\<in>set bs. l < x}"] unfolding e by (auto simp: min_def)
qed simp

lemma space_below: "r \<le> l \<Longrightarrow> fold (\<lambda>b r. if l < b \<and> b < r then b else r) bs r = (r :: u32)"
  by (induction bs) auto

lemma fold_max_Max: "bs \<noteq> [] \<Longrightarrow> fold max bs 0 = Max (set bs)" for bs :: "u32 list"
proof -
  assume "bs \<noteq> []"
  then obtain b cs where b: "bs = b # cs" by (cases bs) auto
  have "max b 0 = b" by (simp add: max_def)
  then show ?thesis by (simp only: b fold_simps Max.set_eq_fold)
qed

lemma space_end:
  assumes "l \<in> set bs" "offset = fold max bs 0"
  shows "fold (\<lambda>b r. if l < b \<and> b < r then b else r) bs offset = area_end l (set bs)"
proof -
  have o: "offset = Max (set bs)" using assms fold_max_Max [of bs] by fastforce
  have le: "l \<le> offset" using assms(1) o by simp
  show ?thesis
  proof (cases "l < offset")
    case True
    have "offset \<in> set bs" using o assms(1) by (metis Max_in List.finite_set empty_iff)
    then have "insert offset {b\<in>set bs. l < b} = {b\<in>set bs. l < b}" "\<exists>b\<in>set bs. l < b" using True by auto
    then show ?thesis using space_above [OF True, of bs] by (simp add: area_end_def)
  next
    case False
    then have e: "offset = l" using le by simp
    then have "\<not> (\<exists>b\<in>set bs. l < b)" using o by (metis Max_ge List.finite_set leD)
    then show ?thesis using space_below [of offset l bs] e by (simp add: area_end_def)
  qed
qed

section \<open>The new partitions\<close>

fun new_descs :: "fis_part list \<Rightarrow> u32 \<Rightarrow> u32 \<Rightarrow> fis_image_desc list" where
  "new_descs [] offset sz = []"
| "new_descs (p # ps) offset sz = (let d = new_desc p offset sz in d # new_descs ps (offset + fd_size d) (sz - fd_size d))"

lemma length_new_descs [simp]: "length (new_descs ps offset sz) = length ps"
  by (induction ps arbitrary: offset sz) (simp_all add: Let_def)

lemma new_descs_names: "map fd_name (new_descs ps offset sz) = map fp_name ps"
  by (induction ps arbitrary: offset sz) (simp_all add: Let_def new_desc_def)

lemma new_descs_adjacent: "i < length ps \<Longrightarrow> fd_flash_base (new_descs ps offset sz ! i) = offset + sum_list (map fd_size (take i (new_descs ps offset sz)))"
proof (induction ps arbitrary: offset sz i)
  case (Cons p ps)
  then show ?case by (cases i) (simp_all add: Let_def new_desc_def add.assoc)
qed simp

lemma new_descs_sizes: "i < length ps \<Longrightarrow> fp_size (ps ! i) \<noteq> 0 \<Longrightarrow> fd_size (new_descs ps offset sz ! i) = fp_size (ps ! i)"
proof (induction ps arbitrary: offset sz i)
  case (Cons p ps)
  then show ?case by (cases i) (simp_all add: Let_def new_desc_def word_gt_0)
qed simp

lemma new_descs_fill: "ps \<noteq> [] \<Longrightarrow> fp_size (List.last ps) = 0 \<Longrightarrow> sum_list (map fd_size (new_descs ps offset sz)) = sz"
proof (induction ps arbitrary: offset sz)
  case (Cons p ps)
  then show ?case by (cases "ps = []") (simp_all add: Let_def new_desc_def)
qed simp

lemma length_desc_enc: "length (fd_name d) = 16 \<Longrightarrow> length (desc_enc A d) = 256"
  by (simp add: desc_enc_def)

lemma desc_dec_enc: "length (fd_name d) = 16 \<Longrightarrow> desc_dec A (desc_enc A d) = d"
  by (cases d) (simp add: desc_dec_def desc_enc_def slice_def)

lemma part_loop_table:
  assumes "\<And>d. d \<in> set ds \<Longrightarrow> length d = 256" "\<And>p. p \<in> set ps \<Longrightarrow> length (fp_name p) = 16" "i + length ps \<le> length ds"
  shows "part_loop A ps i offset sz (concat ds) = concat (take i ds @ map (desc_enc A) (new_descs ps offset sz) @ drop (i + length ps) ds)"
  using assms
proof (induction ps arbitrary: ds i offset sz)
  case (Cons p ps)
  let ?d = "new_desc p offset sz" and ?ds = "take i ds @ [desc_enc A (new_desc p offset sz)] @ drop (Suc i) ds"
  have ld: "length (desc_enc A ?d) = 256" using Cons.prems(2) by (intro length_desc_enc) (simp add: new_desc_def)
  have pc: "put (256 * i) (desc_enc A ?d) (concat ds) = concat ?ds" using put_concat [of ds "[desc_enc A ?d]" i] Cons.prems ld by auto
  have l: "d \<in> set ?ds \<Longrightarrow> length d = 256" for d using Cons.prems(1) ld by (auto dest: in_set_takeD in_set_dropD)
  have "Suc i + length ps \<le> length ?ds" "i \<le> length ds" using Cons.prems(3) by simp_all
  then show ?case using Cons.IH [of ?ds "Suc i" "offset + fd_size ?d" "sz - fd_size ?d"] l Cons.prems(2) pc by (simp add: Let_def min_def add.commute [of i])
qed simp

lemma move_rest_table:
  assumes "\<And>d. d \<in> set ds \<Longrightarrow> length d = 256" "lst \<le> desc" "desc \<le> length ds"
  shows "move_rest desc lst (concat ds) = Inr (concat (take desc ds @ take (length ds - desc) (drop lst ds)))"
proof (cases "desc = lst")
  case False
  have lc: "length (concat ds) = 256 * length ds" using length_concat_table [OF assms(1)] .
  let ?k = "length ds - desc"
  have sl: "slice (256 * lst) (256 * length ds - 256 * desc) (concat ds) = concat (take ?k (drop lst ds))"
    using concat_slice [of ds lst ?k] assms(1) by (simp add: diff_mult_distrib2)
  have "put (256 * desc) (concat (take ?k (drop lst ds))) (concat ds) = concat (take desc ds @ take ?k (drop lst ds) @ drop (desc + length (take ?k (drop lst ds))) ds)"
    using assms by (intro put_concat) (auto dest: in_set_takeD in_set_dropD)
  then show ?thesis using False assms(2,3) by (simp add: move_rest_def Let_def max_def sl lc)
qed (simp add: move_rest_def)

section \<open>The table afterwards\<close>

text \<open>The place of the old partitions: from the lower of the addresses of the first and the last of them to the next partition above both.\<close>

definition area :: "abi \<Rightarrow> bytes list \<Rightarrow> bytes list \<Rightarrow> u32 \<times> u32" where
  "area A olds ds = (let b1 = desc_base A (hd olds); b2 = desc_base A (List.last olds) in (min b1 b2, area_end (max b1 b2) (desc_base A ` set (used ds))))"

lemma remap_table_run:
  assumes ds: "length m mod 256 = 0" "fis_table m = pre @ olds @ post"
    and "\<And>d. d \<in> set (pre @ olds) \<Longrightarrow> \<not> unused d" "\<And>d. d \<in> set (pre @ used post) \<Longrightarrow> \<not> is_old old d"
    and olds: "olds \<noteq> []" "is_old old (hd olds)" "is_old old (List.last olds)"
    and new: "\<And>p. p \<in> set new \<Longrightarrow> length (fp_name p) = 16" "length olds \<le> length new" "length pre + length new \<le> length (fis_table m)"
    and ar: "area A olds (fis_table m) = (beg, fin)"
  shows "remap_table A old new m =
    Inr (concat (pre @ map (desc_enc A) (new_descs new beg (fin - beg)) @ take (length olds + length post - length new) post))"
proof -
  let ?ds = "pre @ olds @ post"
  define li where "li = length pre + length olds - 1"
  have l: "d \<in> set ?ds \<Longrightarrow> length d = 256" for d using concat_fis_table(2) [OF ds(1)] ds(2) by simp
  have m: "m = concat ?ds" using concat_fis_table(1) [OF ds(1)] ds(2) by simp
  have sl: "Suc li = length pre + length olds" using olds(1) by (cases olds) (simp_all add: li_def)
  have "li = length pre + (length olds - 1)" using olds(1) by (cases olds) (simp_all add: li_def)
  then have "?ds ! li = (olds @ post) ! (length olds - 1)" by (simp only: nth_append_length_plus)
  then have nth: "?ds ! length pre = hd olds" "?ds ! li = List.last olds" using olds(1) by (simp_all add: nth_append hd_conv_nth last_conv_nth)
  have u: "used ?ds = pre @ olds @ used post" using assms(3) by (simp add: used_def takeWhile_append)
  have lst: "max (desc_base A (hd olds)) (desc_base A (List.last olds)) \<in> desc_base A ` set (used ?ds)"
    unfolding u using olds(1) by (auto simp: max_def)
  let ?L = "max (desc_base A (hd olds)) (desc_base A (List.last olds))" and ?bs = "map (desc_base A) (used ?ds)"
  have ae: "area_end ?L (desc_base A ` set (used ?ds)) = fin" using ar by (simp add: area_def Let_def ds(2))
  have "?L \<in> set ?bs" using lst by (simp only: set_map)
  from space_end [OF this refl] have sp: "space_loop A ?L ?ds (fold max ?bs 0) = fin" unfolding space_fold set_map ae .
  have fr: "min (desc_base A (hd olds)) (desc_base A (List.last olds)) = beg" using ar by (simp add: area_def Let_def)
  have mv: "move_rest (length pre + length new) (Suc li) m = Inr (concat (take (length pre + length new) ?ds @ take (length olds + length post - length new) post))"
    using move_rest_table [where ds = ?ds and lst = "Suc li" and desc = "length pre + length new", OF l] new(2,3) ds(2) sl unfolding m by simp
  have lm: "\<not> length m < 256 * (length pre + length new)" using length_concat_table [OF l] new(3) ds(2) m by simp
  have pl: "part_loop A new (length pre) beg (fin - beg) (concat (take (length pre + length new) ?ds @ take (length olds + length post - length new) post)) =
      concat (pre @ map (desc_enc A) (new_descs new beg (fin - beg)) @ take (length olds + length post - length new) post)"
    using part_loop_table [of "take (length pre + length new) ?ds @ take (length olds + length post - length new) post" new "length pre" A beg "fin - beg"]
      l new ds(2) by (auto dest!: in_set_takeD)
  have sc: "scan_loop A old 0 ?ds (None, 0) = (Some (length pre, li), fold max (map (desc_base A) (used ?ds)) 0)"
    unfolding li_def using assms(3,4) olds by (intro scan_table)
  have b: "(if desc_base A (List.last olds) < desc_base A (hd olds) then (desc_base A (List.last olds), desc_base A (hd olds)) else (desc_base A (hd olds), desc_base A (List.last olds))) =
      (beg, max (desc_base A (hd olds)) (desc_base A (List.last olds)))" using fr by (auto simp: max_def min_def)
  show ?thesis
    using ds(1) lm unfolding remap_table_def Let_def ds(2) sc prod.case option.case nth desc_base_def [symmetric] b mv sum.case sp pl by simp
qed

text \<open>C32. \<open>fis_remap\<close> on a table in which the old partitions are some descriptors in a row and at least as many new ones are given, with room for them: the new descriptors take their place, the
  ones before stay, the ones behind move up (the last of them are lost if the table is full). The new partitions lie one behind the other, in 32 bit
  addresses, from the lower of the addresses of the first and the last old one, each with the size asked for; if the last one has no size, it ends where the next partition above the old ones
  starts (if there is none, where the last old one starts: its own size is not counted).\<close>

theorem fis_remap_replaces:
  assumes "mtd_check_open ops FIS_DIRECTORY s = (Some d, s1)" "map_dev d (erasesize s1) = Some m"
    and "length m mod 256 = 0" "fis_table m = pre @ olds @ post"
    and "\<And>d. d \<in> set (pre @ olds) \<Longrightarrow> \<not> unused d" "\<And>d. d \<in> set (pre @ used post) \<Longrightarrow> \<not> is_old old d"
    and "olds \<noteq> []" "is_old old (hd olds)" "is_old old (List.last olds)"
    and "\<And>p. p \<in> set new \<Longrightarrow> length (fp_name p) = 16" "length olds \<le> length new" "length pre + length new \<le> length (fis_table m)"
    and "area A olds (fis_table m) = (beg, fin)" "length m = erasesize s1" "erasesize s1 < 2 ^ 31"
  shows "\<exists>m' ns. fis_remap A ops map_dev sync_dev old new s = (Inr 0, s1\<lparr>devs := (devs s1)(FIS_DIRECTORY \<mapsto> sync_dev d m')\<rparr>) \<and>
    fis_table m' = pre @ ns @ take (length (fis_table m) - length pre - length new) post \<and> map (fd_name \<circ> desc_dec A) ns = map fp_name new \<and>
    (\<forall>i<length new. desc_base A (ns ! i) = beg + sum_list (map (fd_size \<circ> desc_dec A) (take i ns)) \<and>
       (fp_size (new ! i) \<noteq> 0 \<longrightarrow> fd_size (desc_dec A (ns ! i)) = fp_size (new ! i))) \<and>
    (fp_size (List.last new) = 0 \<longrightarrow> beg + sum_list (map (fd_size \<circ> desc_dec A) ns) = fin)"
proof -
  let ?nd = "new_descs new beg (fin - beg)" and ?rest = "take (length (fis_table m) - length pre - length new) post"
  have nw: "new \<noteq> []" using assms(7,11) by auto
  have r: "remap_table A old new m = Inr (concat (pre @ map (desc_enc A) ?nd @ ?rest))"
    using remap_table_run [OF assms(3-13)] by (simp add: assms(4))
  have n16: "x \<in> set ?nd \<Longrightarrow> length (fd_name x) = 16" for x
  proof -
    assume "x \<in> set ?nd"
    then have "fd_name x \<in> set (map fp_name new)" by (metis imageI list.set_map new_descs_names)
    then show ?thesis using assms(10) by auto
  qed
  have l: "x \<in> set (pre @ olds @ post) \<Longrightarrow> length x = 256" for x using concat_fis_table(2) [OF assms(3)] assms(4) by simp
  have "x \<in> set (pre @ map (desc_enc A) ?nd @ ?rest) \<Longrightarrow> length x = 256" for x using n16 l by (auto simp: length_desc_enc dest: in_set_takeD)
  then have t: "fis_table (concat (pre @ map (desc_enc A) ?nd @ ?rest)) = pre @ map (desc_enc A) ?nd @ ?rest" by (rule fis_table_concat)
  have dec: "map (desc_dec A) (map (desc_enc A) ?nd) = ?nd" using n16 by (simp add: desc_dec_enc map_idI)
  have dt: "map (fd_size \<circ> desc_dec A) (take i (map (desc_enc A) ?nd)) = map fd_size (take i ?nd)" for i
    using dec by (metis map_map take_map)
  have di: "desc_dec A (map (desc_enc A) ?nd ! i) = ?nd ! i" if "i < length new" for i using n16 that by (simp add: desc_dec_enc)
  show ?thesis
  proof (intro exI [of _ "concat (pre @ map (desc_enc A) ?nd @ ?rest)"] exI [of _ "map (desc_enc A) ?nd"] conjI allI impI)
    show "fis_remap A ops map_dev sync_dev old new s = (Inr 0, s1\<lparr>devs := (devs s1)(FIS_DIRECTORY \<mapsto> sync_dev d (concat (pre @ map (desc_enc A) ?nd @ ?rest)))\<rparr>)"
      using assms(1,2) r by (simp add: fis_remap_def fis_open_def)
    show "map (fd_name \<circ> desc_dec A) (map (desc_enc A) ?nd) = map fp_name new" using dec new_descs_names by (metis map_map)
    show "beg + sum_list (map (fd_size \<circ> desc_dec A) (map (desc_enc A) ?nd)) = fin" if "fp_size (List.last new) = 0"
    proof -
      have "map (fd_size \<circ> desc_dec A) (map (desc_enc A) ?nd) = map fd_size ?nd" using dec by (metis map_map)
      then show ?thesis using new_descs_fill [OF nw that, of beg "fin - beg"] by (simp only:) simp
    qed
  qed (use t dt di new_descs_adjacent new_descs_sizes in \<open>simp_all add: desc_base_def\<close>)
qed

text \<open>If fewer partitions are given than there are descriptors from the first old partition to the last, \<open>fis_remap\<close> calls \<open>memset\<close> with a negative length and leaves the
  mapping. \<open>fis_validate\<close> does not prevent this.\<close>

theorem fis_remap_fewer_faults:
  assumes "mtd_check_open ops FIS_DIRECTORY s = (Some d, s1)" "map_dev d (erasesize s1) = Some m"
    and "length m mod 256 = 0" "fis_table m = pre @ olds @ post" "\<And>d. d \<in> set (pre @ olds) \<Longrightarrow> \<not> unused d" "\<And>d. d \<in> set (pre @ used post) \<Longrightarrow> \<not> is_old old d"
    and "\<And>d. d \<in> set olds \<Longrightarrow> is_old old d" "length old = length olds" "length new < length olds" "\<And>p. p \<in> set new \<Longrightarrow> fp_size p \<noteq> 0"
  shows "fst (fis_validate ops map_dev old new s) = Inr 1 \<and> fis_remap A ops map_dev sync_dev old new s = (Inl Fault, s1)"
proof -
  have ne: "olds \<noteq> []" using assms(9) by auto
  have u: "used (pre @ olds @ post) = pre @ olds @ used post" using assms(5) by (simp add: used_def takeWhile_append)
  have "filter (is_old old) (used (pre @ olds @ post)) = olds" unfolding u using assms(6,7) by (simp add: filter_id_conv filter_empty_conv)
  moreover have "\<not> (\<exists>p\<in>set (butlast new). fp_size p = 0)" using assms(10) by (meson in_set_butlastD)
  ultimately have v: "fst (fis_validate ops map_dev old new s) = Inr 1"
    using assms(1-4,8) by (simp add: fis_validate_def fis_open_def used_def Let_def)
  have sc: "scan_loop A old 0 (pre @ olds @ post) (None, 0) =
      (Some (length pre, length pre + length olds - 1), fold max (map (desc_base A) (used (pre @ olds @ post))) 0)"
    using scan_table [of pre olds post old A] assms(5-7) ne by simp
  have "length pre + length new < Suc (length pre + length olds - 1)" using assms(9) by simp
  then have "move_rest (length pre + length new) (Suc (length pre + length olds - 1)) m = Inl Fault" by (auto simp: move_rest_def Let_def)
  then have "remap_table A old new m = Inl Fault"
    using assms(3) unfolding remap_table_def assms(4) sc by (simp add: Let_def split: prod.splits)
  then show ?thesis using v assms(1,2) by (simp add: fis_remap_def fis_open_def)
qed

text \<open>A table of four descriptors: RedBoot, the two partitions to replace, and the table itself.\<close>

definition demo_desc :: "string \<Rightarrow> u32 \<Rightarrow> u32 \<Rightarrow> bytes" where
  "demo_desc name base sz = desc_enc mips_le \<lparr>fd_name = pad_name (lit name), fd_flash_base = base, fd_mem_base = 0, fd_size = sz, fd_entry_point = 0, fd_data_length = sz\<rparr>"

definition demo_table :: "bytes list" where
  "demo_table = [demo_desc ''RedBoot'' 0 0x30000, demo_desc ''linux'' 0x30000 0x100000, demo_desc ''rootfs'' 0x130000 0x200000,
     demo_desc ''FIS directory'' 0x7e0000 0x1000, replicate 256 0xff, replicate 256 0xff]"

definition fis_state :: "bytes mtd" where
  "fis_state = \<lparr>devs = [FIS_DIRECTORY \<mapsto> concat demo_table], mtdsize = 0, erasesize = 0, mtd_nand = False, buf = [], bufcap = None,
     imageformat = MTD_IMAGE_FORMAT_UNKNOWN, image = []\<rparr>"

definition demo_part :: "string \<Rightarrow> u32 \<Rightarrow> fis_part" where
  "demo_part name sz = \<lparr>fp_name = pad_name (lit name), fp_loadaddr = 0, fp_size = sz\<rparr>"

lemma demo_names: "length (pad_name (lit ''RedBoot'')) = 16" "length (pad_name (lit ''linux'')) = 16" "length (pad_name (lit ''rootfs'')) = 16"
  "length (pad_name (lit ''FIS directory'')) = 16" "length (pad_name (lit ''data'')) = 16"
  by (simp_all add: pad_name_def lit_def)

lemma demo_table_lengths: "d \<in> set demo_table \<Longrightarrow> length d = 256"
  by (auto simp: demo_table_def demo_desc_def length_desc_enc demo_names)

lemma demo_fis:
  "mtd_check_open (sim_ops 1 1536 False (\<lambda>_. False)) FIS_DIRECTORY fis_state = (Some (concat demo_table), fis_state\<lparr>mtdsize := 1536, erasesize := 1536\<rparr>)"
  "length (concat demo_table) = 1536" "fis_table (concat demo_table) = demo_table"
proof -
  show l: "length (concat demo_table) = 1536" using length_concat_table [OF demo_table_lengths] by (simp only:) (simp add: demo_table_def)
  show "fis_table (concat demo_table) = demo_table" by (rule fis_table_concat [OF demo_table_lengths])
qed (simp add: mtd_check_open_def fis_state_def sim_ops_def)

definition demo_old :: "fis_part list" where
  "demo_old = [demo_part ''linux'' 0, demo_part ''rootfs'' 0]"

lemma demo_table_split: "demo_table = [demo_table ! 0] @ [demo_table ! 1, demo_table ! 2] @ [demo_table ! 3, demo_table ! 4, demo_table ! 5]"
  by (simp add: demo_table_def)

lemma demo_table_old:
  "d \<in> set ([demo_table ! 0] @ [demo_table ! 1, demo_table ! 2]) \<Longrightarrow> \<not> unused d"
  "d \<in> set ([demo_table ! 0] @ used [demo_table ! 3, demo_table ! 4, demo_table ! 5]) \<Longrightarrow> \<not> is_old demo_old d"
  "d \<in> set [demo_table ! 1, demo_table ! 2] \<Longrightarrow> is_old demo_old d"
  "area mips_le [demo_table ! 1, demo_table ! 2] demo_table = (0x30000, 0x7e0000)"
proof -
  have "list_all (\<lambda>d. \<not> unused d) ([demo_table ! 0] @ [demo_table ! 1, demo_table ! 2])"
      "list_all (\<lambda>d. \<not> is_old demo_old d) ([demo_table ! 0] @ used [demo_table ! 3, demo_table ! 4, demo_table ! 5])"
      "list_all (is_old demo_old) [demo_table ! 1, demo_table ! 2]" by code_simp+
  then show "d \<in> set ([demo_table ! 0] @ [demo_table ! 1, demo_table ! 2]) \<Longrightarrow> \<not> unused d"
    "d \<in> set ([demo_table ! 0] @ used [demo_table ! 3, demo_table ! 4, demo_table ! 5]) \<Longrightarrow> \<not> is_old demo_old d"
    "d \<in> set [demo_table ! 1, demo_table ! 2] \<Longrightarrow> is_old demo_old d" unfolding list_all_iff by blast+
  show "area mips_le [demo_table ! 1, demo_table ! 2] demo_table = (0x30000, 0x7e0000)" by code_simp
qed

lemma demo_map: "Some (take (erasesize (fis_state\<lparr>mtdsize := 1536, erasesize := 1536\<rparr>)) (concat demo_table)) = Some (concat demo_table)"
  "length (concat demo_table) mod 256 = 0" "fis_table (concat demo_table) = [demo_table ! 0] @ [demo_table ! 1, demo_table ! 2] @ [demo_table ! 3, demo_table ! 4, demo_table ! 5]"
  using demo_fis(2,3) demo_table_split by simp_all

theorem fis_remap_replaces_witness:
  "\<exists>m' ns s'. fis_remap mips_le (sim_ops 1 1536 False (\<lambda>_. False)) (\<lambda>d n. Some (take n d)) (\<lambda>_ m. m) demo_old
      [demo_part ''linux'' 0x180000, demo_part ''rootfs'' 0x100000, demo_part ''data'' 0] fis_state = (Inr 0, s') \<and> devs s' FIS_DIRECTORY = Some m' \<and>
    fis_table m' = [demo_table ! 0] @ ns @ [demo_table ! 3, demo_table ! 4] \<and> desc_base mips_le (ns ! 0) = 0x30000 \<and>
    0x30000 + sum_list (map (fd_size \<circ> desc_dec mips_le) ns) = 0x7e0000"
proof -
  let ?new = "[demo_part ''linux'' 0x180000, demo_part ''rootfs'' 0x100000, demo_part ''data'' 0]"
  have n: "p \<in> set ?new \<Longrightarrow> length (fp_name p) = 16" for p by (auto simp: demo_part_def demo_names)
  have lst: "fp_size (List.last ?new) = 0" by (simp add: demo_part_def)
  have h: "is_old demo_old (hd [demo_table ! 1, demo_table ! 2])" "is_old demo_old (List.last [demo_table ! 1, demo_table ! 2])" using demo_table_old(3) by simp_all
  have l: "length [demo_table ! 1, demo_table ! 2] \<le> length ?new" "length [demo_table ! 0] + length ?new \<le> length (fis_table (concat demo_table))"
    by (simp_all add: demo_map(3))
  have a: "area mips_le [demo_table ! 1, demo_table ! 2] (fis_table (concat demo_table)) = (0x30000, 0x7e0000)" using demo_table_old(4) demo_fis(3) by simp
  show ?thesis
    using fis_remap_replaces [where map_dev = "\<lambda>d n. Some (take n d)" and sync_dev = "\<lambda>_ m. m", OF demo_fis(1) demo_map demo_table_old(1,2) _ h n l a] lst demo_fis(2)
    by (auto simp: demo_map(3))
qed

theorem fis_remap_fewer_faults_witness:
  "fst (fis_validate (sim_ops 1 1536 False (\<lambda>_. False)) (\<lambda>d n. Some (take n d)) demo_old [demo_part ''linux'' 0x100000] fis_state) = Inr 1 \<and>
    fst (fis_remap mips_le (sim_ops 1 1536 False (\<lambda>_. False)) (\<lambda>d n. Some (take n d)) (\<lambda>_ m. m) demo_old [demo_part ''linux'' 0x100000] fis_state) = Inl Fault"
proof -
  let ?new = "[demo_part ''linux'' 0x100000]"
  have n: "p \<in> set ?new \<Longrightarrow> fp_size p \<noteq> 0" for p by (auto simp: demo_part_def)
  have l: "length demo_old = length [demo_table ! 1, demo_table ! 2]" "length ?new < length [demo_table ! 1, demo_table ! 2]" by (simp_all add: demo_old_def)
  show ?thesis
    using fis_remap_fewer_faults [where map_dev = "\<lambda>d n. Some (take n d)" and sync_dev = "\<lambda>_ m. m" and A = mips_le, OF demo_fis(1) demo_map demo_table_old(1-3) l n] by simp
qed

end
