(* ===== verification/Bootcount.thy ===== *)
theory Bootcount
  imports Mtd
begin

text \<open>
  The boot counter of Linksys devices, \<^verbatim>\<open>package/system/mtd/src/linksys_bootcount.c\<close>: a partition in which the boot loader writes a counter into the next
  page at every boot. \<open>mtd resetbc\<close> appends a counter that is 0; when the partition is full it erases it first.

  The write size of the device, which \<open>MEMGETINFO\<close> gives beside what \<open>op_info\<close> has, is an argument. Results of \<open>pread\<close> are ignored by the code: after a failed or short
  read the static buffer \<open>page\<close> keeps what it had.
\<close>

section \<open>The code\<close>

definition BOOTCOUNT_MAGIC :: u32 where "BOOTCOUNT_MAGIC = 0x20110811"

record bootcounter =
  bc_magic :: u32
  bc_count :: u32
  bc_checksum :: u32

definition bootcounter_enc :: "abi \<Rightarrow> bootcounter \<Rightarrow> bytes" where
  "bootcounter_enc A c = native32_enc A (bc_magic c) @ native32_enc A (bc_count c) @ native32_enc A (bc_checksum c)"

definition bootcounter_dec :: "abi \<Rightarrow> bytes \<Rightarrow> bootcounter" where
  "bootcounter_dec A b =
     \<lparr>bc_magic = native32_dec A (slice 0 4 b), bc_count = native32_dec A (slice 4 4 b), bc_checksum = native32_dec A (slice 8 4 b)\<rparr>"

text \<open>The loop over the pages: where it stopped and the last count; \<open>None\<close> after an unexpected magic number.\<close>

function count_loop :: "abi \<Rightarrow> 'd mtd_ops \<Rightarrow> 'd \<Rightarrow> nat \<Rightarrow> nat \<Rightarrow> nat \<Rightarrow> u32 \<Rightarrow> bytes \<Rightarrow> (nat \<times> u32) option \<times> bytes" where
  "count_loop A ops d writesize num_bc i last_count page =
     (if i < num_bc
      then let page1 = (case op_pread ops d (i * writesize) 12 of None \<Rightarrow> page | Some b \<Rightarrow> put 0 b page);
               curr = bootcounter_dec A page1
           in if bc_magic curr \<noteq> BOOTCOUNT_MAGIC \<and> bc_magic curr \<noteq> 0xffffffff then (None, page1)
              else if bc_magic curr = 0xffffffff then (Some (i, last_count), page1)
              else count_loop A ops d writesize num_bc (Suc i) (bc_count curr) page1
      else (Some (i, last_count), page))"
  by pat_completeness auto
termination by (relation "measure (\<lambda>(A, ops, d, ws, num_bc, i, lst, page). num_bc - i)") auto

declare count_loop.simps [simp del]

text \<open>What is written: a counter, and ones up to the write size.\<close>

definition reset_counter :: bootcounter where
  "reset_counter = \<lparr>bc_magic = BOOTCOUNT_MAGIC, bc_count = 0, bc_checksum = BOOTCOUNT_MAGIC\<rparr>"

definition mtd_resetbc :: "abi \<Rightarrow> 'd mtd_ops \<Rightarrow> nat \<Rightarrow> bytes \<Rightarrow> bytes \<Rightarrow> 'd mtd \<Rightarrow> (stop + int) \<times> 'd mtd" where
  "mtd_resetbc A ops writesize page name s =
     (case mtd_check_open ops name s of
        (None, s1) \<Rightarrow> (Inr (-1), s1)
      | (Some d, s1) \<Rightarrow>
          if writesize = 0 then (Inl Fault, s1)
          else let num_bc = mtdsize s1 div writesize
               in case count_loop A ops d writesize num_bc 0 0 page of
                    (None, _) \<Rightarrow> (Inr 0, s1)
                  | (Some (i, last_count), page1) \<Rightarrow>
                      if last_count = 0 then (Inr 0, s1)
                      else let (ok, d1) = (if i = num_bc then op_erase ops d 0 (mtdsize s1) else (True, d));
                               i1 = (if i = num_bc then 0 else i);
                               s2 = s1\<lparr>devs := (devs s1)(name \<mapsto> d1)\<rparr>
                           in if \<not> ok then (Inr (-1), s2)
                              else if length page1 < max writesize 12 then (Inl Fault, s2)
                              else let page2 = put 0 (bootcounter_enc A reset_counter) (put 0 (replicate writesize 0xff) page1);
                                       (r, d2) = op_pwrite ops d1 (i1 * writesize) (take writesize page2)
                                   in (Inr 0, s1\<lparr>devs := (devs s1)(name \<mapsto> d2)\<rparr>))"

text \<open>\<open>main\<close> for \<open>resetbc\<close>; \<open>page\<close> is zero at the start.\<close>

definition main_resetbc :: "abi \<Rightarrow> 'd mtd_ops \<Rightarrow> nat \<Rightarrow> mtd_opts \<Rightarrow> bytes \<Rightarrow> 'd mtd \<Rightarrow> (stop + bytes) \<times> 'd mtd" where
  "main_resetbc A ops writesize opts device s =
     and_then (erase_args ops (o_erase opts) s) (\<lambda>_ s1. and_then (mtd_resetbc A ops writesize (replicate 2048 0) device s1) finished)"

section \<open>The log of counters\<close>

text \<open>The counter in a page, logs of \<open>m\<close> counters in a partition of \<open>num\<close> pages, and the count such a log stands for.\<close>

definition counter_at :: "abi \<Rightarrow> nat \<Rightarrow> bytes \<Rightarrow> nat \<Rightarrow> bootcounter" where
  "counter_at A ws c j = bootcounter_dec A (slice (j * ws) 12 c)"

definition counter_log :: "abi \<Rightarrow> nat \<Rightarrow> nat \<Rightarrow> bytes \<Rightarrow> nat \<Rightarrow> bool" where
  "counter_log A ws num c m \<longleftrightarrow> m \<le> num \<and> (\<forall>j<m. bc_magic (counter_at A ws c j) = BOOTCOUNT_MAGIC) \<and>
     (\<forall>j. m \<le> j \<and> j < num \<longrightarrow> slice (j * ws) ws c = replicate ws 0xff)"

definition log_count :: "abi \<Rightarrow> nat \<Rightarrow> bytes \<Rightarrow> nat \<Rightarrow> u32" where
  "log_count A ws c m = (if m = 0 then 0 else bc_count (counter_at A ws c (m - 1)))"

definition reset_page :: "abi \<Rightarrow> nat \<Rightarrow> bytes" where
  "reset_page A ws = bootcounter_enc A reset_counter @ replicate (ws - 12) 0xff"

lemma bootcounter_dec_enc: "bootcounter_dec A (bootcounter_enc A c @ r) = c"
  by (cases c) (simp add: bootcounter_dec_def bootcounter_enc_def slice_def)

lemma bootcounter_dec_take: "12 \<le> n \<Longrightarrow> bootcounter_dec A (take n b) = bootcounter_dec A b"
  by (simp add: bootcounter_dec_def slice_def drop_take)

lemma bootcounter_dec_put: "length b = 12 \<Longrightarrow> 12 \<le> length p \<Longrightarrow> bootcounter_dec A (put 0 b p) = bootcounter_dec A b"
  by (simp add: bootcounter_dec_def slice_def put_def)

lemma length_bootcounter_enc [simp]: "length (bootcounter_enc A c) = 12"
  by (simp add: bootcounter_enc_def)

lemma length_reset_page: "12 \<le> ws \<Longrightarrow> length (reset_page A ws) = ws"
  by (simp add: reset_page_def)

lemma erased_magic:
  assumes "12 \<le> ws" "slice (j * ws) ws c = replicate ws 0xff"
  shows "bc_magic (counter_at A ws c j) = 0xffffffff"
proof -
  have "slice 0 4 (slice (j * ws) 12 c) = slice 0 4 (slice (j * ws) ws c)" using assms(1) by (simp add: slice_slice)
  also have "\<dots> = [0xff, 0xff, 0xff, 0xff]" using assms by (simp add: slice_def eval_nat_numeral)
  finally show ?thesis by (simp add: counter_at_def bootcounter_dec_def native32_dec_def be32_dec_def)
qed

lemma page_bounds: "j < num \<Longrightarrow> num * ws \<le> len \<Longrightarrow> j * ws + ws \<le> (len :: nat)"
  using mult_le_mono1 [of "Suc j" num ws] by simp

text \<open>Appending a page to a log.\<close>

lemma counter_at_put_other:
  assumes "12 \<le> ws" "i \<noteq> j" "j * ws + length b \<le> length c" "length b = ws" "k \<le> ws"
  shows "slice (i * ws) k (put (j * ws) b c) = slice (i * ws) k c"
proof (cases "i < j")
  case True
  then have "i * ws + ws \<le> j * ws" using mult_le_mono1 [of "Suc i" j ws] by simp
  then show ?thesis using assms by (intro slice_put_before) auto
next
  case False
  then have "j * ws + ws \<le> i * ws" using assms(2) mult_le_mono1 [of "Suc j" i ws] by simp
  then show ?thesis using assms by (intro slice_put_after) auto
qed

lemma counter_log_append:
  assumes "12 \<le> ws" "num * ws \<le> length c" "counter_log A ws num c m" "m < num"
  shows "counter_log A ws num (put (m * ws) (reset_page A ws) c) (Suc m)" "log_count A ws (put (m * ws) (reset_page A ws) c) (Suc m) = 0"
proof -
  let ?c = "put (m * ws) (reset_page A ws) c"
  have b: "m * ws + length (reset_page A ws) \<le> length c" using page_bounds [OF assms(4,2)] assms(1) by (simp add: length_reset_page)
  have "slice 0 12 (reset_page A ws) = bootcounter_enc A reset_counter" by (simp add: reset_page_def slice_def)
  moreover have "slice (m * ws) ws ?c = reset_page A ws" using b assms(1) by (intro slice_put_same) (simp_all add: length_reset_page)
  ultimately have "slice (m * ws) 12 ?c = bootcounter_enc A reset_counter" using slice_slice [of 0 12 ws "m * ws" ?c] assms(1) by simp
  then have new: "counter_at A ws ?c m = reset_counter" using bootcounter_dec_enc [of A reset_counter "[]"] by (simp add: counter_at_def)
  have old: "j \<noteq> m \<Longrightarrow> k \<le> ws \<Longrightarrow> slice (j * ws) k ?c = slice (j * ws) k c" for j k
    using counter_at_put_other [OF assms(1) _ b, of j k] assms(1) by (simp add: length_reset_page)
  show "log_count A ws ?c (Suc m) = 0" using new by (simp add: log_count_def reset_counter_def)
  show "counter_log A ws num ?c (Suc m)"
    using assms(1,3,4) new old by (auto simp: counter_log_def counter_at_def reset_counter_def less_Suc_eq)
qed

section \<open>Resetting\<close>

text \<open>What is relied on of the device: \<open>chip\<close>, and that \<open>MEMERASE\<close> over the whole device erases all of it. The pages of the log fill the device.\<close>

locale counter_flash =
  fixes ops :: "'d mtd_ops" and valid cells n eb nand bad ws num
  assumes chip: "chip ops valid cells n eb nand bad"
    and erase_all: "valid d \<Longrightarrow> \<exists>d'. op_erase ops d 0 (n * eb) = (True, d') \<and> valid d' \<and> cells d' = replicate (n * eb) 0xff"
    and pages: "12 \<le> ws" "ws \<le> 2048" "n * eb = num * ws" "0 < num"
begin

lemma count_loop_log:
  assumes "valid d" "counter_log A ws num (cells d) m"
  shows "i \<le> m \<Longrightarrow> length page = 2048 \<Longrightarrow> lst = log_count A ws (cells d) i \<Longrightarrow>
    \<exists>page'. count_loop A ops d ws num i lst page = (Some (m, log_count A ws (cells d) m), page') \<and> length page' = 2048"
proof (induction "num - i" arbitrary: i lst page)
  case 0
  then have "i = num" "m = num" using assms(2) by (auto simp: counter_log_def)
  then show ?case using 0 by (simp add: count_loop.simps)
next
  case (Suc k)
  then have i: "i < num" by simp
  let ?page = "put 0 (slice (i * ws) 12 (cells d)) page"
  have lb: "length (slice (i * ws) 12 (cells d)) = 12"
    using page_bounds [OF i, of ws "num * ws"] pages chip_geometry(2) [OF chip assms(1)] by simp
  have c: "bootcounter_dec A ?page = counter_at A ws (cells d) i" using Suc.prems(2) lb by (simp add: counter_at_def bootcounter_dec_put)
  have rd: "op_pread ops d (i * ws) 12 = Some (slice (i * ws) 12 (cells d))" using chip_geometry(4) [OF chip assms(1)] .
  have lp: "length ?page = 2048" using Suc.prems(2) lb by simp
  note step = count_loop.simps [of A ops d ws num i lst page]
  show ?case
  proof (cases "i = m")
    case True
    then have "bc_magic (counter_at A ws (cells d) i) = 0xffffffff" using erased_magic [OF pages(1)] assms(2) i by (auto simp: counter_log_def)
    then have "count_loop A ops d ws num i lst page = (Some (i, lst), ?page)" using i rd c by (simp add: step BOOTCOUNT_MAGIC_def)
    then show ?thesis using lp True Suc.prems(3) by auto
  next
    case False
    then have im: "i < m" using Suc.prems(1) by simp
    then have mg: "bc_magic (counter_at A ws (cells d) i) = BOOTCOUNT_MAGIC" using assms(2) by (simp add: counter_log_def)
    have "count_loop A ops d ws num i lst page = count_loop A ops d ws num (Suc i) (bc_count (counter_at A ws (cells d) i)) ?page"
      using i rd c mg by (simp add: step BOOTCOUNT_MAGIC_def)
    then show ?thesis using Suc.hyps(1) [of "Suc i" ?page "bc_count (counter_at A ws (cells d) i)"] Suc.hyps(2) im lp by (simp add: log_count_def)
  qed
qed

lemma written_page: "length page = 2048 \<Longrightarrow> take ws (put 0 (bootcounter_enc A reset_counter) (put 0 (replicate ws 0xff) page)) = reset_page A ws"
  using pages by (simp add: put_def reset_page_def)

lemma reset_run:
  assumes d: "valid d" "devs s name = Some d" and log: "counter_log A ws num (cells d) m" and page: "length page = 2048"
    and count: "log_count A ws (cells d) m \<noteq> 0" and "c0 = (if m = num then replicate (n * eb) 0xff else cells d)" "m' = (if m = num then 0 else m)"
  shows "\<exists>s' d'. mtd_resetbc A ops ws page name s = (Inr 0, s') \<and> devs s' name = Some d' \<and> valid d' \<and> cells d' = put (m' * ws) (reset_page A ws) c0 \<and>
    counter_log A ws num c0 m' \<and> m' < num \<and> num * ws \<le> length c0"
proof -
  let ?s = "s\<lparr>mtdsize := n * eb, erasesize := eb, mtd_nand := nand\<rparr>"
  have op: "mtd_check_open ops name s = (Some d, ?s)" using d(2) chip_geometry(3) [OF chip d(1)] by (simp add: mtd_check_open_def)
  obtain page1 where lp: "count_loop A ops d ws num 0 0 page = (Some (m, log_count A ws (cells d) m), page1)" "length page1 = 2048"
    using count_loop_log [OF d(1) log, of 0 page 0] page by (auto simp: log_count_def)
  obtain d1 where d1: "(if m = num then op_erase ops d 0 (n * eb) else (True, d)) = (True, d1)" "valid d1" "cells d1 = c0"
    using erase_all [OF d(1)] d(1) assms(6) by (cases "m = num") auto
  have m': "m' < num" using log pages assms(7) by (auto simp: counter_log_def)
  have lc: "length c0 = num * ws" using chip_geometry(2) [OF chip d1(2)] d1(3) pages(3) by simp
  have "ws \<le> num * ws - j * ws" if "j < num" for j using page_bounds [OF that order_refl, of ws] by simp
  then have log0: "counter_log A ws num c0 m'"
    using log assms(6,7) pages by (auto simp: counter_log_def slice_def min_def)
  then have er: "slice (m' * ws) (length (reset_page A ws)) (cells d1) = replicate (length (reset_page A ws)) 0xff"
    using m' d1(3) pages(1) by (simp add: counter_log_def length_reset_page)
  have inside: "m' * ws + length (reset_page A ws) \<le> n * eb" using page_bounds [OF m', of ws "num * ws"] pages by (simp add: length_reset_page)
  obtain d2 where d2: "op_pwrite ops d1 (m' * ws) (reset_page A ws) = (int (length (reset_page A ws)), d2)" "valid d2"
      "cells d2 = put (m' * ws) (reset_page A ws) (cells d1)"
    using chip_write [OF chip d1(2) inside er] by blast
  have dv: "n * eb div ws = num" using pages by simp
  have "mtd_resetbc A ops ws page name s = (Inr 0, ?s\<lparr>devs := (devs ?s)(name \<mapsto> d2)\<rparr>)"
    using pages count lp d1(1) d2(1) assms(7) unfolding mtd_resetbc_def op
    by (auto simp: dv Let_def written_page split: if_splits prod.splits)
  then show ?thesis using d2 d1(3) log0 m' lc by auto
qed

lemma reset_none:
  assumes d: "valid d" "devs s name = Some d" and log: "counter_log A ws num (cells d) m" and page: "length page = 2048" and count: "log_count A ws (cells d) m = 0"
  shows "\<exists>s'. mtd_resetbc A ops ws page name s = (Inr 0, s') \<and> devs s' name = Some d"
proof -
  let ?s = "s\<lparr>mtdsize := n * eb, erasesize := eb, mtd_nand := nand\<rparr>"
  have op: "mtd_check_open ops name s = (Some d, ?s)" using d(2) chip_geometry(3) [OF chip d(1)] by (simp add: mtd_check_open_def)
  obtain page1 where lp: "count_loop A ops d ws num 0 0 page = (Some (m, log_count A ws (cells d) m), page1)"
    using count_loop_log [OF d(1) log, of 0 page 0] page by (auto simp: log_count_def)
  have "n * eb div ws = num" using pages by simp
  then show ?thesis using pages count lp d(2) unfolding mtd_resetbc_def op by (simp add: Let_def)
qed

end

lemma sim_counter_flash:
  assumes "0 < eb" "12 \<le> ws" "ws \<le> 2048" "n * eb = num * ws" "0 < num"
  shows "counter_flash (sim_ops n eb nand (\<lambda>_. False)) (\<lambda>d. length d = n * eb) (\<lambda>d. d) n eb nand (\<lambda>_. False) ws num"
proof
  show "chip (sim_ops n eb nand (\<lambda>_. False)) (\<lambda>d. length d = n * eb) (\<lambda>d. d) n eb nand (\<lambda>_. False)" using assms(1) by (intro sim_chip) simp_all
qed (use assms in \<open>auto simp: sim_ops_def put_def\<close>)

interpretation sim_counter: counter_flash "sim_ops 2 64 False (\<lambda>_. False)" "\<lambda>d. length d = 2 * 64" "\<lambda>d. d" 2 64 False "\<lambda>_. False" 16 8
  by (rule sim_counter_flash) simp_all

text \<open>\<open>mtd resetbc\<close> on a partition of less than 2 GiB that holds a log of \<open>m\<close> boot counters: afterwards it is a log again, and the count it stands for is 0. Where it was
  0 already nothing is written. Otherwise one page is written, the one behind the last counter, or the first one of the erased partition if it was full.\<close>

theorem mtd_resetbc_resets:
  assumes "chip ops valid cells n eb nand bad" "n * eb = num * ws" "0 < num" "12 \<le> ws" "ws \<le> 2048" "n * eb < 2 ^ 31"
    and "\<And>d. valid d \<Longrightarrow> \<exists>d'. op_erase ops d 0 (n * eb) = (True, d') \<and> valid d' \<and> cells d' = replicate (n * eb) 0xff"
    and "valid d" "devs s name = Some d" "counter_log A ws num (cells d) m" "length page = 2048"
  shows "\<exists>s' d' m'. mtd_resetbc A ops ws page name s = (Inr 0, s') \<and> devs s' name = Some d' \<and> valid d' \<and>
    counter_log A ws num (cells d') m' \<and> log_count A ws (cells d') m' = 0 \<and>
    (if log_count A ws (cells d) m = 0 then d' = d
     else if m = num then cells d' = put 0 (reset_page A ws) (replicate (n * eb) 0xff)
     else cells d' = put (m * ws) (reset_page A ws) (cells d))"
proof -
  have fl: "counter_flash ops valid cells n eb nand bad ws num" using assms by unfold_locales auto
  show ?thesis
  proof (cases "log_count A ws (cells d) m = 0")
    case True
    then show ?thesis using counter_flash.reset_none [OF fl assms(8-11)] assms(8,10) by auto
  next
    case False
    define c0 where "c0 = (if m = num then replicate (n * eb) 0xff else cells d)"
    define k where "k = (if m = num then 0 else m)"
    obtain s' d' where r: "mtd_resetbc A ops ws page name s = (Inr 0, s')" "devs s' name = Some d'" "valid d'" "cells d' = put (k * ws) (reset_page A ws) c0"
        "counter_log A ws num c0 k" "k < num" "num * ws \<le> length c0"
      using counter_flash.reset_run [OF fl assms(8-11) False c0_def k_def] by blast
    note l = counter_log_append [OF assms(4) r(7,5,6)]
    have "if log_count A ws (cells d) m = 0 then d' = d else if m = num then cells d' = put 0 (reset_page A ws) (replicate (n * eb) 0xff)
        else cells d' = put (m * ws) (reset_page A ws) (cells d)"
      using r(4) False by (simp add: c0_def k_def)
    moreover have "counter_log A ws num (cells d') (Suc k)" "log_count A ws (cells d') (Suc k) = 0" using l unfolding r(4) .
    ultimately show ?thesis using r(1-3) by blast
  qed
qed

text \<open>A partition of eight pages with three counters, the last of them 2.\<close>

definition demo_counters :: bytes where
  "demo_counters = concat (map (\<lambda>k. bootcounter_enc mips_le \<lparr>bc_magic = BOOTCOUNT_MAGIC, bc_count = k, bc_checksum = BOOTCOUNT_MAGIC + k\<rparr> @ replicate 4 0xff)
     [0, 1, 2]) @ replicate 80 0xff"

definition counter_state :: "bytes mtd" where
  "counter_state = \<lparr>devs = [lit ''s_env'' \<mapsto> demo_counters], mtdsize = 0, erasesize = 0, mtd_nand = False, buf = [], bufcap = None,
     imageformat = MTD_IMAGE_FORMAT_UNKNOWN, image = []\<rparr>"

lemma demo_counters_length: "length demo_counters = 2 * 64"
  by (simp add: demo_counters_def)

lemma demo_counters_log: "counter_log mips_le 16 8 demo_counters 3" "log_count mips_le 16 demo_counters 3 = 2"
proof -
  have "\<forall>j\<in>set [0..<3]. bc_magic (counter_at mips_le 16 demo_counters j) = BOOTCOUNT_MAGIC" by code_simp
  moreover have "\<forall>j\<in>set [3..<8]. slice (j * 16) 16 demo_counters = replicate 16 0xff" by code_simp
  ultimately show "counter_log mips_le 16 8 demo_counters 3" unfolding counter_log_def set_upt Ball_def atLeastLessThan_iff by simp
  show "log_count mips_le 16 demo_counters 3 = 2" by code_simp
qed

theorem mtd_resetbc_resets_witness:
  "\<exists>s' d' m'. mtd_resetbc mips_le (sim_ops 2 64 False (\<lambda>_. False)) 16 (replicate 2048 0) (lit ''s_env'') counter_state = (Inr 0, s') \<and>
    devs s' (lit ''s_env'') = Some d' \<and> counter_log mips_le 16 8 d' m' \<and> log_count mips_le 16 d' m' = 0 \<and> d' = put 48 (reset_page mips_le 16) demo_counters"
proof -
  have s: "devs counter_state (lit ''s_env'') = Some demo_counters" by (simp add: counter_state_def)
  show ?thesis
    using mtd_resetbc_resets [OF sim_counter.chip, where num = 8 and ws = 16 and A = mips_le and m = 3 and page = "replicate 2048 0", OF _ _ _ _ _ sim_counter.erase_all _ s]
      demo_counters_log demo_counters_length by auto
qed

end
