(* ===== verification/ImageTag.thy ===== *)
theory ImageTag
  imports MtdFix Jffs2
begin

text \<open>
  Image tags, \<^verbatim>\<open>package/system/mtd/src/imagetag.c\<close>: what takes the place of \<^verbatim>\<open>trx.c\<close> on brcm63xx. A tag of 256 bytes in front of an image holds
  lengths as decimal strings and checksums as words in the byte order of the machine. \<open>trx_fixup\<close> and \<open>mtd_fixtrx\<close> reduce the tag to the kernel, as the
  root file system changes after the first boot. The functions have here the prefix \<open>tag_\<close>.
\<close>

section \<open>The tag\<close>

text \<open>The offsets and lengths of the fields of \<open>struct bcm_tag\<close> that are used.\<close>

definition IMAGE_LEN :: nat where "IMAGE_LEN = 10"
definition total_length_at :: nat where "total_length_at = 62"
definition cfe_length_at :: nat where "cfe_length_at = 84"
definition root_length_at :: nat where "root_length_at = 106"
definition kernel_length_at :: nat where "kernel_length_at = 128"
definition fskernel_crc_at :: nat where "fskernel_crc_at = 196"
definition image_crc_at :: nat where "image_crc_at = 216"
definition rootfs_crc_at :: nat where "rootfs_crc_at = 220"
definition kernel_crc_at :: nat where "kernel_crc_at = 224"
definition header_crc_at :: nat where "header_crc_at = 236"
definition bcm_tag_size :: nat where "bcm_tag_size = 256"

lemmas tag_layout = IMAGE_LEN_def total_length_at_def cfe_length_at_def root_length_at_def kernel_length_at_def fskernel_crc_at_def image_crc_at_def
  rootfs_crc_at_def kernel_crc_at_def header_crc_at_def bcm_tag_size_def

definition tag_field :: "nat \<Rightarrow> bytes \<Rightarrow> bytes" where
  "tag_field off tag = slice off IMAGE_LEN tag"

text \<open>\<open>strncpy\<close> into a field, and the number in one.\<close>

definition strncpy :: "nat \<Rightarrow> bytes \<Rightarrow> bytes" where
  "strncpy n src = (let s = takeWhile (\<lambda>c. c \<noteq> 0) (take n src) in s @ replicate (n - length s) 0)"

definition strntoul :: "abi \<Rightarrow> bytes \<Rightarrow> u32" where
  "strntoul A str = of_nat (fst (strtoul A 10 (takeWhile (\<lambda>c. c \<noteq> 0) str)))"

definition CRC_START :: u32 where "CRC_START = 0xffffffff"

text \<open>\<open>compute_crc32\<close> over a part of the device. A read that fails gives \<open>-1\<close>, which moves the offset back and adds to the length; the loop of the checksum does
  nothing then.\<close>

fun compute_crc32 :: "abi \<Rightarrow> 'd mtd_ops \<Rightarrow> 'd \<Rightarrow> nat \<Rightarrow> u32 \<Rightarrow> int \<Rightarrow> nat \<Rightarrow> stop + u32" where
  "compute_crc32 A ops d 0 crc offset compute_len = Inl Fuel"
| "compute_crc32 A ops d (Suc fuel) crc offset compute_len =
     (let rd = (\<lambda>n. if offset < 0 then None else op_pread ops d (nat offset) n)
      in if compute_len \<ge> 1024
         then (case rd 1024 of
                 None \<Rightarrow> compute_crc32 A ops d fuel crc (offset - 1) (size_add A compute_len 1)
               | Some b \<Rightarrow> compute_crc32 A ops d fuel (mtd_crc32 crc b) (offset + int (length b)) (compute_len - length b))
         else if compute_len > 0
         then (case rd compute_len of None \<Rightarrow> Inr crc | Some b \<Rightarrow> Inr (mtd_crc32 crc b))
         else Inr crc)"

text \<open>The lines that \<open>trx_fixup\<close> and \<open>mtd_fixtrx\<close> share: the changed tag at an offset of a buffer.\<close>

definition fix_tag :: "abi \<Rightarrow> nat \<Rightarrow> bytes \<Rightarrow> bytes" where
  "fix_tag A off m =
     (let m1 = put (off + root_length_at) [48, 0] m;
          m2 = put (off + total_length_at) (strncpy IMAGE_LEN (slice (off + kernel_length_at) IMAGE_LEN m1)) m1;
          m3 = put (off + image_crc_at) (slice (off + kernel_crc_at) 4 m2) m2;
          m4 = put (off + fskernel_crc_at) (slice (off + kernel_crc_at) 4 m3) m3;
          m5 = put (off + rootfs_crc_at) (native32_enc A CRC_START) m4;
          headercrc = mtd_crc32 CRC_START (slice off header_crc_at m5)
      in put (off + header_crc_at) (native32_enc A headercrc) m5)"

text \<open>\<open>trx_fixup\<close>: the tag is changed in the mapped device, read through \<open>map_dev\<close> and \<open>sync_dev\<close> as in \<^verbatim>\<open>Jffs2\<close>; the checksum is computed from the
  character device.\<close>

definition tag_trx_fixup :: "abi \<Rightarrow> 'd mtd_ops \<Rightarrow> ('d \<Rightarrow> bytes option) \<Rightarrow> ('d \<Rightarrow> bytes \<Rightarrow> 'd) \<Rightarrow> 'd \<Rightarrow> (stop + int) \<times> 'd" where
  "tag_trx_fixup A ops map_dev sync_dev d =
     (case op_info ops d of
        None \<Rightarrow> (Inr (-1), d)
      | Some (sz, _, _) \<Rightarrow>
          if sz = 0 then (Inr (-1), d)
          else (case map_dev d of
                  None \<Rightarrow> (Inr (-1), d)
                | Some m \<Rightarrow>
                    if length m < bcm_tag_size then (Inl Fault, d)
                    else if strntoul A (tag_field cfe_length_at m) \<noteq> 0 then (Inl (Exit 1), d)
                    else (case compute_crc32 A ops d 1 CRC_START 0 header_crc_at of
                            Inl st \<Rightarrow> (Inl st, d)
                          | Inr headercrc \<Rightarrow>
                              if headercrc \<noteq> native32_dec A (slice header_crc_at 4 m) then (Inl (Exit 1), d)
                              else (Inr 0, sync_dev d (fix_tag A 0 m)))))"

text \<open>\<open>trx_check\<close> reads the tag to the front of the buffer, over what \<open>image_check\<close> has read, and sets the length of the buffer to what it read; a read error is a
  length of \<open>-1\<close>, which compares as a large number (the buffer is taken for a full tag then: the content is what was there).\<close>

definition tag_trx_check :: "abi \<Rightarrow> 'd mtd_ops \<Rightarrow> bytes \<Rightarrow> 'd mtd \<Rightarrow> (stop + bool) \<times> 'd mtd" where
  "tag_trx_check A ops name s =
     (if name \<noteq> lit ''linux'' then (Inr True, s)
      else case fd_read bcm_tag_size (image s) of
          (Chunk c, evs) \<Rightarrow>
            let s1 = s\<lparr>buf := c, image := evs\<rparr>
            in if (case bufcap s of None \<Rightarrow> True | Some cap \<Rightarrow> cap < bcm_tag_size) then (Inl Fault, s1)
               else if length c < bcm_tag_size then (Inr False, s1)
               else if native32_dec A (slice header_crc_at 4 c) \<noteq> crc32buf (take header_crc_at c) then (Inr False, s1)
               else (case mtd_check_open ops name s1 of
                       (None, s2) \<Rightarrow> (Inl (Exit 1), s2)
                     | (Some _, s2) \<Rightarrow> (Inr (\<not> mtdsize s2 < unat (strntoul A (tag_field total_length_at c))), s2))
        | (_, evs) \<Rightarrow> (Inl Fault, s\<lparr>image := evs\<rparr>))"

definition tag_mtd_fixtrx :: "abi \<Rightarrow> 'd mtd_ops \<Rightarrow> bytes \<Rightarrow> nat \<Rightarrow> nat \<Rightarrow> 'd mtd \<Rightarrow> (stop + int) \<times> 'd mtd" where
  "tag_mtd_fixtrx A ops name offset0 data_size s =
     (let block_offset = block_base (erasesize s) offset0; offset = offset0 - block_offset
      in case mtd_check_open ops name s of
           (None, s1) \<Rightarrow> (Inl (Exit 1), s1)
         | (Some d, s1) \<Rightarrow>
             let eb = erasesize s1
             in if size_add A block_offset eb > mtdsize s1 then (Inl (Exit 1), s1)
                else case op_pread ops d block_offset eb of
                    None \<Rightarrow> (Inl (Exit 1), s1)
                  | Some b \<Rightarrow>
                      if length b \<noteq> eb then (Inl (Exit 1), s1)
                      else if offset + bcm_tag_size > eb then (Inl Fault, s1)
                      else if strntoul A (tag_field (offset + cfe_length_at) b) \<noteq> 0 then (Inl (Exit 1), s1)
                      else (case compute_crc32 A ops d 1 CRC_START (int offset) header_crc_at of
                              Inl st \<Rightarrow> (Inl st, s1)
                            | Inr headercrc \<Rightarrow>
                                if headercrc \<noteq> native32_dec A (slice (offset + header_crc_at) 4 b) then (Inl (Exit 1), s1)
                                else if strntoul A (tag_field (offset + root_length_at) b) = 0 then (Inr 0, s1)
                                else let (ok, d1) = mtd_erase_block ops eb d block_offset
                                     in if \<not> ok then (Inl (Exit 1), s1\<lparr>devs := (devs s1)(name \<mapsto> d1)\<rparr>)
                                        else let (res, d2) = op_pwrite ops d1 block_offset (fix_tag A offset b)
                                             in (if res \<noteq> int eb then Inl (Exit 1) else Inr 0, s1\<lparr>devs := (devs s1)(name \<mapsto> d2)\<rparr>)))"

text \<open>The program for brcm63xx.\<close>

definition tag_build :: "abi \<Rightarrow> 'd mtd_ops \<Rightarrow> 'd build" where
  "tag_build A ops =
     \<lparr>target_brcm = False, weak_trx_check = Some (tag_trx_check A ops), weak_mtd_fixtrx = Some (tag_mtd_fixtrx A ops), weak_mtd_resetbc = None\<rparr>"

section \<open>The fixed tag\<close>

lemma length_strncpy [simp]: "length (strncpy n src) = n"
proof -
  have "length (takeWhile (\<lambda>c. c \<noteq> 0) (take n src)) \<le> length (take n src)" by (rule length_takeWhile_le)
  then show ?thesis by (simp add: strncpy_def Let_def)
qed

text \<open>A tag that \<open>mtd fixtrx\<close> accepts, and one that describes the kernel only.\<close>

definition tag_ok :: "abi \<Rightarrow> nat \<Rightarrow> bytes \<Rightarrow> bool" where
  "tag_ok A off m \<longleftrightarrow> strntoul A (tag_field (off + cfe_length_at) m) = 0 \<and>
     native32_dec A (slice (off + header_crc_at) 4 m) = crc32buf (slice off header_crc_at m)"

definition kernel_only :: "abi \<Rightarrow> nat \<Rightarrow> bytes \<Rightarrow> bytes \<Rightarrow> bool" where
  "kernel_only A off m m' \<longleftrightarrow> tag_field (off + total_length_at) m' = strncpy IMAGE_LEN (tag_field (off + kernel_length_at) m) \<and>
     tag_field (off + kernel_length_at) m' = tag_field (off + kernel_length_at) m \<and>
     (\<forall>at\<in>{image_crc_at, fskernel_crc_at, kernel_crc_at}. slice (off + at) 4 m' = slice (off + kernel_crc_at) 4 m) \<and>
     native32_dec A (slice (off + rootfs_crc_at) 4 m') = CRC_START \<and>
     take (off + total_length_at) m' = take (off + total_length_at) m \<and> drop (off + header_crc_at + 4) m' = drop (off + header_crc_at + 4) m"

lemma fix_tag_steps:
  assumes "off + 256 \<le> length m" "m1 = put (off + 106) [48, 0] m" "m2 = put (off + 62) (strncpy 10 (slice (off + 128) 10 m)) m1"
    and "m3 = put (off + 216) (slice (off + 224) 4 m) m2" "m4 = put (off + 196) (slice (off + 224) 4 m) m3" "m5 = put (off + 220) (native32_enc A CRC_START) m4"
  shows "fix_tag A off m = put (off + 236) (native32_enc A (crc32buf (slice off 236 m5))) m5" "length m5 = length m"
  using assms by (simp_all add: fix_tag_def Let_def tag_layout layout crc32buf_def CRC_START_def)

lemma fix_tag_kernel_only:
  assumes "off + 256 \<le> length m"
  shows "kernel_only A off m (fix_tag A off m)" "length (fix_tag A off m) = length m" "slice (off + root_length_at) 2 (fix_tag A off m) = [48, 0]"
    "tag_field (off + cfe_length_at) (fix_tag A off m) = tag_field (off + cfe_length_at) m"
    "native32_dec A (slice (off + header_crc_at) 4 (fix_tag A off m)) = crc32buf (slice off header_crc_at (fix_tag A off m))"
proof -
  note st = fix_tag_steps [OF assms refl refl refl refl refl, of A]
  have l: "length (slice (off + 224) 4 m) = 4" using assms by simp
  show "length (fix_tag A off m) = length m" using assms l by (simp add: st)
  show "slice (off + root_length_at) 2 (fix_tag A off m) = [48, 0]" "tag_field (off + cfe_length_at) (fix_tag A off m) = tag_field (off + cfe_length_at) m"
      "native32_dec A (slice (off + header_crc_at) 4 (fix_tag A off m)) = crc32buf (slice off header_crc_at (fix_tag A off m))"
    using assms l unfolding st(1) tag_layout tag_field_def by (simp_all add: layout)
  show "kernel_only A off m (fix_tag A off m)"
    using assms l unfolding kernel_only_def st(1) tag_layout tag_field_def by (simp add: layout take_put_before drop_put_after)
qed

lemma strntoul_zero: "strntoul A (48 # 0 # r) = 0"
  by (simp add: strntoul_def strtoul_def strtoul_sign_def strtoul_base_def strtoul_hex_def isspace_def digits_value_def digit_of_def)

lemma fix_tag_root:
  assumes "off + 256 \<le> length m"
  shows "strntoul A (tag_field (off + root_length_at) (fix_tag A off m)) = 0"
proof -
  have "tag_field (off + root_length_at) (fix_tag A off m) = [48, 0] @ slice (off + root_length_at + 2) 8 (fix_tag A off m)"
    using slice_split [of 2 10 "off + root_length_at" "fix_tag A off m"] fix_tag_kernel_only(3) [OF assms, of A] by (simp add: tag_field_def IMAGE_LEN_def)
  then show ?thesis by (simp add: strntoul_zero)
qed

lemma fix_tag_ok: "off + 256 \<le> length m \<Longrightarrow> tag_ok A off m \<Longrightarrow> tag_ok A off (fix_tag A off m)"
  using fix_tag_kernel_only(4,5) [of off m A] by (simp add: tag_ok_def)

section \<open>Fixing a tag in flash\<close>

lemma tag_in_block: "off + at + k \<le> eb \<Longrightarrow> slice (off + at) k (slice 0 eb m) = slice (off + at) k m"
  by (simp add: slice_slice)

lemma put_fix_tag:
  assumes "off + 256 \<le> eb" "eb \<le> length m"
  shows "put 0 (fix_tag A off (slice 0 eb m)) m = fix_tag A off m"
proof -
  have "fix_tag A off (take eb m) = take eb (fix_tag A off m) \<and> drop eb (fix_tag A off m) = drop eb m"
  proof -
    have l: "off + 256 \<le> length (take eb m)" "off + 256 \<le> length m" using assms by simp_all
    have sl: "a + k \<le> eb \<Longrightarrow> slice a k (take eb x) = slice a k x" for a k and x :: bytes by (simp add: slice_def drop_take)
    note st = fix_tag_steps(1) [OF l(1) refl refl refl refl refl, of A] fix_tag_steps(1) [OF l(2) refl refl refl refl refl, of A]
    have l4: "length (slice (off + 224) 4 m) = 4" using l by simp
    show ?thesis unfolding st using assms l4
      by (simp add: sl take_put [symmetric] drop_put_after)
  qed
  moreover have "length (fix_tag A off (take eb m)) = eb" using fix_tag_kernel_only(2) [of off "take eb m" A] assms by simp
  ultimately show ?thesis by (metis append_take_drop_id append_Nil add_0 drop0 put_def slice_def take0)
qed

lemma fixtrx_tag_run:
  assumes ch: "chip ops valid cells n eb nand bad" and d: "valid d" "devs s name = Some d" and s: "erasesize s = 0" "0 < n" "\<not> bad 0"
    and tag: "off + bcm_tag_size \<le> eb" "tag_ok A off (cells d)" and size: "n * eb < 2 ^ 31" "32 \<le> ulong_bits A"
    and c': "c' = (if strntoul A (tag_field (off + root_length_at) (cells d)) = 0 then cells d else fix_tag A off (cells d))"
  shows "\<exists>s' d'. tag_mtd_fixtrx A ops name off data_size s = (Inr 0, s') \<and> devs s' name = Some d' \<and> valid d' \<and> cells d' = c'"
proof -
  let ?s = "s\<lparr>mtdsize := n * eb, erasesize := eb, mtd_nand := nand\<rparr>" and ?c = "cells d"
  have lc: "length ?c = n * eb" using chip_geometry(2) [OF ch d(1)] .
  have le: "eb \<le> n * eb" using s(2) by simp
  have op: "mtd_check_open ops name s = (Some d, ?s)" using d(2) chip_geometry(3) [OF ch d(1)] by (simp add: mtd_check_open_def)
  have bb: "block_base 0 off = 0" by (simp add: block_base_def)
  have "(2 :: nat) ^ 31 \<le> 2 ^ ulong_bits A" using size(2) by (intro power_increasing) auto
  then have "eb < 2 ^ ulong_bits A" using size(1) le by linarith
  then have add: "size_add A 0 eb = eb" by (simp add: size_add_def)
  have rd: "op_pread ops d 0 eb = Some (slice 0 eb ?c)" "length (slice 0 eb ?c) = eb" using chip_geometry(4) [OF ch d(1)] lc le by simp_all
  have crc: "compute_crc32 A ops d (Suc 0) CRC_START (int off) header_crc_at = Inr (crc32buf (slice off header_crc_at ?c))"
    using chip_geometry(4) [OF ch d(1)] by (simp add: tag_layout crc32buf_def CRC_START_def)
  have f: "tag_field (off + cfe_length_at) (slice 0 eb ?c) = tag_field (off + cfe_length_at) ?c"
      "tag_field (off + root_length_at) (slice 0 eb ?c) = tag_field (off + root_length_at) ?c" "slice (off + header_crc_at) 4 (slice 0 eb ?c) = slice (off + header_crc_at) 4 ?c"
    using tag(1) by (simp_all add: tag_field_def tag_layout slice_slice)
  show ?thesis
  proof (cases "strntoul A (tag_field (off + root_length_at) ?c) = 0")
    case True
    then have "tag_mtd_fixtrx A ops name off data_size s = (Inr 0, ?s)"
      using tag le rd s(2) by (simp add: tag_mtd_fixtrx_def op bb s(1) add crc f tag_ok_def del: compute_crc32.simps)
    then show ?thesis using True d c' by simp
  next
    case False
    let ?b = "fix_tag A off (slice 0 eb ?c)"
    have lb: "length ?b = eb" using fix_tag_kernel_only(2) [of off "slice 0 eb ?c" A] tag(1) rd(2) by (simp add: bcm_tag_size_def)
    obtain d1 d2 where w: "mtd_erase_block ops eb d 0 = (True, d1)" "op_pwrite ops d1 0 ?b = (int eb, d2)" "valid d2" "cells d2 = put 0 ?b ?c"
      using chip_erase_write [OF ch d(1) s(2,3) lb] by (metis mult_0)
    have "tag_mtd_fixtrx A ops name off data_size s = (Inr 0, ?s\<lparr>devs := (devs ?s)(name \<mapsto> d2)\<rparr>)"
      using False tag le rd w(1,2) s(2) by (simp add: tag_mtd_fixtrx_def op bb s(1) add crc f tag_ok_def del: compute_crc32.simps)
    moreover have "put 0 ?b ?c = fix_tag A off ?c" using tag(1) le lc by (intro put_fix_tag) (simp_all add: bcm_tag_size_def)
    ultimately show ?thesis using w(3,4) False c' by auto
  qed
qed

text \<open>C33. \<open>mtd fixtrx\<close> for image tags, on a device whose first block is good and holds a valid tag at the offset given, when no erase size is known before: the program returns 0, the tag
  is valid again and its root file system length is 0. If it was 0 before, the device is not changed; otherwise the tag describes the kernel only, and every byte outside of the tag is kept. A
  second run changes nothing.\<close>

theorem tag_fixtrx_kernel_only:
  assumes "chip ops valid cells n eb nand bad" "valid d" "devs s name = Some d" "erasesize s = 0" "0 < n" "\<not> bad 0"
    and "off + bcm_tag_size \<le> eb" "tag_ok A off (cells d)" "n * eb < 2 ^ 31" "32 \<le> ulong_bits A"
  shows "\<exists>s1 d1 s2 d2. tag_mtd_fixtrx A ops name off data_size s = (Inr 0, s1) \<and> devs s1 name = Some d1 \<and>
    tag_mtd_fixtrx A ops name off data_size (s1\<lparr>erasesize := 0\<rparr>) = (Inr 0, s2) \<and> devs s2 name = Some d2 \<and> cells d2 = cells d1 \<and>
    tag_ok A off (cells d1) \<and> strntoul A (tag_field (off + root_length_at) (cells d1)) = 0 \<and>
    (if strntoul A (tag_field (off + root_length_at) (cells d)) = 0 then cells d1 = cells d else kernel_only A off (cells d) (cells d1))"
proof -
  let ?c = "if strntoul A (tag_field (off + root_length_at) (cells d)) = 0 then cells d else fix_tag A off (cells d)"
  have "eb \<le> length (cells d)" using chip_geometry(2) [OF assms(1,2)] assms(5) by simp
  then have inside: "off + 256 \<le> length (cells d)" using assms(7) by (simp add: bcm_tag_size_def)
  note f = fix_tag_ok [OF inside assms(8)] fix_tag_root [OF inside, of A] fix_tag_kernel_only(1) [OF inside, of A]
  obtain s1 d1 where r1: "tag_mtd_fixtrx A ops name off data_size s = (Inr 0, s1)" "devs s1 name = Some d1" "valid d1" "cells d1 = ?c"
    using fixtrx_tag_run [OF assms(1-10) refl] by blast
  have ok: "tag_ok A off (cells d1)" "strntoul A (tag_field (off + root_length_at) (cells d1)) = 0" using f assms(8) unfolding r1(4) by simp_all
  obtain s2 d2 where r2: "tag_mtd_fixtrx A ops name off data_size (s1\<lparr>erasesize := 0\<rparr>) = (Inr 0, s2)" "devs s2 name = Some d2" "cells d2 = cells d1"
    using fixtrx_tag_run [OF assms(1) r1(3) _ _ assms(5-7) ok(1) assms(9,10) refl, of "s1\<lparr>erasesize := 0\<rparr>" name data_size] r1(2) ok(2) by auto
  show ?thesis using r1 r2 ok f(3) by auto
qed

text \<open>Without a valid magic number of a trx image in front, which a tag does not have, nothing is checked; and an image that has one loses its first four bytes.\<close>

lemma tag_image_check_accepts:
  assumes "read_magic (buf s) (image s) = (b, evs)" "4 \<le> length b" "be32_dec (take 4 b) \<noteq> MTD_TRX_MAGIC_BE" "imageformat s = MTD_IMAGE_FORMAT_UNKNOWN"
  shows "fst (image_check (tag_build A ops) name s) = Inr True"
  using assms by (auto simp: image_check_def tag_build_def detect_format_def Let_def)

lemma tag_image_check_drops:
  assumes "buf s = []" "image s = [Chunk img]" "be32_dec (take 4 img) = MTD_TRX_MAGIC_BE" "260 \<le> length img" "bufcap s = Some cap" "256 \<le> cap"
  shows "buf (snd (image_check (tag_build A ops) (lit ''linux'') s)) = slice 4 256 img"
proof -
  have "read_magic [] [Chunk img] = (take 4 img, [Chunk (drop 4 img)])" using assms(4) by (simp add: read_magic_chunk)
  then show ?thesis
    using assms by (auto simp: image_check_def tag_build_def detect_format_def tag_trx_check_def mtd_check_open_def slice_def bcm_tag_size_def Let_def split: option.splits)
qed

text \<open>A device with a tag of which the kernel is 4096 bytes long.\<close>

definition demo_fields :: bytes where
  "demo_fields = put kernel_length_at (lit ''4096'') (put root_length_at (lit ''512'') (replicate 256 0))"

definition demo_tag :: bytes where
  "demo_tag = put header_crc_at (native32_enc mips_le (crc32buf (take header_crc_at demo_fields))) demo_fields"

definition tag_state :: "bytes mtd" where
  "tag_state = \<lparr>devs = [lit ''linux'' \<mapsto> demo_tag @ replicate 256 1], mtdsize = 0, erasesize = 0, mtd_nand = False, buf = [], bufcap = None,
     imageformat = MTD_IMAGE_FORMAT_UNKNOWN, image = []\<rparr>"

lemma demo_tag_facts:
  "length demo_tag = 256" "tag_ok mips_le 0 (demo_tag @ r)" "strntoul mips_le (tag_field root_length_at (demo_tag @ r)) = 512"
proof -
  have l: "length demo_fields = 256" by (simp add: demo_fields_def tag_layout lit_def)
  then show l': "length demo_tag = 256" by (simp add: demo_tag_def tag_layout)
  have "tag_field cfe_length_at (demo_tag @ r) = tag_field cfe_length_at demo_fields" "tag_field root_length_at (demo_tag @ r) = tag_field root_length_at demo_fields"
    using l l' by (simp_all add: tag_field_def tag_layout demo_tag_def layout)
  moreover have "tag_field cfe_length_at demo_fields = replicate 10 0" "tag_field root_length_at demo_fields = [53, 49, 50, 0, 0, 0, 0, 0, 0, 0]" by code_simp+
  moreover have "strntoul mips_le (replicate 10 0) = 0" "strntoul mips_le [53, 49, 50, 0, 0, 0, 0, 0, 0, 0] = 512"
    by (simp_all add: strntoul_def strtoul_def strtoul_sign_def strtoul_base_def strtoul_hex_def isspace_def digits_value_def digit_of_def mips_le_def)
  moreover have "slice header_crc_at 4 (demo_tag @ r) = native32_enc mips_le (crc32buf (take header_crc_at demo_fields))"
      "slice 0 header_crc_at (demo_tag @ r) = take header_crc_at demo_fields"
    using l l' by (simp_all add: tag_layout demo_tag_def layout) (simp add: slice_def)
  ultimately show "tag_ok mips_le 0 (demo_tag @ r)" "strntoul mips_le (tag_field root_length_at (demo_tag @ r)) = 512" by (simp_all add: tag_ok_def)
qed

theorem tag_fixtrx_kernel_only_witness:
  "\<exists>s1 d1. tag_mtd_fixtrx mips_le (sim_ops 1 512 False (\<lambda>_. False)) (lit ''linux'') 0 0 tag_state = (Inr 0, s1) \<and> devs s1 (lit ''linux'') = Some d1 \<and>
    tag_ok mips_le 0 d1 \<and> strntoul mips_le (tag_field root_length_at d1) = 0 \<and> kernel_only mips_le 0 (demo_tag @ replicate 256 1) d1"
proof -
  let ?d = "demo_tag @ replicate 256 1"
  have "devs tag_state (lit ''linux'') = Some ?d" "erasesize tag_state = 0" "32 \<le> ulong_bits mips_le" by (simp_all add: tag_state_def mips_le_def)
  then show ?thesis
    using tag_fixtrx_kernel_only [OF sim_chip [of 512 False "\<lambda>_. False" 1], of ?d tag_state "lit ''linux''" 0 mips_le 0]
      demo_tag_facts(1) demo_tag_facts(2,3) [of "replicate 256 1"] by (simp add: bcm_tag_size_def) blast
qed

end
