(* ===== verification/Nvram.thy ===== *)
theory Nvram
  imports Crc
begin

text \<open>
  The NVRAM library, \<^verbatim>\<open>package/utils/nvram/src/nvram.c\<close>: variables \<open>name=value\<close> kept in a hash table
  of 257 chains and serialised, behind a header with a CRC-8, into the mapped flash partition.

  A handle holds the mapped partition as a byte list. A chain of tuples is a list, in the order of
  the \<open>next\<close> pointers. Strings are byte lists without a NUL. An operation that would read or write
  outside the mapping has the value \<open>None\<close>. Allocation succeeds. \<open>nvram_part_size\<close> is the argument
  \<open>psize\<close>; \<open>mmap_addr\<close> is the address of the mapping as the C type \<open>int\<close> sees it.
\<close>

section \<open>Data\<close>

record nvram_tuple =
  t_name :: bytes
  t_value :: bytes

record nvram_header =
  nh_magic :: u32
  nh_len :: u32
  crc_ver_init :: u32
  config_refresh :: u32
  config_ncdl :: u32

record nvram_handle =
  mmap :: bytes
  mmap_addr :: int
  nv_length :: nat
  nv_offset :: nat
  nvram_hash :: "nvram_tuple list list"
  nvram_dead :: "nvram_tuple list"

definition NVRAM_MIN_SPACE :: nat where "NVRAM_MIN_SPACE = 0x8000"
definition NVRAM_MAGIC :: u32 where "NVRAM_MAGIC = 0x48534C46"
definition NVRAM_VERSION :: u32 where "NVRAM_VERSION = 1"
definition NVRAM_CRC_START_POSITION :: nat where "NVRAM_CRC_START_POSITION = 9"
definition SDRAM_INIT :: u32 where "SDRAM_INIT = 0x419"
definition SDRAM_CONFIG :: u32 where "SDRAM_CONFIG = 0"
definition SDRAM_REFRESH :: u32 where "SDRAM_REFRESH = 0x40 OR 0x8000"

definition NVRAM_ROUNDUP :: "nat \<Rightarrow> nat \<Rightarrow> nat" where
  "NVRAM_ROUNDUP x y = (x + (y - 1)) div y * y"

text \<open>The packed header as it lies in memory.\<close>

definition header_enc :: "abi \<Rightarrow> nvram_header \<Rightarrow> bytes" where
  "header_enc A hdr = native32_enc A (nh_magic hdr) @ native32_enc A (nh_len hdr) @
     native32_enc A (crc_ver_init hdr) @ native32_enc A (config_refresh hdr) @ native32_enc A (config_ncdl hdr)"

definition header_dec :: "abi \<Rightarrow> bytes \<Rightarrow> nvram_header" where
  "header_dec A b = \<lparr>nh_magic = native32_dec A (slice 0 4 b), nh_len = native32_dec A (slice 4 4 b),
     crc_ver_init = native32_dec A (slice 8 4 b), config_refresh = native32_dec A (slice 12 4 b),
     config_ncdl = native32_dec A (slice 16 4 b)\<rparr>"

definition nvram_header_of :: "abi \<Rightarrow> nvram_handle \<Rightarrow> nvram_header" where
  "nvram_header_of A h = header_dec A (slice (nv_offset h) 20 (mmap h))"

section \<open>The hash table\<close>

text \<open>\<open>*s++\<close> is a \<open>char\<close>, converted to \<open>uint32_t\<close>: sign extended where plain \<open>char\<close> is signed.\<close>

definition char_val :: "abi \<Rightarrow> byte \<Rightarrow> u32" where
  "char_val A c = (if signed_char A then scast c else ucast c)"

definition hash :: "abi \<Rightarrow> bytes \<Rightarrow> u32" where
  "hash A s = foldl (\<lambda>h c. 31 * h + char_val A c) 0 s"

definition hash_index :: "abi \<Rightarrow> bytes \<Rightarrow> nat" where
  "hash_index A name = unat (hash A name) mod 257"

definition nvram_free :: "nvram_handle \<Rightarrow> nvram_handle" where
  "nvram_free h = h\<lparr>nvram_hash := replicate 257 [], nvram_dead := []\<rparr>"

text \<open>\<open>_nvram_realloc\<close>: no room is \<open>None\<close>; otherwise the tuple, and whether it is the one passed in.\<close>

definition nvram_realloc ::
  "nvram_handle \<Rightarrow> nvram_tuple option \<Rightarrow> bytes \<Rightarrow> bytes \<Rightarrow> (bool \<times> nvram_tuple) option" where
  "nvram_realloc h t name value =
     (if length value + 1 > nv_length h - nv_offset h then None
      else case t of
        None \<Rightarrow> Some (False, \<lparr>t_name = name, t_value = value\<rparr>)
      | Some u \<Rightarrow> Some (True, if t_value u \<noteq> value then u\<lparr>t_value := value\<rparr> else u))"

definition nvram_get :: "abi \<Rightarrow> nvram_handle \<Rightarrow> bytes \<Rightarrow> bytes option" where
  "nvram_get A h name =
     (case dropWhile (\<lambda>t. t_name t \<noteq> name) (nvram_hash h ! hash_index A name) of
        [] \<Rightarrow> None | t # _ \<Rightarrow> Some (t_value t))"

definition nvram_set :: "abi \<Rightarrow> nvram_handle \<Rightarrow> bytes \<Rightarrow> bytes \<Rightarrow> int \<times> nvram_handle" where
  "nvram_set A h name value =
     (let i = hash_index A name; chain = nvram_hash h ! i;
          pre = takeWhile (\<lambda>t. t_name t \<noteq> name) chain;
          rest = dropWhile (\<lambda>t. t_name t \<noteq> name) chain;
          t = (case rest of [] \<Rightarrow> None | t # _ \<Rightarrow> Some t)
      in case nvram_realloc h t name value of
           None \<Rightarrow> (-12, h)
         | Some (same, u) \<Rightarrow>
             if same then (0, h\<lparr>nvram_hash := (nvram_hash h)[i := pre @ u # tl rest]\<rparr>)
             else (case t of
                 None \<Rightarrow> (0, h\<lparr>nvram_hash := (nvram_hash h)[i := u # chain]\<rparr>)
               | Some d \<Rightarrow> (0, h\<lparr>nvram_hash := (nvram_hash h)[i := u # pre @ tl rest],
                                nvram_dead := d # nvram_dead h\<rparr>)))"

definition nvram_unset :: "abi \<Rightarrow> nvram_handle \<Rightarrow> bytes \<Rightarrow> int \<times> nvram_handle" where
  "nvram_unset A h name =
     (let i = hash_index A name; chain = nvram_hash h ! i;
          pre = takeWhile (\<lambda>t. t_name t \<noteq> name) chain
      in case dropWhile (\<lambda>t. t_name t \<noteq> name) chain of
           [] \<Rightarrow> (0, h)
         | t # rest \<Rightarrow> (0, h\<lparr>nvram_hash := (nvram_hash h)[i := pre @ rest],
                            nvram_dead := t # nvram_dead h\<rparr>))"

definition nvram_getall :: "nvram_handle \<Rightarrow> nvram_tuple list" where
  "nvram_getall h = rev (concat (nvram_hash h))"

section \<open>Reading the partition\<close>

definition name_of :: "bytes \<Rightarrow> bytes" where
  "name_of s = takeWhile (\<lambda>c. c \<noteq> 61) s"

definition value_of :: "bytes \<Rightarrow> bytes" where
  "value_of s = tl (dropWhile (\<lambda>c. c \<noteq> 61) s)"

text \<open>The loop over \<open>name=value\0 ... \0\0\<close>: \<open>m\<close> is the memory from \<open>name\<close> on. The string at \<open>name\<close> is
  cut at its first \<open>=\<close>; the next name starts after the NUL of the value.\<close>

function rehash_loop :: "abi \<Rightarrow> nvram_handle \<Rightarrow> bytes \<Rightarrow> nvram_handle option" where
  "rehash_loop A h m =
     (case cstr m of
        None \<Rightarrow> None
      | Some s \<Rightarrow>
          if s = [] \<or> 61 \<notin> set s then Some h
          else rehash_loop A (snd (nvram_set A h (name_of s) (value_of s))) (drop (length s + 1) m))"
  by pat_completeness auto
termination
  by (relation "measure (\<lambda>(A, h, m). length m)") (auto simp: cstr_def split: if_splits intro!: diff_less)

declare rehash_loop.simps [simp del]

definition set_default :: "abi \<Rightarrow> bytes \<Rightarrow> bytes \<Rightarrow> nvram_handle \<Rightarrow> nvram_handle" where
  "set_default A name buf h =
     (if nvram_get A h name = None then snd (nvram_set A h name buf) else h)"

definition nvram_rehash :: "abi \<Rightarrow> nvram_handle \<Rightarrow> nvram_handle option" where
  "nvram_rehash A h =
     (let header = nvram_header_of A h
      in case rehash_loop A (nvram_free h) (drop (nv_offset h + 20) (mmap h)) of
           None \<Rightarrow> None
         | Some h1 \<Rightarrow>
             Some (set_default A (lit ''sdram_ncdl'') (lit ''0x'' @ fmt_0X 8 (unat (config_ncdl header)))
              (set_default A (lit ''sdram_refresh'')
                  (lit ''0x'' @ fmt_0X 4 (unat (drop_bit 16 (config_refresh header) AND 0xffff)))
              (set_default A (lit ''sdram_config'')
                  (lit ''0x'' @ fmt_0X 4 (unat (config_refresh header AND 0xffff)))
              (set_default A (lit ''sdram_init'')
                  (lit ''0x'' @ fmt_0X 4 (unat (drop_bit 16 (crc_ver_init header)))) h1)))))"

section \<open>Writing the partition\<close>

definition ulong32 :: "abi \<Rightarrow> bytes \<Rightarrow> u32" where
  "ulong32 A s = of_nat (fst (strtoul A 0 s))"

text \<open>The regenerated header, before its length and CRC are known.\<close>

definition commit_header :: "abi \<Rightarrow> nvram_handle \<Rightarrow> nvram_header" where
  "commit_header A h =
     (let hdr0 = (nvram_header_of A h)\<lparr>nh_magic := NVRAM_MAGIC\<rparr>; ver = push_bit 8 NVRAM_VERSION
      in case (nvram_get A h (lit ''sdram_init''), nvram_get A h (lit ''sdram_config''),
               nvram_get A h (lit ''sdram_refresh''), nvram_get A h (lit ''sdram_ncdl'')) of
           (Some ini, Some config, Some refresh, Some ncdl) \<Rightarrow>
             hdr0\<lparr>crc_ver_init := ver OR push_bit 16 (ulong32 A ini AND 0xffff),
                 config_refresh := (ulong32 A config AND 0xffff) OR push_bit 16 (ulong32 A refresh AND 0xffff),
                 config_ncdl := ulong32 A ncdl\<rparr>
         | _ \<Rightarrow> hdr0\<lparr>crc_ver_init := ver OR push_bit 16 SDRAM_INIT,
                    config_refresh := SDRAM_CONFIG OR push_bit 16 SDRAM_REFRESH,
                    config_ncdl := 0\<rparr>)"

text \<open>The loop over one chain stops at the first tuple that does not fit before \<open>end\<close>; the loop over
  the table goes on with the next chain.\<close>

fun write_chain :: "nat \<Rightarrow> nat \<times> bytes \<Rightarrow> nvram_tuple list \<Rightarrow> nat \<times> bytes" where
  "write_chain e (ptr, m) [] = (ptr, m)"
| "write_chain e (ptr, m) (t # ts) =
     (if ptr + length (t_name t) + 1 + length (t_value t) + 1 > e then (ptr, m)
      else let s = t_name t @ 61 # t_value t
           in write_chain e (ptr + length s + 1, put ptr (s @ [0]) m) ts)"

text \<open>C's \<open>%\<close> on \<open>int\<close> truncates towards zero.\<close>

definition c_rem :: "int \<Rightarrow> int \<Rightarrow> int" where
  "c_rem a b = sgn a * (\<bar>a\<bar> mod \<bar>b\<bar>)"

text \<open>Padding after the final NUL: \<open>if ((int)ptr % 4) memset(ptr, 0, 4 - ((int)ptr % 4))\<close>.\<close>

definition pad_len :: "int \<Rightarrow> nat" where
  "pad_len p = (if c_rem p 4 \<noteq> 0 then nat (4 - c_rem p 4) else 0)"

definition commit_crc :: "abi \<Rightarrow> nvram_header \<Rightarrow> bytes \<Rightarrow> byte" where
  "commit_crc A hdr data =
     hndcrc8 data (hndcrc8 (drop NVRAM_CRC_START_POSITION
        (header_enc A \<lparr>nh_magic = 0, nh_len = 0, crc_ver_init = crc_ver_init hdr,
           config_refresh = config_refresh hdr, config_ncdl = config_ncdl hdr\<rparr>)) 0xff)"

text \<open>What \<open>nvram_commit\<close> leaves in the mapping, before the hash table is read back.\<close>

definition commit_image :: "abi \<Rightarrow> nat \<Rightarrow> nvram_handle \<Rightarrow> bytes option" where
  "commit_image A psize h =
     (let off = nv_offset h; hdr = commit_header A h;
          m0 = put (off + 20) (replicate (psize - off - 20) 0xff) (mmap h);
          (ptr, m1) = foldl (write_chain (psize - 2)) (off + 20, m0) (nvram_hash h);
          k = pad_len (mmap_addr h + int (ptr + 1))
      in if off + 20 > psize \<or> psize > length (mmap h) \<or> ptr + 1 + k > length m1 then None
         else let m2 = put (ptr + 1) (replicate k 0) (put ptr [0] m1);
                  n = NVRAM_ROUNDUP (ptr + 2 - off) 4;
                  crc = commit_crc A hdr (slice (off + 20) (n - 20) m2);
                  hdr' = hdr\<lparr>nh_len := of_nat n, crc_ver_init := crc_ver_init hdr OR ucast crc\<rparr>
              in Some (put off (header_enc A hdr') m2))"

definition nvram_commit :: "abi \<Rightarrow> nat \<Rightarrow> nvram_handle \<Rightarrow> nvram_handle option" where
  "nvram_commit A psize h =
     (case commit_image A psize h of
        None \<Rightarrow> None
      | Some m \<Rightarrow> nvram_rehash A (h\<lparr>mmap := m\<rparr>))"

section \<open>Opening\<close>

text \<open>The search for the magic: \<open>Some None\<close> when it is not there, \<open>None\<close> when it runs off the mapping.\<close>

fun find_magic :: "abi \<Rightarrow> bytes \<Rightarrow> nat \<Rightarrow> nat \<Rightarrow> nat option option" where
  "find_magic A m i 0 = Some None"
| "find_magic A m i (Suc k) =
     (if 4 * i + 4 > length m then None
      else if native32_dec A (slice (4 * i) 4 m) = NVRAM_MAGIC then Some (Some (4 * i))
      else find_magic A m (Suc i) k)"

text \<open>\<open>nvram_open\<close> on a mapped file: \<open>Some None\<close> is the \<open>NULL\<close> result. The bound of the search is
  computed in the unsigned \<open>size_t\<close>.\<close>

definition nvram_open :: "abi \<Rightarrow> nat \<Rightarrow> int \<Rightarrow> bytes \<Rightarrow> bool \<Rightarrow> nvram_handle option option" where
  "nvram_open A psize addr mem rdonly =
     (let bound = (psize + 2 ^ ulong_bits A - NVRAM_MIN_SPACE) mod 2 ^ ulong_bits A div 4
      in case find_magic A mem 0 (bound + 1) of
           None \<Rightarrow> None
         | Some None \<Rightarrow> Some None
         | Some (Some offset) \<Rightarrow>
             let h = \<lparr>mmap = mem, mmap_addr = addr, nv_length = psize, nv_offset = offset,
                      nvram_hash = replicate 257 [], nvram_dead = []\<rparr>;
                 header = nvram_header_of A h
             in if nh_magic header = NVRAM_MAGIC \<and>
                   (rdonly \<or> unat (nh_len header) < nv_length h - nv_offset h)
                then (case nvram_rehash A h of None \<Rightarrow> None | Some h' \<Rightarrow> Some (Some h'))
                else Some None)"

definition nvram_close :: "nvram_handle \<Rightarrow> bytes" where
  "nvram_close h = mmap (nvram_free h)"

section \<open>The contract of a variable store\<close>

text \<open>
  What the reader of the partition and the command line rely on: \<open>set\<close> and \<open>unset\<close> update one
  variable, a value that does not fit is refused with \<open>-ENOMEM\<close> and nothing changes.
\<close>

locale var_store =
  fixes inv :: "'h \<Rightarrow> bool"
    and get :: "'h \<Rightarrow> bytes \<Rightarrow> bytes option"
    and set :: "'h \<Rightarrow> bytes \<Rightarrow> bytes \<Rightarrow> int \<times> 'h"
    and unset :: "'h \<Rightarrow> bytes \<Rightarrow> int \<times> 'h"
    and room :: "'h \<Rightarrow> bytes \<Rightarrow> bool"
  assumes inv_set: "inv h \<Longrightarrow> inv (snd (set h k v))"
    and inv_unset: "inv h \<Longrightarrow> inv (snd (unset h k))"
    and get_set: "inv h \<Longrightarrow> room h v \<Longrightarrow> get (snd (set h k v)) = (get h)(k \<mapsto> v)"
    and ret_set: "inv h \<Longrightarrow> room h v \<Longrightarrow> fst (set h k v) = 0"
    and set_full: "inv h \<Longrightarrow> \<not> room h v \<Longrightarrow> set h k v = (-12, h)"
    and get_unset: "inv h \<Longrightarrow> get (snd (unset h k)) = (get h)(k := None)"
    and ret_unset: "inv h \<Longrightarrow> fst (unset h k) = 0"
    and room_set: "room (snd (set h k v)) = room h"
begin

definition set_all :: "(bytes \<times> bytes) list \<Rightarrow> 'h \<Rightarrow> 'h" where
  "set_all kvs h = foldl (\<lambda>h (k, v). snd (set h k v)) h kvs"

lemma set_all_Nil [simp]: "set_all [] h = h"
  by (simp add: set_all_def)

lemma set_all_Cons [simp]: "set_all ((k, v) # kvs) h = set_all kvs (snd (set h k v))"
  by (simp add: set_all_def)

lemma inv_set_all: "inv h \<Longrightarrow> inv (set_all kvs h)"
  by (induction kvs arbitrary: h) (auto simp: inv_set)

lemma room_set_all: "room (set_all kvs h) = room h"
  by (induction kvs arbitrary: h) (auto simp: room_set)

text \<open>Setting a list of variables: the last binding of a name wins.\<close>

lemma get_set_all:
  "inv h \<Longrightarrow> (\<And>k v. (k, v) \<in> List.set kvs \<Longrightarrow> room h v) \<Longrightarrow>
   get (set_all kvs h) = get h ++ map_of (rev kvs)"
proof (induction kvs arbitrary: h)
  case (Cons kv kvs)
  obtain k v where kv: "kv = (k, v)" by force
  with Cons.prems have gs: "get (snd (set h k v)) = (get h)(k \<mapsto> v)" by (intro get_set) auto
  from Cons.prems have "get (set_all kvs (snd (set h k v))) = get (snd (set h k v)) ++ map_of (rev kvs)"
    by (intro Cons.IH) (auto simp: inv_set room_set kv)
  then show ?case by (simp add: kv gs map_add_def fun_eq_iff split: option.splits)
qed simp

end

section \<open>The hash table is a variable store\<close>

text \<open>The well-formed tables: 257 chains, every tuple in the chain of its hash, no name twice in a chain.\<close>

definition chain_ok :: "abi \<Rightarrow> nat \<Rightarrow> nvram_tuple list \<Rightarrow> bool" where
  "chain_ok A i ts \<longleftrightarrow> distinct (map t_name ts) \<and> (\<forall>t \<in> set ts. hash_index A (t_name t) = i)"

definition nv_inv :: "abi \<Rightarrow> nvram_handle \<Rightarrow> bool" where
  "nv_inv A h \<longleftrightarrow> length (nvram_hash h) = 257 \<and> (\<forall>i < 257. chain_ok A i (nvram_hash h ! i))"

definition nv_room :: "nvram_handle \<Rightarrow> bytes \<Rightarrow> bool" where
  "nv_room h v \<longleftrightarrow> length v + 1 \<le> nv_length h - nv_offset h"

abbreviation binding :: "nvram_tuple \<Rightarrow> bytes \<times> bytes" where
  "binding t \<equiv> (t_name t, t_value t)"

lemma hash_index_less [simp]: "hash_index A k < 257"
  by (simp add: hash_index_def)

text \<open>Looking a name up in its chain, as a map.\<close>

lemma nvram_get_map_of:
  "nvram_get A h k = map_of (map binding (nvram_hash h ! hash_index A k)) k"
proof -
  have "(case dropWhile (\<lambda>t. t_name t \<noteq> k) ts of [] \<Rightarrow> None | t # _ \<Rightarrow> Some (t_value t)) =
      map_of (map binding ts) k" for ts
    by (induction ts) auto
  then show ?thesis by (simp add: nvram_get_def)
qed

text \<open>A chain, cut at the first tuple with a name.\<close>

declare dropWhile_eq_Nil_conv [simp del]

lemma chain_split:
  assumes "dropWhile (\<lambda>t. t_name t \<noteq> k) ts = t # post"
  obtains pre where "takeWhile (\<lambda>t. t_name t \<noteq> k) ts = pre" "ts = pre @ t # post" "t_name t = k"
    "k \<notin> t_name ` set pre"
proof
  let ?pre = "takeWhile (\<lambda>t. t_name t \<noteq> k) ts"
  show "?pre = ?pre" ..
  show "ts = ?pre @ t # post"
    using takeWhile_dropWhile_id [of "\<lambda>t. t_name t \<noteq> k" ts] assms by simp
  show "t_name t = k" using assms hd_dropWhile [of "\<lambda>t. t_name t \<noteq> k" ts] by simp
  show "k \<notin> t_name ` set ?pre" by (auto dest: set_takeWhileD)
qed

text \<open>Replacing one chain of the table.\<close>

lemma nv_inv_update:
  "nv_inv A h \<Longrightarrow> chain_ok A i ts \<Longrightarrow> nvram_hash h' = (nvram_hash h)[i := ts] \<Longrightarrow> i < 257 \<Longrightarrow> nv_inv A h'"
  by (auto simp: nv_inv_def nth_list_update)

lemma nvram_get_update:
  assumes "nv_inv A h" "nvram_hash h' = (nvram_hash h)[hash_index A k := ts]"
    "\<And>x. hash_index A x = hash_index A k \<Longrightarrow>
      map_of (map binding ts) x = ((map_of (map binding (nvram_hash h ! hash_index A k)))(k := v)) x"
  shows "nvram_get A h' = (nvram_get A h)(k := v)"
  using assms by (auto simp: fun_eq_iff nvram_get_map_of nv_inv_def nth_list_update)

lemma nvram_set_frame:
  "mmap (snd (nvram_set A h k v)) = mmap h" "mmap_addr (snd (nvram_set A h k v)) = mmap_addr h"
  "nv_length (snd (nvram_set A h k v)) = nv_length h" "nv_offset (snd (nvram_set A h k v)) = nv_offset h"
  by (auto simp: nvram_set_def Let_def split: option.splits)

text \<open>\<open>nvram_set\<close> replaces the chain of the name: in place if the name is there, with a new tuple at
  the front otherwise. The branch that moves the old tuple to the dead list is never taken.\<close>

definition set_chain :: "bytes \<Rightarrow> bytes \<Rightarrow> nvram_tuple list \<Rightarrow> nvram_tuple list" where
  "set_chain k v ts =
     (case dropWhile (\<lambda>t. t_name t \<noteq> k) ts of
        [] \<Rightarrow> \<lparr>t_name = k, t_value = v\<rparr> # ts
      | t # post \<Rightarrow> takeWhile (\<lambda>t. t_name t \<noteq> k) ts @ t\<lparr>t_value := v\<rparr> # post)"

lemma nvram_set_eq:
  "nv_room h v \<Longrightarrow> nvram_set A h k v = (0, h\<lparr>nvram_hash := (nvram_hash h)
     [hash_index A k := set_chain k v (nvram_hash h ! hash_index A k)]\<rparr>)"
  by (cases "dropWhile (\<lambda>t. t_name t \<noteq> k) (nvram_hash h ! hash_index A k)")
    (auto simp: nvram_set_def nvram_realloc_def nv_room_def set_chain_def Let_def)

lemma nvram_set_full: "\<not> nv_room h v \<Longrightarrow> nvram_set A h k v = (-12, h)"
  by (simp add: nvram_set_def nvram_realloc_def nv_room_def Let_def)

lemma set_chain_ok:
  assumes "chain_ok A (hash_index A k) ts" shows "chain_ok A (hash_index A k) (set_chain k v ts)"
proof (cases "dropWhile (\<lambda>t. t_name t \<noteq> k) ts")
  case Nil
  then show ?thesis using assms by (auto simp: set_chain_def chain_ok_def dropWhile_eq_Nil_conv [symmetric]
    dest: dropWhile_eq_Nil_conv [THEN iffD1])
next
  case (Cons t post)
  then obtain pre where "takeWhile (\<lambda>t. t_name t \<noteq> k) ts = pre" "ts = pre @ t # post"
    by (rule chain_split)
  with Cons assms show ?thesis by (auto simp: set_chain_def chain_ok_def)
qed

lemma set_chain_get: "map_of (map binding (set_chain k v ts)) = (map_of (map binding ts))(k \<mapsto> v)"
proof (cases "dropWhile (\<lambda>t. t_name t \<noteq> k) ts")
  case Nil
  then show ?thesis by (simp add: set_chain_def)
next
  case (Cons t post)
  then obtain pre where c: "takeWhile (\<lambda>t. t_name t \<noteq> k) ts = pre" "ts = pre @ t # post"
    "t_name t = k" "k \<notin> t_name ` set pre" by (rule chain_split)
  then have "map_of (map binding pre) k = None" by (simp add: map_of_eq_None_iff image_image)
  then show ?thesis using Cons c(1)
    by (auto simp: set_chain_def c(2,3) map_add_def fun_eq_iff split: option.splits)
qed

lemma unset_chain_get:
  assumes "chain_ok A i (pre @ t # post)"
  shows "map_of (map binding (pre @ post)) = (map_of (map binding (pre @ t # post)))(t_name t := None)"
proof -
  have "map_of (map binding (pre @ post)) (t_name t) = None"
    using assms by (auto simp: chain_ok_def map_of_eq_None_iff image_image)
  then show ?thesis by (auto simp: map_add_def fun_eq_iff split: option.splits)
qed

lemma nvram_set_store:
  assumes inv: "nv_inv A h" and room: "nv_room h v"
  shows "fst (nvram_set A h k v) = 0"
    and "nv_inv A (snd (nvram_set A h k v))"
    and "nvram_get A (snd (nvram_set A h k v)) = (nvram_get A h)(k \<mapsto> v)"
proof -
  have ok: "chain_ok A (hash_index A k) (nvram_hash h ! hash_index A k)"
    using inv by (simp add: nv_inv_def)
  show "fst (nvram_set A h k v) = 0" by (simp add: nvram_set_eq room)
  show "nv_inv A (snd (nvram_set A h k v))"
    by (rule nv_inv_update [OF inv set_chain_ok [OF ok]]) (simp_all add: nvram_set_eq room)
  show "nvram_get A (snd (nvram_set A h k v)) = (nvram_get A h)(k \<mapsto> v)"
    by (rule nvram_get_update [OF inv, of _ k "set_chain k v (nvram_hash h ! hash_index A k)"])
      (simp_all add: nvram_set_eq room set_chain_get fun_eq_iff)
qed

lemma nvram_unset_store:
  assumes inv: "nv_inv A h"
  shows "fst (nvram_unset A h k) = 0"
    and "nv_inv A (snd (nvram_unset A h k))"
    and "nvram_get A (snd (nvram_unset A h k)) = (nvram_get A h)(k := None)"
proof -
  let ?ts = "nvram_hash h ! hash_index A k"
  have ok: "chain_ok A (hash_index A k) ?ts" using inv by (simp add: nv_inv_def)
  show "fst (nvram_unset A h k) = 0" by (simp add: nvram_unset_def Let_def split: list.split)
  have "nv_inv A (snd (nvram_unset A h k)) \<and>
      nvram_get A (snd (nvram_unset A h k)) = (nvram_get A h)(k := None)"
  proof (cases "dropWhile (\<lambda>t. t_name t \<noteq> k) ?ts")
    case Nil
    then have "nvram_get A h k = None" by (simp add: nvram_get_def)
    then show ?thesis by (simp add: nvram_unset_def Let_def Nil inv fun_upd_idem)
  next
    case (Cons t post)
    then obtain pre where c: "takeWhile (\<lambda>t. t_name t \<noteq> k) ?ts = pre" "?ts = pre @ t # post"
      "t_name t = k" by (rule chain_split)
    let ?h = "snd (nvram_unset A h k)"
    have h: "nvram_hash ?h = (nvram_hash h)[hash_index A k := pre @ post]"
      by (simp add: nvram_unset_def Let_def Cons c(1))
    have "chain_ok A (hash_index A k) (pre @ post)"
      using ok by (auto simp: c(2) chain_ok_def)
    then have "nv_inv A ?h" using h hash_index_less by (rule nv_inv_update [OF inv])
    moreover have "nvram_get A ?h = (nvram_get A h)(k := None)"
      using unset_chain_get [OF ok [unfolded c(2)]]
      by (intro nvram_get_update [OF inv h]) (simp add: c(2,3) fun_eq_iff)
    ultimately show ?thesis ..
  qed
  then show "nv_inv A (snd (nvram_unset A h k))"
    "nvram_get A (snd (nvram_unset A h k)) = (nvram_get A h)(k := None)" by auto
qed

lemma nvram_set_inv: "nv_inv A h \<Longrightarrow> nv_inv A (snd (nvram_set A h k v))"
  by (cases "nv_room h v") (simp_all add: nvram_set_store nvram_set_full)

interpretation nv: var_store "nv_inv A" "nvram_get A" "nvram_set A" "nvram_unset A" nv_room for A
  by unfold_locales
    (auto simp: nvram_set_store nvram_set_inv nvram_unset_store nvram_set_full nv_room_def
      nvram_set_frame fun_eq_iff)

section \<open>Serialising and parsing\<close>

text \<open>The data area for a list of tuples, and the tuples that survive it: a name has no \<open>=\<close>, no string
  has a NUL.\<close>

definition ser :: "nvram_tuple list \<Rightarrow> bytes" where
  "ser ts = concat (map (\<lambda>t. t_name t @ 61 # t_value t @ [0]) ts)"

definition tuple_ok :: "nvram_tuple \<Rightarrow> bool" where
  "tuple_ok t \<longleftrightarrow> 61 \<notin> set (t_name t) \<and> 0 \<notin> set (t_name t) \<and> 0 \<notin> set (t_value t)"

lemma ser_simps [simp]:
  "ser [] = []" "ser (t # ts) = t_name t @ 61 # t_value t @ 0 # ser ts" "ser (ts @ us) = ser ts @ ser us"
  by (simp_all add: ser_def)

lemma ser_length: "t \<in> set ts \<Longrightarrow> length (t_value t) + 1 \<le> length (ser ts)"
  by (induction ts) auto

text \<open>The tuples a commit writes: of every chain, those before the first one that does not fit.\<close>

fun keep :: "nat \<Rightarrow> nat \<Rightarrow> nvram_tuple list \<Rightarrow> nvram_tuple list" where
  "keep e ptr [] = []"
| "keep e ptr (t # ts) =
     (if ptr + length (ser [t]) > e then [] else t # keep e (ptr + length (ser [t])) ts)"

fun keep_all :: "nat \<Rightarrow> nat \<Rightarrow> nvram_tuple list list \<Rightarrow> nvram_tuple list" where
  "keep_all e ptr [] = []"
| "keep_all e ptr (ts # tss) =
     keep e ptr ts @ keep_all e (ptr + length (ser (keep e ptr ts))) tss"

lemma keep_bound: "ptr \<le> e \<Longrightarrow> ptr + length (ser (keep e ptr ts)) \<le> e"
proof (induction ts arbitrary: ptr)
  case (Cons t ts)
  show ?case
  proof (cases "ptr + length (ser [t]) > e")
    case False
    then have "ptr + length (ser [t]) + length (ser (keep e (ptr + length (ser [t])) ts)) \<le> e"
      by (intro Cons.IH) simp
    with False show ?thesis by simp
  qed (use Cons.prems in simp)
qed simp

lemma keep_all_bound: "ptr \<le> e \<Longrightarrow> ptr + length (ser (keep_all e ptr tss)) \<le> e"
proof (induction tss arbitrary: ptr)
  case (Cons ts tss)
  have "ptr + length (ser (keep e ptr ts)) \<le> e" using Cons.prems by (rule keep_bound)
  from Cons.IH [OF this] show ?case by simp
qed simp

lemma keep_fits: "ptr + length (ser ts) \<le> e \<Longrightarrow> keep e ptr ts = ts"
  by (induction ts arbitrary: ptr) auto

lemma keep_all_fits: "ptr + length (ser (concat tss)) \<le> e \<Longrightarrow> keep_all e ptr tss = concat tss"
  by (induction tss arbitrary: ptr) (auto simp: keep_fits)

lemma keep_sub: "subseq (keep e ptr ts) ts"
  by (induction ts arbitrary: ptr) auto

lemma keep_all_sub: "subseq (keep_all e ptr tss) (concat tss)"
  by (induction tss arbitrary: ptr) (auto intro!: list_emb_append_mono keep_sub)

lemma write_chain_keep:
  "ptr \<le> e \<Longrightarrow> e \<le> length m \<Longrightarrow>
   write_chain e (ptr, m) ts = (ptr + length (ser (keep e ptr ts)), put ptr (ser (keep e ptr ts)) m)"
proof (induction ts arbitrary: ptr m)
  case (Cons t ts)
  show ?case
  proof (cases "ptr + length (ser [t]) > e")
    case False
    let ?s = "ser [t]"
    let ?ks = "keep e (ptr + length ?s) ts"
    have "write_chain e (ptr + length ?s, put ptr ?s m) ts =
        (ptr + length ?s + length (ser ?ks), put (ptr + length ?s) (ser ?ks) (put ptr ?s m))"
      using Cons.prems False by (intro Cons.IH) auto
    moreover have "put (ptr + length ?s) (ser ?ks) (put ptr ?s m) = put ptr (?s @ ser ?ks) m"
      using Cons.prems False keep_bound [of "ptr + length ?s" e ts] by (intro put_put_append) auto
    ultimately show ?thesis using Cons.prems False by (simp add: Let_def)
  qed simp
qed simp

lemma write_all_keep:
  "ptr \<le> e \<Longrightarrow> e \<le> length m \<Longrightarrow>
   foldl (write_chain e) (ptr, m) tss =
     (ptr + length (ser (keep_all e ptr tss)), put ptr (ser (keep_all e ptr tss)) m)"
proof (induction tss arbitrary: ptr m)
  case (Cons ts tss)
  let ?ks = "keep e ptr ts"
  let ?p = "ptr + length (ser ?ks)"
  have b: "?p \<le> e" using Cons.prems(1) by (rule keep_bound)
  then have "put ?p (ser (keep_all e ?p tss)) (put ptr (ser ?ks) m) =
      put ptr (ser ?ks @ ser (keep_all e ?p tss)) m"
    using Cons.prems keep_all_bound [OF b, of tss] by (intro put_put_append) auto
  then show ?case using Cons.prems b by (simp add: write_chain_keep Cons.IH)
qed simp

lemma name_value_of:
  "61 \<notin> set n \<Longrightarrow> name_of (n @ 61 # v) = n" "61 \<notin> set n \<Longrightarrow> value_of (n @ 61 # v) = v"
proof -
  assume "61 \<notin> set n"
  then have "takeWhile (\<lambda>c. c \<noteq> 61) (n @ 61 # v) = n" and "dropWhile (\<lambda>c. c \<noteq> 61) (n @ 61 # v) = 61 # v"
    by (induction n) auto
  then show "name_of (n @ 61 # v) = n" "value_of (n @ 61 # v) = v"
    by (simp_all add: name_of_def value_of_def)
qed

text \<open>Reading the data area back sets the variables in the order they were written.\<close>

lemma rehash_loop_ser:
  "list_all tuple_ok ts \<Longrightarrow> rehash_loop A h (ser ts @ 0 # r) = Some (nv.set_all A (map binding ts) h)"
proof (induction ts arbitrary: h)
  case Nil
  have "cstr (0 # r) = Some []" using cstr_append [of "[]" r] by simp
  then show ?case by (subst rehash_loop.simps) simp
next
  case (Cons t ts)
  let ?s = "t_name t @ 61 # t_value t"
  let ?m = "ser (t # ts) @ 0 # r"
  have ok: "tuple_ok t" and IH: "list_all tuple_ok ts" using Cons.prems by auto
  then have "cstr ?m = Some ?s"
    using cstr_append [of ?s "ser ts @ 0 # r"] by (simp add: tuple_ok_def)
  moreover have "drop (length ?s + 1) ?m = ser ts @ 0 # r" by simp
  ultimately have "rehash_loop A h ?m =
      rehash_loop A (snd (nvram_set A h (t_name t) (t_value t))) (ser ts @ 0 # r)"
    using ok by (subst rehash_loop.simps) (simp add: name_value_of tuple_ok_def)
  then show ?case by (simp only: Cons.IH [OF IH] list.map nv.set_all_Cons)
qed

lemma set_all_frame:
  "mmap (nv.set_all A kvs h) = mmap h" "mmap_addr (nv.set_all A kvs h) = mmap_addr h"
  "nv_length (nv.set_all A kvs h) = nv_length h" "nv_offset (nv.set_all A kvs h) = nv_offset h"
  by (induction kvs arbitrary: h) (auto simp: nvram_set_frame)

text \<open>All tuples of a well-formed table: every name once, and the table is their map.\<close>

lemma distinct_concat_names:
  assumes "nv_inv A h" shows "distinct (map t_name (concat (nvram_hash h)))"
proof -
  let ?tss = "nvram_hash h"
  have "distinct (map t_name (concat (take n ?tss))) \<and>
      (\<forall>t \<in> set (concat (take n ?tss)). hash_index A (t_name t) < n)" if "n \<le> 257" for n
    using that
  proof (induction n)
    case (Suc n)
    then have n: "n < length ?tss" and ok: "chain_ok A n (?tss ! n)"
      using assms by (auto simp: nv_inv_def)
    have "take (Suc n) ?tss = take n ?tss @ [?tss ! n]" using n by (rule take_Suc_conv_app_nth)
    with Suc ok show ?case by (fastforce simp: chain_ok_def)
  qed simp
  from this [of 257] show ?thesis using assms by (simp add: nv_inv_def)
qed

lemma map_of_concat:
  assumes inv: "nv_inv A h" shows "map_of (map binding (concat (nvram_hash h))) = nvram_get A h"
proof
  fix k
  let ?all = "concat (nvram_hash h)"
  have d: "distinct (map fst (map binding ?all))"
    using distinct_concat_names [OF inv] by (simp add: comp_def)
  have "map_of (map binding ?all) k = Some v \<longleftrightarrow> nvram_get A h k = Some v" for v
  proof -
    have i: "hash_index A k < length (nvram_hash h)" using inv by (simp add: nv_inv_def)
    have di: "distinct (map fst (map binding (nvram_hash h ! hash_index A k)))"
      using inv by (simp add: nv_inv_def chain_ok_def comp_def)
    have "t \<in> set (nvram_hash h ! hash_index A k)" if "t \<in> set ?all" "t_name t = k" for t
    proof -
      from that(1) obtain j where "j < length (nvram_hash h)" "t \<in> set (nvram_hash h ! j)"
        by (metis UN_E in_set_conv_nth set_concat)
      then show ?thesis using inv that(2) by (auto simp: nv_inv_def chain_ok_def)
    qed
    then have "(\<exists>t \<in> set ?all. t_name t = k \<and> t_value t = v) \<longleftrightarrow>
        (\<exists>t \<in> set (nvram_hash h ! hash_index A k). t_name t = k \<and> t_value t = v)"
      using nth_mem [OF i] by (metis UN_I set_concat)
    moreover have "(k, v) \<in> set (map binding ts) \<longleftrightarrow> (\<exists>t \<in> set ts. t_name t = k \<and> t_value t = v)" for ts
      by auto
    ultimately show ?thesis
      unfolding nvram_get_map_of map_of_eq_Some_iff [OF d] map_of_eq_Some_iff [OF di] by (simp only:)
  qed
  then show "map_of (map binding ?all) k = nvram_get A h k" by (metis not_None_eq)
qed

section \<open>Committing\<close>

text \<open>The handles \<open>nvram_open\<close> makes on a real partition: word aligned, mapped at a word aligned
  address that is not negative as an \<open>int\<close>; and the handles whose variables fit the partition.\<close>

definition nv_wf :: "abi \<Rightarrow> nat \<Rightarrow> nvram_handle \<Rightarrow> bool" where
  "nv_wf A psize h \<longleftrightarrow> nv_inv A h \<and> list_all tuple_ok (concat (nvram_hash h)) \<and>
     length (mmap h) = psize \<and> nv_length h = psize \<and> nv_offset h + 22 \<le> psize \<and>
     4 dvd nv_offset h \<and> 4 dvd psize \<and> psize < 2 ^ 32 \<and> 0 \<le> mmap_addr h \<and> 4 dvd mmap_addr h"

definition nv_fits :: "nat \<Rightarrow> nvram_handle \<Rightarrow> bool" where
  "nv_fits psize h \<longleftrightarrow> nv_offset h + 22 + length (ser (concat (nvram_hash h))) \<le> psize"

text \<open>What a commit keeps, and the length the header records.\<close>

definition nv_kept :: "nat \<Rightarrow> nvram_handle \<Rightarrow> nvram_tuple list" where
  "nv_kept psize h = keep_all (psize - 2) (nv_offset h + 20) (nvram_hash h)"

definition nv_len :: "nat \<Rightarrow> nvram_handle \<Rightarrow> nat" where
  "nv_len psize h = NVRAM_ROUNDUP (22 + length (ser (nv_kept psize h))) 4"

lemma nv_kept_fits: "nv_fits psize h \<Longrightarrow> nv_kept psize h = concat (nvram_hash h)"
  by (simp add: nv_kept_def nv_fits_def keep_all_fits)

lemma nv_kept_sub: "subseq (nv_kept psize h) (concat (nvram_hash h))"
  by (simp add: nv_kept_def keep_all_sub)

lemma nv_kept_set: "set (nv_kept psize h) \<subseteq> set (concat (nvram_hash h))"
  by (rule subseq_subset [OF nv_kept_sub])

lemma nv_kept_bound: "nv_wf A psize h \<Longrightarrow> nv_offset h + 22 + length (ser (nv_kept psize h)) \<le> psize"
  using keep_all_bound [of "nv_offset h + 20" "psize - 2" "nvram_hash h"]
  unfolding nv_kept_def nv_wf_def by linarith

text \<open>What is kept is part of the table; all of it if it fits.\<close>

lemma nv_kept_map:
  assumes "nv_inv A h"
  shows "map_of (map binding (nv_kept psize h)) \<subseteq>\<^sub>m nvram_get A h"
    and "distinct (map t_name (nv_kept psize h))"
proof -
  have d: "distinct (map t_name (concat (nvram_hash h)))" using assms by (rule distinct_concat_names)
  then show k: "distinct (map t_name (nv_kept psize h))"
    by (rule subseq_distinct [OF subseq_map [OF nv_kept_sub]])
  have "map_of (map binding (concat (nvram_hash h))) n = Some v"
    if "map_of (map binding (nv_kept psize h)) n = Some v" for n v
  proof -
    from that have "(n, v) \<in> set (map binding (nv_kept psize h))" by (rule map_of_SomeD)
    then have "(n, v) \<in> set (map binding (concat (nvram_hash h)))"
      using nv_kept_set [of psize h] by (auto simp del: set_concat)
    then show ?thesis using d by (intro map_of_is_SomeI) (simp_all add: comp_def del: set_map)
  qed
  then show "map_of (map binding (nv_kept psize h)) \<subseteq>\<^sub>m nvram_get A h"
    by (auto simp: map_le_def map_of_concat [OF assms, symmetric])
qed

lemma length_header_enc [simp]: "length (header_enc A hdr) = 20"
  by (simp add: header_enc_def)

lemma header_dec_enc [simp]: "header_dec A (header_enc A hdr) = hdr"
  by (simp add: header_dec_def header_enc_def slice_def)

lemma pad_len_bound:
  assumes "0 \<le> a" "4 dvd a" "p < n" "4 dvd (n :: nat)"
  shows "p + pad_len (a + int p) \<le> n"
proof -
  have "c_rem (a + int p) 4 = int (p mod 4)"
    using assms(1,2) by (auto simp: c_rem_def sgn_if zmod_int elim!: dvdE)
  then have pl: "pad_len (a + int p) = (if p mod 4 = 0 then 0 else 4 - p mod 4)"
    by (auto simp: pad_len_def nat_diff_distrib)
  obtain k where k: "n = 4 * k" using assms(4) by (rule dvdE)
  then have "p div 4 < k" using assms(3) by simp
  moreover have "p = 4 * (p div 4) + p mod 4" "p mod 4 < 4" by simp_all
  ultimately have "p + (4 - p mod 4) \<le> n" unfolding k by linarith
  then show ?thesis using assms(3) pl by simp
qed

lemma roundup_4: "NVRAM_ROUNDUP n 4 < n + 4" "n \<le> NVRAM_ROUNDUP n 4"
  by (auto simp: NVRAM_ROUNDUP_def)

lemma roundup_le: "n \<le> m \<Longrightarrow> 4 dvd m \<Longrightarrow> NVRAM_ROUNDUP n 4 \<le> m"
  by (auto simp: NVRAM_ROUNDUP_def elim!: dvdE)

text \<open>The mapping after \<open>nvram_commit\<close> wrote it: the data area is the serialised table and its final
  NUL, the header carries the length and the CRC of the data area.\<close>

lemma commit_image_ok:
  fixes A psize h
  defines "all \<equiv> nv_kept psize h" and "off \<equiv> nv_offset h" and "hdr \<equiv> commit_header A h"
  assumes wf: "nv_wf A psize h"
  obtains m r crc where "commit_image A psize h = Some m" "length m = psize"
    "drop (off + 20) m = ser all @ 0 # r"
    "crc = commit_crc A hdr (slice (off + 20) (nv_len psize h - 20) m)"
    "slice off 20 m = header_enc A (hdr\<lparr>nh_len := of_nat (nv_len psize h), crc_ver_init := crc_ver_init hdr OR ucast crc\<rparr>)"
    "take off m = take off (mmap h)"
proof -
  let ?ma = "put (off + 20) (replicate (psize - off - 20) 0xff) (mmap h)"
  let ?ptr = "off + 20 + length (ser all)"
  let ?mb = "put (off + 20) (ser all) ?ma"
  let ?k = "pad_len (mmap_addr h + int (?ptr + 1))"
  let ?mc = "put (?ptr + 1) (replicate ?k 0) (put ?ptr [0] ?mb)"
  let ?crc = "commit_crc A hdr (slice (off + 20) (nv_len psize h - 20) ?mc)"
  let ?hdr' = "hdr\<lparr>nh_len := of_nat (nv_len psize h), crc_ver_init := crc_ver_init hdr OR ucast ?crc\<rparr>"
  let ?m = "put off (header_enc A ?hdr') ?mc"
  have ptr: "?ptr + 2 \<le> psize" and lm: "length (mmap h) = psize" "length ?ma = psize"
    using wf nv_kept_bound [OF wf] by (auto simp: nv_wf_def all_def off_def)
  have written: "foldl (write_chain (psize - 2)) (off + 20, ?ma) (nvram_hash h) = (?ptr, ?mb)"
    unfolding all_def nv_kept_def off_def [symmetric] using ptr lm by (intro write_all_keep) simp_all
  have "?ptr + 1 + ?k \<le> psize"
    using wf ptr by (intro pad_len_bound) (auto simp: nv_wf_def)
  moreover have l1: "length ?mb = psize" using ptr lm by simp
  ultimately have l2: "length ?mc = psize" and k: "?ptr + 1 + ?k \<le> length ?mb" by auto
  have "NVRAM_ROUNDUP (?ptr + 2 - off) 4 = nv_len psize h" by (simp add: nv_len_def all_def)
  then have "commit_image A psize h = Some ?m"
    using written k ptr lm(1) by (simp add: commit_image_def Let_def off_def hdr_def)
  moreover have lm': "length ?m = psize" using l2 ptr by simp
  moreover have d: "drop (off + 20) ?m = drop (off + 20) ?mc"
    using l2 ptr by (intro drop_put_after) simp_all
  moreover have "drop (off + 20) ?mc = ser all @ 0 # replicate ?k 0 @ drop (?ptr + 1 + ?k) ?ma"
  proof -
    have "put ?ptr [0] ?mb = put (off + 20) (ser all @ [0]) ?ma"
      using lm ptr by (intro put_put_append) simp_all
    moreover have "put (off + 20 + length (ser all @ [0])) (replicate ?k 0) (put (off + 20) (ser all @ [0]) ?ma) =
        put (off + 20) ((ser all @ [0]) @ replicate ?k 0) ?ma"
      using k l1 lm by (intro put_put_append) simp_all
    ultimately have "?mc = put (off + 20) ((ser all @ [0]) @ replicate ?k 0) ?ma" by simp
    then show ?thesis using lm ptr by (simp add: drop_put_same ac_simps)
  qed
  moreover have "slice (off + 20) (nv_len psize h - 20) ?m = slice (off + 20) (nv_len psize h - 20) ?mc"
    using l2 ptr by (intro slice_put_after) simp_all
  moreover have "slice off 20 ?m = header_enc A ?hdr'" using l2 ptr by (simp add: slice_put_same)
  moreover have "take off ?m = take off (mmap h)"
    using l1 l2 lm ptr k by (simp add: take_put_before)
  ultimately show thesis by (intro that [of ?m _ ?crc]) simp_all
qed

text \<open>The four SDRAM variables that reading a partition defines from the header.\<close>

definition sdram_defaults :: "nvram_header \<Rightarrow> (bytes \<times> bytes) list" where
  "sdram_defaults header =
     [(lit ''sdram_init'', lit ''0x'' @ fmt_0X 4 (unat (drop_bit 16 (crc_ver_init header)))),
      (lit ''sdram_config'', lit ''0x'' @ fmt_0X 4 (unat (config_refresh header AND 0xffff))),
      (lit ''sdram_refresh'', lit ''0x'' @ fmt_0X 4 (unat (drop_bit 16 (config_refresh header) AND 0xffff))),
      (lit ''sdram_ncdl'', lit ''0x'' @ fmt_0X 8 (unat (config_ncdl header)))]"

definition set_defaults :: "abi \<Rightarrow> (bytes \<times> bytes) list \<Rightarrow> nvram_handle \<Rightarrow> nvram_handle" where
  "set_defaults A kvs h = foldl (\<lambda>h (k, b). set_default A k b h) h kvs"

lemma set_default_store:
  assumes "nv_inv A h" "nv_room h b"
  shows "nv_inv A (set_default A n b h)" "nv_room (set_default A n b h) = nv_room h"
    "nvram_get A (set_default A n b h) = [n \<mapsto> b] ++ nvram_get A h"
  using assms
  by (auto simp: set_default_def nv.inv_set nv.get_set nv.room_set map_add_def fun_eq_iff split: option.splits)

lemma set_default_frame:
  "mmap (set_default A n b h) = mmap h" "mmap_addr (set_default A n b h) = mmap_addr h"
  "nv_length (set_default A n b h) = nv_length h" "nv_offset (set_default A n b h) = nv_offset h"
  by (simp_all add: set_default_def nvram_set_frame)

lemma set_defaults_frame:
  "mmap (set_defaults A kvs h) = mmap h" "mmap_addr (set_defaults A kvs h) = mmap_addr h"
  "nv_length (set_defaults A kvs h) = nv_length h" "nv_offset (set_defaults A kvs h) = nv_offset h"
  unfolding set_defaults_def
  by (induction kvs arbitrary: h) (auto simp: set_default_frame split: prod.splits)

lemma set_defaults_store:
  "nv_inv A h \<Longrightarrow> list_all (\<lambda>(k, b). nv_room h b) kvs \<Longrightarrow>
   nv_inv A (set_defaults A kvs h) \<and> nvram_get A (set_defaults A kvs h) = map_of kvs ++ nvram_get A h"
proof (induction kvs arbitrary: h)
  case (Cons kv kvs)
  obtain k b where kv: "kv = (k, b)" by force
  let ?h = "set_default A k b h"
  have h: "nv_inv A ?h" "nv_room ?h = nv_room h" "nvram_get A ?h = [k \<mapsto> b] ++ nvram_get A h"
    using Cons.prems by (auto simp: kv set_default_store)
  then have "nv_inv A (set_defaults A kvs ?h) \<and> nvram_get A (set_defaults A kvs ?h) = map_of kvs ++ nvram_get A ?h"
    using Cons.prems by (intro Cons.IH) simp_all
  then show ?case
    by (auto simp: kv h set_defaults_def map_add_def fun_eq_iff split: option.splits)
qed (simp add: set_defaults_def)

lemma nvram_rehash_defaults:
  "nvram_rehash A h = map_option (set_defaults A (sdram_defaults (nvram_header_of A h)))
     (rehash_loop A (nvram_free h) (drop (nv_offset h + 20) (mmap h)))"
  by (simp add: nvram_rehash_def set_defaults_def sdram_defaults_def Let_def split: option.split)

lemma nvram_free_store:
  "nv_inv A (nvram_free h)" "nv_room (nvram_free h) = nv_room h" "nvram_get A (nvram_free h) = Map.empty"
  by (auto simp: nvram_free_def nv_inv_def chain_ok_def nv_room_def nvram_get_map_of fun_eq_iff)

lemma sdram_defaults_room: "nv_room h (replicate 10 0) \<Longrightarrow> list_all (\<lambda>(k, b). nv_room h b) (sdram_defaults hdr)"
  by (simp add: sdram_defaults_def nv_room_def lit_def)

text \<open>Reading a serialised data area: the variables are the serialised ones, and the SDRAM variables
  of the header where they were missing.\<close>

lemma nvram_rehash_ok:
  assumes data: "drop (nv_offset h + 20) (mmap h) = ser ts @ 0 # r" and ok: "list_all tuple_ok ts"
    and room: "\<And>t. t \<in> set ts \<Longrightarrow> nv_room h (t_value t)" and room10: "nv_room h (replicate 10 0)"
  obtains h' where "nvram_rehash A h = Some h'" "nv_inv A h'"
    "nvram_get A h' = map_of (sdram_defaults (nvram_header_of A h)) ++ map_of (rev (map binding ts))"
    "mmap h' = mmap h" "nv_offset h' = nv_offset h" "nv_length h' = nv_length h" "mmap_addr h' = mmap_addr h"
proof -
  let ?h1 = "nv.set_all A (map binding ts) (nvram_free h)"
  let ?d = "sdram_defaults (nvram_header_of A h)"
  have "nvram_get A ?h1 = nvram_get A (nvram_free h) ++ map_of (rev (map binding ts))"
    using room by (intro nv.get_set_all) (auto simp: nvram_free_store)
  then have h1: "nv_inv A ?h1" "nv_room ?h1 = nv_room h" "nvram_get A ?h1 = map_of (rev (map binding ts))"
    by (simp_all add: nv.inv_set_all nv.room_set_all nvram_free_store)
  then have "nv_inv A (set_defaults A ?d ?h1) \<and>
      nvram_get A (set_defaults A ?d ?h1) = map_of ?d ++ map_of (rev (map binding ts))"
    using set_defaults_store [OF h1(1), of ?d] sdram_defaults_room [of ?h1] room10 by simp
  moreover have "nvram_rehash A h = Some (set_defaults A ?d ?h1)"
    by (simp add: nvram_rehash_defaults data rehash_loop_ser [OF ok])
  ultimately show thesis
    using that by (simp add: set_defaults_frame set_all_frame) (simp add: nvram_free_def)
qed

text \<open>Committing and reading back.\<close>

lemma nvram_commit_ok:
  fixes A psize h
  defines "off \<equiv> nv_offset h" and "hdr \<equiv> commit_header A h"
  assumes wf: "nv_wf A psize h"
  obtains h' crc where "nvram_commit A psize h = Some h'" "nv_inv A h'"
    "nvram_get A h' = map_of (sdram_defaults (nvram_header_of A h')) ++ map_of (map binding (nv_kept psize h))"
    "length (mmap h') = psize" "nv_offset h' = off" "nv_length h' = psize" "mmap_addr h' = mmap_addr h"
    "crc = commit_crc A hdr (slice (off + 20) (nv_len psize h - 20) (mmap h'))"
    "slice off 20 (mmap h') = header_enc A (hdr\<lparr>nh_len := of_nat (nv_len psize h), crc_ver_init := crc_ver_init hdr OR ucast crc\<rparr>)"
    "take off (mmap h') = take off (mmap h)"
    "nvram_rehash A (h\<lparr>mmap := mmap h'\<rparr>) = Some h'"
proof -
  let ?all = "nv_kept psize h"
  from wf obtain m r crc where m: "commit_image A psize h = Some m" "length m = psize"
    "drop (off + 20) m = ser ?all @ 0 # r"
    "crc = commit_crc A hdr (slice (off + 20) (nv_len psize h - 20) m)"
    "slice off 20 m = header_enc A (hdr\<lparr>nh_len := of_nat (nv_len psize h), crc_ver_init := crc_ver_init hdr OR ucast crc\<rparr>)"
    "take off m = take off (mmap h)"
    unfolding off_def hdr_def by (rule commit_image_ok)
  let ?h = "h\<lparr>mmap := m\<rparr>"
  have inv: "nv_inv A h" and "list_all tuple_ok (concat (nvram_hash h))" using wf by (auto simp: nv_wf_def)
  then have ok: "list_all tuple_ok ?all"
    using nv_kept_set [of psize h] by (auto simp: list_all_iff simp del: set_concat)
  have "off + 22 + length (ser ?all) \<le> psize" using nv_kept_bound [OF wf] by (simp add: off_def)
  then have room: "nv_room ?h (t_value t)" if "t \<in> set ?all" for t
    using ser_length [OF that] wf by (simp add: nv_room_def nv_wf_def off_def)
  have "distinct (map t_name ?all)" using inv by (rule nv_kept_map)
  then have get: "map_of (rev (map binding ?all)) = map_of (map binding ?all)"
    by (simp add: map_of_rev_distinct comp_def)
  obtain h' where h': "nvram_rehash A ?h = Some h'" "nv_inv A h'"
    "nvram_get A h' = map_of (sdram_defaults (nvram_header_of A ?h)) ++ map_of (rev (map binding ?all))"
    "mmap h' = m" "nv_offset h' = off" "nv_length h' = nv_length h" "mmap_addr h' = mmap_addr h"
    using nvram_rehash_ok [of ?h ?all r A thesis] m(3) ok room wf
    by (auto simp: off_def nv_room_def nv_wf_def)
  moreover have "nvram_header_of A ?h = nvram_header_of A h'" using h' by (simp add: nvram_header_of_def off_def)
  ultimately show thesis using m wf get that [of h' crc]
    by (auto simp: nvram_commit_def nv_wf_def)
qed

section \<open>Every table the library builds can be serialised\<close>

definition tuples_ok :: "nvram_handle \<Rightarrow> bool" where
  "tuples_ok h \<longleftrightarrow> (\<forall>ts \<in> set (nvram_hash h). list_all tuple_ok ts)"

lemma tuples_ok_concat: "tuples_ok h \<longleftrightarrow> list_all tuple_ok (concat (nvram_hash h))"
  by (auto simp: tuples_ok_def list_all_iff)

lemma set_chain_tuples:
  assumes "list_all tuple_ok ts" "tuple_ok \<lparr>t_name = k, t_value = v\<rparr>"
  shows "list_all tuple_ok (set_chain k v ts)"
proof (cases "dropWhile (\<lambda>t. t_name t \<noteq> k) ts")
  case Nil
  with assms show ?thesis by (simp add: set_chain_def)
next
  case (Cons t post)
  then obtain pre where "takeWhile (\<lambda>t. t_name t \<noteq> k) ts = pre" "ts = pre @ t # post"
    by (rule chain_split)
  with Cons assms show ?thesis by (simp add: set_chain_def tuple_ok_def)
qed

lemma tuples_ok_set:
  assumes "nv_inv A h" "tuples_ok h" "tuple_ok \<lparr>t_name = k, t_value = v\<rparr>"
  shows "tuples_ok (snd (nvram_set A h k v))"
proof (cases "nv_room h v")
  case True
  have "hash_index A k < length (nvram_hash h)" using assms(1) by (simp add: nv_inv_def)
  then have "list_all tuple_ok (set_chain k v (nvram_hash h ! hash_index A k))"
    using assms by (intro set_chain_tuples) (auto simp: tuples_ok_def)
  then show ?thesis using assms(2) set_update_subset_insert [of "nvram_hash h" "hash_index A k"]
    by (fastforce simp: nvram_set_eq True tuples_ok_def)
qed (simp add: nvram_set_full assms)

lemma tuples_ok_unset:
  assumes "nv_inv A h" "tuples_ok h" shows "tuples_ok (snd (nvram_unset A h k))"
proof (cases "dropWhile (\<lambda>t. t_name t \<noteq> k) (nvram_hash h ! hash_index A k)")
  case Nil
  then show ?thesis by (simp add: nvram_unset_def Let_def assms)
next
  case (Cons t post)
  let ?ts = "nvram_hash h ! hash_index A k"
  obtain pre where c: "takeWhile (\<lambda>t. t_name t \<noteq> k) ?ts = pre" "?ts = pre @ t # post"
    using Cons by (rule chain_split)
  have "list_all tuple_ok ?ts" using assms by (simp add: tuples_ok_def nv_inv_def)
  then have "list_all tuple_ok (pre @ post)" by (simp add: c(2))
  then show ?thesis using assms(2) set_update_subset_insert [of "nvram_hash h" "hash_index A k"]
    by (fastforce simp: nvram_unset_def Let_def Cons c(1) tuples_ok_def)
qed

lemma name_value_ok: "0 \<notin> set s \<Longrightarrow> tuple_ok \<lparr>t_name = name_of s, t_value = value_of s\<rparr>"
proof -
  assume nul: "0 \<notin> set s"
  have "set (value_of s) \<subseteq> set s"
    unfolding value_of_def by (metis list.set_sel(2) set_dropWhileD subsetI tl_Nil)
  with nul show ?thesis by (auto simp: tuple_ok_def name_of_def dest: set_takeWhileD)
qed

lemma rehash_loop_tuples:
  "rehash_loop A h m = Some h' \<Longrightarrow> nv_inv A h \<Longrightarrow> tuples_ok h \<Longrightarrow>
   nv_inv A h' \<and> tuples_ok h' \<and> mmap h' = mmap h \<and> mmap_addr h' = mmap_addr h \<and>
   nv_length h' = nv_length h \<and> nv_offset h' = nv_offset h"
proof (induction A h m rule: rehash_loop.induct)
  case (1 A h m)
  from "1.prems"(1) obtain s where s: "cstr m = Some s"
    by (subst (asm) rehash_loop.simps) (auto split: option.splits)
  show ?case
  proof (cases "s = [] \<or> 61 \<notin> set s")
    case True
    then show ?thesis using "1.prems" s by (subst (asm) rehash_loop.simps) auto
  next
    case False
    let ?h = "snd (nvram_set A h (name_of s) (value_of s))"
    have "0 \<notin> set s" using s by (auto simp: cstr_def dest: set_takeWhileD split: if_splits)
    then have "tuples_ok ?h" "nv_inv A ?h"
      using "1.prems" by (auto simp: tuples_ok_set name_value_ok nv.inv_set)
    moreover have "rehash_loop A ?h (drop (length s + 1) m) = Some h'"
      using "1.prems"(1) s False by (subst (asm) rehash_loop.simps) auto
    ultimately show ?thesis using "1.IH" [OF s False] by (simp add: nvram_set_frame)
  qed
qed

lemma set_defaults_tuples:
  "nv_inv A h \<Longrightarrow> tuples_ok h \<Longrightarrow> list_all (\<lambda>(k, b). tuple_ok \<lparr>t_name = k, t_value = b\<rparr>) kvs \<Longrightarrow>
   nv_inv A (set_defaults A kvs h) \<and> tuples_ok (set_defaults A kvs h)"
proof (induction kvs arbitrary: h)
  case (Cons kv kvs)
  obtain k b where kv: "kv = (k, b)" by force
  let ?h = "set_default A k b h"
  have "nv_inv A ?h" "tuples_ok ?h"
    using Cons.prems by (auto simp: kv set_default_def nv.inv_set tuples_ok_set)
  then have "nv_inv A (set_defaults A kvs ?h) \<and> tuples_ok (set_defaults A kvs ?h)"
    using Cons.prems by (intro Cons.IH) simp_all
  then show ?case by (simp add: set_defaults_def kv)
qed (simp add: set_defaults_def)

lemma sdram_defaults_tuples: "list_all (\<lambda>(k, b). tuple_ok \<lparr>t_name = k, t_value = b\<rparr>) (sdram_defaults hdr)"
  using fmt_0X_chars by (fastforce simp: sdram_defaults_def tuple_ok_def lit_def)

lemma nvram_rehash_frame:
  assumes "nvram_rehash A h = Some h'"
  shows "nv_inv A h'" "tuples_ok h'" "mmap h' = mmap h" "mmap_addr h' = mmap_addr h"
    "nv_length h' = nv_length h" "nv_offset h' = nv_offset h"
proof -
  let ?d = "sdram_defaults (nvram_header_of A h)"
  from assms obtain h1 where h1: "rehash_loop A (nvram_free h) (drop (nv_offset h + 20) (mmap h)) = Some h1"
    and h': "h' = set_defaults A ?d h1" by (auto simp: nvram_rehash_defaults)
  have "tuples_ok (nvram_free h)" by (auto simp: tuples_ok_def nvram_free_def)
  then have 1: "nv_inv A h1" "tuples_ok h1" "mmap h1 = mmap h" "mmap_addr h1 = mmap_addr h"
    "nv_length h1 = nv_length h" "nv_offset h1 = nv_offset h"
    using rehash_loop_tuples [OF h1] by (simp_all add: nvram_free_store) (simp_all add: nvram_free_def)
  then show "nv_inv A h'" "tuples_ok h'" "mmap h' = mmap h" "mmap_addr h' = mmap_addr h"
    "nv_length h' = nv_length h" "nv_offset h' = nv_offset h"
    using set_defaults_tuples [OF 1(1,2) sdram_defaults_tuples] by (simp_all add: h' set_defaults_frame)
qed

section \<open>Opening\<close>

definition first_magic :: "abi \<Rightarrow> bytes \<Rightarrow> nat \<Rightarrow> bool" where
  "first_magic A m off \<longleftrightarrow> 4 dvd off \<and> off + 4 \<le> length m \<and> native32_dec A (slice off 4 m) = NVRAM_MAGIC \<and>
     (\<forall>i < off div 4. native32_dec A (slice (4 * i) 4 m) \<noteq> NVRAM_MAGIC)"

lemma find_magic_hit:
  "first_magic A m off \<Longrightarrow> i \<le> off div 4 \<Longrightarrow> off div 4 < i + k \<Longrightarrow> find_magic A m i k = Some (Some off)"
proof (induction k arbitrary: i)
  case (Suc k)
  have off: "4 * (off div 4) = off" and len: "off + 4 \<le> length m"
    using Suc.prems(1) by (simp_all add: first_magic_def)
  show ?case
  proof (cases "i = off div 4")
    case True
    then show ?thesis using Suc.prems(1) off len by (simp add: first_magic_def)
  next
    case False
    then have i: "i < off div 4" using Suc.prems(2) by simp
    then have "find_magic A m (Suc i) k = Some (Some off)" using Suc.prems by (intro Suc.IH) auto
    moreover have "4 * i + 4 \<le> length m" using i off len by linarith
    moreover have "native32_dec A (slice (4 * i) 4 m) \<noteq> NVRAM_MAGIC"
      using i Suc.prems(1) by (simp add: first_magic_def)
    ultimately show ?thesis by simp
  qed
qed simp

lemma find_magic_Some:
  "find_magic A m i k = Some (Some off) \<Longrightarrow> (\<forall>j < i. native32_dec A (slice (4 * j) 4 m) \<noteq> NVRAM_MAGIC) \<Longrightarrow>
   first_magic A m off \<and> off div 4 < i + k"
proof (induction k arbitrary: i)
  case (Suc k)
  from Suc.prems(1) have len: "4 * i + 4 \<le> length m" by (simp split: if_splits)
  show ?case
  proof (cases "native32_dec A (slice (4 * i) 4 m) = NVRAM_MAGIC")
    case True
    then have "off = 4 * i" using Suc.prems(1) len by simp
    then show ?thesis using True Suc.prems(2) len by (simp add: first_magic_def)
  next
    case False
    then have "\<forall>j < Suc i. native32_dec A (slice (4 * j) 4 m) \<noteq> NVRAM_MAGIC"
      using Suc.prems(2) by (simp add: less_Suc_eq)
    moreover have "find_magic A m (Suc i) k = Some (Some off)" using Suc.prems(1) len False by simp
    ultimately show ?thesis using Suc.IH [of "Suc i"] by simp
  qed
qed simp

text \<open>Where the search ends on a partition of a real size.\<close>

lemma open_bound:
  "NVRAM_MIN_SPACE \<le> psize \<Longrightarrow> psize < 2 ^ ulong_bits A \<Longrightarrow>
   (psize + 2 ^ ulong_bits A - NVRAM_MIN_SPACE) mod 2 ^ ulong_bits A div 4 = (psize - NVRAM_MIN_SPACE) div 4"
proof -
  assume a: "NVRAM_MIN_SPACE \<le> psize" "psize < 2 ^ ulong_bits A"
  then have "psize + 2 ^ ulong_bits A - NVRAM_MIN_SPACE = (psize - NVRAM_MIN_SPACE) + 2 ^ ulong_bits A" by simp
  then have "(psize + 2 ^ ulong_bits A - NVRAM_MIN_SPACE) mod 2 ^ ulong_bits A =
      (psize - NVRAM_MIN_SPACE) mod 2 ^ ulong_bits A" by (simp only: mod_add_self2)
  then show ?thesis using a by simp
qed

lemma nvram_open_wf:
  assumes "nvram_open A psize addr mem rd = Some (Some h)"
    and "NVRAM_MIN_SPACE \<le> psize" "psize < 2 ^ ulong_bits A"
  shows "nv_inv A h" "tuples_ok h" "mmap h = mem" "mmap_addr h = addr" "nv_length h = psize"
    "first_magic A mem (nv_offset h)" "nv_offset h + NVRAM_MIN_SPACE \<le> psize + 3"
proof -
  let ?h = "\<lambda>off. \<lparr>mmap = mem, mmap_addr = addr, nv_length = psize, nv_offset = off,
    nvram_hash = replicate 257 [], nvram_dead = []\<rparr>"
  from assms obtain off where off: "find_magic A mem 0 ((psize - NVRAM_MIN_SPACE) div 4 + 1) = Some (Some off)"
    and h: "nvram_rehash A (?h off) = Some h"
    by (auto simp: nvram_open_def open_bound Let_def split: option.splits if_splits)
  from find_magic_Some [OF off] have "first_magic A mem off" "off div 4 \<le> (psize - NVRAM_MIN_SPACE) div 4" by auto
  moreover from this have "off \<le> psize - NVRAM_MIN_SPACE + 3" by (auto simp: first_magic_def elim!: dvdE)
  ultimately show "nv_inv A h" "tuples_ok h" "mmap h = mem" "mmap_addr h = addr" "nv_length h = psize"
    "first_magic A mem (nv_offset h)" "nv_offset h + NVRAM_MIN_SPACE \<le> psize + 3"
    using nvram_rehash_frame [OF h] assms(2) by simp_all
qed

text \<open>The handle and the header after a commit.\<close>

lemma nvram_commit_facts:
  assumes wf: "nv_wf A psize h" and com: "nvram_commit A psize h = Some h'"
  shows "nv_wf A psize h'" "length (mmap h') = psize" "nv_offset h' = nv_offset h" "mmap_addr h' = mmap_addr h"
    "take (nv_offset h) (mmap h') = take (nv_offset h) (mmap h)"
    "nvram_rehash A (h\<lparr>mmap := mmap h'\<rparr>) = Some h'"
    "nvram_get A h' = map_of (sdram_defaults (nvram_header_of A h')) ++ map_of (map binding (nv_kept psize h))"
    "nvram_header_of A h' = (commit_header A h)\<lparr>nh_len := of_nat (nv_len psize h),
       crc_ver_init := crc_ver_init (commit_header A h) OR
         ucast (commit_crc A (commit_header A h) (slice (nv_offset h + 20) (nv_len psize h - 20) (mmap h')))\<rparr>"
    "slice (nv_offset h) 20 (mmap h') = header_enc A (nvram_header_of A h')"
proof -
  obtain g crc where g: "nvram_commit A psize h = Some g" "nv_inv A g"
    "nvram_get A g = map_of (sdram_defaults (nvram_header_of A g)) ++ map_of (map binding (nv_kept psize h))"
    "length (mmap g) = psize" "nv_offset g = nv_offset h" "nv_length g = psize" "mmap_addr g = mmap_addr h"
    "crc = commit_crc A (commit_header A h) (slice (nv_offset h + 20) (nv_len psize h - 20) (mmap g))"
    "slice (nv_offset h) 20 (mmap g) = header_enc A ((commit_header A h)\<lparr>nh_len := of_nat (nv_len psize h),
       crc_ver_init := crc_ver_init (commit_header A h) OR ucast crc\<rparr>)"
    "take (nv_offset h) (mmap g) = take (nv_offset h) (mmap h)"
    "nvram_rehash A (h\<lparr>mmap := mmap g\<rparr>) = Some g"
    using wf by (rule nvram_commit_ok)
  have gh: "g = h'" using g(1) com by simp
  have "list_all tuple_ok (concat (nvram_hash h'))"
    using nvram_rehash_frame(2) [OF g(11)] by (simp add: tuples_ok_concat gh)
  then show "nv_wf A psize h'" using g wf by (simp add: nv_wf_def gh)
  show hdr: "nvram_header_of A h' = (commit_header A h)\<lparr>nh_len := of_nat (nv_len psize h),
       crc_ver_init := crc_ver_init (commit_header A h) OR
         ucast (commit_crc A (commit_header A h) (slice (nv_offset h + 20) (nv_len psize h - 20) (mmap h')))\<rparr>"
    using g(5,8,9) by (simp add: nvram_header_of_def gh)
  show "slice (nv_offset h) 20 (mmap h') = header_enc A (nvram_header_of A h')"
    unfolding hdr using g(8,9) by (simp add: gh)
  show "length (mmap h') = psize" "nv_offset h' = nv_offset h" "mmap_addr h' = mmap_addr h"
    "take (nv_offset h) (mmap h') = take (nv_offset h) (mmap h)"
    "nvram_rehash A (h\<lparr>mmap := mmap h'\<rparr>) = Some h'"
    "nvram_get A h' = map_of (sdram_defaults (nvram_header_of A h')) ++ map_of (map binding (nv_kept psize h))"
    using g by (simp_all add: gh)
qed

lemma nvram_commit_total: "nv_wf A psize h \<Longrightarrow> \<exists>h'. nvram_commit A psize h = Some h'"
  by (erule nvram_commit_ok) blast

lemma commit_header_magic: "nh_magic (commit_header A h) = NVRAM_MAGIC"
  by (simp add: commit_header_def Let_def split: option.split)

lemma nv_len_bound:
  assumes "nv_wf A psize h" shows "nv_len psize h \<le> psize - nv_offset h" "22 \<le> nv_len psize h"
    "unat (of_nat (nv_len psize h) :: u32) = nv_len psize h"
proof -
  have "4 dvd psize - nv_offset h" using assms by (auto simp: nv_wf_def intro: dvd_diff_nat)
  then show "nv_len psize h \<le> psize - nv_offset h"
    unfolding nv_len_def using nv_kept_bound [OF assms] by (intro roundup_le) auto
  moreover have "psize < 2 ^ 32" using assms by (simp add: nv_wf_def)
  ultimately have "nv_len psize h < 2 ^ 32" by linarith
  then show "unat (of_nat (nv_len psize h) :: u32) = nv_len psize h" by (simp add: unat_of_nat)
  show "22 \<le> nv_len psize h" unfolding nv_len_def using roundup_4(2) le_add1 by (rule order_trans [rotated])
qed

section \<open>The handles a program can hold\<close>

text \<open>A program opens a partition and then sets, unsets and commits, in any order. A name it sets has
  no \<open>=\<close>; neither string has a NUL inside.\<close>

inductive nv_reach :: "abi \<Rightarrow> nat \<Rightarrow> int \<Rightarrow> bytes \<Rightarrow> nvram_handle \<Rightarrow> bool" for A psize addr mem where
  opened: "nvram_open A psize addr mem rdonly = Some (Some h) \<Longrightarrow> nv_reach A psize addr mem h"
| set: "nv_reach A psize addr mem h \<Longrightarrow> tuple_ok \<lparr>t_name = k, t_value = v\<rparr> \<Longrightarrow>
    nv_reach A psize addr mem (snd (nvram_set A h k v))"
| unset: "nv_reach A psize addr mem h \<Longrightarrow> nv_reach A psize addr mem (snd (nvram_unset A h k))"
| commit: "nv_reach A psize addr mem h \<Longrightarrow> nvram_commit A psize h = Some h' \<Longrightarrow> nv_reach A psize addr mem h'"

text \<open>A partition as the kernel maps it.\<close>

definition part_ok :: "abi \<Rightarrow> nat \<Rightarrow> int \<Rightarrow> bytes \<Rightarrow> bool" where
  "part_ok A psize addr mem \<longleftrightarrow> NVRAM_MIN_SPACE \<le> psize \<and> psize < 2 ^ 32 \<and> psize < 2 ^ ulong_bits A \<and>
     4 dvd psize \<and> 0 \<le> addr \<and> 4 dvd addr \<and> length mem = psize"

lemma nvram_unset_frame:
  "mmap (snd (nvram_unset A h k)) = mmap h" "mmap_addr (snd (nvram_unset A h k)) = mmap_addr h"
  "nv_length (snd (nvram_unset A h k)) = nv_length h" "nv_offset (snd (nvram_unset A h k)) = nv_offset h"
  by (auto simp: nvram_unset_def Let_def split: list.splits)

lemma nvram_set_wf:
  "nv_wf A psize h \<Longrightarrow> tuple_ok \<lparr>t_name = k, t_value = v\<rparr> \<Longrightarrow> nv_wf A psize (snd (nvram_set A h k v))"
  by (simp add: nv_wf_def nvram_set_frame nv.inv_set tuples_ok_set tuples_ok_concat [symmetric])

lemma nvram_unset_wf: "nv_wf A psize h \<Longrightarrow> nv_wf A psize (snd (nvram_unset A h k))"
  by (simp add: nv_wf_def nvram_unset_frame nv.inv_unset tuples_ok_unset tuples_ok_concat [symmetric])

lemma nvram_opened_wf:
  assumes "part_ok A psize addr mem" "nvram_open A psize addr mem rd = Some (Some h)"
  shows "nv_wf A psize h" "first_magic A mem (nv_offset h)" "nv_offset h + NVRAM_MIN_SPACE \<le> psize + 3"
    "mmap h = mem" "mmap_addr h = addr"
  using assms nvram_open_wf [OF assms(2)]
  by (auto simp: nv_wf_def part_ok_def tuples_ok_concat [symmetric] first_magic_def NVRAM_MIN_SPACE_def)

lemma first_magic_commit:
  assumes fm: "first_magic A (mmap h) (nv_offset h)" and wf: "nv_wf A psize h"
    and h': "nvram_commit A psize h = Some h'"
  shows "first_magic A (mmap h') (nv_offset h)"
proof -
  let ?o = "nv_offset h"
  note c = nvram_commit_facts [OF wf h']
  have "slice ?o 4 (mmap h') = slice 0 4 (slice ?o 20 (mmap h'))" by (simp add: slice_slice)
  also have "\<dots> = native32_enc A NVRAM_MAGIC"
    unfolding c(9) by (simp add: header_enc_def slice_def c(8) commit_header_magic)
  finally have "native32_dec A (slice ?o 4 (mmap h')) = NVRAM_MAGIC" by simp
  moreover have "slice (4 * i) 4 (mmap h') = slice (4 * i) 4 (mmap h)" if "i < ?o div 4" for i
  proof -
    have "slice (4 * i) 4 m = slice (4 * i) 4 (take ?o m)" for m :: bytes
      using that by (simp add: slice_def drop_take min_def)
    then show ?thesis by (metis c(5))
  qed
  ultimately show ?thesis using fm wf c(2) by (auto simp: first_magic_def nv_wf_def)
qed

text \<open>\<open>nvram_rehash\<close> starts from an empty table.\<close>

lemma nvram_rehash_fresh: "nvram_free h = nvram_free g \<Longrightarrow> nvram_rehash A h = nvram_rehash A g"
proof -
  assume e: "nvram_free h = nvram_free g"
  then have "mmap h = mmap g" "nv_offset h = nv_offset g"
    by (metis nvram_free_def nvram_handle.select_convs nvram_handle.surjective
      nvram_handle.update_convs(5,6))+
  with e show ?thesis by (simp add: nvram_rehash_def nvram_header_of_def)
qed

lemma nvram_reopen_eq:
  assumes "nv_wf A psize h" "first_magic A (mmap h) (nv_offset h)" "nvram_commit A psize h = Some h'"
    "NVRAM_MIN_SPACE \<le> psize" "psize < 2 ^ ulong_bits A" "nv_offset h \<le> psize - NVRAM_MIN_SPACE"
  shows "nvram_open A psize (mmap_addr h) (nvram_close h') rdonly =
    Some (if rdonly \<or> nv_len psize h < psize - nv_offset h then Some h' else None)"
proof -
  let ?o = "nv_offset h"
  let ?g = "\<lparr>mmap = mmap h', mmap_addr = mmap_addr h, nv_length = psize, nv_offset = ?o,
    nvram_hash = replicate 257 [], nvram_dead = []\<rparr>"
  note c = nvram_commit_facts [OF assms(1,3)]
  have fm: "first_magic A (mmap h') ?o" using assms(1-3) first_magic_commit by blast
  then have "find_magic A (mmap h') 0 ((psize - NVRAM_MIN_SPACE) div 4 + 1) = Some (Some ?o)"
    using assms(6) by (intro find_magic_hit) (auto intro: div_le_mono less_Suc_eq_le [THEN iffD2])
  moreover have "nvram_rehash A ?g = Some h'"
  proof -
    have "nvram_free ?g = nvram_free (h\<lparr>mmap := mmap h'\<rparr>)"
      using assms(1) by (cases h) (simp add: nvram_free_def nv_wf_def)
    from nvram_rehash_fresh [OF this] show ?thesis by (simp add: c(6))
  qed
  moreover have "nvram_header_of A ?g = nvram_header_of A h'" by (simp add: nvram_header_of_def c(3))
  moreover have "nh_magic (nvram_header_of A h') = NVRAM_MAGIC"
    "unat (nh_len (nvram_header_of A h')) = nv_len psize h"
    using nv_len_bound [OF assms(1)] by (simp_all add: c(8) commit_header_magic)
  ultimately show ?thesis
    using assms(4,5) by (simp add: nvram_open_def open_bound nvram_close_def nvram_free_def Let_def)
qed

text \<open>Opening a serialised partition whose header is at its start.\<close>

lemma nvram_open_ser:
  assumes mem: "mem = header_enc A hdr @ ser ts @ 0 # r" and magic: "nh_magic hdr = NVRAM_MAGIC"
    and ok: "list_all tuple_ok ts" and len: "length mem = psize" "NVRAM_MIN_SPACE \<le> psize" "psize < 2 ^ ulong_bits A"
    and rw: "rdonly \<or> unat (nh_len hdr) < psize"
  obtains h where "nvram_open A psize addr mem rdonly = Some (Some h)" "nv_offset h = 0"
    "nvram_get A h = map_of (sdram_defaults hdr) ++ map_of (rev (map binding ts))"
proof -
  let ?g = "\<lparr>mmap = mem, mmap_addr = addr, nv_length = psize, nv_offset = 0,
    nvram_hash = replicate 257 [], nvram_dead = []\<rparr>"
  have hdr: "nvram_header_of A ?g = hdr" by (simp add: nvram_header_of_def mem slice_def)
  have "slice 0 4 mem = native32_enc A NVRAM_MAGIC" by (simp add: mem header_enc_def magic slice_def)
  then have "first_magic A mem 0" using len by (simp add: first_magic_def NVRAM_MIN_SPACE_def)
  then have "find_magic A mem 0 ((psize - NVRAM_MIN_SPACE) div 4 + 1) = Some (Some 0)"
    by (intro find_magic_hit) simp_all
  moreover have "nv_room ?g (t_value t)" if "t \<in> set ts" for t
    using ser_length [OF that] len(1) by (simp add: nv_room_def mem)
  then obtain h where h: "nvram_rehash A ?g = Some h"
    "nvram_get A h = map_of (sdram_defaults (nvram_header_of A ?g)) ++ map_of (rev (map binding ts))"
    "nv_offset h = nv_offset ?g"
    using nvram_rehash_ok [of ?g ts r A thesis] ok len by (auto simp: mem nv_room_def NVRAM_MIN_SPACE_def)
  ultimately show thesis
    using that [of h] magic rw len by (simp add: nvram_open_def open_bound hdr Let_def)
qed

text \<open>A partition of the smallest size with no variables.\<close>

definition blank_header :: nvram_header where
  "blank_header = \<lparr>nh_magic = NVRAM_MAGIC, nh_len = 24, crc_ver_init = 0x04190100,
     config_refresh = 0x80400000, config_ncdl = 0\<rparr>"

definition blank_part :: "abi \<Rightarrow> bytes" where
  "blank_part A = header_enc A blank_header @ replicate (NVRAM_MIN_SPACE - 20) 0"

lemma length_blank_part [simp]: "length (blank_part A) = NVRAM_MIN_SPACE"
  by (simp add: blank_part_def NVRAM_MIN_SPACE_def)

lemma blank_part_open:
  assumes "32 \<le> ulong_bits A"
  obtains h where "part_ok A NVRAM_MIN_SPACE 0 (blank_part A)"
    "nvram_open A NVRAM_MIN_SPACE 0 (blank_part A) rdonly = Some (Some h)" "nv_offset h = 0"
    "nvram_get A h = map_of (sdram_defaults blank_header)"
proof -
  have b: "(2::nat) ^ 32 \<le> 2 ^ ulong_bits A" using assms by (rule power_increasing) simp
  have "NVRAM_MIN_SPACE - 20 = Suc (NVRAM_MIN_SPACE - 21)" by (simp add: NVRAM_MIN_SPACE_def)
  then have "blank_part A = header_enc A blank_header @ ser [] @ 0 # replicate (NVRAM_MIN_SPACE - 21) 0"
    by (simp add: blank_part_def)
  then obtain h where h: "nvram_open A NVRAM_MIN_SPACE 0 (blank_part A) rdonly = Some (Some h)" "nv_offset h = 0"
    "nvram_get A h = map_of (sdram_defaults blank_header) ++ map_of (rev (map binding []))"
    by (rule nvram_open_ser [where psize = NVRAM_MIN_SPACE and addr = 0 and rdonly = rdonly])
      (use b in \<open>simp_all add: NVRAM_MIN_SPACE_def blank_header_def\<close>)
  have "part_ok A NVRAM_MIN_SPACE 0 (blank_part A)"
    using b by (simp add: part_ok_def) (simp add: NVRAM_MIN_SPACE_def)
  with h show thesis by (intro that) simp_all
qed

section \<open>Properties\<close>

text \<open>C1. \<open>nvram_set\<close>, \<open>nvram_unset\<close> and \<open>nvram_get\<close> implement a finite map: on every well-formed table a
  value that fits the partition is stored under its name and no other name changes, one that does not
  fit is refused with \<open>-ENOMEM\<close> and the handle stays as it was, \<open>unset\<close> removes exactly its name; the
  table stays well formed.\<close>

theorem nvram_store_refines_map:
  assumes "nv_inv A h"
  shows "(if length v + 1 \<le> nv_length h - nv_offset h
       then fst (nvram_set A h k v) = 0 \<and> nv_inv A (snd (nvram_set A h k v)) \<and>
         nvram_get A (snd (nvram_set A h k v)) = (nvram_get A h)(k \<mapsto> v)
       else nvram_set A h k v = (-12, h)) \<and>
      fst (nvram_unset A h k) = 0 \<and> nv_inv A (snd (nvram_unset A h k)) \<and>
      nvram_get A (snd (nvram_unset A h k)) = (nvram_get A h)(k := None)"
  using nv.get_set [OF assms] nv.ret_set [OF assms] nv.set_full [OF assms] assms
  by (auto simp: nv.inv_set nv.inv_unset nv.get_unset nv.ret_unset nv_room_def)

definition empty_handle :: "nat \<Rightarrow> nvram_handle" where
  "empty_handle psize = \<lparr>mmap = replicate psize 0, mmap_addr = 0, nv_length = psize, nv_offset = 0,
     nvram_hash = replicate 257 [], nvram_dead = []\<rparr>"

lemma empty_handle_wf: "22 \<le> psize \<Longrightarrow> 4 dvd psize \<Longrightarrow> psize < 2 ^ 32 \<Longrightarrow> nv_wf A psize (empty_handle psize)"
  by (simp add: nv_wf_def nv_inv_def chain_ok_def empty_handle_def)

theorem nvram_store_refines_map_witness:
  "nvram_get mips_le (snd (nvram_set mips_le (empty_handle 64) (lit ''a'') (lit ''b''))) (lit ''a'') = Some (lit ''b'')"
  using nvram_store_refines_map [of mips_le "empty_handle 64" "lit ''b''" "lit ''a''"]
    empty_handle_wf [of 64 mips_le]
  by (simp add: nv_wf_def empty_handle_def lit_def)

text \<open>C2. Committing and reading back: \<open>nvram_commit\<close> on a well-formed handle never leaves the mapping, and
  reads back from the partition it wrote what the handle held: if all variables fit the partition, exactly
  those, with the SDRAM variables of the header added where they were missing; if they do not, some of
  them. Everything before the header is untouched, the length in the header stays inside the partition and the
  handle stays well formed.\<close>

theorem nvram_commit_roundtrip:
  assumes "nv_wf A psize h"
  shows "\<exists>h'. nvram_commit A psize h = Some h' \<and> nv_wf A psize h' \<and>
      (let sdram = map_of (sdram_defaults (nvram_header_of A h'))
       in (nv_fits psize h \<longrightarrow> nvram_get A h' = sdram ++ nvram_get A h) \<and>
          (\<forall>k v. nvram_get A h' k = Some v \<longrightarrow> nvram_get A h k = Some v \<or> sdram k = Some v)) \<and>
      take (nv_offset h) (mmap h') = take (nv_offset h) (mmap h) \<and> nv_offset h' = nv_offset h \<and>
      nh_magic (nvram_header_of A h') = NVRAM_MAGIC \<and>
      unat (nh_len (nvram_header_of A h')) \<le> psize - nv_offset h"
proof -
  have inv: "nv_inv A h" using assms by (simp add: nv_wf_def)
  from nvram_commit_total [OF assms] obtain h' where h': "nvram_commit A psize h = Some h'" ..
  note c = nvram_commit_facts [OF assms h']
  have "nh_magic (nvram_header_of A h') = NVRAM_MAGIC" "unat (nh_len (nvram_header_of A h')) \<le> psize - nv_offset h"
    using nv_len_bound [OF assms] by (simp_all add: c(8) commit_header_magic)
  moreover have "nv_fits psize h \<Longrightarrow> map_of (map binding (nv_kept psize h)) = nvram_get A h"
    by (simp add: nv_kept_fits map_of_concat [OF inv] del: map_concat)
  moreover have "nvram_get A h k = Some v \<or> map_of (sdram_defaults (nvram_header_of A h')) k = Some v"
    if "nvram_get A h' k = Some v" for k v
    using that nv_kept_map(1) [OF inv, of psize] unfolding c(7) by (auto simp: map_add_Some_iff map_le_def dom_def)
  ultimately show ?thesis using h' c(1,3,5,7) by (intro exI [of _ h']) (simp add: Let_def)
qed

theorem nvram_commit_roundtrip_witness:
  "\<exists>h'. nvram_commit mips_le 64 (empty_handle 64) = Some h' \<and>
     nvram_get mips_le h' = map_of (sdram_defaults (nvram_header_of mips_le h'))"
proof -
  have "nvram_get mips_le (empty_handle 64) = Map.empty"
    by (auto simp: nvram_get_def empty_handle_def)
  moreover have "nv_fits 64 (empty_handle 64)" by (simp add: nv_fits_def empty_handle_def)
  ultimately show ?thesis
    using nvram_commit_roundtrip [OF empty_handle_wf [of 64 mips_le]] by (auto simp: Let_def)
qed

text \<open>C3. Every handle a program can hold after opening a partition of at least 32 KiB, and any sequence of
  sets, unsets and commits, is well formed; so the next commit on it succeeds.\<close>

theorem nvram_reachable_wf:
  assumes "part_ok A psize addr mem" "nv_reach A psize addr mem h"
  shows "nv_wf A psize h \<and> first_magic A (mmap h) (nv_offset h) \<and> nvram_commit A psize h \<noteq> None"
proof -
  from assms(2) have "nv_wf A psize h \<and> first_magic A (mmap h) (nv_offset h)"
  proof induction
    case (opened rdonly h)
    then show ?case using nvram_opened_wf [OF assms(1)] by auto
  next
    case (commit h h')
    then show ?case using nvram_commit_facts(1,3) [of A psize h h'] first_magic_commit [of A h psize h'] by simp
  qed (auto simp: nvram_set_wf nvram_unset_wf nvram_set_frame nvram_unset_frame)
  then show ?thesis using nvram_commit_total [of A psize h] by auto
qed

theorem nvram_reachable_wf_witness:
  "\<exists>h. nv_reach mips_le NVRAM_MIN_SPACE 0 (blank_part mips_le) h \<and>
     nvram_commit mips_le NVRAM_MIN_SPACE (snd (nvram_set mips_le h (lit ''a'') (lit ''b''))) \<noteq> None"
proof -
  obtain h where h: "part_ok mips_le NVRAM_MIN_SPACE 0 (blank_part mips_le)"
    "nvram_open mips_le NVRAM_MIN_SPACE 0 (blank_part mips_le) False = Some (Some h)"
    by (rule blank_part_open [of mips_le False]) (simp add: mips_le_def)
  then have r: "nv_reach mips_le NVRAM_MIN_SPACE 0 (blank_part mips_le) h" by (intro nv_reach.opened)
  then have "nv_reach mips_le NVRAM_MIN_SPACE 0 (blank_part mips_le) (snd (nvram_set mips_le h (lit ''a'') (lit ''b'')))"
    by (rule nv_reach.set) (simp add: tuple_ok_def lit_def)
  with r show ?thesis using nvram_reachable_wf [OF h(1)] by blast
qed

text \<open>C4. What was committed can be opened again and gives the same variables: for reading always, for writing
  unless the data fills the partition to its last byte.\<close>

theorem nvram_reopen:
  assumes "nv_wf A psize h" "first_magic A (mmap h) (nv_offset h)" "nvram_commit A psize h = Some h'"
    "NVRAM_MIN_SPACE \<le> psize" "psize < 2 ^ ulong_bits A" "nv_offset h \<le> psize - NVRAM_MIN_SPACE"
  shows "nvram_open A psize (mmap_addr h) (nvram_close h') rdonly =
    Some (if rdonly \<or> nv_len psize h < psize - nv_offset h then Some h' else None)"
  using assms by (rule nvram_reopen_eq)

theorem nvram_reopen_witness:
  "\<exists>h h'. nvram_open mips_le NVRAM_MIN_SPACE 0 (blank_part mips_le) False = Some (Some h) \<and>
     nvram_commit mips_le NVRAM_MIN_SPACE h = Some h' \<and>
     nvram_open mips_le NVRAM_MIN_SPACE 0 (nvram_close h') True = Some (Some h')"
proof -
  obtain h where h: "part_ok mips_le NVRAM_MIN_SPACE 0 (blank_part mips_le)"
    "nvram_open mips_le NVRAM_MIN_SPACE 0 (blank_part mips_le) False = Some (Some h)"
    by (rule blank_part_open [of mips_le False]) (simp add: mips_le_def)
  note w = nvram_opened_wf [OF h]
  obtain h' where h': "nvram_commit mips_le NVRAM_MIN_SPACE h = Some h'"
    using nvram_commit_total [OF w(1)] ..
  have "4 dvd nv_offset h" using w(2) by (simp add: first_magic_def)
  then have "nv_offset h \<le> NVRAM_MIN_SPACE - NVRAM_MIN_SPACE" using w(3) by (auto elim!: dvdE)
  then have "nvram_open mips_le NVRAM_MIN_SPACE 0 (nvram_close h') True = Some (Some h')"
    using nvram_reopen [OF w(1) _ h', of True] w h(1) by (simp add: part_ok_def)
  then show ?thesis using h(2) h' by blast
qed

end
