(* ===== verification/NvramCli.thy ===== *)
theory NvramCli
  imports Nvram
begin

text \<open>
  The \<open>nvram\<close> command, \<^verbatim>\<open>package/utils/nvram/src/cli.c\<close>, and the staging file of the library
  (\<open>nvram_find_staging\<close>, \<open>nvram_to_staging\<close>, \<open>staging_to_nvram\<close> in \<^verbatim>\<open>nvram.c\<close>). The system is the content
  of the flash partition labelled nvram, if \<open>/proc/mtd\<close> lists one, and of \<open>/tmp/.nvram\<close>, if it exists.
  What is printed is a list of records; \<open>addr\<close> is where \<open>mmap\<close> puts a mapping.
\<close>

section \<open>The system\<close>

record nv_sys =
  mtd_part :: "bytes option"
  staging :: "bytes option"

text \<open>\<open>nvram_find_mtd\<close>: the device, and its size in \<open>nvram_part_size\<close>.\<close>

definition part_size :: "nv_sys \<Rightarrow> nat" where
  "part_size S = (case mtd_part S of None \<Rightarrow> 0 | Some m \<Rightarrow> length m)"

text \<open>The staging file is opened without \<open>O_TRUNC\<close>.\<close>

definition nvram_to_staging :: "nv_sys \<Rightarrow> int \<times> nv_sys" where
  "nvram_to_staging S =
     (case mtd_part S of
        Some m \<Rightarrow>
          if part_size S > 0
          then (0, S\<lparr>staging := Some (m @ drop (length m) (case staging S of None \<Rightarrow> [] | Some b \<Rightarrow> b))\<rparr>)
          else (-1, S)
      | None \<Rightarrow> (-1, S))"

definition staging_to_nvram :: "nv_sys \<Rightarrow> int \<times> nv_sys" where
  "staging_to_nvram S =
     (if mtd_part S \<noteq> None \<and> part_size S > 0
      then case staging S of
          Some b \<Rightarrow> if length b \<ge> part_size S
                    then (0, S\<lparr>mtd_part := Some (take (part_size S) b), staging := None\<rparr>)
                    else (-1, S)
        | None \<Rightarrow> (-1, S)
      else (-1, S))"

section \<open>Commands\<close>

datatype printed =
    Show bytes bytes
  | Val bytes
  | Info nvram_header nat byte nat nat

text \<open>A handle of the command line, or no handle: \<open>nvram_open\<close> needs the partition size, which it takes
  from \<open>/proc/mtd\<close>, also when it opens the staging file. It maps that many bytes of the file.\<close>

definition open_file :: "abi \<Rightarrow> int \<Rightarrow> nv_sys \<Rightarrow> bytes \<Rightarrow> bool \<Rightarrow> nvram_handle option option" where
  "open_file A addr S file rdonly =
     (if part_size S = 0 then Some None
      else nvram_open A (part_size S) addr (take (part_size S) file) rdonly)"

definition nvram_open_rdonly :: "abi \<Rightarrow> int \<Rightarrow> nv_sys \<Rightarrow> nvram_handle option option" where
  "nvram_open_rdonly A addr S =
     (case staging S of
        Some b \<Rightarrow> open_file A addr S b True
      | None \<Rightarrow> (case mtd_part S of Some m \<Rightarrow> open_file A addr S m True | None \<Rightarrow> Some None))"

definition nvram_open_staging :: "abi \<Rightarrow> int \<Rightarrow> nv_sys \<Rightarrow> (nvram_handle option \<times> nv_sys) option" where
  "nvram_open_staging A addr S =
     (let (r, S') = (if staging S \<noteq> None then (0, S) else nvram_to_staging S)
      in if r = 0
         then case staging S' of
             Some b \<Rightarrow> map_option (\<lambda>h. (h, S')) (open_file A addr S' b False)
           | None \<Rightarrow> Some (None, S')
         else Some (None, S'))"

definition do_show :: "nvram_handle \<Rightarrow> int \<times> printed list" where
  "do_show h =
     (case nvram_getall h of
        [] \<Rightarrow> (1, [])
      | ts \<Rightarrow> (0, map (\<lambda>t. Show (t_name t) (t_value t)) ts))"

definition do_get :: "abi \<Rightarrow> nvram_handle \<Rightarrow> bytes \<Rightarrow> int \<times> printed list" where
  "do_get A h var = (case nvram_get A h var of None \<Rightarrow> (1, []) | Some v \<Rightarrow> (0, [Val v]))"

definition do_unset :: "abi \<Rightarrow> nvram_handle \<Rightarrow> bytes \<Rightarrow> int \<times> nvram_handle" where
  "do_unset A h var = nvram_unset A h var"

definition do_set :: "abi \<Rightarrow> nvram_handle \<Rightarrow> bytes \<Rightarrow> int \<times> nvram_handle" where
  "do_set A h pair =
     (if 61 \<in> set pair then nvram_set A h (name_of pair) (value_of pair) else (1, h))"

text \<open>The CRC that \<open>info\<close> recomputes, and its report: the header, the offset, the CRC, the bytes used
  and available. It runs over \<open>hdr->len - 9\<close> bytes from the ninth on; past the mapping it is \<open>None\<close>.\<close>

definition info_crc :: "abi \<Rightarrow> nvram_handle \<Rightarrow> byte option" where
  "info_crc A h =
     (let n = unat (nh_len (nvram_header_of A h) - 9); start = nv_offset h + NVRAM_CRC_START_POSITION
      in if start + n > length (mmap h) then None
         else Some (hndcrc8 (slice start n (mmap h)) 0xff))"

definition do_info :: "abi \<Rightarrow> nvram_handle \<Rightarrow> (int \<times> printed list) option" where
  "do_info A h =
     (let hdr = nvram_header_of A h
      in map_option (\<lambda>crc. (0, [Info hdr (nv_offset h) crc (unat (nh_len hdr))
           (unat (of_nat (nv_length h - nv_offset h) - nh_len hdr))])) (info_crc A h))"

section \<open>The command line\<close>

record cli =
  c_handle :: nvram_handle
  c_stat :: int
  c_done :: nat
  c_commit :: bool
  c_out :: "printed list"

text \<open>The loop over the arguments after the program name.\<close>

fun cli_args :: "abi \<Rightarrow> cli \<Rightarrow> bytes list \<Rightarrow> cli option" where
  "cli_args A c [] = Some c"
| "cli_args A c (a # rest) =
     (if a = lit ''show'' then
        (let (r, out) = do_show (c_handle c)
         in cli_args A (c\<lparr>c_stat := r, c_out := c_out c @ out, c_done := c_done c + 1\<rparr>) rest)
      else if a = lit ''info'' then
        (case do_info A (c_handle c) of
           None \<Rightarrow> None
         | Some (r, out) \<Rightarrow>
             cli_args A (c\<lparr>c_stat := r, c_out := c_out c @ out, c_done := c_done c + 1\<rparr>) rest)
      else if a = lit ''get'' \<or> a = lit ''unset'' \<or> a = lit ''set'' then
        (case rest of
           [] \<Rightarrow> Some (c\<lparr>c_done := 0\<rparr>)
         | b # rest' \<Rightarrow>
             if a = lit ''get'' then
               (let (r, out) = do_get A (c_handle c) b
                in cli_args A (c\<lparr>c_stat := r, c_out := c_out c @ out, c_done := c_done c + 1\<rparr>) rest')
             else if a = lit ''unset'' then
               (let (r, h) = do_unset A (c_handle c) b
                in cli_args A (c\<lparr>c_stat := r, c_handle := h, c_done := c_done c + 1\<rparr>) rest')
             else
               (let (r, h) = do_set A (c_handle c) b
                in cli_args A (c\<lparr>c_stat := r, c_handle := h, c_done := c_done c + 1\<rparr>) rest'))
      else if a = lit ''commit'' then
        cli_args A (c\<lparr>c_commit := True, c_done := c_done c + 1\<rparr>) rest
      else Some (c\<lparr>c_done := 0\<rparr>))"

definition wants_write :: "bytes list \<Rightarrow> bool" where
  "wants_write args =
     (case args of
        [] \<Rightarrow> False
      | a # rest \<Rightarrow> (a = lit ''set'' \<and> rest \<noteq> []) \<or> (a = lit ''unset'' \<and> rest \<noteq> []) \<or> a = lit ''commit'')"

text \<open>A handle opened for writing is a shared mapping of the staging file: the file holds what the mapping
  held, and what it had past the mapping. A handle opened for reading is a private mapping.\<close>

definition staging_written :: "nv_sys \<Rightarrow> nvram_handle \<Rightarrow> nv_sys" where
  "staging_written S h =
     S\<lparr>staging := map_option (\<lambda>b. nvram_close h @ drop (part_size S) b) (staging S)\<rparr>"

text \<open>\<open>main\<close>: the exit status, what was printed, and the system afterwards.\<close>

definition nvram_main :: "abi \<Rightarrow> int \<Rightarrow> nv_sys \<Rightarrow> bytes list \<Rightarrow> (int \<times> printed list \<times> nv_sys) option" where
  "nvram_main A addr S args =
     (if args = [] then Some (1, [], S)
      else let w = wants_write args
           in case (if w then nvram_open_staging A addr S
                    else map_option (\<lambda>h. (h, S)) (nvram_open_rdonly A addr S)) of
             None \<Rightarrow> None
           | Some (None, S1) \<Rightarrow> Some (1, [], S1)
           | Some (Some h, S1) \<Rightarrow>
               (case cli_args A \<lparr>c_handle = h, c_stat = 1, c_done = 0, c_commit = False, c_out = []\<rparr> args of
                  None \<Rightarrow> None
                | Some c \<Rightarrow>
                    (case (if w then nvram_commit A (part_size S1) (c_handle c) else Some (c_handle c)) of
                       None \<Rightarrow> None
                     | Some h' \<Rightarrow>
                         let stat1 = (if w then 0 else c_stat c);
                             S2 = (if w then staging_written S1 h' else S1);
                             (stat2, S3) = (if c_commit c then staging_to_nvram S2 else (stat1, S2))
                         in Some (if c_done c = 0 then 1 else stat2, c_out c, S3))))"

section \<open>The recomputed CRC\<close>

lemma low_byte_clear: "(ucast (push_bit 8 a OR push_bit 16 b :: u32) :: byte) = 0"
  by (rule bit_word_eqI) (simp add: bit_simps)

lemma commit_header_low: "(ucast (crc_ver_init (commit_header A h)) :: byte) = 0"
  by (simp add: commit_header_def Let_def low_byte_clear del: push_bit_and split: option.split)

lemma stored_crc: "(ucast (crc_ver_init (commit_header A h) OR ucast crc) :: byte) = crc"
proof (rule bit_word_eqI)
  fix n assume "n < LENGTH(8)"
  moreover have "bit (ucast (crc_ver_init (commit_header A h)) :: byte) n = False"
    by (simp add: commit_header_low)
  ultimately show "bit (ucast (crc_ver_init (commit_header A h) OR ucast crc) :: byte) n = bit crc n"
    by (simp add: bit_simps)
qed

text \<open>The part of the header that the CRC covers: the lowest byte of \<open>crc_ver_init\<close>, where the CRC goes, is
  outside it on a little endian machine and inside it on a big endian one.\<close>

lemma header_tail:
  "drop NVRAM_CRC_START_POSITION (header_enc A hdr) =
     drop 1 (native32_enc A (crc_ver_init hdr)) @ native32_enc A (config_refresh hdr) @ native32_enc A (config_ncdl hdr)"
  by (simp add: header_enc_def NVRAM_CRC_START_POSITION_def)

lemma drop_byte_le: "drop 1 (le32_enc (w OR ucast (c :: byte))) = drop 1 (le32_enc w)"
proof -
  have "drop_bit k (w OR ucast c) = drop_bit k w" if "8 \<le> k" for k
    using that by (intro bit_word_eqI) (auto simp: bit_simps dest: bit_imp_le_length)
  then show ?thesis by (simp add: le32_enc_def)
qed

lemma drop_byte_be:
  "drop (Suc 0) (be32_enc w) = [ucast (drop_bit 16 w), ucast (drop_bit 8 w), ucast w]"
  by (simp add: be32_enc_def le32_enc_def)

lemma info_crc_commit:
  assumes wf: "nv_wf A psize h" and com: "nvram_commit A psize h = Some h'"
  shows "info_crc A h' = Some (hndcrc8 (slice (nv_offset h + 20) (nv_len psize h - 20) (mmap h'))
     (hndcrc8 (drop NVRAM_CRC_START_POSITION (header_enc A (nvram_header_of A h'))) 0xff))"
proof -
  note c = nvram_commit_facts [OF wf com] and n = nv_len_bound [OF wf]
  let ?o = "nv_offset h" and ?n = "nv_len psize h" and ?m = "mmap h'"
  have "(9 :: u32) \<le> of_nat ?n" using n by (simp add: word_le_nat_alt)
  then have len: "unat (nh_len (nvram_header_of A h') - 9) = ?n - 9"
    using n by (simp add: c(8) unat_sub)
  have "slice (?o + 9) 11 ?m = slice 9 11 (slice ?o 20 ?m)" by (simp add: slice_slice)
  also have "\<dots> = drop NVRAM_CRC_START_POSITION (header_enc A (nvram_header_of A h'))"
    unfolding c(9) by (simp add: slice_def NVRAM_CRC_START_POSITION_def)
  finally have "slice (?o + 9) (?n - 9) ?m =
      drop NVRAM_CRC_START_POSITION (header_enc A (nvram_header_of A h')) @ slice (?o + 20) (?n - 20) ?m"
    using n(2) slice_split [of 11 "?n - 9" "?o + 9" ?m] by (simp add: add.assoc)
  moreover have "?o + ?n \<le> length ?m" using n(1) c(2) wf unfolding nv_wf_def by linarith
  ultimately show ?thesis using n(2)
    by (simp add: info_crc_def len c(3) NVRAM_CRC_START_POSITION_def crc8_stream.upd_append)
qed

section \<open>The command line end to end\<close>

text \<open>Two tables with the same variables take the same space.\<close>

lemma ser_length_bindings: "length (ser ts) = (\<Sum>(k, v) \<leftarrow> map binding ts. length k + length v + 2)"
  by (induction ts) auto

lemma bindings_length:
  assumes "map_of (map binding ts) = map_of (map binding us)" "distinct (map t_name ts)" "distinct (map t_name us)"
  shows "length (ser ts) = length (ser us)"
proof -
  have d: "distinct (map fst (map binding xs))" if "distinct (map t_name xs)" for xs
    using that by (simp add: comp_def)
  have "set (map binding ts) = set (map binding us)"
    using assms map_of_inject_set [OF d d] by blast
  then show ?thesis using d [OF assms(2)] d [OF assms(3)]
    by (simp add: ser_length_bindings sum_list_distinct_conv_sum_set distinct_map del: set_map map_map)
qed

lemma same_vars_length:
  "nv_inv A h \<Longrightarrow> nv_inv A g \<Longrightarrow> nvram_get A h = nvram_get A g \<Longrightarrow>
   length (ser (concat (nvram_hash h))) = length (ser (concat (nvram_hash g)))"
  by (intro bindings_length) (simp_all only: distinct_concat_names map_of_concat)

lemma ser_concat_update:
  "i < length tss \<Longrightarrow> length (ser (concat (tss[i := ts]))) + length (ser (tss ! i)) =
     length (ser (concat tss)) + length (ser ts)"
  by (induction tss arbitrary: i) (auto simp: nth_Cons' split: nat.split)

lemma set_chain_length: "length (ser (set_chain k v ts)) \<le> length (ser ts) + length k + length v + 2"
proof (cases "dropWhile (\<lambda>t. t_name t \<noteq> k) ts")
  case (Cons t post)
  then obtain pre where "takeWhile (\<lambda>t. t_name t \<noteq> k) ts = pre" "ts = pre @ t # post" by (rule chain_split)
  with Cons show ?thesis by (simp add: set_chain_def)
qed (simp add: set_chain_def)

lemma nvram_set_length:
  assumes "nv_inv A h" "nv_room h v"
  shows "length (ser (concat (nvram_hash (snd (nvram_set A h k v))))) \<le>
     length (ser (concat (nvram_hash h))) + length k + length v + 2"
proof -
  let ?i = "hash_index A k"
  have "?i < length (nvram_hash h)" using assms(1) by (simp add: nv_inv_def)
  from ser_concat_update [OF this, of "set_chain k v (nvram_hash h ! ?i)"]
  show ?thesis using set_chain_length [of k v "nvram_hash h ! ?i"] by (simp add: nvram_set_eq assms(2))
qed

text \<open>A table that was read from a partition has the SDRAM variables.\<close>

definition sdram_names :: "bytes set" where
  "sdram_names = {lit ''sdram_init'', lit ''sdram_config'', lit ''sdram_refresh'', lit ''sdram_ncdl''}"

lemma dom_sdram_defaults: "dom (map_of (sdram_defaults hdr)) = sdram_names"
  by (auto simp: dom_map_of_conv_image_fst sdram_defaults_def sdram_names_def)

lemma rehash_sdram:
  assumes "nvram_rehash A h = Some h'" "nv_room h (replicate 10 0)"
  shows "sdram_names \<subseteq> dom (nvram_get A h')"
proof -
  let ?d = "sdram_defaults (nvram_header_of A h)"
  from assms(1) obtain h1 where h1: "rehash_loop A (nvram_free h) (drop (nv_offset h + 20) (mmap h)) = Some h1"
    and h': "h' = set_defaults A ?d h1" by (auto simp: nvram_rehash_defaults)
  have "tuples_ok (nvram_free h)" by (auto simp: tuples_ok_def nvram_free_def)
  then have "nv_inv A h1" "nv_room h1 = nv_room (nvram_free h)"
    using rehash_loop_tuples [OF h1] by (simp_all add: nvram_free_store(1) nv_room_def fun_eq_iff)
  then have "nvram_get A h' = map_of ?d ++ nvram_get A h1"
    using set_defaults_store [of A h1 ?d] sdram_defaults_room [of h1] assms(2)
    by (simp add: h' nvram_free_store(2))
  then show ?thesis using dom_sdram_defaults by auto
qed

lemma map_add_absorb: "dom f \<subseteq> dom g \<Longrightarrow> f ++ g = g"
  by (auto simp: map_add_def fun_eq_iff split: option.splits)

text \<open>A handle with room to spare: committing keeps its variables, and they can be opened for writing again.\<close>

definition spare :: "nat \<Rightarrow> nvram_handle \<Rightarrow> bool" where
  "spare psize h \<longleftrightarrow> nv_offset h + 26 + length (ser (concat (nvram_hash h))) \<le> psize"

lemma spare_fits: "spare psize h \<Longrightarrow> nv_fits psize h"
  by (simp add: spare_def nv_fits_def)

lemma spare_len: "spare psize h \<Longrightarrow> nv_len psize h < psize - nv_offset h"
  using roundup_4(1) [of "22 + length (ser (concat (nvram_hash h)))"]
  by (simp add: nv_len_def nv_kept_fits spare_fits) (simp add: spare_def)

lemma commit_spare:
  assumes wf: "nv_wf A psize h" and sp: "spare psize h" and sdram: "sdram_names \<subseteq> dom (nvram_get A h)"
    and com: "nvram_commit A psize h = Some h'"
  shows "nvram_get A h' = nvram_get A h" "spare psize h'"
proof -
  note c = nvram_commit_facts [OF wf com]
  have inv: "nv_inv A h" "nv_inv A h'" using wf c(1) by (simp_all add: nv_wf_def)
  have "map_of (map binding (nv_kept psize h)) = nvram_get A h"
    by (simp add: nv_kept_fits [OF spare_fits [OF sp]] map_of_concat [OF inv(1)] del: map_concat)
  then show get: "nvram_get A h' = nvram_get A h"
    unfolding c(7) using sdram by (simp add: map_add_absorb dom_sdram_defaults)
  then show "spare psize h'" using sp same_vars_length [OF inv(2,1)] by (simp add: spare_def c(3))
qed

text \<open>One run of the command for each of the three uses.\<close>

lemmas main_simps = nvram_main_def wants_write_def nvram_open_staging_def nvram_open_rdonly_def open_file_def
  part_size_def nvram_to_staging_def staging_to_nvram_def staging_written_def lit_def Let_def

lemma nvram_main_set:
  assumes "mtd_part S = Some m" "staging S = None" "m \<noteq> []" "61 \<notin> set k"
    "nvram_open A (length m) addr m False = Some (Some h)"
    "nvram_commit A (length m) (snd (nvram_set A h k v)) = Some h'"
  shows "nvram_main A addr S [lit ''set'', k @ 61 # v] = Some (0, [], S\<lparr>staging := Some (nvram_close h')\<rparr>)"
  using assms by (cases "nvram_set A h k v") (simp add: main_simps do_set_def name_value_of)

lemma nvram_main_get:
  assumes "mtd_part S = Some m" "m \<noteq> []"
    "b = (case staging S of None \<Rightarrow> m | Some s \<Rightarrow> s)" "length b = length m"
    "nvram_open A (length m) addr b True = Some (Some h)" "nvram_get A h k = Some v"
  shows "nvram_main A addr S [lit ''get'', k] = Some (0, [Val v], S)"
  using assms by (cases "staging S") (simp_all add: main_simps do_get_def)

lemma nvram_main_commit:
  assumes "mtd_part S = Some m" "m \<noteq> []" "staging S = Some b" "length b = length m"
    "nvram_open A (length m) addr b False = Some (Some h)" "nvram_commit A (length m) h = Some h'"
    "length (mmap h') = length m"
  shows "nvram_main A addr S [lit ''commit''] = Some (0, [], S\<lparr>mtd_part := Some (nvram_close h'), staging := None\<rparr>)"
  using assms by (simp add: main_simps nvram_close_def nvram_free_def)

lemma opened_offset:
  assumes "part_ok A psize addr mem" "nvram_open A psize addr mem rd = Some (Some h)"
  shows "nv_offset h \<le> psize - NVRAM_MIN_SPACE"
proof -
  obtain a b where "nv_offset h = 4 * a" "psize = 4 * b" "nv_offset h + 0x8000 \<le> psize + 3"
    using nvram_opened_wf(1,3) [OF assms] by (auto simp: nv_wf_def NVRAM_MIN_SPACE_def elim!: dvdE)
  then show ?thesis unfolding NVRAM_MIN_SPACE_def by presburger
qed

lemma opened_sdram:
  assumes "part_ok A psize addr mem" "nvram_open A psize addr mem rd = Some (Some h)"
  shows "sdram_names \<subseteq> dom (nvram_get A h)"
proof -
  from assms(2) obtain off where r: "nvram_rehash A \<lparr>mmap = mem, mmap_addr = addr, nv_length = psize, nv_offset = off,
      nvram_hash = replicate 257 [], nvram_dead = []\<rparr> = Some h" (is "nvram_rehash A ?g = _")
    by (auto simp: nvram_open_def Let_def split: option.splits if_splits)
  then have "nv_offset h = off" by (simp add: nvram_rehash_frame)
  then have "nv_room ?g (replicate 10 0)"
    using opened_offset [OF assms] assms(1) unfolding part_ok_def NVRAM_MIN_SPACE_def
    by (simp add: nv_room_def) linarith
  with r show ?thesis by (rule rehash_sdram)
qed

text \<open>Committing a handle with room to spare and opening the partition again, for reading or for writing.\<close>

lemma reopen_spare:
  assumes "nv_wf A psize h" "first_magic A (mmap h) (nv_offset h)" "nvram_commit A psize h = Some h'"
    "part_ok A psize addr mem" "mmap_addr h = addr" "nv_offset h \<le> psize - NVRAM_MIN_SPACE" "spare psize h"
  shows "nvram_open A psize addr (nvram_close h') rdonly = Some (Some h')"
  using nvram_reopen_eq [OF assms(1-3), of rdonly] assms(4-7) spare_len by (simp add: part_ok_def)

section \<open>Properties\<close>

text \<open>The CRC that \<open>nvram info\<close> recomputes over a committed partition is the stored one on every little endian
  machine. On a big endian machine the stored CRC is itself part of what \<open>info\<close> checks, and the two agree
  only if it is 0.\<close>

theorem nvram_info_crc:
  assumes "nv_wf A psize h"
  shows "\<exists>h' c. nvram_commit A psize h = Some h' \<and> info_crc A h' = Some c \<and>
      (let stored = ucast (crc_ver_init (nvram_header_of A h'))
       in c = stored \<longleftrightarrow> \<not> big_endian A \<or> stored = (0 :: byte))"
proof -
  from nvram_commit_total [OF assms] obtain h' where com: "nvram_commit A psize h = Some h'" ..
  note c = nvram_commit_facts [OF assms com]
  let ?hdr = "commit_header A h" and ?d = "slice (nv_offset h + 20) (nv_len psize h - 20) (mmap h')"
  define crc where "crc = commit_crc A ?hdr ?d"
  have hdr: "nvram_header_of A h' = ?hdr\<lparr>nh_len := of_nat (nv_len psize h),
      crc_ver_init := crc_ver_init ?hdr OR ucast crc\<rparr>" using c(8) by (simp add: crc_def)
  let ?r = "native32_enc A (config_refresh ?hdr) @ native32_enc A (config_ncdl ?hdr)"
  let ?c = "crc_ref 0xab 0xff (drop 1 (native32_enc A (crc_ver_init ?hdr OR ucast crc)) @ ?r @ ?d)"
  have i: "info_crc A h' = Some ?c"
    by (simp add: info_crc_commit [OF assms com] header_tail hdr hndcrc8_ref crc_ref_def)
  have s: "(ucast (crc_ver_init (nvram_header_of A h')) :: byte) = crc" by (simp add: hdr stored_crc)
  have crc: "crc = crc_ref 0xab 0xff (drop 1 (native32_enc A (crc_ver_init ?hdr)) @ ?r @ ?d)"
    by (simp add: crc_def commit_crc_def header_tail hndcrc8_ref crc_ref_def)
  have "?c = crc \<longleftrightarrow> \<not> big_endian A \<or> crc = 0"
  proof (cases "big_endian A")
    case False
    then have "?c = crc_ref 0xab 0xff (drop 1 (native32_enc A (crc_ver_init ?hdr)) @ ?r @ ?d)"
      by (simp only: native32_enc_def drop_byte_le if_False)
    from trans [OF this crc [symmetric]] show ?thesis using False by blast
  next
    case True
    let ?p = "[ucast (drop_bit 16 (crc_ver_init ?hdr)), ucast (drop_bit 8 (crc_ver_init ?hdr))]"
    have up: "drop_bit k (crc_ver_init ?hdr OR ucast crc) = drop_bit k (crc_ver_init ?hdr)" if "8 \<le> k" for k
      using that by (intro bit_word_eqI) (auto simp: bit_simps dest: bit_imp_le_length)
    have 1: "?c = crc_ref 0xab 0xff (?p @ crc # ?r @ ?d)"
      using True by (simp add: native32_enc_def drop_byte_be stored_crc up del: drop_bit_or)
    have 2: "crc = crc_ref 0xab 0xff (?p @ 0 # ?r @ ?d)"
      by (subst crc) (simp add: native32_enc_def True drop_byte_be commit_header_low)
    have "crc = 0" if "?c = crc"
    proof (rule crc8.detects_byte)
      show "crc_ref (0xab :: byte) 0xff (?p @ crc # ?r @ ?d) = crc_ref 0xab 0xff (?p @ 0 # ?r @ ?d)"
        by (rule trans [OF that [unfolded 1] 2])
    qed
    moreover have "?c = crc" if "crc = 0" unfolding 1 using 2 that by simp
    ultimately show ?thesis using True by blast
  qed
  then show ?thesis using com i s by (auto simp: Let_def)
qed

theorem nvram_info_crc_witness:
  "\<exists>h'. nvram_commit mips_le 64 (empty_handle 64) = Some h' \<and>
     info_crc mips_le h' = Some (ucast (crc_ver_init (nvram_header_of mips_le h')))"
  using nvram_info_crc [OF empty_handle_wf [of 64 mips_le]] by (auto simp: mips_le_def Let_def)

text \<open>C27. The command from end to end: on a partition with room for the variable, \<open>nvram set k=v\<close> leaves the flash alone,
  \<open>nvram get k\<close> then prints \<open>v\<close>, \<open>nvram commit\<close> writes the flash and removes the staging file, and \<open>nvram get k\<close>
  prints \<open>v\<close> from the flash.\<close>

theorem nvram_cli_set_commit_get:
  assumes part: "part_ok A (length m) addr m" and S: "mtd_part S = Some m" "staging S = None"
    and op: "nvram_open A (length m) addr m False = Some (Some h)"
    and kv: "tuple_ok \<lparr>t_name = k, t_value = v\<rparr>"
    and room: "nv_offset h + length (ser (concat (nvram_hash h))) + length k + length v + 28 \<le> length m"
  shows "\<exists>S1 S2. nvram_main A addr S [lit ''set'', k @ 61 # v] = Some (0, [], S1) \<and> mtd_part S1 = Some m \<and>
      nvram_main A addr S1 [lit ''get'', k] = Some (0, [Val v], S1) \<and>
      nvram_main A addr S1 [lit ''commit''] = Some (0, [], S2) \<and> staging S2 = None \<and>
      nvram_main A addr S2 [lit ''get'', k] = Some (0, [Val v], S2)"
proof -
  let ?p = "length m" and ?g = "snd (nvram_set A h k v)"
  have m: "m \<noteq> []" "61 \<notin> set k" using part kv by (auto simp: part_ok_def NVRAM_MIN_SPACE_def tuple_ok_def)
  note w = nvram_opened_wf [OF part op] and off = opened_offset [OF part op]
  have inv: "nv_inv A h" using w(1) by (simp add: nv_wf_def)
  have nr: "nv_room h v" using room w(1) by (simp add: nv_room_def nv_wf_def)
  have g: "nv_wf A ?p ?g" "spare ?p ?g" "nvram_get A ?g = (nvram_get A h)(k \<mapsto> v)"
    "first_magic A (mmap ?g) (nv_offset ?g)" "mmap_addr ?g = addr" "nv_offset ?g \<le> ?p - NVRAM_MIN_SPACE"
    using nvram_set_length [OF inv nr, of k] room w off
    by (simp_all add: nvram_set_wf kv spare_def nvram_set_frame nv.get_set [OF inv nr])
  have sd: "sdram_names \<subseteq> dom (nvram_get A ?g)" using opened_sdram [OF part op] g(3) by auto
  obtain h1 where h1: "nvram_commit A ?p ?g = Some h1" using nvram_commit_total [OF g(1)] ..
  note c1 = nvram_commit_facts [OF g(1) h1] and s1 = commit_spare [OF g(1,2) sd h1]
  obtain h2 where h2: "nvram_commit A ?p h1 = Some h2" using nvram_commit_total [OF c1(1)] ..
  note c2 = nvram_commit_facts [OF c1(1) h2]
  have s2: "nvram_get A h2 = nvram_get A h1" using sd s1 by (intro commit_spare [OF c1(1) s1(2) _ h2]) simp
  have o1: "nvram_open A ?p addr (nvram_close h1) rd = Some (Some h1)" for rd
    using g by (intro reopen_spare [OF g(1) _ h1 part]) simp_all
  have "first_magic A (mmap h1) (nv_offset h1)" using first_magic_commit [OF g(4,1) h1] by (simp add: c1(3))
  then have o2: "nvram_open A ?p addr (nvram_close h2) rd = Some (Some h2)" for rd
    using g c1 by (intro reopen_spare [OF c1(1) _ h2 part _ _ s1(2)]) simp_all
  have len: "length (nvram_close h1) = ?p" "length (nvram_close h2) = ?p"
    using c1(2) c2(2) by (simp_all add: nvram_close_def nvram_free_def)
  let ?S1 = "S\<lparr>staging := Some (nvram_close h1)\<rparr>" and ?S2 = "S\<lparr>mtd_part := Some (nvram_close h2), staging := None\<rparr>"
  have "nvram_main A addr S [lit ''set'', k @ 61 # v] = Some (0, [], ?S1)"
    using S m op h1 by (intro nvram_main_set)
  moreover have "nvram_main A addr ?S1 [lit ''get'', k] = Some (0, [Val v], ?S1)"
    using S m o1 len g(3) s1(1) nvram_main_get [of ?S1 m "nvram_close h1" A addr h1 k v] by simp
  moreover have "nvram_main A addr ?S1 [lit ''commit''] = Some (0, [], ?S2)"
    using S m o1 len h2 c2(2) nvram_main_commit [of ?S1 m "nvram_close h1" A addr h1 h2] by simp
  moreover have "nvram_close h2 \<noteq> []" using len m by auto
  then have "nvram_main A addr ?S2 [lit ''get'', k] = Some (0, [Val v], ?S2)"
    using len o2 g(3) s1(1) s2 nvram_main_get [of ?S2 "nvram_close h2" "nvram_close h2" A addr h2 k v] by simp
  ultimately show ?thesis using S by (intro exI [of _ ?S1] exI [of _ ?S2]) simp
qed

theorem nvram_cli_set_commit_get_witness:
  "\<exists>S1. nvram_main mips_le 0 \<lparr>mtd_part = Some (blank_part mips_le), staging = None\<rparr> [lit ''set'', lit ''a'' @ 61 # lit ''b''] =
       Some (0, [], S1) \<and> nvram_main mips_le 0 S1 [lit ''get'', lit ''a''] = Some (0, [Val (lit ''b'')], S1)"
proof -
  let ?m = "blank_part mips_le"
  obtain h where h: "part_ok mips_le NVRAM_MIN_SPACE 0 ?m" "nvram_open mips_le NVRAM_MIN_SPACE 0 ?m False = Some (Some h)"
    "nvram_get mips_le h = map_of (sdram_defaults blank_header)" "nv_offset h = 0"
    by (rule blank_part_open [of mips_le False]) (simp add: mips_le_def)
  let ?d = "map (\<lambda>(k, v). \<lparr>t_name = k, t_value = v\<rparr>) (sdram_defaults blank_header)"
  have "nv_inv mips_le h" using nvram_opened_wf(1) [OF h(1,2)] by (simp add: nv_wf_def)
  then have "length (ser (concat (nvram_hash h))) = length (ser ?d)"
    by (intro bindings_length)
      (simp_all add: h(3) map_of_concat distinct_concat_names del: map_concat, simp_all add: sdram_defaults_def lit_def)
  also have "\<dots> \<le> 128" by (simp add: sdram_defaults_def lit_def)
  finally show ?thesis using h
    nvram_cli_set_commit_get [of mips_le ?m 0 "\<lparr>mtd_part = Some ?m, staging = None\<rparr>" h "lit ''a''" "lit ''b''"]
    by (auto simp: tuple_ok_def lit_def) (auto simp: NVRAM_MIN_SPACE_def)
qed




end
