(* ===== verification/Owipcalc.thy ===== *)
theory Owipcalc
  imports Prelude
begin

text \<open>
  The address calculator \<open>owipcalc\<close>, \<^verbatim>\<open>package/network/utils/owipcalc/src/owipcalc.c\<close>.

  A \<open>struct cidr\<close> is a record; its address is the memory image of the active member of the union, four or
  sixteen bytes in network order, and \<open>s_addr\<close> is the machine's reading of the four. The global variables and what
  was printed are the state of the calculator. \<open>inet_pton\<close> and \<open>inet_ntop\<close> are arguments. An operation has the
  value \<open>None\<close> where the program has no defined behaviour: a shift by the width of \<open>int\<close> or more, an index outside an
  address, an empty stack. \<open>int\<close> arithmetic wraps. Allocation succeeds.
\<close>

section \<open>Data\<close>

datatype af = AF_INET | AF_INET6

record cidr =
  family :: af
  pfx :: u32
  addr :: bytes

record calc =
  stack :: "cidr list"
  quiet :: bool
  printed :: bool
  out :: bytes

record inet =
  pton4 :: "bytes \<Rightarrow> bytes option"
  pton6 :: "bytes \<Rightarrow> bytes option"
  ntop4 :: "bytes \<Rightarrow> bytes option"
  ntop6 :: "bytes \<Rightarrow> bytes option"

definition s_addr :: "abi \<Rightarrow> cidr \<Rightarrow> u32" where
  "s_addr A a = native32_dec A (addr a)"

definition set_s_addr :: "abi \<Rightarrow> u32 \<Rightarrow> cidr \<Rightarrow> cidr" where
  "set_s_addr A x a = a\<lparr>addr := native32_enc A x\<rparr>"

text \<open>\<open>1 << k\<close> for a count of type \<open>uint32_t\<close>.\<close>

definition shl1 :: "u32 \<Rightarrow> u32 option" where
  "shl1 k = (if unat k < 32 then Some (push_bit (unat k) 1) else None)"

text \<open>\<open>printf("%u", n)\<close>\<close>

fun fmt_u :: "nat \<Rightarrow> bytes" where
  "fmt_u n = (if n < 10 then [of_nat (48 + n)] else fmt_u (n div 10) @ [of_nat (48 + n mod 10)])"

declare fmt_u.simps [simp del]

definition qprintf :: "bytes \<Rightarrow> calc \<Rightarrow> calc" where
  "qprintf s c = c\<lparr>out := (if quiet c then out c else out c @ s), printed := True\<rparr>"

text \<open>\<open>if (printed) qprintf(" ")\<close>\<close>

definition qsep :: "calc \<Rightarrow> calc" where
  "qsep c = (if printed c then qprintf [32] c else c)"

definition cidr_push :: "cidr \<Rightarrow> calc \<Rightarrow> calc" where
  "cidr_push a c = c\<lparr>stack := a # stack c\<rparr>"

definition cidr_pop :: "calc \<Rightarrow> bool \<times> calc" where
  "cidr_pop c = (case stack c of [] \<Rightarrow> (False, c) | _ # st \<Rightarrow> (True, c\<lparr>stack := st\<rparr>))"

text \<open>The test results: print 1 or 0 and return it.\<close>

definition verdict :: "bool \<Rightarrow> calc \<Rightarrow> bool \<times> calc" where
  "verdict b c = (b, qprintf (if b then [49] else [48]) (qsep c))"

section \<open>IPv4\<close>

text \<open>The loop that counts the bits of a netmask.\<close>

function mask_loop :: "u32 \<Rightarrow> u32 \<Rightarrow> u32" where
  "mask_loop m p = (if m = 0 then p else mask_loop (drop_bit 1 m) (p + (m AND 1)))"
  by pat_completeness auto
termination
proof (relation "measure (\<lambda>(m, p). unat m)", simp)
  fix m p :: u32 assume "m \<noteq> 0"
  then have "unat (drop_bit 1 m) < unat m"
    by (simp add: unat_drop_bit_eq drop_bit_nat_def unat_gt_0)
  then show "((drop_bit 1 m, p + (m AND 1)), m, p) \<in> measure (\<lambda>(m, p). unat m)" by simp
qed

declare mask_loop.simps [simp del]

text \<open>The part before the first slash, and the part after it if there is one.\<close>

definition split_slash :: "bytes \<Rightarrow> bytes \<times> bytes option" where
  "split_slash s =
     (takeWhile (\<lambda>c. c \<noteq> 47) s,
      if 47 \<in> set s then Some (tl (dropWhile (\<lambda>c. c \<noteq> 47) s)) else None)"

definition prefix_num :: "abi \<Rightarrow> u32 \<Rightarrow> bytes \<Rightarrow> u32 option" where
  "prefix_num A lim p =
     (let (v, n) = strtoul A 10 p; pr = of_nat v
      in if n = 0 \<or> n \<noteq> length p \<or> pr > lim then None else Some pr)"

definition cidr_parse4 :: "abi \<Rightarrow> inet \<Rightarrow> bytes \<Rightarrow> cidr option" where
  "cidr_parse4 A I s =
     (if length s \<ge> 33 then None
      else let (host, p) = split_slash s;
               opr = (case p of
                   None \<Rightarrow> Some 32
                 | Some q \<Rightarrow>
                     if 46 \<in> set q then map_option (\<lambda>m. mask_loop (native32_dec A m) 0) (pton4 I q)
                     else prefix_num A 32 q)
           in case opr of
                None \<Rightarrow> None
              | Some pr \<Rightarrow>
                  if p \<noteq> None \<and> host = [] then Some \<lparr>family = AF_INET, pfx = pr, addr = [0, 0, 0, 0]\<rparr>
                  else map_option (\<lambda>v4. \<lparr>family = AF_INET, pfx = pr, addr = v4\<rparr>) (pton4 I host))"

definition cidr_add4 :: "abi \<Rightarrow> cidr \<Rightarrow> cidr \<Rightarrow> calc \<Rightarrow> bool \<times> calc" where
  "cidr_add4 A a b c =
     (let x = htonl A (s_addr A a); y = htonl A (s_addr A b)
      in if family a \<noteq> AF_INET \<or> family b \<noteq> AF_INET then (False, cidr_push a c)
         else if x + y < x then (False, cidr_push a c)
         else (True, cidr_push (set_s_addr A (htonl A (x + y)) a) c))"

definition cidr_sub4 :: "abi \<Rightarrow> cidr \<Rightarrow> cidr \<Rightarrow> calc \<Rightarrow> bool \<times> calc" where
  "cidr_sub4 A a b c =
     (let x = htonl A (s_addr A a); y = htonl A (s_addr A b)
      in if family a \<noteq> AF_INET \<or> family b \<noteq> AF_INET then (False, cidr_push a c)
         else if x - y > x then (False, cidr_push a c)
         else (True, cidr_push (set_s_addr A (htonl A (x - y)) a) c))"

definition cidr_network4 :: "abi \<Rightarrow> cidr \<Rightarrow> calc \<Rightarrow> (bool \<times> calc) option" where
  "cidr_network4 A a c =
     (case shl1 (32 - pfx a) of
        None \<Rightarrow> None
      | Some s \<Rightarrow> Some (True, cidr_push ((set_s_addr A (s_addr A a AND htonl A (NOT (s - 1))) a)\<lparr>pfx := 32\<rparr>) c))"

definition cidr_broadcast4 :: "abi \<Rightarrow> cidr \<Rightarrow> calc \<Rightarrow> (bool \<times> calc) option" where
  "cidr_broadcast4 A a c =
     (case shl1 (32 - pfx a) of
        None \<Rightarrow> None
      | Some s \<Rightarrow> Some (True, cidr_push ((set_s_addr A (s_addr A a OR htonl A (s - 1)) a)\<lparr>pfx := 32\<rparr>) c))"

definition cidr_contains4 :: "abi \<Rightarrow> cidr \<Rightarrow> cidr \<Rightarrow> calc \<Rightarrow> (bool \<times> calc) option" where
  "cidr_contains4 A a b c =
     (case shl1 (32 - pfx a) of
        None \<Rightarrow> None
      | Some s \<Rightarrow>
          let net1 = s_addr A a AND htonl A (NOT (s - 1)); net2 = s_addr A b AND htonl A (NOT (s - 1))
          in Some (verdict (pfx b \<ge> pfx a \<and> net1 = net2) c))"

definition cidr_netmask4 :: "abi \<Rightarrow> cidr \<Rightarrow> calc \<Rightarrow> (bool \<times> calc) option" where
  "cidr_netmask4 A a c =
     (case shl1 (32 - pfx a) of
        None \<Rightarrow> None
      | Some s \<Rightarrow> Some (True, cidr_push ((set_s_addr A (htonl A (NOT (s - 1))) a)\<lparr>pfx := 32\<rparr>) c))"

definition cidr_private4 :: "abi \<Rightarrow> cidr \<Rightarrow> calc \<Rightarrow> bool \<times> calc" where
  "cidr_private4 A a c =
     (let x = htonl A (s_addr A a)
      in verdict (0x0A000000 \<le> x \<and> x \<le> 0x0AFFFFFF \<or> 0xAC100000 \<le> x \<and> x \<le> 0xAC1FFFFF \<or>
                  0xC0A80000 \<le> x \<and> x \<le> 0xC0A8FFFF) c)"

definition cidr_linklocal4 :: "abi \<Rightarrow> cidr \<Rightarrow> calc \<Rightarrow> bool \<times> calc" where
  "cidr_linklocal4 A a c =
     (let x = htonl A (s_addr A a) in verdict (0xA9FE0000 \<le> x \<and> x \<le> 0xA9FEFFFF) c)"

definition cidr_prev4 :: "abi \<Rightarrow> cidr \<Rightarrow> cidr \<Rightarrow> calc \<Rightarrow> (bool \<times> calc) option" where
  "cidr_prev4 A a b c =
     (case shl1 (32 - pfx b) of
        None \<Rightarrow> None
      | Some s \<Rightarrow> Some (True, cidr_push ((set_s_addr A (s_addr A a - htonl A s) a)\<lparr>pfx := pfx b\<rparr>) c))"

definition cidr_next4 :: "abi \<Rightarrow> cidr \<Rightarrow> cidr \<Rightarrow> calc \<Rightarrow> (bool \<times> calc) option" where
  "cidr_next4 A a b c =
     (case shl1 (32 - pfx b) of
        None \<Rightarrow> None
      | Some s \<Rightarrow> Some (True, cidr_push ((set_s_addr A (s_addr A a + htonl A s) a)\<lparr>pfx := pfx b\<rparr>) c))"

definition cidr_6to4 :: "abi \<Rightarrow> cidr \<Rightarrow> calc \<Rightarrow> bool \<times> calc" where
  "cidr_6to4 A a c =
     (let x = s_addr A a
      in (True, cidr_push \<lparr>family = AF_INET6, pfx = 48,
           addr = [0x20, 0x02, ucast (drop_bit 24 x), ucast (drop_bit 16 x AND 0xff), ucast (drop_bit 8 x AND 0xff),
                   ucast (x AND 0xff)] @ replicate 10 0\<rparr> c))"

definition cidr_print4 :: "inet \<Rightarrow> cidr \<Rightarrow> calc \<Rightarrow> bool \<times> calc" where
  "cidr_print4 I a c =
     (if family a \<noteq> AF_INET then (False, c)
      else case ntop4 I (addr a) of
        None \<Rightarrow> (False, c)
      | Some p \<Rightarrow>
          let c1 = qprintf p (qsep c);
              c2 = (if pfx a < 32 then qprintf (47 # fmt_u (unat (pfx a))) c1 else c1)
          in (True, snd (cidr_pop c2)))"

section \<open>IPv6\<close>

definition cidr_parse6 :: "abi \<Rightarrow> inet \<Rightarrow> bytes \<Rightarrow> cidr option" where
  "cidr_parse6 A I s =
     (if length s \<ge> 51 then None
      else let (host, p) = split_slash s;
               opr = (case p of None \<Rightarrow> Some 128 | Some q \<Rightarrow> prefix_num A 128 q)
           in case opr of
                None \<Rightarrow> None
              | Some pr \<Rightarrow>
                  if p \<noteq> None \<and> host = [] then Some \<lparr>family = AF_INET6, pfx = pr, addr = replicate 16 0\<rparr>
                  else map_option (\<lambda>v6. \<lparr>family = AF_INET6, pfx = pr, addr = v6\<rparr>) (pton6 I host))"

text \<open>The loops over an address from its last byte to its first: the lists are reversed. The result is the bytes
  and the last carry.\<close>

fun add6_loop :: "bytes \<Rightarrow> bytes \<Rightarrow> nat \<Rightarrow> bytes \<times> nat" where
  "add6_loop (x # xs) (y # ys) carry =
     (let overflow = (if unat x + unat y + carry \<ge> 256 then 1 else 0);
          (rest, k) = add6_loop xs ys overflow
      in ((x + (y + of_nat carry)) # rest, k))"
| "add6_loop xs ys carry = (xs, carry)"

fun sub6_loop :: "bytes \<Rightarrow> bytes \<Rightarrow> nat \<Rightarrow> bytes \<times> nat" where
  "sub6_loop (x # xs) (y # ys) carry =
     (let underflow = (if int (unat x) - int (unat y) - int carry < 0 then 1 else 0);
          (rest, k) = sub6_loop xs ys underflow
      in ((x - (y + of_nat carry)) # rest, k))"
| "sub6_loop xs ys carry = (xs, carry)"

fun next6_loop :: "bytes \<Rightarrow> nat \<Rightarrow> bytes \<times> nat" where
  "next6_loop (x # xs) carry =
     (let overflow = (if unat x + carry \<ge> 256 then 1 else 0); (rest, k) = next6_loop xs overflow
      in ((x + of_nat carry) # rest, k))"
| "next6_loop [] carry = ([], carry)"

fun prev6_loop :: "bytes \<Rightarrow> nat \<Rightarrow> bytes \<times> nat" where
  "prev6_loop (x # xs) carry =
     (let underflow = (if int (unat x) - int carry < 0 then 1 else 0); (rest, k) = prev6_loop xs underflow
      in ((x - of_nat carry) # rest, k))"
| "prev6_loop [] carry = ([], carry)"

definition cidr_add6 :: "cidr \<Rightarrow> cidr \<Rightarrow> calc \<Rightarrow> bool \<times> calc" where
  "cidr_add6 a b c =
     (if family a \<noteq> AF_INET6 \<or> family b \<noteq> AF_INET6 then (False, cidr_push a c)
      else let (x, carry) = add6_loop (rev (addr a)) (rev (addr b)) 0
           in (carry = 0, cidr_push (a\<lparr>addr := rev x\<rparr>) c))"

definition cidr_sub6 :: "cidr \<Rightarrow> cidr \<Rightarrow> calc \<Rightarrow> bool \<times> calc" where
  "cidr_sub6 a b c =
     (if family a \<noteq> AF_INET6 \<or> family b \<noteq> AF_INET6 then (False, cidr_push a c)
      else let (x, carry) = sub6_loop (rev (addr a)) (rev (addr b)) 0
           in (carry = 0, cidr_push (a\<lparr>addr := rev x\<rparr>) c))"

text \<open>\<open>idx = (b->prefix - 1) / 8\<close>, a \<open>uint8_t\<close>; the loop runs from that byte to the first.\<close>

definition step6 :: "(bytes \<Rightarrow> nat \<Rightarrow> bytes \<times> nat) \<Rightarrow> cidr \<Rightarrow> cidr \<Rightarrow> calc \<Rightarrow> (bool \<times> calc) option" where
  "step6 loop a b c =
     (if pfx b = 0 then Some (False, cidr_push a c)
      else let idx = unat ((pfx b - 1) div 8) mod 256
           in if idx > 15 then None
              else let (x, carry) = loop (rev (take (idx + 1) (addr a))) 1;
                       n = a\<lparr>addr := rev x @ drop (idx + 1) (addr a)\<rparr>
                   in if carry \<noteq> 0 then Some (False, cidr_push n c)
                      else Some (True, cidr_push (n\<lparr>pfx := pfx b\<rparr>) c))"

definition cidr_prev6 :: "cidr \<Rightarrow> cidr \<Rightarrow> calc \<Rightarrow> (bool \<times> calc) option" where
  "cidr_prev6 a b c = step6 prev6_loop a b c"

definition cidr_next6 :: "cidr \<Rightarrow> cidr \<Rightarrow> calc \<Rightarrow> (bool \<times> calc) option" where
  "cidr_next6 a b c = step6 next6_loop a b c"

text \<open>The last \<open>i\<close> bytes are cleared, and the low bits of the byte before them. With a prefix over 128
  the loop runs off the address.\<close>

definition cidr_network6 :: "cidr \<Rightarrow> calc \<Rightarrow> (bool \<times> calc) option" where
  "cidr_network6 a c =
     (let i = unat ((128 - pfx a) div 8); k = unat ((128 - pfx a) mod 8);
          z = take (16 - i) (addr a) @ replicate i 0
      in if pfx a > 128 then None
         else Some (True, cidr_push (a\<lparr>addr :=
           (if k \<noteq> 0 then z[15 - i := z ! (15 - i) AND NOT (push_bit k 1 - 1)] else z)\<rparr>) c))"

definition cidr_contains6 :: "cidr \<Rightarrow> cidr \<Rightarrow> calc \<Rightarrow> (bool \<times> calc) option" where
  "cidr_contains6 a b c =
     (let i = unat ((128 - pfx a) div 8) mod 256; k = unat ((128 - pfx a) mod 8);
          m = NOT (push_bit k 1 - 1)
      in if i > 15 then None
         else let net1 = addr a ! (15 - i) AND m; net2 = addr b ! (15 - i) AND m
              in Some (verdict (pfx b \<ge> pfx a \<and> net1 = net2 \<and>
                     (i = 15 \<or> take (15 - i) (addr a) = take (15 - i) (addr b))) (cidr_push a c)))"

definition cidr_linklocal6 :: "cidr \<Rightarrow> calc \<Rightarrow> bool \<times> calc" where
  "cidr_linklocal6 a c = verdict (addr a ! 0 = 0xFE \<and> addr a ! 1 \<ge> 0x80 \<and> addr a ! 1 \<le> 0xBF) c"

definition cidr_ula6 :: "cidr \<Rightarrow> calc \<Rightarrow> bool \<times> calc" where
  "cidr_ula6 a c = verdict (addr a ! 0 \<ge> 0xFC \<and> addr a ! 0 \<le> 0xFD) c"

definition cidr_print6 :: "inet \<Rightarrow> cidr \<Rightarrow> calc \<Rightarrow> bool \<times> calc" where
  "cidr_print6 I a c =
     (if family a \<noteq> AF_INET6 then (False, c)
      else case ntop6 I (addr a) of
        None \<Rightarrow> (False, c)
      | Some p \<Rightarrow>
          let c1 = qprintf p (qsep c);
              c2 = (if pfx a < 128 then qprintf (47 # fmt_u (unat (pfx a))) c1 else c1)
          in (True, snd (cidr_pop c2)))"

section \<open>Arguments and operations\<close>

text \<open>The address of an amount: its bytes, least significant last.\<close>

fun sum_bytes :: "nat \<Rightarrow> u32 \<Rightarrow> bytes" where
  "sum_bytes 0 w = []"
| "sum_bytes (Suc n) w = sum_bytes n (drop_bit 8 w) @ [ucast (w mod 256)]"

text \<open>\<open>Inl 4\<close>: the program exits with status 4; \<open>Inr None\<close>: the result \<open>NULL\<close>.\<close>

definition cidr_parse :: "abi \<Rightarrow> inet \<Rightarrow> bytes \<Rightarrow> af \<Rightarrow> int + cidr option" where
  "cidr_parse A I s af_hint =
     (let (v, r) = strtoul A 0 s; amount = of_nat v
      in if r > 0 \<and> r = length s then
           Inr (Some (if af_hint = AF_INET
             then \<lparr>family = AF_INET, pfx = amount, addr = native32_enc A (htonl A amount)\<rparr>
             else \<lparr>family = AF_INET6, pfx = amount, addr = sum_bytes 16 amount\<rparr>))
         else case (if 58 \<in> set s then cidr_parse6 A I s else cidr_parse4 A I s) of
             None \<Rightarrow> Inr None
           | Some a \<Rightarrow> if family a \<noteq> af_hint then Inl 4 else Inr (Some a))"

definition cidr_howmany :: "cidr \<Rightarrow> cidr \<Rightarrow> calc \<Rightarrow> (bool \<times> calc) option" where
  "cidr_howmany a b c =
     (if pfx b < pfx a then Some (True, qprintf [48] (qsep c))
      else map_option (\<lambda>s. (True, qprintf (fmt_u (unat s)) (qsep c))) (shl1 (pfx b - pfx a)))"

text \<open>\<open>a\<close> is the top of the stack and is changed in place.\<close>

definition cidr_prefix :: "cidr \<Rightarrow> cidr \<Rightarrow> calc \<Rightarrow> bool \<times> calc" where
  "cidr_prefix a b c = (True, c\<lparr>stack := (a\<lparr>pfx := pfx b\<rparr>) # tl (stack c)\<rparr>)"

definition cidr_quiet :: "calc \<Rightarrow> bool \<times> calc" where
  "cidr_quiet c = (True, c\<lparr>quiet := True\<rparr>)"

type_synonym fn1 = "cidr \<Rightarrow> calc \<Rightarrow> (bool \<times> calc) option"
type_synonym fn2 = "cidr \<Rightarrow> cidr \<Rightarrow> calc \<Rightarrow> (bool \<times> calc) option"

record cop =
  op_name :: bytes
  f4_a1 :: "fn1 option"
  f4_a2 :: "fn2 option"
  f6_a1 :: "fn1 option"
  f6_a2 :: "fn2 option"

definition op_a1 :: "string \<Rightarrow> fn1 option \<Rightarrow> fn1 option \<Rightarrow> cop" where
  "op_a1 n f g = \<lparr>op_name = lit n, f4_a1 = f, f4_a2 = None, f6_a1 = g, f6_a2 = None\<rparr>"

definition op_a2 :: "string \<Rightarrow> fn2 option \<Rightarrow> fn2 option \<Rightarrow> cop" where
  "op_a2 n f g = \<lparr>op_name = lit n, f4_a1 = None, f4_a2 = f, f6_a1 = None, f6_a2 = g\<rparr>"

definition ops :: "abi \<Rightarrow> inet \<Rightarrow> cop list" where
  "ops A I =
     [op_a2 ''add'' (Some (\<lambda>a b c. Some (cidr_add4 A a b c))) (Some (\<lambda>a b c. Some (cidr_add6 a b c))),
      op_a2 ''sub'' (Some (\<lambda>a b c. Some (cidr_sub4 A a b c))) (Some (\<lambda>a b c. Some (cidr_sub6 a b c))),
      op_a2 ''next'' (Some (cidr_next4 A)) (Some cidr_next6),
      op_a2 ''prev'' (Some (cidr_prev4 A)) (Some cidr_prev6),
      op_a1 ''network'' (Some (cidr_network4 A)) (Some cidr_network6),
      op_a1 ''broadcast'' (Some (cidr_broadcast4 A)) None,
      op_a2 ''prefix'' (Some (\<lambda>a b c. Some (cidr_prefix a b c))) (Some (\<lambda>a b c. Some (cidr_prefix a b c))),
      op_a1 ''netmask'' (Some (cidr_netmask4 A)) None,
      op_a1 ''6to4'' (Some (\<lambda>a c. Some (cidr_6to4 A a c))) None,
      op_a2 ''howmany'' (Some cidr_howmany) (Some cidr_howmany),
      op_a2 ''contains'' (Some (cidr_contains4 A)) (Some cidr_contains6),
      op_a1 ''private'' (Some (\<lambda>a c. Some (cidr_private4 A a c))) None,
      op_a1 ''linklocal'' (Some (\<lambda>a c. Some (cidr_linklocal4 A a c))) (Some (\<lambda>a c. Some (cidr_linklocal6 a c))),
      op_a1 ''ula'' None (Some (\<lambda>a c. Some (cidr_ula6 a c))),
      op_a1 ''quiet'' (Some (\<lambda>a c. Some (cidr_quiet c))) (Some (\<lambda>a c. Some (cidr_quiet c))),
      op_a1 ''pop'' (Some (\<lambda>a c. Some (cidr_pop c))) (Some (\<lambda>a c. Some (cidr_pop c))),
      op_a1 ''print'' (Some (\<lambda>a c. Some (cidr_print4 I a c))) (Some (\<lambda>a c. Some (cidr_print6 I a c)))]"

text \<open>The result of \<open>runop\<close>: an exit of the program, or the returned flag, the status, the arguments left and the
  state. Without an operand on the stack a known operation dereferences \<open>NULL\<close>.\<close>

type_synonym run = "(int \<times> calc) + (bool \<times> int \<times> bytes list \<times> calc)"

definition run_a2 :: "abi \<Rightarrow> inet \<Rightarrow> cop \<Rightarrow> cidr \<Rightarrow> bytes list \<Rightarrow> int \<Rightarrow> calc \<Rightarrow> run option" where
  "run_a2 A I x a args status c =
     (case tl args of
        [] \<Rightarrow> Some (Inr (False, 2, args, c))
      | arg2 # rest \<Rightarrow>
          (case cidr_parse A I arg2 (family a) of
             Inl e \<Rightarrow> Some (Inl (e, c))
           | Inr None \<Rightarrow> Some (Inr (False, 3, args, c))
           | Inr (Some b) \<Rightarrow>
               (case (if family a = AF_INET then f4_a2 x else f6_a2 x) of
                  None \<Rightarrow> Some (Inr (False, 5, rest, c))
                | Some f \<Rightarrow>
                    map_option (\<lambda>(r, c'). Inr (True, if r then 0 else 1, rest, c')) (f a b c))))"

definition run_a1 :: "cop \<Rightarrow> cidr \<Rightarrow> bytes list \<Rightarrow> int \<Rightarrow> calc \<Rightarrow> run option" where
  "run_a1 x a args status c =
     (case (if family a = AF_INET then f4_a1 x else f6_a1 x) of
        None \<Rightarrow> Some (Inr (False, 5, tl args, c))
      | Some f \<Rightarrow> map_option (\<lambda>(r, c'). Inr (True, if r then 0 else 1, tl args, c')) (f a c))"

definition runop :: "abi \<Rightarrow> inet \<Rightarrow> bytes list \<Rightarrow> int \<Rightarrow> calc \<Rightarrow> run option" where
  "runop A I args status c =
     (case args of
        [] \<Rightarrow> Some (Inr (False, status, args, c))
      | arg1 # _ \<Rightarrow>
          (case List.find (\<lambda>x. op_name x = arg1) (ops A I) of
             None \<Rightarrow> Some (Inr (False, status, args, c))
           | Some x \<Rightarrow>
               (case stack c of
                  [] \<Rightarrow> if (f4_a2 x \<noteq> None \<or> f6_a2 x \<noteq> None) \<and> tl args = [] then Some (Inr (False, 2, args, c)) else None
                | a # _ \<Rightarrow>
                    if f4_a2 x \<noteq> None \<or> f6_a2 x \<noteq> None then run_a2 A I x a args status c
                    else run_a1 x a args status c)))"

lemma runop_shorter:
  "runop A I args status c = Some (Inr (True, status', args', c')) \<Longrightarrow> length args' < length args"
  by (auto simp: runop_def run_a2_def run_a1_def split: list.splits option.splits sum.splits if_splits prod.splits)

text \<open>\<open>while (runop(&arg, &status));\<close>\<close>

function run_all :: "abi \<Rightarrow> inet \<Rightarrow> bytes list \<Rightarrow> int \<Rightarrow> calc \<Rightarrow> run option" where
  "run_all A I args status c =
     (case runop A I args status c of
        Some (Inr (True, status', args', c')) \<Rightarrow> run_all A I args' status' c'
      | r \<Rightarrow> r)"
  by pat_completeness auto
termination by (relation "measure (\<lambda>(A, I, args, st, c). length args)") (auto dest: runop_shorter)

declare run_all.simps [simp del]

text \<open>\<open>main\<close>: the exit status and what was printed. The usage text goes to the error output.\<close>

definition owipcalc_main :: "abi \<Rightarrow> inet \<Rightarrow> bytes list \<Rightarrow> (int \<times> bytes) option" where
  "owipcalc_main A I argv =
     (if length argv < 2 then Some (1, [])
      else case (if 58 \<in> set (hd argv) then cidr_parse6 A I (hd argv) else cidr_parse4 A I (hd argv)) of
        None \<Rightarrow> Some (1, [])
      | Some a \<Rightarrow>
          (case run_all A I (tl argv) 0 \<lparr>stack = [a], quiet = False, printed = False, out = []\<rparr> of
             None \<Rightarrow> None
           | Some (Inl (e, c)) \<Rightarrow> Some (e, out c)
           | Some (Inr (_, status, rest, c)) \<Rightarrow>
               if rest \<noteq> [] then Some (6, out c)
               else if \<not> printed c \<and> status < 2 then
                 (case stack c of
                    [] \<Rightarrow> None
                  | t # _ \<Rightarrow>
                      Some (status, out (qprintf [10] (snd (if family t = AF_INET then cidr_print4 I t c else cidr_print6 I t c)))))
               else Some (status, out (qprintf [10] c))))"

section \<open>Byte swaps and masks\<close>

lemma bit_bswap:
  "n < 32 \<Longrightarrow> bit (bswap_32 w) n =
     bit w (if n < 8 then 24 + n else if n < 16 then 8 + n else if n < 24 then n - 8 else n - 24)"
  by (auto simp: bswap_32_def be32_enc_def le32_enc_def bit_simps not_less)

lemma bswap_and: "bswap_32 (x AND y) = bswap_32 x AND bswap_32 y"
  by (rule bit_word_eqI) (simp add: bit_bswap bit_and_iff)

lemma bswap_or: "bswap_32 (x OR y) = bswap_32 x OR bswap_32 y"
  by (rule bit_word_eqI) (simp add: bit_bswap bit_or_iff)

lemma htonl_and: "htonl A (x AND y) = htonl A x AND htonl A y"
  by (simp add: htonl_def bswap_and)

lemma htonl_or: "htonl A (x OR y) = htonl A x OR htonl A y"
  by (simp add: htonl_def bswap_or)

text \<open>The value of an IPv4 address; the calculator's view of it on every machine.\<close>

definition ip4 :: "cidr \<Rightarrow> u32" where
  "ip4 a = be32_dec (addr a)"

definition wf4 :: "cidr \<Rightarrow> bool" where
  "wf4 a \<longleftrightarrow> family a = AF_INET \<and> length (addr a) = 4"

lemma htonl_s_addr: "wf4 a \<Longrightarrow> htonl A (s_addr A a) = ip4 a"
  by (simp add: s_addr_def ip4_def wf4_def htonl_native)

lemma s_addr_htonl: "wf4 a \<Longrightarrow> s_addr A a = htonl A (ip4 a)"
  by (metis htonl_htonl htonl_s_addr)

lemma set_s_addr_htonl: "set_s_addr A (htonl A x) a = a\<lparr>addr := be32_enc x\<rparr>"
  by (simp add: set_s_addr_def native32_enc_htonl)

lemma ip4_enc [simp]: "ip4 (a\<lparr>addr := be32_enc x\<rparr>) = x"
  by (simp add: ip4_def)

lemma shl1_prefix:
  assumes "1 \<le> p" "p \<le> (32 :: u32)"
  shows "shl1 (32 - p) = Some (push_bit (32 - unat p) 1)"
proof -
  have "unat p \<le> 32" "1 \<le> unat p" using assms by (simp_all add: word_le_nat_alt)
  moreover have "unat (32 - p) = 32 - unat p" using assms(2) by (simp add: unat_sub)
  ultimately show ?thesis by (simp add: shl1_def)
qed

lemma net_mask: "NOT (push_bit k 1 - 1 :: 'a::len word) = NOT (mask k)"
  by (simp add: mask_eq_exp_minus_1 push_bit_eq_mult)

lemma unat_net: "unat (x AND NOT (mask k) :: 'a::len word) = unat x div 2 ^ k * 2 ^ k"
proof -
  have "x AND NOT (mask k) = push_bit k (drop_bit k x)"
    by (rule bit_word_eqI) (auto simp: bit_simps)
  also have "unat \<dots> = take_bit LENGTH('a) (push_bit k (drop_bit k (unat x)))"
    by (simp only: unsigned_push_bit_eq unat_drop_bit_eq)
  also have "\<dots> = (unat x div 2 ^ k * 2 ^ k) mod 2 ^ LENGTH('a)"
    by (simp add: take_bit_eq_mod push_bit_nat_def drop_bit_nat_def)
  also have "\<dots> = unat x div 2 ^ k * 2 ^ k"
    by (intro mod_less) (metis div_times_less_eq_dividend order_le_less_trans unsigned_less)
  finally show ?thesis .
qed

lemma net_eq_iff: "(x AND NOT (mask k) :: 'a::len word) = y AND NOT (mask k) \<longleftrightarrow> unat x div 2 ^ k = unat y div 2 ^ k"
proof -
  have "(x AND NOT (mask k)) = y AND NOT (mask k) \<longleftrightarrow> unat (x AND NOT (mask k)) = unat (y AND NOT (mask k))"
    by (simp only: word_unat_eq_iff)
  then show ?thesis by (simp add: unat_net)
qed

lemma unat_bcast:
  assumes "k < LENGTH('a)"
  shows "unat (x OR mask k :: 'a::len word) = unat x div 2 ^ k * 2 ^ k + (2 ^ k - 1)"
proof -
  have "x OR mask k = (x AND NOT (mask k)) OR mask k" by (rule bit_word_eqI) (auto simp: bit_simps)
  moreover have "(x AND NOT (mask k)) AND mask k = 0" by (rule bit_word_eqI) (auto simp: bit_simps)
  ultimately have s: "x OR mask k = (x AND NOT (mask k)) + mask k" by (metis disjunctive_add_eq_or)
  have m: "unat (mask k :: 'a word) = 2 ^ k - 1"
  proof -
    have "(2::nat) ^ k - 1 < 2 ^ LENGTH('a)" using assms by (simp add: less_imp_diff_less)
    moreover have "(mask k :: 'a word) = of_nat (2 ^ k - 1)" by (simp add: mask_eq_exp_minus_1 of_nat_diff)
    ultimately show ?thesis by (simp only: unat_of_nat mod_less)
  qed
  have "unat x div 2 ^ k * 2 ^ k + (2 ^ k - 1) < 2 ^ LENGTH('a)"
  proof -
    have "unat x div 2 ^ k < 2 ^ (LENGTH('a) - k)"
      using unsigned_less [of x, where ?'a = nat] assms by (simp add: less_mult_imp_div_less flip: power_add)
    then have "Suc (unat x div 2 ^ k) * 2 ^ k \<le> 2 ^ (LENGTH('a) - k) * 2 ^ k" by (intro mult_le_mono1) simp
    also have "\<dots> = 2 ^ LENGTH('a)" using assms by (simp flip: power_add)
    finally have "unat x div 2 ^ k * 2 ^ k + 2 ^ k \<le> 2 ^ LENGTH('a)" by simp
    moreover have "0 < (2::nat) ^ k" by simp
    ultimately show ?thesis by linarith
  qed
  then show ?thesis unfolding s by (subst unat_plus_if_size) (simp add: unat_net m size_word.rep_eq)
qed

section \<open>Numbers of address bytes\<close>

lemma byte_less: "unat (x :: byte) < 256"
  using unsigned_less [of x, where ?'a = nat] by simp

text \<open>The value of an address, and of a reversed one.\<close>

fun lev :: "bytes \<Rightarrow> nat" where
  "lev [] = 0"
| "lev (x # xs) = unat x + 256 * lev xs"

definition val :: "bytes \<Rightarrow> nat" where
  "val bs = lev (rev bs)"

lemma lev_append: "lev (xs @ ys) = lev xs + 256 ^ length xs * lev ys"
  by (induction xs) (simp_all add: algebra_simps)

lemma lev_bound: "lev xs < 256 ^ length xs"
proof (induction xs)
  case (Cons x xs)
  have "unat x < 256" by (rule byte_less)
  moreover have "Suc (lev xs) \<le> 256 ^ length xs" using Cons by simp
  then have "256 * lev xs + 256 \<le> 256 * 256 ^ length xs" by simp
  ultimately show ?case by simp
qed simp

lemma lev_inj: "length xs = length ys \<Longrightarrow> lev xs = lev ys \<Longrightarrow> xs = ys"
proof (induction xs ys rule: list_induct2)
  case (Cons x xs y ys)
  have b: "unat x < 256" "unat y < 256" using byte_less [of x] byte_less [of y] by simp_all
  have "unat x = (unat x + 256 * lev xs) mod 256" using b by simp
  also have "\<dots> = (unat y + 256 * lev ys) mod 256" using Cons.prems by simp
  also have "\<dots> = unat y" using b by simp
  finally have "x = y" by (simp only: word_unat_eq_iff)
  moreover from this have "lev xs = lev ys" using Cons.prems by simp
  ultimately show ?case using Cons.IH by simp
qed simp

lemma val_append: "val (xs @ ys) = val xs * 256 ^ length ys + val ys"
  by (simp add: val_def lev_append)

lemma val_bound: "val xs < 256 ^ length xs"
  using lev_bound [of "rev xs"] by (simp add: val_def)

lemma val_inj: "length xs = length ys \<Longrightarrow> val xs = val ys \<Longrightarrow> xs = ys"
  using lev_inj [of "rev xs" "rev ys"] by (simp add: val_def)

lemma add6_step:
  assumes "carry \<le> 1"
  shows "unat (x + (y + of_nat carry) :: byte) + 256 * (if unat x + unat y + carry \<ge> 256 then 1 else 0) = unat x + unat y + carry"
proof -
  have b: "unat x < 256" "unat y < 256" using byte_less [of x] byte_less [of y] by simp_all
  have "unat (x + (y + of_nat carry)) = (unat x + unat y + carry) mod 256"
    by (simp add: unat_word_ariths unat_of_nat mod_simps ac_simps)
  then show ?thesis using b assms by (auto simp: mod_if)
qed

lemma add6_loop_val:
  "length xs = length ys \<Longrightarrow> carry \<le> 1 \<Longrightarrow> add6_loop xs ys carry = (zs, k) \<Longrightarrow>
   lev zs + 256 ^ length xs * k = lev xs + lev ys + carry \<and> k \<le> 1 \<and> length zs = length xs"
proof (induction xs ys arbitrary: carry zs rule: list_induct2)
  case (Cons x xs y ys)
  let ?o = "if unat x + unat y + carry \<ge> 256 then 1 else 0 :: nat"
  obtain r where r: "add6_loop xs ys ?o = (r, k)" and zs: "zs = (x + (y + of_nat carry)) # r"
    using Cons.prems(2) by (auto simp: Let_def split: prod.splits)
  have "lev r + 256 ^ length xs * k = lev xs + lev ys + ?o \<and> k \<le> 1 \<and> length r = length xs"
    by (rule Cons.IH [OF _ r]) simp
  then show ?case using add6_step [OF Cons.prems(1), of x y] unfolding zs by simp
qed simp

lemma sub6_step:
  assumes "carry \<le> 1"
  shows "unat (x - (y + of_nat carry) :: byte) + unat y + carry =
     unat x + 256 * (if int (unat x) - int (unat y) - int carry < 0 then 1 else 0)"
proof -
  have b: "unat x < 256" "unat y < 256" using byte_less [of x] byte_less [of y] by simp_all
  have "uint (x - (y + of_nat carry)) = (uint x - (uint y + int carry)) mod 256"
    by (simp add: uint_word_ariths unsigned_of_nat mod_simps take_bit_eq_mod of_nat_mod)
  then have "int (unat (x - (y + of_nat carry))) = (int (unat x) - (int (unat y) + int carry)) mod 256"
    by simp
  moreover define d where "d = int (unat x) - (int (unat y) + int carry)"
  moreover have "-256 \<le> d" "d < 256" using b assms unfolding d_def by linarith+
  then have "d mod 256 = (if d < 0 then d + 256 else d)"
    using mod_add_self2 [of d 256] by (auto simp: mod_pos_pos_trivial simp del: mod_add_self2)
  ultimately have "int (unat (x - (y + of_nat carry))) = (if d < 0 then d + 256 else d)" by simp
  then show ?thesis unfolding d_def by (auto simp flip: of_nat_eq_iff [where ?'a = int] split: if_splits)
qed

lemma sub6_loop_val:
  "length xs = length ys \<Longrightarrow> carry \<le> 1 \<Longrightarrow> sub6_loop xs ys carry = (zs, k) \<Longrightarrow>
   lev zs + lev ys + carry = lev xs + 256 ^ length xs * k \<and> k \<le> 1 \<and> length zs = length xs"
proof (induction xs ys arbitrary: carry zs rule: list_induct2)
  case (Cons x xs y ys)
  let ?o = "if int (unat x) - int (unat y) - int carry < 0 then 1 else 0 :: nat"
  obtain r where r: "sub6_loop xs ys ?o = (r, k)" and zs: "zs = (x - (y + of_nat carry)) # r"
    using Cons.prems(2) by (auto simp: Let_def split: prod.splits)
  have "lev r + lev ys + ?o = lev xs + 256 ^ length xs * k \<and> k \<le> 1 \<and> length r = length xs"
    by (rule Cons.IH [OF _ r]) simp
  then show ?case using sub6_step [OF Cons.prems(1), of x y] unfolding zs by simp
qed simp

text \<open>Stepping by one is adding or subtracting zero with a carry.\<close>

lemma next6_add: "next6_loop xs carry = add6_loop xs (replicate (length xs) 0) carry"
  by (induction xs arbitrary: carry) (simp_all add: Let_def)

lemma prev6_sub: "prev6_loop xs carry = sub6_loop xs (replicate (length xs) 0) carry"
  by (induction xs arbitrary: carry) (simp_all add: Let_def)

lemma lev_zeros [simp]: "lev (replicate n 0) = 0"
  by (induction n) simp_all

text \<open>An address cut after \<open>n\<close> of its bytes, as a quotient.\<close>

lemma val_div: "length bs = 16 \<Longrightarrow> i \<le> 16 \<Longrightarrow> val bs div 256 ^ i = val (take (16 - i) bs)"
proof -
  assume a: "length bs = 16" "i \<le> 16"
  have "val bs = val (take (16 - i) bs) * 256 ^ i + val (drop (16 - i) bs)"
    using val_append [of "take (16 - i) bs" "drop (16 - i) bs"] a by simp
  moreover have "val (drop (16 - i) bs) < 256 ^ i" using val_bound [of "drop (16 - i) bs"] a by simp
  ultimately show ?thesis by simp
qed

lemma mult_add_unique:
  fixes a b m r s :: nat
  assumes "r < m" "s < m" shows "a * m + r = b * m + s \<longleftrightarrow> a = b \<and> r = s"
proof -
  have "(a * m + r) div m = a" "(a * m + r) mod m = r" "(b * m + s) div m = b" "(b * m + s) mod m = s"
    using assms by simp_all
  then show ?thesis by metis
qed

lemma net_byte_iff:
  assumes "k < 8" "length xs = length ys"
  shows "val (xs @ [x]) div 2 ^ k = val (ys @ [y]) div 2 ^ k \<longleftrightarrow>
     xs = ys \<and> x AND NOT (push_bit k 1 - 1) = y AND NOT (push_bit k 1 - 1)"
proof -
  have e: "(256::nat) = 2 ^ k * 2 ^ (8 - k)" using assms(1) by (simp flip: power_add)
  have d: "val (zs @ [z]) div 2 ^ k = val zs * 2 ^ (8 - k) + unat z div 2 ^ k" "unat z div 2 ^ k < 2 ^ (8 - k)" for zs z
  proof -
    have "val (zs @ [z]) = unat z + 2 ^ k * (val zs * 2 ^ (8 - k))"
      by (simp add: val_append) (simp add: val_def e)
    then show "val (zs @ [z]) div 2 ^ k = val zs * 2 ^ (8 - k) + unat z div 2 ^ k" by simp
    show "unat z div 2 ^ k < 2 ^ (8 - k)" using byte_less [of z] e by (simp add: less_mult_imp_div_less mult.commute)
  qed
  have "val xs * 2 ^ (8 - k) + unat x div 2 ^ k = val ys * 2 ^ (8 - k) + unat y div 2 ^ k \<longleftrightarrow>
      val xs = val ys \<and> unat x div 2 ^ k = unat y div 2 ^ k"
    by (intro mult_add_unique d(2))
  moreover have "val xs = val ys \<longleftrightarrow> xs = ys" using val_inj [OF assms(2)] by auto
  ultimately show ?thesis unfolding d net_mask net_eq_iff by simp
qed

definition wf6 :: "cidr \<Rightarrow> bool" where
  "wf6 a \<longleftrightarrow> family a = AF_INET6 \<and> length (addr a) = 16"

lemma pfx6_split:
  assumes "pfx a \<le> 128"
  shows "unat ((128 - pfx a) div 8) = (128 - unat (pfx a)) div 8" "unat ((128 - pfx a) mod 8) = (128 - unat (pfx a)) mod 8"
  using assms by (simp_all add: unat_div unat_mod unat_sub)

text \<open>The prefix of an address, byte by byte.\<close>

lemma contains6_val:
  assumes "length xs = 16" "length ys = 16" "1 \<le> p" "p \<le> (128::nat)"
  defines "i \<equiv> (128 - p) div 8" and "k \<equiv> (128 - p) mod 8"
  shows "val xs div 2 ^ (128 - p) = val ys div 2 ^ (128 - p) \<longleftrightarrow>
     take (15 - i) xs = take (15 - i) ys \<and>
     xs ! (15 - i) AND NOT (push_bit k 1 - 1) = ys ! (15 - i) AND NOT (push_bit k 1 - 1)"
proof -
  have i: "i \<le> 15" "k < 8" "128 - p = 8 * i + k" using assms(3,4) by (auto simp: i_def k_def)
  have e: "(2::nat) ^ (128 - p) = 256 ^ i * 2 ^ k" unfolding i(3) by (simp add: power_add power_mult)
  have t: "take (16 - i) zs = take (15 - i) zs @ [zs ! (15 - i)]" if "length zs = 16" for zs :: bytes
  proof -
    have "16 - i = Suc (15 - i)" using i(1) by simp
    then show ?thesis using that by (simp only: take_Suc_conv_app_nth)
  qed
  have "val zs div 2 ^ (128 - p) = val (take (15 - i) zs @ [zs ! (15 - i)]) div 2 ^ k" if "length zs = 16" for zs
    using val_div [OF that, of i] i(1) t [OF that] by (simp add: e div_mult2_eq)
  then show ?thesis using net_byte_iff [OF i(2), of "take (15 - i) xs" "take (15 - i) ys"] assms(1,2) by simp
qed

section \<open>Decimal numbers\<close>

lemma digit_char: "d < 10 \<Longrightarrow> digit_of (of_nat (48 + d)) = d"
  by (auto simp: digit_of_def word_le_nat_alt unat_of_nat simp del: of_nat_add)

lemma digit_plain: "d < 10 \<Longrightarrow> (of_nat (48 + d) :: byte) \<notin> {43, 45, 46, 47, 58} \<and> \<not> isspace (of_nat (48 + d))"
  by (auto simp: isspace_def word_le_nat_alt unat_of_nat word_unat_eq_iff simp del: of_nat_add)

lemma fmt_u_chars: "c \<in> set (fmt_u n) \<Longrightarrow> digit_of c < 10 \<and> c \<notin> {43, 45, 46, 47, 58} \<and> \<not> isspace c"
proof (induction n rule: fmt_u.induct)
  case (1 n)
  have "n mod 10 < 10" by simp
  then have last: "digit_of (of_nat (48 + n mod 10)) < 10 \<and> (of_nat (48 + n mod 10) :: byte) \<notin> {43, 45, 46, 47, 58} \<and>
      \<not> isspace (of_nat (48 + n mod 10))" using digit_char digit_plain by metis
  show ?case
  proof (cases "n < 10")
    case True
    then show ?thesis using "1.prems" last by (subst (asm) fmt_u.simps) (simp del: of_nat_add)
  next
    case False
    then consider "c \<in> set (fmt_u (n div 10))" | "c = of_nat (48 + n mod 10)"
      using "1.prems" by (subst (asm) fmt_u.simps) (auto simp del: of_nat_add)
    then show ?thesis using 1(1) [OF False] last by cases (simp_all del: of_nat_add)
  qed
qed

lemma fmt_u_value: "digits_value 10 (fmt_u n) = n \<and> fmt_u n \<noteq> []"
proof (induction n rule: fmt_u.induct)
  case (1 n)
  show ?case
  proof (cases "n < 10")
    case True
    then show ?thesis by (subst (1 2) fmt_u.simps) (simp add: digits_value_def digit_char del: of_nat_add)
  next
    case False
    then show ?thesis using 1
      by (subst (1 2) fmt_u.simps) (simp add: digits_value_def digit_char del: of_nat_add)
  qed
qed

text \<open>\<open>strtoul\<close> in base 10 reads back what \<open>%u\<close> printed.\<close>

lemma strtoul_fmt_u:
  assumes "n < 2 ^ ulong_bits A" shows "strtoul A 10 (fmt_u n) = (n, length (fmt_u n))"
proof -
  obtain c cs where c: "fmt_u n = c # cs" using fmt_u_value [of n] by (cases "fmt_u n") auto
  then have ws: "takeWhile isspace (fmt_u n) = []" and sg: "strtoul_sign (fmt_u n) = (False, 0)"
    using fmt_u_chars [of c n] by (auto simp: strtoul_sign_def)
  have tw: "takeWhile (\<lambda>c. digit_of c < 10) (fmt_u n) = fmt_u n" using fmt_u_chars by (simp add: takeWhile_eq_all_conv)
  have "strtoul_hex 10 (fmt_u n) = False" "strtoul_base 10 (fmt_u n) = 10"
    by (simp_all add: strtoul_hex_def strtoul_base_def)
  then show ?thesis using assms fmt_u_value [of n] by (simp add: strtoul_def ws sg tw Let_def)
qed

section \<open>Properties\<close>

text \<open>IPv4 \<open>add\<close> and \<open>sub\<close> are exact on machines of both byte orders.\<close>

lemma add_sub4:
  assumes "wf4 a" "wf4 b"
  shows "(let n = unat (ip4 a) + unat (ip4 b)
      in if n < 2 ^ 32 then \<exists>r. cidr_add4 A a b c = (True, cidr_push r c) \<and> wf4 r \<and> unat (ip4 r) = n \<and> pfx r = pfx a
         else cidr_add4 A a b c = (False, cidr_push a c)) \<and>
     (if unat (ip4 b) \<le> unat (ip4 a)
      then \<exists>r. cidr_sub4 A a b c = (True, cidr_push r c) \<and> wf4 r \<and> unat (ip4 r) = unat (ip4 a) - unat (ip4 b) \<and> pfx r = pfx a
      else cidr_sub4 A a b c = (False, cidr_push a c))"
proof -
  have f: "family a = AF_INET" "family b = AF_INET" using assms by (simp_all add: wf4_def)
  have s: "ip4 a + ip4 b < ip4 a \<longleftrightarrow> \<not> unat (ip4 a) + unat (ip4 b) < 2 ^ 32"
    using unsigned_less [of "ip4 a", where ?'a = nat] unsigned_less [of "ip4 b", where ?'a = nat]
    by (auto simp: word_less_nat_alt unat_word_ariths mod_if)
  have d: "ip4 a < ip4 a - ip4 b \<longleftrightarrow> \<not> ip4 b \<le> ip4 a"
    using unsigned_less [of "ip4 a", where ?'a = nat] unsigned_less [of "ip4 b", where ?'a = nat]
    by (auto simp: word_less_nat_alt word_le_nat_alt unat_sub_if_size size_word.rep_eq)
  have w: "wf4 (a\<lparr>addr := be32_enc x\<rparr>)" for x using f by (simp add: wf4_def)
  let ?p = "a\<lparr>addr := be32_enc (ip4 a + ip4 b)\<rparr>" and ?m = "a\<lparr>addr := be32_enc (ip4 a - ip4 b)\<rparr>"
  have p: "unat (ip4 a) + unat (ip4 b) < 2 ^ 32 \<Longrightarrow> unat (ip4 ?p) = unat (ip4 a) + unat (ip4 b)"
    by (simp add: unat_word_ariths)
  have m: "ip4 b \<le> ip4 a \<Longrightarrow> unat (ip4 ?m) = unat (ip4 a) - unat (ip4 b)" by (simp add: unat_sub)
  have "cidr_add4 A a b c = (if unat (ip4 a) + unat (ip4 b) < 2 ^ 32 then (True, cidr_push ?p c) else (False, cidr_push a c))"
    by (simp add: cidr_add4_def htonl_s_addr [OF assms(1)] htonl_s_addr [OF assms(2)] set_s_addr_htonl f s Let_def)
  moreover have "cidr_sub4 A a b c = (if ip4 b \<le> ip4 a then (True, cidr_push ?m c) else (False, cidr_push a c))"
    by (simp add: cidr_sub4_def htonl_s_addr [OF assms(1)] htonl_s_addr [OF assms(2)] set_s_addr_htonl f d Let_def)
  ultimately show ?thesis using p m w by (auto simp: Let_def word_le_nat_alt)
qed

definition demo4 :: "bytes \<Rightarrow> u32 \<Rightarrow> cidr" where
  "demo4 b p = \<lparr>family = AF_INET, pfx = p, addr = b\<rparr>"

definition calc0 :: calc where
  "calc0 = \<lparr>stack = [], quiet = False, printed = False, out = []\<rparr>"

text \<open>C40. IPv4 networks: for a prefix of 1 to 32 bits, \<open>network\<close> clears the host bits, \<open>broadcast\<close> sets them, \<open>netmask\<close> is
  the mask of the prefix, and \<open>contains\<close> holds exactly if the argument has the longer or same prefix and lies in the
  same network -- on machines of both byte orders.\<close>

theorem owipcalc_networks4:
  assumes "wf4 a" "wf4 b" "1 \<le> pfx a" "pfx a \<le> 32"
  shows "\<exists>n bc m. cidr_network4 A a c = Some (True, cidr_push n c) \<and> cidr_broadcast4 A a c = Some (True, cidr_push bc c) \<and>
     cidr_netmask4 A a c = Some (True, cidr_push m c) \<and>
     cidr_contains4 A a b c = Some (verdict (pfx a \<le> pfx b \<and>
        unat (ip4 a) div 2 ^ (32 - unat (pfx a)) = unat (ip4 b) div 2 ^ (32 - unat (pfx a))) c) \<and>
     unat (ip4 n) = unat (ip4 a) div 2 ^ (32 - unat (pfx a)) * 2 ^ (32 - unat (pfx a)) \<and>
     unat (ip4 bc) = unat (ip4 n) + (2 ^ (32 - unat (pfx a)) - 1) \<and>
     ip4 m = NOT (mask (32 - unat (pfx a))) \<and> pfx n = 32 \<and> pfx bc = 32 \<and> pfx m = 32"
proof -
  let ?k = "32 - unat (pfx a)"
  have k: "?k < LENGTH(32)" using assms(3) by (simp add: word_le_nat_alt)
  note s = shl1_prefix [OF assms(3,4)] and h = s_addr_htonl [OF assms(1)] and hb = s_addr_htonl [OF assms(2)]
  have up: "ip4 (x\<lparr>pfx := 32\<rparr>) = ip4 x" "pfx (x\<lparr>pfx := 32\<rparr>) = 32" for x by (simp_all add: ip4_def)
  have mk: "(push_bit ?k 1 - 1 :: u32) = mask ?k" by (simp add: mask_eq_exp_minus_1 push_bit_eq_mult)
  let ?n = "(a\<lparr>addr := be32_enc (ip4 a AND NOT (mask ?k))\<rparr>)\<lparr>pfx := 32\<rparr>"
  let ?b = "(a\<lparr>addr := be32_enc (ip4 a OR mask ?k)\<rparr>)\<lparr>pfx := 32\<rparr>"
  let ?m = "(a\<lparr>addr := be32_enc (NOT (mask ?k))\<rparr>)\<lparr>pfx := 32\<rparr>"
  have "cidr_network4 A a c = Some (True, cidr_push ?n c)"
    unfolding cidr_network4_def s by (simp only: option.case h mk htonl_and [symmetric] set_s_addr_htonl)
  moreover have "cidr_broadcast4 A a c = Some (True, cidr_push ?b c)"
    unfolding cidr_broadcast4_def s by (simp only: option.case h mk htonl_or [symmetric] set_s_addr_htonl)
  moreover have "cidr_netmask4 A a c = Some (True, cidr_push ?m c)"
    unfolding cidr_netmask4_def s by (simp only: option.case mk set_s_addr_htonl)
  moreover have "htonl A x = htonl A y \<longleftrightarrow> x = y" for x y by (metis htonl_htonl)
  then have "cidr_contains4 A a b c = Some (verdict (pfx a \<le> pfx b \<and> unat (ip4 a) div 2 ^ ?k = unat (ip4 b) div 2 ^ ?k) c)"
    unfolding cidr_contains4_def s by (simp only: option.case h hb mk htonl_and [symmetric] Let_def net_eq_iff)
  ultimately show ?thesis using unat_bcast [OF k, of "ip4 a"] by (fastforce simp: up unat_net)
qed

theorem owipcalc_networks4_witness:
  "\<exists>n. cidr_network4 mips_le (demo4 [192, 168, 1, 250] 24) calc0 = Some (True, cidr_push n calc0) \<and>
     unat (ip4 n) = 0xC0A80100"
proof -
  have u: "unat (24 :: u32) = 24" by simp
  show ?thesis
    using owipcalc_networks4 [of "demo4 [192, 168, 1, 250] 24" "demo4 [0, 0, 0, 10] 32" mips_le calc0]
    by (auto simp: wf4_def demo4_def ip4_def be32_dec_def)
qed

text \<open>IPv4 \<open>next\<close>: on a big endian machine it adds the size of the prefix. On a little endian machine the sum is formed on
  the swapped bytes: 10.0.255.0 \<open>next 24\<close> gives 10.0.0.1 and not 10.1.0.0.\<close>

theorem owipcalc_next4_byte_order:
  "(\<forall>A a b c. big_endian A \<and> wf4 a \<and> 1 \<le> pfx b \<and> pfx b \<le> 32 \<longrightarrow>
     (\<exists>n. cidr_next4 A a b c = Some (True, cidr_push n c) \<and> ip4 n = ip4 a + 2 ^ (32 - unat (pfx b)) \<and> pfx n = pfx b)) \<and>
   cidr_next4 mips_le (demo4 [10, 0, 255, 0] 24) (demo4 [0, 0, 0, 24] 24) calc0 =
     Some (True, cidr_push (demo4 [10, 0, 0, 1] 24) calc0)"
proof (intro conjI allI impI)
  fix A :: abi and a b :: cidr and c :: calc
  assume p: "big_endian A \<and> wf4 a \<and> 1 \<le> pfx b \<and> pfx b \<le> 32"
  then have s: "shl1 (32 - pfx b) = Some (push_bit (32 - unat (pfx b)) 1)" by (intro shl1_prefix) simp_all
  let ?n = "(set_s_addr A (s_addr A a + push_bit (32 - unat (pfx b)) 1) a)\<lparr>pfx := pfx b\<rparr>"
  have "cidr_next4 A a b c = Some (True, cidr_push ?n c)"
    unfolding cidr_next4_def s using p by (simp add: htonl_def)
  moreover have "ip4 ?n = ip4 a + 2 ^ (32 - unat (pfx b))"
    using p by (simp add: ip4_def set_s_addr_def s_addr_def native32_enc_def native32_dec_def push_bit_eq_mult)
  ultimately show "\<exists>n. cidr_next4 A a b c = Some (True, cidr_push n c) \<and> ip4 n = ip4 a + 2 ^ (32 - unat (pfx b)) \<and> pfx n = pfx b"
    by (intro exI [of _ ?n]) simp
next
  show "cidr_next4 mips_le (demo4 [10, 0, 255, 0] 24) (demo4 [0, 0, 0, 24] 24) calc0 =
     Some (True, cidr_push (demo4 [10, 0, 0, 1] 24) calc0)"
    by code_simp
qed

theorem owipcalc_next4_byte_order_witness:
  "\<exists>n. cidr_next4 mips_be (demo4 [10, 0, 255, 0] 24) (demo4 [0, 0, 0, 24] 24) calc0 = Some (True, cidr_push n calc0) \<and>
     ip4 n = 0x0A010000 \<and> pfx n = 24"
proof -
  let ?a = "demo4 [10, 0, 255, 0] 24" and ?b = "demo4 [0, 0, 0, 24] 24"
  have "big_endian mips_be \<and> wf4 ?a \<and> 1 \<le> pfx ?b \<and> pfx ?b \<le> 32" by (simp add: mips_be_def wf4_def demo4_def)
  then have ex: "\<exists>n. cidr_next4 mips_be ?a ?b calc0 = Some (True, cidr_push n calc0) \<and> ip4 n = ip4 ?a + 2 ^ (32 - unat (pfx ?b)) \<and> pfx n = pfx ?b"
    using owipcalc_next4_byte_order by blast
  have e: "ip4 ?a + 2 ^ (32 - unat (pfx ?b)) = 0x0A010000" "pfx ?b = 24" by code_simp+
  show ?thesis by (rule ex [unfolded e(1), unfolded e(2)])
qed

text \<open>IPv6 \<open>add\<close> and \<open>sub\<close>, byte by byte with a carry.\<close>

lemma add_sub6:
  assumes "wf6 a" "wf6 b"
  shows "\<exists>r q. cidr_add6 a b c = (val (addr a) + val (addr b) < 2 ^ 128, cidr_push r c) \<and> wf6 r \<and>
     val (addr r) = (val (addr a) + val (addr b)) mod 2 ^ 128 \<and>
     cidr_sub6 a b c = (val (addr b) \<le> val (addr a), cidr_push q c) \<and> wf6 q \<and>
     (val (addr b) \<le> val (addr a) \<longrightarrow> val (addr q) = val (addr a) - val (addr b))"
proof -
  have f: "family a = AF_INET6" "family b = AF_INET6" "length (addr a) = 16" "length (addr b) = 16"
    using assms by (simp_all add: wf6_def)
  obtain x k where x: "add6_loop (rev (addr a)) (rev (addr b)) 0 = (x, k)" by force
  obtain y j where y: "sub6_loop (rev (addr a)) (rev (addr b)) 0 = (y, j)" by force
  have p: "(256::nat) ^ 16 = 2 ^ 128" by simp
  have ax: "val (rev x) + 2 ^ 128 * k = val (addr a) + val (addr b)" "k \<le> 1" "length x = 16"
    using add6_loop_val [OF _ _ x] f p by (simp_all add: val_def)
  have sy: "val (rev y) + val (addr b) = val (addr a) + 2 ^ 128 * j" "j \<le> 1" "length y = 16"
    using sub6_loop_val [OF _ _ y] f p by (simp_all add: val_def)
  have bnd: "val (rev x) < 2 ^ 128" "val (addr a) < 2 ^ 128" "val (addr b) < 2 ^ 128" "val (rev y) < 2 ^ 128"
    using val_bound [of "rev x"] val_bound [of "addr a"] val_bound [of "addr b"] val_bound [of "rev y"] ax(3) sy(3) f p by simp_all
  have k: "k = 0 \<longleftrightarrow> val (addr a) + val (addr b) < 2 ^ 128" using ax(1,2) bnd by (cases k) auto
  have j: "j = 0 \<longleftrightarrow> val (addr b) \<le> val (addr a)" using sy(1,2) bnd by (cases j) auto
  have "val (rev x) = (val (addr a) + val (addr b)) mod 2 ^ 128"
    unfolding ax(1) [symmetric] using bnd(1) by simp
  moreover have "val (addr b) \<le> val (addr a) \<Longrightarrow> val (rev y) = val (addr a) - val (addr b)" using sy(1) j by auto
  moreover have "wf6 (a\<lparr>addr := rev x\<rparr>)" "wf6 (a\<lparr>addr := rev y\<rparr>)" using ax(3) sy(3) f by (simp_all add: wf6_def)
  ultimately show ?thesis
    using x y f k j by (intro exI [of _ "a\<lparr>addr := rev x\<rparr>"] exI [of _ "a\<lparr>addr := rev y\<rparr>"]) (simp add: cidr_add6_def cidr_sub6_def)
qed

text \<open>C39. \<open>add\<close> and \<open>sub\<close> are exact. IPv4, on machines of both byte orders: the result is on the stack if it is a 32 bit address, otherwise the operation fails and the operand is on
  the stack unchanged. IPv6, byte by byte with a carry: 128 bit arithmetic, and failure exactly on overflow and underflow.\<close>

theorem owipcalc_add_sub:
  assumes "wf4 a" "wf4 b" "wf6 a6" "wf6 b6"
  shows "(let n = unat (ip4 a) + unat (ip4 b)
      in if n < 2 ^ 32 then \<exists>r. cidr_add4 A a b c = (True, cidr_push r c) \<and> wf4 r \<and> unat (ip4 r) = n \<and> pfx r = pfx a
         else cidr_add4 A a b c = (False, cidr_push a c)) \<and>
     (if unat (ip4 b) \<le> unat (ip4 a)
      then \<exists>r. cidr_sub4 A a b c = (True, cidr_push r c) \<and> wf4 r \<and> unat (ip4 r) = unat (ip4 a) - unat (ip4 b) \<and> pfx r = pfx a
      else cidr_sub4 A a b c = (False, cidr_push a c)) \<and>
     (\<exists>r q. cidr_add6 a6 b6 c = (val (addr a6) + val (addr b6) < 2 ^ 128, cidr_push r c) \<and> wf6 r \<and>
       val (addr r) = (val (addr a6) + val (addr b6)) mod 2 ^ 128 \<and>
       cidr_sub6 a6 b6 c = (val (addr b6) \<le> val (addr a6), cidr_push q c) \<and> wf6 q \<and>
       (val (addr b6) \<le> val (addr a6) \<longrightarrow> val (addr q) = val (addr a6) - val (addr b6)))"
proof -
  note four = add_sub4 [OF assms(1,2), of A c] and six = add_sub6 [OF assms(3,4), of c]
  show ?thesis using four [THEN conjunct1] four [THEN conjunct2] six by (intro conjI)
qed

theorem owipcalc_add_sub_witness:
  "(\<exists>r. cidr_add4 mips_le (demo4 [192, 168, 1, 250] 24) (demo4 [0, 0, 0, 10] 32) calc0 = (True, cidr_push r calc0) \<and> unat (ip4 r) = 0xC0A80204) \<and>
   fst (cidr_sub6 \<lparr>family = AF_INET6, pfx = 64, addr = replicate 16 255\<rparr> \<lparr>family = AF_INET6, pfx = 64, addr = replicate 16 255\<rparr> calc0)"
  using owipcalc_add_sub [of "demo4 [192, 168, 1, 250] 24" "demo4 [0, 0, 0, 10] 32" "\<lparr>family = AF_INET6, pfx = 64, addr = replicate 16 255\<rparr>"
      "\<lparr>family = AF_INET6, pfx = 64, addr = replicate 16 255\<rparr>" mips_le calc0]
  by (auto simp: wf4_def wf6_def demo4_def ip4_def be32_dec_def Let_def)

definition step_size6 :: "u32 \<Rightarrow> nat" where
  "step_size6 p = 256 ^ (15 - (unat p - 1) div 8)"

lemma step_size6_prefix: "1 \<le> unat p \<Longrightarrow> unat p \<le> 128 \<Longrightarrow> step_size6 p = 2 ^ (128 - unat p) \<longleftrightarrow> 8 dvd unat p"
proof -
  assume a: "1 \<le> unat p" "unat p \<le> 128"
  have "step_size6 p = 2 ^ (8 * (15 - (unat p - 1) div 8))"
    unfolding step_size6_def by (simp only: power_mult) simp
  then have "step_size6 p = 2 ^ (128 - unat p) \<longleftrightarrow> 8 * (15 - (unat p - 1) div 8) = 128 - unat p" by simp
  also have "\<dots> \<longleftrightarrow> 8 dvd unat p"
  proof (cases "8 dvd unat p")
    case True
    then obtain q where "unat p = 8 * Suc q" using a(1) by (metis dvdE mult_0_right not0_implies_Suc not_one_le_zero)
    then show ?thesis by simp
  next
    case False
    then have "0 < unat p mod 8" by (simp add: dvd_eq_mod_eq_0)
    moreover have "unat p - 1 = 8 * (unat p div 8) + (unat p mod 8 - 1)" using calculation by simp
    then have "(unat p - 1) div 8 = unat p div 8" using mod_less_divisor [of 8 "unat p"] by simp
    moreover have "unat p = 8 * (unat p div 8) + unat p mod 8" "unat p mod 8 < 8" by simp_all
    ultimately have "8 * (15 - (unat p - 1) div 8) \<noteq> 128 - unat p" using a(2) by linarith
    then show ?thesis using False by simp
  qed
  finally show ?thesis .
qed

lemma step6_idx:
  assumes "1 \<le> p" "p \<le> (128 :: u32)"
  shows "unat ((p - 1) div 8) mod 256 = (unat p - 1) div 8" "(unat p - 1) div 8 \<le> 15" "p \<noteq> 0"
proof -
  have u: "1 \<le> unat p" "unat p \<le> 128" using assms by (simp_all add: word_le_nat_alt)
  have "unat (p - 1) = unat p - 1" using assms(1) by (simp add: unat_sub)
  then show "unat ((p - 1) div 8) mod 256 = (unat p - 1) div 8" using u by (simp add: unat_div)
  show "(unat p - 1) div 8 \<le> 15" using u by simp
  show "p \<noteq> 0" using u by auto
qed

text \<open>The bytes up to \<open>idx\<close> with the carry, put back in front of the others.\<close>

lemma step6_val:
  assumes "length bs = 16" "idx \<le> 15"
  shows "val bs = val (take (idx + 1) bs) * 256 ^ (15 - idx) + val (drop (idx + 1) bs)"
    "val (drop (idx + 1) bs) < 256 ^ (15 - idx)" "val (take (idx + 1) bs) < 256 ^ (idx + 1)"
    "(2::nat) ^ 128 = 256 ^ (idx + 1) * 256 ^ (15 - idx)"
proof -
  show "val bs = val (take (idx + 1) bs) * 256 ^ (15 - idx) + val (drop (idx + 1) bs)"
    using val_append [of "take (idx + 1) bs" "drop (idx + 1) bs"] assms by simp
  show "val (drop (idx + 1) bs) < 256 ^ (15 - idx)" using val_bound [of "drop (idx + 1) bs"] assms by simp
  show "val (take (idx + 1) bs) < 256 ^ (idx + 1)" using val_bound [of "take (idx + 1) bs"] assms by simp
  have "(256::nat) ^ (idx + 1) * 256 ^ (15 - idx) = 256 ^ 16" using assms(2) by (simp flip: power_add)
  then show "(2::nat) ^ 128 = 256 ^ (idx + 1) * 256 ^ (15 - idx)" by simp
qed

lemma mult_add_less: "(r::nat) < s \<Longrightarrow> a * s + r < b * s \<longleftrightarrow> a < b"
proof
  assume r: "r < s" and "a < b"
  then have "Suc a * s \<le> b * s" by (intro mult_le_mono1) simp
  then show "a * s + r < b * s" using r by simp
next
  assume l: "a * s + r < b * s"
  show "a < b"
  proof (rule ccontr)
    assume "\<not> a < b"
    then have "b * s \<le> a * s" by (intro mult_le_mono1) simp
    with l show False by simp
  qed
qed

text \<open>IPv6 \<open>next\<close> and \<open>prev\<close> step by the size of the prefix rounded up to whole bytes, and fail exactly if there is no such
  address. So they step by the prefix given if its length is a multiple of 8, and only then.\<close>

theorem owipcalc_next_prev6:
  assumes a: "wf6 a" and p: "1 \<le> pfx b" "pfx b \<le> 128"
  shows "\<exists>r q. cidr_next6 a b c = Some (val (addr a) + step_size6 (pfx b) < 2 ^ 128, cidr_push r c) \<and>
     (val (addr a) + step_size6 (pfx b) < 2 ^ 128 \<longrightarrow> val (addr r) = val (addr a) + step_size6 (pfx b) \<and> pfx r = pfx b) \<and>
     cidr_prev6 a b c = Some (step_size6 (pfx b) \<le> val (addr a), cidr_push q c) \<and>
     (step_size6 (pfx b) \<le> val (addr a) \<longrightarrow> val (addr q) + step_size6 (pfx b) = val (addr a) \<and> pfx q = pfx b) \<and>
     (step_size6 (pfx b) = 2 ^ (128 - unat (pfx b)) \<longleftrightarrow> 8 dvd unat (pfx b))"
proof -
  let ?i = "(unat (pfx b) - 1) div 8" and ?bs = "addr a"
  note i = step6_idx [OF p]
  have l: "length ?bs = 16" using a by (simp add: wf6_def)
  note v = step6_val [OF l i(2)]
  let ?hi = "take (?i + 1) ?bs" and ?lo = "drop (?i + 1) ?bs" and ?s = "256 ^ (15 - ?i) :: nat"
  have lh: "length (rev ?hi) = ?i + 1" "length ?lo = 15 - ?i" using l i(2) by auto
  obtain x k where x: "next6_loop (rev ?hi) 1 = (x, k)" by force
  obtain y j where y: "prev6_loop (rev ?hi) 1 = (y, j)" by force
  have ax: "val (rev x) + 256 ^ (?i + 1) * k = val ?hi + 1" "k \<le> 1" "length x = ?i + 1"
    using add6_loop_val [OF _ _ x [unfolded next6_add]] lh(1) by (simp_all add: val_def)
  have sy: "val (rev y) + 1 = val ?hi + 256 ^ (?i + 1) * j" "j \<le> 1" "length y = ?i + 1"
    using sub6_loop_val [OF _ _ y [unfolded prev6_sub]] lh(1) by (simp_all add: val_def)
  have vr: "val (rev z @ ?lo) = val (rev z) * ?s + val ?lo" for z by (simp only: val_append lh(2))
  have bx: "val (rev x) < 256 ^ (?i + 1)" using val_bound [of "rev x"] ax(3) by simp
  have yb: "val (rev y) < 256 ^ (?i + 1)" using val_bound [of "rev y"] sy(3) by simp
  have s: "step_size6 (pfx b) = ?s" by (simp add: step_size6_def)
  have nx: "val ?bs + ?s = (val ?hi + 1) * ?s + val ?lo" unfolding v(1) by simp
  have k: "k = 0 \<longleftrightarrow> val ?bs + ?s < 2 ^ 128"
  proof -
    have "k = 0 \<longleftrightarrow> val ?hi + 1 < 256 ^ (?i + 1)" using ax(1,2) bx by (cases k) auto
    also have "\<dots> \<longleftrightarrow> (val ?hi + 1) * ?s + val ?lo < 256 ^ (?i + 1) * ?s"
      using mult_add_less [OF v(2)] by blast
    finally show ?thesis unfolding nx v(4) .
  qed
  have j: "j = 0 \<longleftrightarrow> ?s \<le> val ?bs"
  proof -
    have "j = 0 \<longleftrightarrow> 1 \<le> val ?hi" using sy(1,2) yb by (cases j) auto
    also have "\<dots> \<longleftrightarrow> ?s \<le> val ?bs" unfolding v(1) using v(2) by (cases "val ?hi") auto
    finally show ?thesis .
  qed
  let ?r = "a\<lparr>addr := rev x @ ?lo\<rparr>" and ?q = "a\<lparr>addr := rev y @ ?lo\<rparr>"
  have "cidr_next6 a b c = Some (k = 0, cidr_push (if k = 0 then ?r\<lparr>pfx := pfx b\<rparr> else ?r) c)"
    "cidr_prev6 a b c = Some (j = 0, cidr_push (if j = 0 then ?q\<lparr>pfx := pfx b\<rparr> else ?q) c)"
    using i x y by (simp_all add: cidr_next6_def cidr_prev6_def step6_def Let_def)
  moreover have "val (addr ?r) = val ?bs + ?s" if "k = 0"
  proof -
    have "val (rev x) = val ?hi + 1" using ax(1) that by simp
    then show ?thesis unfolding nx using vr [of x] by simp
  qed
  moreover have "val (addr ?q) + ?s = val ?bs" if "j = 0"
  proof -
    have "val (rev y) + 1 = val ?hi" using sy(1) that by simp
    then have "val ?bs = (val (rev y) + 1) * ?s + val ?lo" using v(1) by simp
    then show ?thesis using vr [of y] by simp
  qed
  ultimately show ?thesis unfolding s [symmetric]
    using step_size6_prefix [of "pfx b"] p k j s
    by (intro exI [of _ "if k = 0 then ?r\<lparr>pfx := pfx b\<rparr> else ?r"] exI [of _ "if j = 0 then ?q\<lparr>pfx := pfx b\<rparr> else ?q"])
       (simp add: word_le_nat_alt)
qed

definition demo6 :: "u32 \<Rightarrow> cidr" where
  "demo6 p = \<lparr>family = AF_INET6, pfx = p, addr = [0x20, 0x01, 0x0d, 0xb8] @ replicate 12 0\<rparr>"

theorem owipcalc_next_prev6_witness:
  "wf6 (demo6 60) \<and> step_size6 60 \<noteq> 2 ^ (128 - 60) \<and> (\<exists>r ok. cidr_next6 (demo6 60) (demo6 60) calc0 = Some (ok, cidr_push r calc0))"
  using owipcalc_next_prev6 [of "demo6 60" "demo6 60" calc0]
  by (auto simp: demo6_def wf6_def)

text \<open>IPv6 \<open>contains\<close>, which compares whole bytes and one masked byte, holds for a prefix of 1 to 128 bits exactly if the
  argument has the longer or same prefix and the leading bits agree. It leaves a copy of the operand on the stack.\<close>

theorem owipcalc_contains6:
  assumes "wf6 a" "wf6 b" "1 \<le> pfx a" "pfx a \<le> 128"
  shows "cidr_contains6 a b c = Some (verdict (pfx a \<le> pfx b \<and>
     val (addr a) div 2 ^ (128 - unat (pfx a)) = val (addr b) div 2 ^ (128 - unat (pfx a))) (cidr_push a c))"
proof -
  have p: "1 \<le> unat (pfx a)" "unat (pfx a) \<le> 128" using assms(3,4) by (simp_all add: word_le_nat_alt)
  have i: "(128 - unat (pfx a)) div 8 \<le> 15" using p by simp
  have "(128 - unat (pfx a)) div 8 mod 256 = (128 - unat (pfx a)) div 8" using i by simp
  then show ?thesis
    using contains6_val [of "addr a" "addr b" "unat (pfx a)"] assms(1,2) p i
    by (auto simp: cidr_contains6_def pfx6_split [OF assms(4)] Let_def wf6_def intro!: arg_cong2 [of _ _ _ _ verdict])
qed

theorem owipcalc_contains6_witness:
  "wf6 (demo6 32) \<and> cidr_contains6 (demo6 32) (demo6 64) calc0 = Some (verdict True (cidr_push (demo6 32) calc0))"
  using owipcalc_contains6 [of "demo6 32" "demo6 64" calc0] by (simp add: demo6_def wf6_def)

lemma ucast_low_byte: "(ucast (w AND 0xff :: u32) :: byte) = ucast w"
proof -
  have "(0xff :: u32) = mask 8" by (simp add: mask_eq_exp_minus_1)
  moreover have "(ucast (w AND mask 8 :: u32) :: byte) = ucast w" by (rule bit_word_eqI) (simp add: bit_simps)
  ultimately show ?thesis by (simp only:)
qed

text \<open>\<open>6to4\<close>: the prefix 2002::/16 with the IPv4 address in it on a big endian machine; on a little endian machine the four
  bytes come out reversed.\<close>

theorem owipcalc_6to4_bytes:
  assumes "wf4 a"
  shows "cidr_6to4 A a c = (True, cidr_push \<lparr>family = AF_INET6, pfx = 48,
     addr = [0x20, 0x02] @ (if big_endian A then addr a else rev (addr a)) @ replicate 10 0\<rparr> c)"
proof -
  let ?x = "s_addr A a"
  have l: "length (addr a) = 4" using assms by (simp add: wf4_def)
  have "be32_enc ?x = (if big_endian A then addr a else rev (addr a))"
    using l by (simp add: s_addr_def native32_dec_def be32_enc_dec) (simp add: be32_enc_def le32_enc_dec)
  moreover have "[ucast (drop_bit 24 ?x), ucast (drop_bit 16 ?x), ucast (drop_bit 8 ?x), ucast ?x] = be32_enc ?x"
    by (simp add: be32_enc_def le32_enc_def)
  ultimately have e: "(if big_endian A then addr a else rev (addr a)) =
      [ucast (drop_bit 24 ?x), ucast (drop_bit 16 ?x), ucast (drop_bit 8 ?x), ucast ?x]" by simp
  show ?thesis unfolding e by (simp add: cidr_6to4_def Let_def ucast_low_byte)
qed

theorem owipcalc_6to4_bytes_witness:
  "wf4 (demo4 [192, 0, 2, 4] 32) \<and> fst (cidr_6to4 mips_le (demo4 [192, 0, 2, 4] 32) calc0)"
  using owipcalc_6to4_bytes [of "demo4 [192, 0, 2, 4] 32" mips_le calc0] by (simp add: wf4_def demo4_def)

lemma runop_status:
  "runop A I args st c = Some (Inr (fl, st', args', c')) \<Longrightarrow> st \<in> {0, 1} \<Longrightarrow>
   st' \<in> {0, 1} \<or> \<not> fl \<and> (st' = 5 \<or> st' \<in> {2, 3} \<and> args' \<noteq> [])"
  "runop A I args st c = Some (Inl (e, c')) \<Longrightarrow> e = 4"
  by (auto simp: runop_def run_a2_def run_a1_def cidr_parse_def Let_def
    split: list.splits option.splits sum.splits if_splits prod.splits)

lemma run_all_status:
  "run_all A I args st c = Some r \<Longrightarrow> st \<in> {0, 1} \<Longrightarrow>
   (\<exists>c'. r = Inl (4, c')) \<or> (\<exists>fl st' args' c'. r = Inr (fl, st', args', c') \<and> (st' \<in> {0, 1, 5} \<or> args' \<noteq> []))"
proof (induction A I args st c rule: run_all.induct)
  case (1 A I args st c)
  show ?case
  proof (cases "\<exists>st' args' c'. runop A I args st c = Some (Inr (True, st', args', c'))")
    case True
    then obtain st' args' c' where t: "runop A I args st c = Some (Inr (True, st', args', c'))" by blast
    moreover have "st' \<in> {0, 1}" using runop_status(1) [OF t "1.prems"(2)] by blast
    moreover have "run_all A I args' st' c' = Some r" using "1.prems"(1) t by (subst (asm) run_all.simps) simp
    ultimately show ?thesis using "1.IH" [OF t] by simp
  next
    case False
    then have "runop A I args st c = Some r"
      using "1.prems"(1) by (subst (asm) run_all.simps) (auto split: option.splits sum.splits prod.splits bool.splits)
    then show ?thesis
    proof (cases r)
      case (Inl x)
      then show ?thesis using runop_status(2) [of A I args st c] \<open>runop A I args st c = Some r\<close> by (cases x) auto
    next
      case (Inr y)
      obtain fl st' args' c' where y: "y = (fl, st', args', c')" by (cases y) auto
      then show ?thesis using runop_status(1) [of A I args st c fl st' args' c'] \<open>runop A I args st c = Some r\<close> Inr "1.prems"(2) by auto
    qed
  qed
qed

text \<open>The exit status of \<open>owipcalc\<close> is 0, 1, 4, 5 or 6: the statuses 2, for a missing argument, and 3, for an invalid one, that
  \<open>runop\<close> reports, never come out, since \<open>main\<close> takes the operation that is still there for an unknown one.\<close>

theorem owipcalc_exit_status:
  assumes "owipcalc_main A I argv = Some (e, o1)"
  shows "e \<in> {0, 1, 4, 5, 6}"
proof -
  have z: "(0::int) \<in> {0, 1}" by simp
  show ?thesis using assms run_all_status [OF _ z, of A I "tl argv"]
    by (fastforce simp: owipcalc_main_def Let_def split: if_splits option.splits sum.splits prod.splits list.splits)
qed

definition no_inet :: inet where
  "no_inet = \<lparr>pton4 = (\<lambda>s. None), pton6 = (\<lambda>s. None), ntop4 = (\<lambda>b. None), ntop6 = (\<lambda>b. None)\<rparr>"

theorem owipcalc_exit_status_witness:
  "owipcalc_main mips_le no_inet [lit ''/24'', lit ''add''] = Some (6, []) \<and> (6::int) \<in> {0, 1, 4, 5, 6}"
proof -
  have "cidr_parse4 mips_le no_inet (lit ''/24'') = Some \<lparr>family = AF_INET, pfx = 24, addr = [0, 0, 0, 0]\<rparr>"
    by (simp add: cidr_parse4_def split_slash_def prefix_num_def strtoul_def strtoul_sign_def strtoul_base_def strtoul_hex_def
      isspace_def digit_of_def digits_value_def lit_def mips_le_def Let_def)
  then have "owipcalc_main mips_le no_inet [lit ''/24'', lit ''add''] = Some (6, [])"
    by (simp add: owipcalc_main_def run_all.simps runop_def run_a2_def ops_def op_a2_def lit_def)
  with owipcalc_exit_status [OF this] show ?thesis by simp
qed

text \<open>Printing and parsing: what \<open>print\<close> writes for an IPv4 address with a prefix of at most 32 bits, \<open>cidr_parse4\<close> reads back,
  if \<open>inet_pton\<close> reads back what \<open>inet_ntop\<close> wrote and that is at most 15 characters, none of them a slash.\<close>

theorem owipcalc_print_parse4:
  assumes a: "family a = AF_INET" "pfx a \<le> 32" and A: "32 \<le> ulong_bits A"
    and I: "ntop4 I (addr a) = Some p" "pton4 I p = Some (addr a)" "p \<noteq> []" "length p \<le> 15" "47 \<notin> set p"
    and c: "\<not> printed c" "\<not> quiet c"
  shows "\<exists>s c'. cidr_print4 I a c = (True, c') \<and> out c' = out c @ s \<and> cidr_parse4 A I s = Some a"
proof -
  let ?n = "unat (pfx a)" and ?s = "if pfx a < 32 then p @ 47 # fmt_u (unat (pfx a)) else p"
  have n: "?n \<le> 32" using a(2) by (simp add: word_le_nat_alt)
  have "(2::nat) ^ 32 \<le> 2 ^ ulong_bits A" using A by (rule power_increasing) simp
  then have "?n < 2 ^ ulong_bits A" using n by simp
  then have pn: "prefix_num A 32 (fmt_u ?n) = Some (pfx a)"
    using fmt_u_value [of ?n] a(2) by (simp add: prefix_num_def strtoul_fmt_u Let_def)
  have nodot: "46 \<notin> set (fmt_u ?n)" using fmt_u_chars by blast
  have split: "split_slash (p @ 47 # q) = (p, Some q)" "split_slash p = (p, None)" for q
  proof -
    have "takeWhile (\<lambda>c. c \<noteq> 47) (p @ 47 # q) = p" "dropWhile (\<lambda>c. c \<noteq> 47) (p @ 47 # q) = 47 # q"
      "takeWhile (\<lambda>c. c \<noteq> 47) p = p"
      using I(5) by (induction p) auto
    then show "split_slash (p @ 47 # q) = (p, Some q)" "split_slash p = (p, None)"
      using I(5) by (simp_all add: split_slash_def)
  qed
  have "length (fmt_u ?n) \<le> 2"
  proof -
    have "?n div 10 < 10" using n by simp
    then show ?thesis by (subst fmt_u.simps) (auto simp: fmt_u.simps [of "?n div 10"])
  qed
  then have len: "length ?s < 33" using I(4) by auto
  have "cidr_parse4 A I ?s = Some a"
  proof (cases "pfx a < 32")
    case True
    then show ?thesis using len I pn nodot a(1) by (cases a) (simp add: cidr_parse4_def split)
  next
    case False
    then have "pfx a = 32" using a(2) by simp
    then show ?thesis using False len I a(1) by (cases a) (simp add: cidr_parse4_def split)
  qed
  moreover have "\<exists>c'. cidr_print4 I a c = (True, c') \<and> out c' = out c @ ?s"
    using I(1) a(1) c by (auto simp: cidr_print4_def qsep_def qprintf_def cidr_pop_def Let_def split: list.splits)
  ultimately show ?thesis by blast
qed

text \<open>An \<open>inet_pton\<close> and \<open>inet_ntop\<close> for one address.\<close>

definition demo_inet :: inet where
  "demo_inet = no_inet\<lparr>pton4 := (\<lambda>s. if s = lit ''10.0.0.1'' then Some [10, 0, 0, 1] else None),
     ntop4 := (\<lambda>b. if b = [10, 0, 0, 1] then Some (lit ''10.0.0.1'') else None)\<rparr>"

theorem owipcalc_print_parse4_witness:
  "\<exists>s c'. cidr_print4 demo_inet (demo4 [10, 0, 0, 1] 8) calc0 = (True, c') \<and> out c' = out calc0 @ s \<and>
     cidr_parse4 mips_le demo_inet s = Some (demo4 [10, 0, 0, 1] 8)"
  by (rule owipcalc_print_parse4 [where p = "lit ''10.0.0.1''"])
    (simp_all add: demo4_def demo_inet_def mips_le_def calc0_def lit_def)

end
