(* ===== verification/Fwtool.thy ===== *)
theory Fwtool
  imports Crc Stdio
begin

text \<open>
  \<open>fwtool\<close> (\<^verbatim>\<open>package/system/fwtool/src/fwtool.c\<close>, \<^verbatim>\<open>crc32.h\<close>, \<^verbatim>\<open>fwimage.h\<close>): metadata and signatures behind a firmware image, each with a trailer that holds the CRC
  of all that comes before it. \<open>sysupgrade\<close> takes them off before it writes an image.

  The length of a file is a natural number, where the code has an \<open>int\<close>; the theorems on truncation are about files below 2 GiB. The input of \<open>-I\<close> and \<open>-S\<close> is another file than the image. A read error is the end of a file.
  Allocated memory has an arbitrary content, a parameter, as is whether \<open>malloc\<close> succeeds. \<open>None\<close> is an access outside of the buffers: a null pointer or a negative length given to
  \<open>memcpy\<close> or \<open>fwrite\<close>. Messages are left out.
\<close>

section \<open>The checksum\<close>

definition filltable_step :: "u32 \<Rightarrow> u32" where
  "filltable_step c = (if c AND 1 \<noteq> 0 then drop_bit 1 c XOR 0xedb88320 else drop_bit 1 c)"

definition crc32_filltable :: "u32 list" where
  "crc32_filltable = map (\<lambda>i. (filltable_step ^^ 8) (of_nat i)) [0..<256]"

definition crc32_block :: "u32 \<Rightarrow> bytes \<Rightarrow> u32" where
  "crc32_block val buf = foldl (\<lambda>v b. crc32_filltable ! unat (ucast v XOR b) XOR drop_bit 8 v) val buf"

section \<open>Headers and trailers\<close>

definition METADATA_MAXLEN :: int where "METADATA_MAXLEN = 30 * 1024"
definition SIGNATURE_MAXLEN :: int where "SIGNATURE_MAXLEN = 1 * 1024"
definition BUFLEN :: nat where "BUFLEN = 32768"
definition FWIMAGE_MAGIC :: u32 where "FWIMAGE_MAGIC = 0x46577830"
definition FWIMAGE_SIGNATURE :: byte where "FWIMAGE_SIGNATURE = 0"
definition FWIMAGE_INFO :: byte where "FWIMAGE_INFO = 1"

text \<open>The fields hold the values as they are in memory, after \<open>cpu_to_be32\<close>.\<close>

record fwimage_trailer =
  tr_magic :: u32
  tr_crc32 :: u32
  tr_type :: byte
  tr_pad :: bytes
  tr_size :: u32

definition trailer_enc :: "abi \<Rightarrow> fwimage_trailer \<Rightarrow> bytes" where
  "trailer_enc A tr = native32_enc A (tr_magic tr) @ native32_enc A (tr_crc32 tr) @ tr_type tr # tr_pad tr @ native32_enc A (tr_size tr)"

definition trailer_dec :: "abi \<Rightarrow> bytes \<Rightarrow> fwimage_trailer" where
  "trailer_dec A b = \<lparr>tr_magic = native32_dec A (slice 0 4 b), tr_crc32 = native32_dec A (slice 4 4 b), tr_type = b ! 8, tr_pad = slice 9 3 b,
     tr_size = native32_dec A (slice 12 4 b)\<rparr>"

section \<open>Appending\<close>

definition trailer_update_crc :: "abi \<Rightarrow> fwimage_trailer \<Rightarrow> bytes \<Rightarrow> fwimage_trailer" where
  "trailer_update_crc A tr buf = tr\<lparr>tr_crc32 := htonl A (crc32_block (htonl A (tr_crc32 tr)) buf)\<rparr>"

function append_data :: "abi \<Rightarrow> bytes \<Rightarrow> cfile \<Rightarrow> fwimage_trailer \<Rightarrow> int \<Rightarrow> int \<times> cfile \<times> fwimage_trailer" where
  "append_data A inp out tr maxlen =
     (let buf = take 512 inp; maxlen' = maxlen - int (length buf)
      in if buf = [] then (0, out, tr)
         else if maxlen' < 0 then (1, out, tr)
         else append_data A (drop 512 inp) (snd (fwrite buf out)) (trailer_update_crc A (tr\<lparr>tr_size := tr_size tr + of_nat (length buf)\<rparr>) buf) maxlen')"
  by pat_completeness auto
termination
  by (relation "measure (\<lambda>(A, inp, out, tr, maxlen). length inp)") auto

declare append_data.simps [simp del]

definition append_trailer :: "abi \<Rightarrow> cfile \<Rightarrow> fwimage_trailer \<Rightarrow> cfile \<times> fwimage_trailer" where
  "append_trailer A out tr =
     (let tr' = tr\<lparr>tr_size := htonl A (tr_size tr)\<rparr>
      in (snd (fwrite (trailer_enc A tr') out), trailer_update_crc A tr' (trailer_enc A tr')))"

definition add_metadata :: "abi \<Rightarrow> bytes \<Rightarrow> cfile \<Rightarrow> fwimage_trailer \<Rightarrow> int \<times> cfile" where
  "add_metadata A metadata fw tr =
     (let hdr = replicate 8 0; tr1 = trailer_update_crc A (tr\<lparr>tr_type := FWIMAGE_INFO, tr_size := 8 + 16\<rparr>) hdr;
          (r, fw1, tr2) = append_data A metadata (snd (fwrite hdr fw)) tr1 METADATA_MAXLEN
      in if r \<noteq> 0 then (1, fw1) else (0, fst (append_trailer A fw1 tr2)))"

definition add_signature :: "abi \<Rightarrow> bytes option \<Rightarrow> cfile \<Rightarrow> fwimage_trailer \<Rightarrow> int \<times> cfile" where
  "add_signature A signature fw tr =
     (case signature of
        None \<Rightarrow> (0, fw)
      | Some sg \<Rightarrow>
          let (r, fw1, tr2) = append_data A sg fw (tr\<lparr>tr_type := FWIMAGE_SIGNATURE, tr_size := 16\<rparr>) SIGNATURE_MAXLEN
          in if r \<noteq> 0 then (1, fw1) else (0, fst (append_trailer A fw1 tr2)))"

text \<open>The loop of \<open>add_data\<close> over the image: its checksum and its length.\<close>

function read_image :: "abi \<Rightarrow> bytes \<Rightarrow> fwimage_trailer \<Rightarrow> nat \<Rightarrow> fwimage_trailer \<times> nat" where
  "read_image A inp tr file_len =
     (let buf = take 512 inp
      in if buf = [] then (tr, file_len) else read_image A (drop 512 inp) (trailer_update_crc A tr buf) (file_len + length buf))"
  by pat_completeness auto
termination
  by (relation "measure (\<lambda>(A, inp, tr, n). length inp)") auto

declare read_image.simps [simp del]

text \<open>\<open>fw\<close> is the content of the image file, \<open>None\<close> if it cannot be opened; \<open>cap\<close> the size it cannot exceed.\<close>

definition add_data :: "abi \<Rightarrow> nat \<Rightarrow> bytes option \<Rightarrow> bytes option \<Rightarrow> bytes option \<Rightarrow> int \<times> bytes option" where
  "add_data A cap metadata signature fw =
     (case fw of
        None \<Rightarrow> (1, None)
      | Some img \<Rightarrow>
          let tr0 = \<lparr>tr_magic = htonl A FWIMAGE_MAGIC, tr_crc32 = 0xffffffff, tr_type = 0, tr_pad = [0, 0, 0], tr_size = 0\<rparr>;
              (tr, file_len) = read_image A img tr0 0;
              f = \<lparr>content = img, fpos = length img, fcap = cap\<rparr>;
              (ret, f') = (case metadata of
                  Some md \<Rightarrow> add_metadata A md f tr
                | None \<Rightarrow> if signature \<noteq> None then add_signature A signature f tr else (0, f))
          in (ret, Some (if ret \<noteq> 0 then take file_len (content f') else content f')))"

section \<open>Extracting\<close>

text \<open>Two buffers of \<open>BUFLEN\<close> bytes: the last one read, of which \<open>d_cur_len\<close> bytes are left, and the one before.\<close>

record data_buf =
  d_cur :: "bytes option"
  d_prev :: "bytes option"
  d_cur_len :: nat
  d_file_len :: nat

definition remove_tail :: "data_buf \<Rightarrow> nat \<Rightarrow> data_buf" where
  "remove_tail db len =
     (let db1 = db\<lparr>d_cur_len := d_cur_len db - len, d_file_len := d_file_len db - len\<rparr>
      in if d_cur_len db1 \<noteq> 0 then db1 else db1\<lparr>d_cur := d_prev db, d_prev := None, d_cur_len := BUFLEN\<rparr>)"

definition extract_tail :: "data_buf \<Rightarrow> bytes \<Rightarrow> int \<Rightarrow> (int \<times> bytes \<times> data_buf) option" where
  "extract_tail db dest len =
     (case d_cur db of
        None \<Rightarrow> Some (1, dest, db)
      | Some cur \<Rightarrow>
          if len < 0 then None
          else let n = min (d_cur_len db) (nat len); rest = nat len - n;
                   dest1 = put rest (slice (d_cur_len db - n) n cur) dest; db1 = remove_tail db n
               in case d_cur db1 of
                    None \<Rightarrow> if rest \<noteq> 0 then Some (1, dest1, db1) else Some (0, dest1, remove_tail db1 0)
                  | Some cur1 \<Rightarrow>
                      if rest > d_cur_len db1 then None
                      else Some (0, put 0 (slice (d_cur_len db1 - rest) rest cur1) dest1, remove_tail db1 rest))"

definition tail_crc32 :: "data_buf \<Rightarrow> u32 \<Rightarrow> u32 option" where
  "tail_crc32 db crc32 =
     map_option (\<lambda>cur. crc32_block (case d_prev db of None \<Rightarrow> crc32 | Some p \<Rightarrow> crc32_block crc32 p) (take (d_cur_len db) cur)) (d_cur db)"

definition validate_metadata :: "abi \<Rightarrow> bytes \<Rightarrow> int" where
  "validate_metadata A hdr = (if native32_dec A (slice 0 4 hdr) \<noteq> 0 then 1 else 0)"

text \<open>The loop that reads the file; \<open>alloc k\<close> is the result of the \<open>k\<close>-th call of \<open>malloc\<close>.\<close>

function read_blocks :: "(nat \<Rightarrow> bytes option) \<Rightarrow> nat \<Rightarrow> u32 \<Rightarrow> data_buf \<Rightarrow> bytes \<Rightarrow> (u32 \<times> data_buf) option" where
  "read_blocks alloc k crc32 db inp =
     (let (cur, crc, k') = (case d_prev db of Some b \<Rightarrow> (Some b, crc32_block crc32 b, k) | None \<Rightarrow> (alloc k, crc32, Suc k))
      in case cur of
           None \<Rightarrow> None
         | Some b \<Rightarrow>
             let buf = take BUFLEN inp;
                 db' = \<lparr>d_cur = Some (put 0 buf b), d_prev = d_cur db, d_cur_len = length buf, d_file_len = d_file_len db + length buf\<rparr>
             in if length buf = BUFLEN then read_blocks alloc k' crc db' (drop BUFLEN inp) else Some (crc, db'))"
  by pat_completeness auto
termination
  by (relation "measure (\<lambda>(alloc, k, crc32, db, inp). length inp)") (auto simp: BUFLEN_def split: if_splits)

declare read_blocks.simps [simp del]
definition d_size :: "data_buf \<Rightarrow> nat" where
  "d_size db = (case d_cur db of None \<Rightarrow> 0 | Some _ \<Rightarrow> d_cur_len db + (case d_prev db of None \<Rightarrow> 0 | Some _ \<Rightarrow> BUFLEN))"

lemma remove_tail_size: "d_cur db \<noteq> None \<Longrightarrow> n \<le> d_cur_len db \<Longrightarrow> d_size (remove_tail db n) = d_size db - n"
  by (auto simp: remove_tail_def d_size_def Let_def split: option.splits)

lemma remove_tail_none: "d_cur db \<noteq> None \<Longrightarrow> d_cur (remove_tail db n) = None \<Longrightarrow> remove_tail (remove_tail db n) 0 = remove_tail db n"
  by (auto simp: remove_tail_def Let_def BUFLEN_def split: if_splits)

lemma extract_tail_size:
  assumes "extract_tail db dest len = Some (r, dest', db')"
  shows "d_size db' \<le> d_size db \<and> (r = 0 \<longrightarrow> d_size db' + nat len \<le> d_size db)"
proof (cases "d_cur db")
  case None
  then show ?thesis using assms by (simp add: extract_tail_def)
next
  case (Some cur)
  define n where "n = min (d_cur_len db) (nat len)"
  define rest where "rest = nat len - n"
  define db1 where "db1 = remove_tail db n"
  have len: "0 \<le> len" using assms Some by (auto simp: extract_tail_def split: if_splits)
  have le: "n \<le> nat len" "n \<le> d_cur_len db" "d_cur_len db \<le> d_size db" using Some by (simp_all add: n_def d_size_def)
  have s1: "d_size db1 = d_size db - n" unfolding db1_def using Some le by (intro remove_tail_size) simp_all
  have run: "(case d_cur db1 of None \<Rightarrow> if rest \<noteq> 0 then Some (1, put rest (slice (d_cur_len db - n) n cur) dest, db1)
        else Some (0, put rest (slice (d_cur_len db - n) n cur) dest, remove_tail db1 0)
      | Some cur1 \<Rightarrow> if rest > d_cur_len db1 then None
        else Some (0, put 0 (slice (d_cur_len db1 - rest) rest cur1) (put rest (slice (d_cur_len db - n) n cur) dest), remove_tail db1 rest)) = Some (r, dest', db')"
    using assms Some len unfolding n_def rest_def db1_def by (simp add: extract_tail_def Let_def)
  show ?thesis
  proof (cases "d_cur db1")
    case None
    then have "remove_tail db1 0 = db1" unfolding db1_def using Some by (intro remove_tail_none) simp_all
    then show ?thesis using run None s1 le rest_def by (auto split: if_splits)
  next
    case (Some cur1)
    then have r: "rest \<le> d_cur_len db1" "r = 0" "db' = remove_tail db1 rest" using run by (auto simp: not_less split: if_splits)
    have "d_cur_len db1 \<le> d_size db1" using Some by (simp add: d_size_def)
    moreover have "d_size db' = d_size db1 - rest" unfolding r(3) using Some r(1) by (intro remove_tail_size) auto
    ultimately show ?thesis using r(1,2) s1 le rest_def by linarith
  qed
qed

text \<open>The loop over the trailers, from the last one on. Its result: the exit status, what is written to the signature and to the metadata file, and the buffers.
  \<open>tr\<close> and \<open>buf\<close> keep what was in them when \<open>extract_tail\<close> fails.\<close>

function extract_loop :: "abi \<Rightarrow> bool \<Rightarrow> bool \<Rightarrow> u32 \<Rightarrow> data_buf \<Rightarrow> bytes \<Rightarrow> bytes \<Rightarrow> (int \<times> bytes \<times> bytes \<times> data_buf) option" where
  "extract_loop A has_sig has_meta crc32 db trb buf =
     (case extract_tail db trb 16 of
        None \<Rightarrow> None
      | Some (r, trb', db1) \<Rightarrow>
          if r \<noteq> 0 then Some (1, [], [], db1)
          else let tr = trailer_dec A trb'; data_len = sint (htonl A (tr_size tr) - 16)
               in if tr_magic tr \<noteq> htonl A FWIMAGE_MAGIC then Some (1, [], [], db1)
                  else case tail_crc32 db1 crc32 of
                      None \<Rightarrow> None
                    | Some crc \<Rightarrow>
                        if htonl A (tr_crc32 tr) \<noteq> crc then Some (1, [], [], db1)
                        else if data_len > int BUFLEN then Some (1, [], [], db1)
                        else case extract_tail db1 buf data_len of
                            None \<Rightarrow> None
                          | Some (_, buf', db2) \<Rightarrow>
                              if tr_type tr = FWIMAGE_SIGNATURE
                              then if \<not> has_sig then extract_loop A has_sig has_meta crc32 db2 trb' buf'
                                   else if data_len < 0 then None
                                   else Some (0, take (nat data_len) buf', [], db2)
                              else if tr_type tr = FWIMAGE_INFO
                              then if \<not> has_meta then Some (1, [], [], db2)
                                   else if validate_metadata A buf' \<noteq> 0 then extract_loop A has_sig has_meta crc32 db2 trb' buf'
                                   else if data_len - 8 < 0 then None
                                   else Some (0, [], slice 8 (nat (data_len - 8)) buf', db2)
                              else extract_loop A has_sig has_meta crc32 db2 trb' buf')"
  by pat_completeness auto
termination
proof (relation "measure (\<lambda>(A, has_sig, has_meta, crc32, db, trb, buf). d_size db)", simp, goal_cases)
  case (1 A has_sig has_meta crc32 db trb buf p r q trb' db1 tr data_len crc p2 t q2 buf' db2)
  then show ?case using extract_tail_size [of db trb 16 0 trb' db1] extract_tail_size [of db1 buf data_len t buf' db2] by auto
next
  case (2 A has_sig has_meta crc32 db trb buf p r q trb' db1 tr data_len crc p2 t q2 buf' db2)
  then show ?case using extract_tail_size [of db trb 16 0 trb' db1] extract_tail_size [of db1 buf data_len t buf' db2] by auto
next
  case (3 A has_sig has_meta crc32 db trb buf p r q trb' db1 tr data_len crc p2 t q2 buf' db2)
  then show ?case using extract_tail_size [of db trb 16 0 trb' db1] extract_tail_size [of db1 buf data_len t buf' db2] by auto
qed

declare extract_loop.simps [simp del]

text \<open>\<open>file\<close> is the content of the image, \<open>None\<close> if it cannot be opened. The result: the exit status, what is written to the signature and the metadata file, and the image.\<close>

definition extract_data :: "abi \<Rightarrow> (nat \<Rightarrow> bytes option) \<Rightarrow> bytes \<Rightarrow> bool \<Rightarrow> bool \<Rightarrow> bool \<Rightarrow> bool \<Rightarrow> bytes option \<Rightarrow> (int \<times> bytes \<times> bytes \<times> bytes option) option" where
  "extract_data A alloc stack truncate_file is_stdin has_sig has_meta file =
     (case file of
        None \<Rightarrow> Some (1, [], [], None)
      | Some img \<Rightarrow>
          if truncate_file \<and> is_stdin then Some (1, [], [], file)
          else case alloc 0 of
              None \<Rightarrow> Some (1, [], [], file)
            | Some buf \<Rightarrow>
                (case read_blocks alloc 1 0xffffffff \<lparr>d_cur = None, d_prev = None, d_cur_len = 0, d_file_len = 0\<rparr> img of
                   None \<Rightarrow> Some (1, [], [], file)
                 | Some (crc32, db) \<Rightarrow>
                     (case extract_loop A has_sig has_meta crc32 db stack buf of
                        None \<Rightarrow> None
                      | Some (ret, sg, md, db') \<Rightarrow> Some (ret, sg, md, Some (if ret = 0 \<and> truncate_file then take (d_file_len db') img else img)))))"

section \<open>The program\<close>

text \<open>The files of the system and the globals. A file that is open is its name and, for input, the content.\<close>

datatype file_name = Path bytes | Stdin | Stdout

type_synonym file_system = "file_name \<Rightarrow> bytes option"

datatype mode = MODE_DEFAULT | MODE_EXTRACT | MODE_APPEND

record fwtool =
  fs :: file_system
  signature_file :: "(file_name \<times> bytes) option"
  metadata_file :: "(file_name \<times> bytes) option"
  file_mode :: mode
  truncate_f :: bool

text \<open>\<open>open_file\<close>: for writing, a file is created or emptied.\<close>

definition open_file :: "file_system \<Rightarrow> bytes \<Rightarrow> bool \<Rightarrow> (file_name \<times> bytes) option \<times> file_system" where
  "open_file fls name write =
     (if name = lit ''-'' then (if write then (Some (Stdout, []), fls) else (map_option (Pair Stdin) (fls Stdin), fls))
      else if write then (Some (Path name, []), fls(Path name \<mapsto> [])) else (map_option (Pair (Path name)) (fls (Path name)), fls))"

definition set_file :: "bool \<Rightarrow> bytes \<Rightarrow> mode \<Rightarrow> fwtool \<Rightarrow> int \<times> fwtool" where
  "set_file is_sig name m s =
     (if file_mode s \<noteq> MODE_DEFAULT \<and> file_mode s \<noteq> m then (1, s)
      else let s1 = s\<lparr>file_mode := m\<rparr>
           in if (if is_sig then signature_file s else metadata_file s) \<noteq> None then (1, s1)
              else let (f, fls) = open_file (fs s1) name (m = MODE_EXTRACT); s2 = s1\<lparr>fs := fls\<rparr>
                   in (if f = None then 1 else 0, if is_sig then s2\<lparr>signature_file := f\<rparr> else s2\<lparr>metadata_file := f\<rparr>))"

definition fwtool_option :: "char \<Rightarrow> bytes \<Rightarrow> fwtool \<Rightarrow> int \<times> fwtool" where
  "fwtool_option ch arg s =
     (if ch = CHR ''S'' then set_file True arg MODE_APPEND s
      else if ch = CHR ''I'' then set_file False arg MODE_APPEND s
      else if ch = CHR ''s'' then set_file True arg MODE_EXTRACT s
      else if ch = CHR ''i'' then set_file False arg MODE_EXTRACT s
      else if ch = CHR ''t'' then (0, s\<lparr>truncate_f := True\<rparr>)
      else (0, s))"

fun fwtool_options :: "(char \<times> bytes) list \<Rightarrow> fwtool \<Rightarrow> int \<times> fwtool" where
  "fwtool_options [] s = (0, s)"
| "fwtool_options ((ch, arg) # opts) s = (let (r, s1) = fwtool_option ch arg s in if r \<noteq> 0 then (r, s1) else fwtool_options opts s1)"

text \<open>Writing to an open file of which nothing was written yet.\<close>

definition write_out :: "(file_name \<times> bytes) option \<Rightarrow> bytes \<Rightarrow> file_system \<Rightarrow> file_system" where
  "write_out f b fls = (case f of None \<Rightarrow> fls | Some (n, _) \<Rightarrow> fls(n := map_option (\<lambda>c. c @ b) (fls n)))"

text \<open>\<open>main\<close>: the options as \<open>getopt\<close> gives them and the other arguments; the exit status and the files.\<close>

definition fwtool_main :: "abi \<Rightarrow> (nat \<Rightarrow> bytes option) \<Rightarrow> bytes \<Rightarrow> nat \<Rightarrow> (char \<times> bytes) list \<Rightarrow> bytes list \<Rightarrow> file_system \<Rightarrow> (int \<times> file_system) option" where
  "fwtool_main A alloc stack cap opts args fls =
     (let (r, s) = fwtool_options opts \<lparr>fs = fls, signature_file = None, metadata_file = None, file_mode = MODE_DEFAULT, truncate_f = False\<rparr>
      in if r \<noteq> 0 then Some (r, fs s)
         else if args = [] then Some (1, fs s)
         else if file_mode s = MODE_DEFAULT then Some (1, fs s)
         else if signature_file s \<noteq> None \<and> metadata_file s \<noteq> None then Some (1, fs s)
         else if file_mode s = MODE_APPEND
         then (let (ret, fw) = add_data A cap (map_option snd (metadata_file s)) (map_option snd (signature_file s)) (fs s (Path (hd args)))
               in Some (ret, (fs s)(Path (hd args) := fw)))
         else (let n = (if hd args = lit ''-'' then Stdin else Path (hd args))
               in case extract_data A alloc stack (truncate_f s) (n = Stdin) (signature_file s \<noteq> None) (metadata_file s \<noteq> None) (fs s n) of
                    None \<Rightarrow> None
                  | Some (ret, sg, md, fw) \<Rightarrow> Some (ret, write_out (metadata_file s) md (write_out (signature_file s) sg ((fs s)(n := fw))))))"
section \<open>The checksum is the CRC of the other tools\<close>

lemma filltable_step_bit: "filltable_step = crc_bit 0xedb88320"
proof
  fix c :: u32
  have "c AND 1 \<noteq> 0 \<longleftrightarrow> bit c 0" by (metis and_one_eq bit_0 odd_iff_mod_2_eq_one even_iff_mod_2_eq_zero zero_neq_one)
  then show "filltable_step c = crc_bit 0xedb88320 c" by (simp add: filltable_step_def crc_bit_def)
qed

lemma filltable_table: "crc32_filltable = crc32_table"
proof (rule nth_equalityI)
  have "length crc32_table = 256" unfolding mtd.tbl length_xor_span by simp
  then show l: "length crc32_filltable = length crc32_table" by (simp add: crc32_filltable_def)
  fix i
  assume "i < length crc32_filltable"
  then have "i < 256" by (simp add: crc32_filltable_def)
  then show "crc32_filltable ! i = crc32_table ! i" using mtd.tbl_nth [of i] by (simp add: crc32_filltable_def filltable_step_bit)
qed

lemma crc_index: "unat (ucast v XOR b) = unat ((v XOR ucast b) AND 0xff)" for v :: u32 and b :: byte
proof -
  have ff: "(0xff :: u32) = mask 8" by (simp add: mask_eq_exp_minus_1)
  have "ucast (ucast v XOR b :: byte) = ((v XOR ucast b) AND 0xff :: u32)"
    unfolding ff by (rule bit_word_eqI) (auto simp: bit_simps dest: bit_imp_le_length)
  then have "unat (ucast (ucast v XOR b :: byte) :: u32) = unat ((v XOR ucast b) AND 0xff)" by simp
  moreover have "unat (ucast x :: u32) = unat x" for x :: byte by transfer simp
  ultimately show ?thesis by simp
qed

lemma crc32_block_ref: "crc32_block v bs = crc_ref 0xedb88320 v bs"
  unfolding crc32_block_def filltable_table crc_index by (rule mtd.table_loop)

interpretation fwtool_stream: streaming crc32_block
  by unfold_locales (simp_all add: crc32_block_def)

section \<open>What appending writes\<close>

lemma trailer_update_crc_simps [simp]:
  "trailer_update_crc A tr [] = tr"
  "trailer_update_crc A (trailer_update_crc A tr a) b = trailer_update_crc A tr (a @ b)"
  "trailer_update_crc A (tr\<lparr>tr_size := n\<rparr>) a = (trailer_update_crc A tr a)\<lparr>tr_size := n\<rparr>"
  "tr_size (trailer_update_crc A tr a) = tr_size tr"
  by (simp_all add: trailer_update_crc_def fwtool_stream.upd_append fwtool_stream.upd_Nil)

lemma read_image_eq: "read_image A inp tr n = (trailer_update_crc A tr inp, n + length inp)"
proof (induction A inp tr n rule: read_image.induct)
  case (1 A inp tr n)
  show ?case
  proof (cases "inp = []")
    case False
    then show ?thesis using 1 by (simp add: read_image.simps [of A inp tr n] Let_def)
  qed (simp add: read_image.simps [of A "[]" tr n])
qed

definition at_end :: "cfile \<Rightarrow> bool" where
  "at_end f \<longleftrightarrow> fpos f = length (content f)"

lemma fwrite_end:
  assumes "at_end f"
  shows "at_end (snd (fwrite b f))" "\<exists>c. content (snd (fwrite b f)) = content f @ c" "fcap (snd (fwrite b f)) = fcap f"
    "fpos f + length b \<le> fcap f \<Longrightarrow> content (snd (fwrite b f)) = content f @ b"
  using assms by (auto simp: at_end_def fwrite_def Let_def put_def)

lemma append_data_ok:
  "\<lbrakk>at_end out; fpos out + length inp \<le> fcap out; int (length inp) \<le> maxlen\<rbrakk> \<Longrightarrow>
   \<exists>out'. append_data A inp out tr maxlen = (0, out', (trailer_update_crc A tr inp)\<lparr>tr_size := tr_size tr + of_nat (length inp)\<rparr>) \<and>
     at_end out' \<and> content out' = content out @ inp \<and> fcap out' = fcap out"
proof (induction A inp out tr maxlen rule: append_data.induct)
  case (1 A inp out tr maxlen)
  show ?case
  proof (cases "inp = []")
    case True
    then show ?thesis using 1(2) by (simp add: append_data.simps [of A "[]" out tr maxlen])
  next
    case False
    let ?b = "take 512 inp" and ?o = "snd (fwrite (take 512 inp) out)"
    have w: "at_end ?o" "content ?o = content out @ ?b" "fcap ?o = fcap out" using fwrite_end [OF 1(2)] 1(3) by auto
    have l: "length ?b + length (drop 512 inp) = length inp" by simp
    have "fpos ?o = fpos out + length ?b" using w(1,2) 1(2) by (simp add: at_end_def)
    then have pre: "at_end ?o" "fpos ?o + length (drop 512 inp) \<le> fcap ?o" "int (length (drop 512 inp)) \<le> maxlen - int (length ?b)"
      using w 1(3,4) l by linarith+
    have nn: "\<not> maxlen - int (length ?b) < 0" "?b \<noteq> []" using 1(4) False l by auto
    have n: "(of_nat (length ?b) :: u32) + of_nat (length (drop 512 inp)) = of_nat (length inp)" unfolding of_nat_add [symmetric] l ..
    have st: "append_data A inp out tr maxlen = append_data A (drop 512 inp) ?o (trailer_update_crc A (tr\<lparr>tr_size := tr_size tr + of_nat (length ?b)\<rparr>) ?b) (maxlen - int (length ?b))"
      using nn by (simp add: append_data.simps [of A inp out tr maxlen] Let_def)
    obtain out' where o: "append_data A (drop 512 inp) ?o (trailer_update_crc A (tr\<lparr>tr_size := tr_size tr + of_nat (length ?b)\<rparr>) ?b) (maxlen - int (length ?b)) =
        (0, out', (trailer_update_crc A (trailer_update_crc A (tr\<lparr>tr_size := tr_size tr + of_nat (length ?b)\<rparr>) ?b) (drop 512 inp))\<lparr>tr_size :=
          tr_size (trailer_update_crc A (tr\<lparr>tr_size := tr_size tr + of_nat (length ?b)\<rparr>) ?b) + of_nat (length (drop 512 inp))\<rparr>)"
      "at_end out'" "content out' = content ?o @ drop 512 inp" "fcap out' = fcap ?o"
      using 1(1) [OF refl refl nn(2,1) pre] by blast
    have "tr_size tr + of_nat (length ?b) + of_nat (length (drop 512 inp)) = tr_size tr + of_nat (length inp)" using n by (simp only: add.assoc)
    then show ?thesis using st o w by simp
  qed
qed

lemma append_data_long:
  "\<lbrakk>at_end out; 0 \<le> maxlen; maxlen < int (length inp)\<rbrakk> \<Longrightarrow> \<exists>out' tr' c. append_data A inp out tr maxlen = (1, out', tr') \<and> content out' = content out @ c"
proof (induction A inp out tr maxlen rule: append_data.induct)
  case (1 A inp out tr maxlen)
  let ?b = "take 512 inp" and ?o = "snd (fwrite (take 512 inp) out)"
  have ne: "?b \<noteq> []" using 1(3,4) by auto
  have l: "length ?b + length (drop 512 inp) = length inp" by simp
  show ?case
  proof (cases "maxlen - int (length ?b) < 0")
    case True
    then show ?thesis using ne by (auto simp: append_data.simps [of A inp out tr maxlen] Let_def)
  next
    case False
    have "int (length ?b) + int (length (drop 512 inp)) = int (length inp)" using l by linarith
    then have "maxlen - int (length ?b) < int (length (drop 512 inp))" using 1(4) by linarith
    then obtain out' tr' c where "append_data A (drop 512 inp) ?o (trailer_update_crc A (tr\<lparr>tr_size := tr_size tr + of_nat (length ?b)\<rparr>) ?b) (maxlen - int (length ?b)) = (1, out', tr')"
      "content out' = content ?o @ c"
      using 1(1) [OF refl refl ne False fwrite_end(1) [OF 1(2)]] False by force
    moreover obtain c1 where "content ?o = content out @ c1" using fwrite_end(2) [OF 1(2)] by blast
    ultimately show ?thesis using ne False by (auto simp: append_data.simps [of A inp out tr maxlen] Let_def)
  qed
qed

text \<open>A chunk: the data and a trailer whose CRC covers all before it.\<close>

definition chunk_trailer :: "byte \<Rightarrow> bytes \<Rightarrow> bytes \<Rightarrow> bytes" where
  "chunk_trailer ty data before =
     be32_enc FWIMAGE_MAGIC @ be32_enc (crc32_block 0xffffffff (before @ data)) @ ty # [0, 0, 0] @ be32_enc (of_nat (length data + 16))"

definition chunk :: "byte \<Rightarrow> bytes \<Rightarrow> bytes \<Rightarrow> bytes" where
  "chunk ty data before = data @ chunk_trailer ty data before"

lemma length_chunk [simp]: "length (chunk_trailer ty data before) = 16" "length (chunk ty data before) = length data + 16"
  by (simp_all add: chunk_def chunk_trailer_def)

lemma htonl_ones [simp]: "htonl A 0xffffffff = 0xffffffff"
  by (simp add: htonl_def bswap_32_def be32_enc_def le32_enc_def)

lemma append_chunk:
  assumes "at_end f" "length (content f) + 16 \<le> fcap f"
    and "tr = (trailer_update_crc A \<lparr>tr_magic = htonl A FWIMAGE_MAGIC, tr_crc32 = 0xffffffff, tr_type = ty, tr_pad = [0, 0, 0], tr_size = 0\<rparr> (before @ data))\<lparr>tr_size := of_nat (length data + 16)\<rparr>"
  shows "content (fst (append_trailer A f tr)) = content f @ chunk_trailer ty data before"
proof -
  have "trailer_enc A (tr\<lparr>tr_size := htonl A (tr_size tr)\<rparr>) = chunk_trailer ty data before"
    unfolding assms(3) by (simp add: trailer_enc_def trailer_update_crc_def native32_enc_htonl chunk_trailer_def del: of_nat_add)
  then show ?thesis using fwrite_end(4) [OF assms(1), of "chunk_trailer ty data before"] assms(1,2)
    by (simp add: append_trailer_def Let_def at_end_def)
qed

lemma add_data_metadata:
  assumes "length md \<le> 30 * 1024" "length img + length md + 24 \<le> cap"
  shows "add_data A cap (Some md) sg (Some img) = (0, Some (img @ chunk FWIMAGE_INFO (replicate 8 0 @ md) img))"
proof -
  let ?f = "\<lparr>content = img, fpos = length img, fcap = cap\<rparr>" and ?hdr = "replicate 8 0 :: bytes"
  let ?tr0 = "\<lparr>tr_magic = htonl A FWIMAGE_MAGIC, tr_crc32 = 0xffffffff, tr_type = 0, tr_pad = [0, 0, 0], tr_size = 0\<rparr>"
  let ?tr1 = "trailer_update_crc A ((trailer_update_crc A ?tr0 img)\<lparr>tr_type := FWIMAGE_INFO, tr_size := 8 + 16\<rparr>) ?hdr" and ?f1 = "snd (fwrite ?hdr ?f)"
  have f1: "at_end ?f1" "content ?f1 = img @ ?hdr" "fcap ?f1 = cap" using fwrite_end [of ?f ?hdr] assms(2) by (auto simp: at_end_def)
  have "at_end ?f1" "fpos ?f1 + length md \<le> fcap ?f1" "int (length md) \<le> METADATA_MAXLEN"
    using f1 assms by (auto simp: at_end_def METADATA_MAXLEN_def)
  then obtain f2 where f2: "append_data A md ?f1 ?tr1 METADATA_MAXLEN = (0, f2, (trailer_update_crc A ?tr1 md)\<lparr>tr_size := tr_size ?tr1 + of_nat (length md)\<rparr>)"
    "at_end f2" "content f2 = content ?f1 @ md" "fcap f2 = fcap ?f1" using append_data_ok by blast
  have tr: "(trailer_update_crc A ?tr1 md)\<lparr>tr_size := tr_size ?tr1 + of_nat (length md)\<rparr> =
     (trailer_update_crc A (?tr0\<lparr>tr_type := FWIMAGE_INFO\<rparr>) (img @ ?hdr @ md))\<lparr>tr_size := of_nat (length (?hdr @ md) + 16)\<rparr>"
    by (simp add: trailer_update_crc_def fwtool_stream.upd_append)
  have "content (fst (append_trailer A f2 ((trailer_update_crc A ?tr1 md)\<lparr>tr_size := tr_size ?tr1 + of_nat (length md)\<rparr>))) =
     content f2 @ chunk_trailer FWIMAGE_INFO (?hdr @ md) img"
    using f2 f1 assms(2) tr by (intro append_chunk) simp_all
  then show ?thesis using f2(1,3) f1(2)
    by (simp add: add_data_def read_image_eq add_metadata_def Let_def chunk_def split: prod.splits)
qed
lemma add_data_signature:
  assumes "length sg \<le> 1024" "length img + length sg + 16 \<le> cap"
  shows "add_data A cap None (Some sg) (Some img) = (0, Some (img @ chunk FWIMAGE_SIGNATURE sg img))"
proof -
  let ?f = "\<lparr>content = img, fpos = length img, fcap = cap\<rparr>"
  let ?tr0 = "\<lparr>tr_magic = htonl A FWIMAGE_MAGIC, tr_crc32 = 0xffffffff, tr_type = 0, tr_pad = [0, 0, 0], tr_size = 0\<rparr>"
  let ?tr1 = "(trailer_update_crc A ?tr0 img)\<lparr>tr_type := FWIMAGE_SIGNATURE, tr_size := 16\<rparr>"
  have "at_end ?f" "fpos ?f + length sg \<le> fcap ?f" "int (length sg) \<le> SIGNATURE_MAXLEN" using assms by (auto simp: at_end_def SIGNATURE_MAXLEN_def)
  then obtain f2 where f2: "append_data A sg ?f ?tr1 SIGNATURE_MAXLEN = (0, f2, (trailer_update_crc A ?tr1 sg)\<lparr>tr_size := tr_size ?tr1 + of_nat (length sg)\<rparr>)"
    "at_end f2" "content f2 = content ?f @ sg" "fcap f2 = fcap ?f" using append_data_ok by blast
  have tr: "(trailer_update_crc A ?tr1 sg)\<lparr>tr_size := tr_size ?tr1 + of_nat (length sg)\<rparr> =
     (trailer_update_crc A (?tr0\<lparr>tr_type := FWIMAGE_SIGNATURE\<rparr>) (img @ sg))\<lparr>tr_size := of_nat (length sg + 16)\<rparr>"
    by (simp add: trailer_update_crc_def fwtool_stream.upd_append)
  have "content (fst (append_trailer A f2 ((trailer_update_crc A ?tr1 sg)\<lparr>tr_size := tr_size ?tr1 + of_nat (length sg)\<rparr>))) =
     content f2 @ chunk_trailer FWIMAGE_SIGNATURE sg img"
    using f2 assms(2) tr by (intro append_chunk) simp_all
  then show ?thesis using f2(1,3)
    by (simp add: add_data_def read_image_eq add_signature_def Let_def chunk_def split: prod.splits)
qed

lemma add_data_refuses:
  assumes "case md of Some m \<Rightarrow> 30 * 1024 < length m | None \<Rightarrow> (case sg of Some g \<Rightarrow> 1024 < length g | None \<Rightarrow> False)"
  shows "add_data A cap md sg (Some img) = (1, Some img)"
proof -
  let ?f = "\<lparr>content = img, fpos = length img, fcap = cap\<rparr>"
  let ?tr = "trailer_update_crc A \<lparr>tr_magic = htonl A FWIMAGE_MAGIC, tr_crc32 = 0xffffffff, tr_type = 0, tr_pad = [0, 0, 0], tr_size = 0\<rparr> img"
  have e: "at_end ?f" by (simp add: at_end_def)
  have "\<exists>f' c. (case md of Some m \<Rightarrow> add_metadata A m ?f ?tr | None \<Rightarrow> if sg \<noteq> None then add_signature A sg ?f ?tr else (0, ?f)) = (1, f') \<and> content f' = img @ c"
  proof (cases md)
    case (Some m)
    let ?f1 = "snd (fwrite (replicate 8 0) ?f)"
    obtain c where c: "content ?f1 = img @ c" using fwrite_end(2) [OF e] by auto
    have "at_end ?f1" "0 \<le> METADATA_MAXLEN" "METADATA_MAXLEN < int (length m)" using fwrite_end(1) [OF e] assms Some by (simp_all add: METADATA_MAXLEN_def)
    then obtain f2 tr2 c2 where "append_data A m ?f1 (trailer_update_crc A (?tr\<lparr>tr_type := FWIMAGE_INFO, tr_size := 8 + 16\<rparr>) (replicate 8 0)) METADATA_MAXLEN = (1, f2, tr2)"
      "content f2 = content ?f1 @ c2" using append_data_long by blast
    then show ?thesis using Some c by (simp add: add_metadata_def Let_def)
  next
    case None
    then obtain g where g: "sg = Some g" "1024 < length g" using assms by (auto split: option.splits)
    have "at_end ?f" "0 \<le> SIGNATURE_MAXLEN" "SIGNATURE_MAXLEN < int (length g)" using e g by (simp_all add: SIGNATURE_MAXLEN_def)
    then obtain f2 tr2 c2 where "append_data A g ?f (?tr\<lparr>tr_type := FWIMAGE_SIGNATURE, tr_size := 16\<rparr>) SIGNATURE_MAXLEN = (1, f2, tr2)"
      "content f2 = content ?f @ c2" using append_data_long by blast
    then show ?thesis using None g by (simp add: add_signature_def Let_def)
  qed
  then obtain f' c where "(case md of Some m \<Rightarrow> add_metadata A m ?f ?tr | None \<Rightarrow> if sg \<noteq> None then add_signature A sg ?f ?tr else (0, ?f)) = (1, f')"
    "content f' = img @ c" by blast
  then show ?thesis by (cases md) (simp_all add: add_data_def read_image_eq Let_def)
qed

section \<open>What is left in the buffers\<close>

text \<open>The bytes of the file that the buffers still hold.\<close>

definition d_tail :: "data_buf \<Rightarrow> bytes" where
  "d_tail db = (case d_cur db of None \<Rightarrow> [] | Some c \<Rightarrow> (case d_prev db of None \<Rightarrow> [] | Some p \<Rightarrow> p) @ take (d_cur_len db) c)"

definition d_wf :: "data_buf \<Rightarrow> bool" where
  "d_wf db \<longleftrightarrow> (case d_cur db of
      None \<Rightarrow> d_prev db = None \<and> d_cur_len db = BUFLEN
    | Some c \<Rightarrow> length c = BUFLEN \<and> d_cur_len db \<le> BUFLEN \<and> (case d_prev db of None \<Rightarrow> True | Some p \<Rightarrow> length p = BUFLEN))"

text \<open>The buffers hold the end of the file \<open>f\<close>, and the checksum is that of the part before.\<close>

definition holds :: "data_buf \<Rightarrow> u32 \<Rightarrow> bytes \<Rightarrow> bool" where
  "holds db crc32 f \<longleftrightarrow> d_wf db \<and> d_file_len db = length f \<and> (\<exists>old. f = old @ d_tail db \<and> crc32 = crc32_block 0xffffffff old)"

lemma BUFLEN_pos [simp]: "0 < BUFLEN" "BUFLEN \<noteq> 0"
  by (simp_all add: BUFLEN_def)

lemma slice_none [simp]: "slice off 0 m = []"
  by (simp add: slice_def)

lemma remove_tail_ok:
  assumes "d_wf db" "d_cur db \<noteq> None" "n \<le> d_cur_len db"
  shows "d_wf (remove_tail db n)" "d_tail (remove_tail db n) = take (length (d_tail db) - n) (d_tail db)"
    "d_file_len (remove_tail db n) = d_file_len db - n" "d_tail (remove_tail db n) \<noteq> [] \<Longrightarrow> d_cur (remove_tail db n) \<noteq> None"
    "n < d_cur_len db \<Longrightarrow> d_cur (remove_tail db n) = d_cur db \<and> d_prev (remove_tail db n) = d_prev db \<and> d_cur_len (remove_tail db n) = d_cur_len db - n"
    "n = d_cur_len db \<Longrightarrow> d_cur (remove_tail db n) = d_prev db \<and> d_prev (remove_tail db n) = None \<and> d_cur_len (remove_tail db n) = BUFLEN"
  using assms by (auto simp: remove_tail_def d_wf_def d_tail_def Let_def min_def split: option.splits if_splits)

lemma extract_tail_ok:
  assumes wf: "d_wf db" "d_cur db \<noteq> None" and len: "len \<le> length (d_tail db)" "len \<le> BUFLEN" "len \<le> length dest"
  shows "\<exists>db'. extract_tail db dest (int len) = Some (0, put 0 (drop (length (d_tail db) - len) (d_tail db)) dest, db') \<and>
    d_wf db' \<and> d_tail db' = take (length (d_tail db) - len) (d_tail db) \<and> d_file_len db' = d_file_len db - len \<and> (d_tail db' \<noteq> [] \<longrightarrow> d_cur db' \<noteq> None)"
proof -
  obtain cur where cur: "d_cur db = Some cur" using wf(2) by auto
  let ?t = "d_tail db" and ?n = "min (d_cur_len db) len"
  have c: "length cur = BUFLEN" "d_cur_len db \<le> BUFLEN" using wf(1) cur by (auto simp: d_wf_def)
  note rt = remove_tail_ok [OF wf, of ?n]
  show ?thesis
  proof (cases "len < d_cur_len db")
    case True
    then have n: "?n = len" by simp
    have d: "d_cur (remove_tail db len) = Some cur" "d_cur_len (remove_tail db len) = d_cur_len db - len" using rt(5) True cur by (simp_all add: n)
    have "remove_tail (remove_tail db len) 0 = remove_tail db len" using d True by (simp add: remove_tail_def Let_def)
    moreover have "slice (d_cur_len db - len) len cur = drop (length ?t - len) ?t"
      using True c cur by (simp add: d_tail_def slice_def take_drop min_def)
    ultimately show ?thesis using rt(1-4) True d cur by (simp add: extract_tail_def n)
  next
    case False
    then have n: "?n = d_cur_len db" by simp
    let ?db1 = "remove_tail db (d_cur_len db)" and ?rest = "len - d_cur_len db"
    have d: "d_cur ?db1 = d_prev db" "d_cur_len ?db1 = BUFLEN" "d_prev ?db1 = None" using rt(6) by (simp_all add: n)
    have r1: "d_wf ?db1" "d_tail ?db1 = take (length ?t - d_cur_len db) ?t" "d_file_len ?db1 = d_file_len db - d_cur_len db" using rt(1-3) by (simp_all add: n)
    have sl: "slice 0 (d_cur_len db) cur = take (d_cur_len db) cur" by (simp add: slice_def)
    show ?thesis
    proof (cases "d_prev db")
      case None
      then have t: "?t = take (d_cur_len db) cur" using cur by (simp add: d_tail_def)
      then have rest: "len = d_cur_len db" using False len(1) c by simp
      have "remove_tail ?db1 0 = ?db1" using d by (simp add: remove_tail_def Let_def)
      then show ?thesis using rest None d r1 rt(4) cur t c by (simp add: extract_tail_def slice_def Let_def)
    next
      case (Some p)
      have p: "length p = BUFLEN" using wf(1) cur Some by (simp add: d_wf_def)
      have t: "?t = p @ take (d_cur_len db) cur" using cur Some by (simp add: d_tail_def)
      have rl: "?rest \<le> BUFLEN" using len(2) by simp
      note rr = remove_tail_ok [OF r1(1), of ?rest]
      have "put 0 (slice (BUFLEN - ?rest) ?rest p) (put ?rest (take (d_cur_len db) cur) dest) = put 0 (drop (BUFLEN - ?rest) p @ take (d_cur_len db) cur) dest"
        using rl p c False len(3) by (simp add: put_def slice_def)
      moreover have "drop (length ?t - len) ?t = drop (BUFLEN - ?rest) p @ take (d_cur_len db) cur"
        using False rl p c unfolding t by simp
      moreover have "take (length (d_tail ?db1) - ?rest) (d_tail ?db1) = take (length ?t - len) ?t"
        unfolding r1(2) using False p c t by (simp add: min_def)
      moreover have "extract_tail db dest (int len) = Some (0, put 0 (slice (BUFLEN - ?rest) ?rest p) (put ?rest (take (d_cur_len db) cur) dest), remove_tail ?db1 ?rest)"
        using d rl Some cur n by (simp add: extract_tail_def sl Let_def)
      ultimately show ?thesis using rr d rl Some r1(3) False by simp
    qed
  qed
qed
lemma tail_crc32_holds:
  assumes "holds db crc32 f" "d_cur db \<noteq> None"
  shows "tail_crc32 db crc32 = Some (crc32_block 0xffffffff f)"
  using assms by (auto simp: holds_def tail_crc32_def d_tail_def fwtool_stream.upd_append fwtool_stream.upd_Nil split: option.splits)

text \<open>The state of the reading loop: all buffers are full.\<close>

definition filling :: "data_buf \<Rightarrow> u32 \<Rightarrow> bytes \<Rightarrow> bool" where
  "filling db crc32 f \<longleftrightarrow> d_file_len db = length f \<and>
     (case d_cur db of
        None \<Rightarrow> d_prev db = None \<and> f = [] \<and> crc32 = 0xffffffff
      | Some c \<Rightarrow> length c = BUFLEN \<and>
          (case d_prev db of
             None \<Rightarrow> f = c \<and> crc32 = 0xffffffff
           | Some p \<Rightarrow> length p = BUFLEN \<and> (\<exists>old. f = old @ p @ c \<and> crc32 = crc32_block 0xffffffff old)))"

definition room :: "(nat \<Rightarrow> bytes option) \<Rightarrow> bool" where
  "room alloc \<longleftrightarrow> (\<forall>k. \<exists>b. alloc k = Some b \<and> length b = BUFLEN)"

lemma read_blocks_holds:
  "\<lbrakk>room alloc; filling db crc32 f\<rbrakk> \<Longrightarrow> \<exists>crc' db'. read_blocks alloc k crc32 db inp = Some (crc', db') \<and>
     holds db' crc' (f @ inp) \<and> d_cur db' \<noteq> None \<and> (d_tail db' = f @ inp \<or> BUFLEN \<le> length (d_tail db'))"
proof (induction alloc k crc32 db inp arbitrary: f rule: read_blocks.induct)
  case (1 alloc k crc32 db inp)
  obtain b crc k' where b: "(case d_prev db of Some b \<Rightarrow> (Some b, crc32_block crc32 b, k) | None \<Rightarrow> (alloc k, crc32, Suc k)) = (Some b, crc, k')"
    "length b = BUFLEN" "\<forall>p. d_prev db = Some p \<longrightarrow> crc = crc32_block crc32 p" "d_prev db = None \<longrightarrow> crc = crc32"
  proof (cases "d_prev db")
    case None
    obtain b where "alloc k = Some b" "length b = BUFLEN" using 1(2) unfolding room_def by blast
    then show ?thesis using None by (intro that [of b crc32 "Suc k"]) simp_all
  next
    case (Some p)
    then have "length p = BUFLEN" using 1(3) by (auto simp: filling_def split: option.splits)
    then show ?thesis using Some by (intro that [of p "crc32_block crc32 p" k]) simp_all
  qed
  define blk where "blk = take BUFLEN inp"
  define db' where "db' = \<lparr>d_cur = Some (put 0 blk b), d_prev = d_cur db, d_cur_len = length blk, d_file_len = d_file_len db + length blk\<rparr>"
  have lb: "length (put 0 blk b) = BUFLEN" "take (length blk) (put 0 blk b) = blk" using b(2) by (simp_all add: blk_def put_def min_def)
  have st: "read_blocks alloc k crc32 db inp = (if length blk = BUFLEN then read_blocks alloc k' crc db' (drop BUFLEN inp) else Some (crc, db'))"
    unfolding read_blocks.simps [of alloc k crc32 db inp] Let_def b(1) prod.case option.case by (simp add: db'_def blk_def)
  show ?case
  proof (cases "length blk = BUFLEN")
    case True
    then have "put 0 blk b = blk" using lb by simp
    then have "filling db' crc (f @ blk)" using 1(3) True b(3,4) unfolding filling_def db'_def
      by (auto simp: fwtool_stream.upd_append fwtool_stream.upd_Nil split: option.splits)
    moreover have "(f @ blk) @ drop BUFLEN inp = f @ inp" by (simp add: blk_def)
    moreover note 1(1) [OF b(1) [symmetric] refl refl, of b, OF refl blk_def, folded db'_def, OF refl True 1(2)]
    ultimately show ?thesis unfolding st using True by metis
  next
    case False
    then have "drop BUFLEN inp = []" "blk = inp" by (auto simp: blk_def)
    moreover have "d_tail db' = (case d_cur db of None \<Rightarrow> [] | Some c \<Rightarrow> c) @ blk" using lb by (simp add: d_tail_def db'_def)
    moreover have "d_wf db'" using lb 1(3) by (auto simp: d_wf_def db'_def filling_def blk_def split: option.splits)
    ultimately show ?thesis unfolding st using False 1(3) b(3,4)
      by (auto simp: holds_def filling_def db'_def fwtool_stream.upd_append fwtool_stream.upd_Nil split: option.splits)
  qed
qed
section \<open>Taking off a chunk\<close>

lemma suffix_of_tail:
  assumes "old @ t = x @ y" "length y \<le> length t"
  shows "drop (length t - length y) t = y" "x = old @ take (length t - length y) t"
proof -
  have "length x = length old + (length t - length y)" using arg_cong [OF assms(1), of length] assms(2) by simp
  then have "take (length old + (length t - length y)) (old @ t) = x" "drop (length old + (length t - length y)) (old @ t) = y"
    unfolding assms(1) by simp_all
  then show "drop (length t - length y) t = y" "x = old @ take (length t - length y) t" by simp_all
qed

lemma holds_extract:
  assumes h: "holds db crc32 (x @ y)" "d_cur db \<noteq> None" and l: "length y \<le> length (d_tail db)" "length y \<le> BUFLEN" "length y \<le> length dest"
  shows "\<exists>db'. extract_tail db dest (int (length y)) = Some (0, put 0 y dest, db') \<and> holds db' crc32 x \<and>
    d_tail db' = take (length (d_tail db) - length y) (d_tail db) \<and> (d_tail db' \<noteq> [] \<longrightarrow> d_cur db' \<noteq> None)"
proof -
  obtain old where old: "x @ y = old @ d_tail db" "crc32 = crc32_block 0xffffffff old" using h(1) by (auto simp: holds_def)
  note sf = suffix_of_tail [OF old(1) [symmetric] l(1)]
  obtain db' where "extract_tail db dest (int (length y)) = Some (0, put 0 (drop (length (d_tail db) - length y) (d_tail db)) dest, db')"
    "d_wf db'" "d_tail db' = take (length (d_tail db) - length y) (d_tail db)" "d_file_len db' = d_file_len db - length y" "d_tail db' \<noteq> [] \<longrightarrow> d_cur db' \<noteq> None"
    using extract_tail_ok [OF _ h(2) l] h(1) by (auto simp: holds_def)
  moreover have "d_file_len db - length y = length x" using h(1) by (simp add: holds_def)
  ultimately show ?thesis using sf old(2) by (auto simp: holds_def)
qed

lemma native32_dec_be: "native32_dec A (be32_enc w) = htonl A w"
  by (metis native32_dec_enc native32_enc_htonl)

lemma sint_of_nat_small: "n < 2 ^ 31 \<Longrightarrow> sint (of_nat n :: u32) = int n"
  by (simp add: signed_of_nat signed_take_bit_int_eq_self)

lemma trailer_dec_chunk:
  "tr_magic (trailer_dec A (chunk_trailer ty data p)) = htonl A FWIMAGE_MAGIC"
  "htonl A (tr_crc32 (trailer_dec A (chunk_trailer ty data p))) = crc32_block 0xffffffff (p @ data)"
  "tr_type (trailer_dec A (chunk_trailer ty data p)) = ty"
  "length data < 2 ^ 31 \<Longrightarrow> sint (htonl A (tr_size (trailer_dec A (chunk_trailer ty data p))) - 16) = int (length data)"
proof -
  obtain a b c d e f g h i j k l where e: "be32_enc FWIMAGE_MAGIC = [a, b, c, d]" "be32_enc (crc32_block 0xffffffff (p @ data)) = [e, f, g, h]"
    "be32_enc (of_nat (length data + 16)) = [i, j, k, l]"
    by (simp add: be32_enc_def le32_enc_def)
  then have "slice 0 4 (chunk_trailer ty data p) = be32_enc FWIMAGE_MAGIC" "slice 4 4 (chunk_trailer ty data p) = be32_enc (crc32_block 0xffffffff (p @ data))"
    "chunk_trailer ty data p ! 8 = ty" "slice 12 4 (chunk_trailer ty data p) = be32_enc (of_nat (length data + 16))"
    by (simp_all add: chunk_trailer_def slice_def del: of_nat_add)
  then show "tr_magic (trailer_dec A (chunk_trailer ty data p)) = htonl A FWIMAGE_MAGIC"
    "htonl A (tr_crc32 (trailer_dec A (chunk_trailer ty data p))) = crc32_block 0xffffffff (p @ data)"
    "tr_type (trailer_dec A (chunk_trailer ty data p)) = ty"
    "length data < 2 ^ 31 \<Longrightarrow> sint (htonl A (tr_size (trailer_dec A (chunk_trailer ty data p))) - 16) = int (length data)"
    by (simp_all add: trailer_dec_def native32_dec_be sint_of_nat_small)
qed

lemma extract_chunk:
  assumes h: "holds db crc32 (p @ chunk ty data p)" "d_cur db \<noteq> None" "length data + 16 \<le> length (d_tail db)" "16 < length (d_tail db)"
    and l: "length data \<le> BUFLEN" "length trb = 16" "length buf = BUFLEN"
  obtains db2 buf' where "holds db2 crc32 p" "d_tail db2 = take (length (d_tail db) - (length data + 16)) (d_tail db)" "d_tail db2 \<noteq> [] \<longrightarrow> d_cur db2 \<noteq> None"
    "length buf' = BUFLEN" "take (length data) buf' = data"
    "extract_loop A hs hm crc32 db trb buf =
       (if ty = FWIMAGE_SIGNATURE
        then if \<not> hs then extract_loop A hs hm crc32 db2 (chunk_trailer ty data p) buf' else Some (0, data, [], db2)
        else if ty = FWIMAGE_INFO
        then if \<not> hm then Some (1, [], [], db2)
             else if validate_metadata A buf' \<noteq> 0 then extract_loop A hs hm crc32 db2 (chunk_trailer ty data p) buf'
             else if length data < 8 then None else Some (0, [], drop 8 data, db2)
        else extract_loop A hs hm crc32 db2 (chunk_trailer ty data p) buf')"
proof -
  let ?t = "chunk_trailer ty data p"
  obtain db1 where e1: "extract_tail db trb 16 = Some (0, put 0 ?t trb, db1)" "holds db1 crc32 (p @ data)" "d_tail db1 = take (length (d_tail db) - 16) (d_tail db)"
    "d_tail db1 \<noteq> [] \<longrightarrow> d_cur db1 \<noteq> None"
    using holds_extract [of db crc32 "p @ data" ?t trb] h l by (auto simp: chunk_def BUFLEN_def)
  have t: "put 0 ?t trb = ?t" using l(2) by (simp add: put_def)
  have c1: "d_cur db1 \<noteq> None" using e1(3,4) h(4) by auto
  have l1: "length data \<le> length (d_tail db1)" using e1(3) h(3) by simp
  obtain db2 where e2: "extract_tail db1 buf (int (length data)) = Some (0, put 0 data buf, db2)" "holds db2 crc32 p"
    "d_tail db2 = take (length (d_tail db1) - length data) (d_tail db1)" "d_tail db2 \<noteq> [] \<longrightarrow> d_cur db2 \<noteq> None"
    using holds_extract [OF e1(2) c1, of buf] l1 l by auto
  have sz: "sint (htonl A (tr_size (trailer_dec A (chunk_trailer ty data p))) - 16) = int (length data)" for ty using l(1) by (intro trailer_dec_chunk) (simp add: BUFLEN_def)
  have pb: "length (put 0 data buf) = BUFLEN" "take (length data) (put 0 data buf) = data" using l by (simp_all add: put_def)
  have dr: "slice 8 (length data - 8) (put 0 data buf) = drop 8 data" by (simp add: slice_def put_def)
  have dt: "d_tail db2 = take (length (d_tail db) - (length data + 16)) (d_tail db)" unfolding e2(3) e1(3) using h(3) by (simp add: min_def add.commute)
  show thesis
  proof (rule that [OF e2(2) dt e2(4) pb])
    show "extract_loop A hs hm crc32 db trb buf =
       (if ty = FWIMAGE_SIGNATURE
        then if \<not> hs then extract_loop A hs hm crc32 db2 ?t (put 0 data buf) else Some (0, data, [], db2)
        else if ty = FWIMAGE_INFO
        then if \<not> hm then Some (1, [], [], db2)
             else if validate_metadata A (put 0 data buf) \<noteq> 0 then extract_loop A hs hm crc32 db2 ?t (put 0 data buf)
             else if length data < 8 then None else Some (0, [], drop 8 data, db2)
        else extract_loop A hs hm crc32 db2 ?t (put 0 data buf))"
      unfolding extract_loop.simps [of A hs hm crc32 db trb buf]
      using e1(1) e2(1) tail_crc32_holds [OF e1(2) c1] l(1) pb(2) dr
      by (simp add: t trailer_dec_chunk sz Let_def nat_diff_distrib)
  qed
qed
section \<open>Images with one and two chunks\<close>

lemma read_file:
  assumes "room alloc"
  shows "\<exists>crc' db. read_blocks alloc 1 0xffffffff \<lparr>d_cur = None, d_prev = None, d_cur_len = 0, d_file_len = 0\<rparr> f = Some (crc', db) \<and>
    holds db crc' f \<and> d_cur db \<noteq> None \<and> (d_tail db = f \<or> BUFLEN \<le> length (d_tail db))"
  using read_blocks_holds [OF assms, of "\<lparr>d_cur = None, d_prev = None, d_cur_len = 0, d_file_len = 0\<rparr>" "0xffffffff" "[]" 1 f]
  by (simp add: filling_def)

lemma validate_zeros: "8 \<le> length d \<Longrightarrow> take 8 d = replicate 8 0 \<Longrightarrow> take (length d) buf = d \<Longrightarrow> validate_metadata A buf = 0"
proof -
  assume a: "8 \<le> length d" "take 8 d = replicate 8 0" "take (length d) buf = d"
  have "slice 0 4 buf = take 4 (take 8 (take (length d) buf))" using a(1) by (simp add: slice_def min_def)
  also have "\<dots> = replicate 4 0" using a(2,3) by simp
  finally show ?thesis by (simp add: validate_metadata_def native32_dec_def be32_dec_def numeral_eq_Suc)
qed

lemma extract_signature:
  assumes "room alloc" "length stack = 16" "length sg \<le> 1024" "p @ sg \<noteq> []"
  shows "extract_data A alloc stack trunc False True False (Some (p @ chunk FWIMAGE_SIGNATURE sg p)) =
    Some (0, sg, [], Some (if trunc then p else p @ chunk FWIMAGE_SIGNATURE sg p))"
proof -
  let ?f = "p @ chunk FWIMAGE_SIGNATURE sg p"
  obtain buf where buf: "alloc 0 = Some buf" "length buf = BUFLEN" using assms(1) unfolding room_def by blast
  obtain crc db where r: "read_blocks alloc 1 0xffffffff \<lparr>d_cur = None, d_prev = None, d_cur_len = 0, d_file_len = 0\<rparr> ?f = Some (crc, db)"
    "holds db crc ?f" "d_cur db \<noteq> None" "d_tail db = ?f \<or> BUFLEN \<le> length (d_tail db)" using read_file [OF assms(1)] by blast
  have len: "length sg + 16 \<le> length (d_tail db)" "16 < length (d_tail db)" "length sg \<le> BUFLEN"
    using r(4) assms(3,4) by (auto simp: BUFLEN_def)
  obtain db2 where e: "holds db2 crc p" "extract_loop A True False crc db stack buf = Some (0, sg, [], db2)"
    using extract_chunk [OF r(2,3) len assms(2) buf(2)] by (metis (full_types))
  have "take (d_file_len db2) ?f = p" using e(1) by (simp add: holds_def)
  then show ?thesis using buf(1) r(1) e(2) by (simp add: extract_data_def)
qed
lemma extract_info:
  assumes h: "holds db crc (p @ chunk FWIMAGE_INFO (replicate 8 0 @ md) p)" "d_cur db \<noteq> None" "length md + 24 \<le> length (d_tail db)"
    and l: "length md \<le> 30 * 1024" "length trb = 16" "length buf = BUFLEN"
  shows "\<exists>db2. holds db2 crc p \<and> extract_loop A False True crc db trb buf = Some (0, [], md, db2)"
proof -
  let ?d = "replicate 8 0 @ md :: bytes"
  have len: "length ?d + 16 \<le> length (d_tail db)" "16 < length (d_tail db)" "length ?d \<le> BUFLEN" using h(3) l(1) by (auto simp: BUFLEN_def)
  obtain db2 buf' where e: "holds db2 crc p" "take (length ?d) buf' = ?d"
    "extract_loop A False True crc db trb buf =
       (if FWIMAGE_INFO = FWIMAGE_SIGNATURE
        then if \<not> False then extract_loop A False True crc db2 (chunk_trailer FWIMAGE_INFO ?d p) buf' else Some (0, ?d, [], db2)
        else if FWIMAGE_INFO = FWIMAGE_INFO
        then if \<not> True then Some (1, [], [], db2)
             else if validate_metadata A buf' \<noteq> 0 then extract_loop A False True crc db2 (chunk_trailer FWIMAGE_INFO ?d p) buf'
             else if length ?d < 8 then None else Some (0, [], drop 8 ?d, db2)
        else extract_loop A False True crc db2 (chunk_trailer FWIMAGE_INFO ?d p) buf')"
    using extract_chunk [OF h(1,2) len l(2,3)] by metis
  have "validate_metadata A buf' = 0" using e(2) by (intro validate_zeros [of ?d]) simp_all
  then have "extract_loop A False True crc db trb buf = Some (0, [], md, db2)" unfolding e(3) by (simp add: FWIMAGE_INFO_def FWIMAGE_SIGNATURE_def)
  then show ?thesis using e(1) by blast
qed

lemma extract_data_loop:
  assumes "alloc 0 = Some buf" "read_blocks alloc 1 0xffffffff \<lparr>d_cur = None, d_prev = None, d_cur_len = 0, d_file_len = 0\<rparr> (p @ c) = Some (crc, db)"
    and "extract_loop A hs hm crc db stack buf = Some (0, sg, md, db2)" "holds db2 crc p"
  shows "extract_data A alloc stack trunc False hs hm (Some (p @ c)) = Some (0, sg, md, Some (if trunc then p else p @ c))"
  using assms by (simp add: extract_data_def holds_def)

lemma extract_metadata:
  assumes "room alloc" "length stack = 16" "length md \<le> 30 * 1024"
  shows "extract_data A alloc stack trunc False False True (Some (p @ chunk FWIMAGE_INFO (replicate 8 0 @ md) p)) =
    Some (0, [], md, Some (if trunc then p else p @ chunk FWIMAGE_INFO (replicate 8 0 @ md) p))"
proof -
  let ?f = "p @ chunk FWIMAGE_INFO (replicate 8 0 @ md) p"
  obtain buf where buf: "alloc 0 = Some buf" "length buf = BUFLEN" using assms(1) unfolding room_def by blast
  obtain crc db where r: "read_blocks alloc 1 0xffffffff \<lparr>d_cur = None, d_prev = None, d_cur_len = 0, d_file_len = 0\<rparr> ?f = Some (crc, db)"
    "holds db crc ?f" "d_cur db \<noteq> None" "d_tail db = ?f \<or> BUFLEN \<le> length (d_tail db)" using read_file [OF assms(1)] by blast
  have "length md + 24 \<le> length (d_tail db)" using r(4) assms(3) by (auto simp: BUFLEN_def)
  then show ?thesis using extract_info [OF r(2,3) _ assms(3,2) buf(2)] extract_data_loop [OF buf(1) r(1)] by blast
qed

lemma extract_metadata_signed:
  assumes "room alloc" "length stack = 16" "length md \<le> 30 * 1024" "length sg \<le> 1024" and q: "q = p @ chunk FWIMAGE_INFO (replicate 8 0 @ md) p"
  shows "extract_data A alloc stack trunc False False True (Some (q @ chunk FWIMAGE_SIGNATURE sg q)) =
    Some (0, [], md, Some (if trunc then p else q @ chunk FWIMAGE_SIGNATURE sg q))"
proof -
  let ?f = "q @ chunk FWIMAGE_SIGNATURE sg q"
  obtain buf where buf: "alloc 0 = Some buf" "length buf = BUFLEN" using assms(1) unfolding room_def by blast
  obtain crc db where r: "read_blocks alloc 1 0xffffffff \<lparr>d_cur = None, d_prev = None, d_cur_len = 0, d_file_len = 0\<rparr> ?f = Some (crc, db)"
    "holds db crc ?f" "d_cur db \<noteq> None" "d_tail db = ?f \<or> BUFLEN \<le> length (d_tail db)" using read_file [OF assms(1)] by blast
  have len: "length sg + 16 \<le> length (d_tail db)" "16 < length (d_tail db)" "length sg \<le> BUFLEN" and
    tl: "length md + 24 + (length sg + 16) \<le> length (d_tail db)"
    using r(4) assms(3,4) q by (auto simp: BUFLEN_def)
  obtain db2 buf' where e: "holds db2 crc q" "d_tail db2 = take (length (d_tail db) - (length sg + 16)) (d_tail db)" "d_tail db2 \<noteq> [] \<longrightarrow> d_cur db2 \<noteq> None"
    "length buf' = BUFLEN" "extract_loop A False True crc db stack buf = extract_loop A False True crc db2 (chunk_trailer FWIMAGE_SIGNATURE sg q) buf'"
    using extract_chunk [OF r(2,3) len assms(2) buf(2), of A False True] by (metis (full_types))
  have t2: "length md + 24 \<le> length (d_tail db2)" using tl unfolding e(2) by simp
  have "d_cur db2 \<noteq> None" using e(3) t2 by auto
  from extract_info [OF e(1) [unfolded q] this t2 assms(3) length_chunk(1) e(4)] e(5)
  obtain db3 where d3: "holds db3 crc p" "extract_loop A False True crc db stack buf = Some (0, [], md, db3)" by metis
  show ?thesis using extract_data_loop [of alloc buf p "chunk FWIMAGE_INFO (replicate 8 0 @ md) p @ chunk FWIMAGE_SIGNATURE sg q"] buf(1) r(1) d3 q by simp
qed

lemma extract_changed:
  assumes "room alloc" "length stack = 16" "x \<noteq> y" "p @ data = xs @ x # ys" "length data < 2 ^ 31"
  shows "extract_data A alloc stack trunc False hs hm (Some (xs @ y # ys @ chunk_trailer ty data p)) = Some (1, [], [], Some (xs @ y # ys @ chunk_trailer ty data p))"
proof -
  let ?t = "chunk_trailer ty data p" and ?f = "(xs @ y # ys) @ chunk_trailer ty data p"
  obtain buf where buf: "alloc 0 = Some buf" "length buf = BUFLEN" using assms(1) unfolding room_def by blast
  obtain crc db where r: "read_blocks alloc 1 0xffffffff \<lparr>d_cur = None, d_prev = None, d_cur_len = 0, d_file_len = 0\<rparr> ?f = Some (crc, db)"
    "holds db crc ?f" "d_cur db \<noteq> None" "d_tail db = ?f \<or> BUFLEN \<le> length (d_tail db)" using read_file [OF assms(1)] by blast
  have len: "16 < length (d_tail db)" using r(4) by (auto simp: BUFLEN_def)
  obtain db1 where e: "extract_tail db stack 16 = Some (0, put 0 ?t stack, db1)" "holds db1 crc (xs @ y # ys)" "d_tail db1 = take (length (d_tail db) - 16) (d_tail db)"
    "d_tail db1 \<noteq> [] \<longrightarrow> d_cur db1 \<noteq> None" using holds_extract [of db crc "xs @ y # ys" ?t stack] r len assms(2) by (auto simp: BUFLEN_def)
  have c: "d_cur db1 \<noteq> None" using e(3,4) len by auto
  have t: "put 0 ?t stack = ?t" using assms(2) by (simp add: put_def)
  have "crc32_block 0xffffffff (xs @ x # ys) \<noteq> crc32_block 0xffffffff (xs @ y # ys)"
    using mtd.detects_byte [of "0xffffffff" xs x ys y] assms(3) by (auto simp: crc32_block_ref)
  then have "extract_loop A hs hm crc db stack buf = Some (1, [], [], db1)"
    using e(1) tail_crc32_holds [OF e(2) c] assms(4) unfolding extract_loop.simps [of A hs hm crc db stack buf]
    by (simp add: t trailer_dec_chunk Let_def)
  then show ?thesis using buf r(1) by (simp add: extract_data_def)
qed
section \<open>Properties\<close>

text \<open>C14. Appending and extracting metadata with the program, for images that stay below 2 GiB (\<open>file_len\<close> is an \<open>int\<close>), on machines of any byte order and across the boundaries of its buffers: \<open>fwtool -I m fw\<close>, \<open>m\<close> another file,
  succeeds and changes only the image, \<open>fwtool -i o fw\<close> then writes exactly the metadata to \<open>o\<close>, and with \<open>-t\<close> the image is again what it was.\<close>

theorem fwtool_metadata_roundtrip:
  assumes "fls (Path fw) = Some img" "fls (Path m) = Some md" "length md \<le> 30 * 1024" "length img + length md + 24 \<le> cap" "length img + length md + 24 < 2 ^ 31"
    and "m \<noteq> lit ''-''" "fw \<noteq> lit ''-''" "out \<noteq> lit ''-''" "out \<noteq> fw" "room alloc" "length stack = 16" "m \<noteq> fw"
  shows "\<exists>img'. fwtool_main A alloc stack cap [(CHR ''I'', m)] [fw] fls = Some (0, fls(Path fw \<mapsto> img')) \<and>
    fwtool_main B alloc stack cap [(CHR ''i'', out), (CHR ''t'', [])] [fw] (fls(Path fw \<mapsto> img')) = Some (0, fls(Path out \<mapsto> md)) \<and>
    fwtool_main B alloc stack cap [(CHR ''i'', out)] [fw] (fls(Path fw \<mapsto> img')) = Some (0, fls(Path fw \<mapsto> img', Path out \<mapsto> md))"
proof -
  let ?img = "img @ chunk FWIMAGE_INFO (replicate 8 0 @ md) img"
  have add: "fwtool_main A alloc stack cap [(CHR ''I'', m)] [fw] fls = Some (0, fls(Path fw \<mapsto> ?img))"
    using assms by (simp add: fwtool_main_def fwtool_option_def set_file_def open_file_def add_data_metadata Let_def)
  have ext: "fwtool_main B alloc stack cap ((CHR ''i'', out) # (if t then [(CHR ''t'', [])] else [])) [fw] (fls(Path fw \<mapsto> ?img)) =
      Some (0, (fls(Path fw \<mapsto> ?img))(Path fw \<mapsto> if t then img else ?img, Path out \<mapsto> md))" for t
    using assms extract_metadata [OF assms(10,11,3)]
    by (auto simp: fwtool_main_def fwtool_option_def set_file_def open_file_def write_out_def Let_def fun_upd_twist)
  have "fls(Path fw \<mapsto> img) = fls" using assms(1) by (simp add: fun_upd_idem)
  then show ?thesis using add ext [of True] ext [of False] assms(9) by (auto simp: fun_upd_twist)
qed

text \<open>For the examples, allocated buffers are filled with sevens.\<close>

definition demo_alloc :: "nat \<Rightarrow> bytes option" where
  "demo_alloc k = Some (replicate BUFLEN 7)"

definition demo_files :: file_system where
  "demo_files = [Path (lit ''fw'') \<mapsto> [1, 2, 3], Path (lit ''m'') \<mapsto> [9, 8]]"

lemma demo_room: "room demo_alloc"
  by (simp add: room_def demo_alloc_def)

theorem fwtool_metadata_roundtrip_witness:
  "\<exists>img'. fwtool_main x86_64 demo_alloc (replicate 16 5) 1000 [(CHR ''I'', lit ''m'')] [lit ''fw''] demo_files = Some (0, demo_files(Path (lit ''fw'') \<mapsto> img')) \<and>
    fwtool_main mips_be demo_alloc (replicate 16 5) 1000 [(CHR ''i'', lit ''o''), (CHR ''t'', [])] [lit ''fw''] (demo_files(Path (lit ''fw'') \<mapsto> img')) =
      Some (0, demo_files(Path (lit ''o'') \<mapsto> [9, 8]))"
proof -
  have f: "demo_files (Path (lit ''fw'')) = Some [1, 2, 3]" "demo_files (Path (lit ''m'')) = Some [9, 8]" by (simp_all add: demo_files_def lit_def)
  show ?thesis
    using fwtool_metadata_roundtrip [OF f, of 1000 "lit ''o''" demo_alloc "replicate 16 5" x86_64 mips_be] demo_room by (auto simp: lit_def)
qed

text \<open>C15. A signature over an image with metadata, together below 2 GiB: \<open>-s -t\<close> gives the signature and takes it off, down to what was signed; \<open>-i\<close> finds the metadata below the signature.\<close>

theorem fwtool_signed_image:
  assumes "length md \<le> 30 * 1024" "length sg \<le> 1024" "length img + length md + length sg + 40 \<le> cap" "room alloc" "length stack = 16"
    and "length img + length md + length sg + 40 < 2 ^ 31"
  shows "\<exists>f1 f2. add_data A cap (Some md) None (Some img) = (0, Some f1) \<and> add_data A cap None (Some sg) (Some f1) = (0, Some f2) \<and>
    extract_data B alloc stack True False True False (Some f2) = Some (0, sg, [], Some f1) \<and>
    extract_data B alloc stack False False False True (Some f2) = Some (0, [], md, Some f2) \<and>
    extract_data B alloc stack True False False True (Some f2) = Some (0, [], md, Some img)"
proof -
  let ?f1 = "img @ chunk FWIMAGE_INFO (replicate 8 0 @ md) img"
  let ?f2 = "?f1 @ chunk FWIMAGE_SIGNATURE sg ?f1"
  have "add_data A cap (Some md) None (Some img) = (0, Some ?f1)" using assms by (intro add_data_metadata) simp_all
  moreover have "add_data A cap None (Some sg) (Some ?f1) = (0, Some ?f2)" using assms by (intro add_data_signature) simp_all
  moreover have "extract_data B alloc stack True False True False (Some ?f2) = Some (0, sg, [], Some ?f1)"
    using extract_signature [OF assms(4,5,2), of ?f1 B True] by (simp add: chunk_def)
  ultimately show ?thesis
    using extract_metadata_signed [OF assms(4,5,1,2) refl, of B True img] extract_metadata_signed [OF assms(4,5,1,2) refl, of B False img] by auto
qed

theorem fwtool_signed_image_witness:
  "\<exists>f1 f2. add_data x86_64 1000 (Some [9, 8]) None (Some [1, 2, 3]) = (0, Some f1) \<and> add_data x86_64 1000 None (Some [4]) (Some f1) = (0, Some f2) \<and>
    extract_data mips_be demo_alloc (replicate 16 5) True False True False (Some f2) = Some (0, [4], [], Some f1)"
  using fwtool_signed_image [of "[9, 8]" "[4]" "[1, 2, 3]" 1000 demo_alloc "replicate 16 5" x86_64 mips_be] demo_room by auto

text \<open>Metadata or a signature that is too long is refused, and the image is what it was before, also when the disk ran full on the way.\<close>

theorem fwtool_refuses_long:
  assumes "30 * 1024 < length md"  "1024 < length sg"
  shows "add_data A cap (Some md) s (Some img) = (1, Some img) \<and> add_data A cap None (Some sg) (Some img) = (1, Some img)"
  using assms by (intro conjI add_data_refuses) simp_all

theorem fwtool_refuses_long_witness:
  "add_data mips_be 100 (Some (replicate 40000 1)) None (Some [1, 2, 3]) = (1, Some [1, 2, 3])"
  using fwtool_refuses_long [of "replicate 40000 1" "replicate 2000 1" mips_be 100 None "[1, 2, 3]"] by simp

text \<open>C16. A changed byte before the last trailer is found: nothing is extracted, the status is 1 and the image is not truncated.\<close>

theorem fwtool_detects_change:
  assumes "add_data A cap md sg (Some img) = (0, Some (xs @ x # ys))" "md \<noteq> None \<or> sg \<noteq> None" "length img + 40000 \<le> cap"
    and "16 \<le> length ys" "x \<noteq> y" "room alloc" "length stack = 16"
  shows "extract_data B alloc stack trunc False hs hm (Some (xs @ y # ys)) = Some (1, [], [], Some (xs @ y # ys))"
proof -
  obtain ty data where f: "xs @ x # ys = img @ chunk ty data img" "length data \<le> 31 * 1024"
  proof (cases md)
    case (Some m)
    then have "length m \<le> 30 * 1024" using assms(1) add_data_refuses [where md = md and sg = sg and A = A and cap = cap and img = img] by force
    then show ?thesis using that [of FWIMAGE_INFO "replicate 8 0 @ m"] add_data_metadata [of m img cap A sg] assms(1,3) Some by simp
  next
    case None
    then obtain g where g: "sg = Some g" using assms(2) by auto
    then have "length g \<le> 1024" using assms(1) add_data_refuses [where md = md and sg = sg and A = A and cap = cap and img = img] None by force
    then show ?thesis using that [of FWIMAGE_SIGNATURE g] add_data_signature [of g img cap A] assms(1,3) None g by simp
  qed
  define zs where "zs = take (length ys - 16) ys"
  have "(xs @ x # zs) @ drop (length ys - 16) ys = (img @ data) @ chunk_trailer ty data img" using f(1) by (simp add: zs_def chunk_def)
  moreover have "length (drop (length ys - 16) ys) = length (chunk_trailer ty data img)" using assms(4) by simp
  ultimately have e: "img @ data = xs @ x # zs" "drop (length ys - 16) ys = chunk_trailer ty data img" using append_eq_append_conv by metis+
  then have "xs @ y # ys = xs @ y # zs @ chunk_trailer ty data img" by (metis append_take_drop_id zs_def)
  then show ?thesis using extract_changed [OF assms(6,7,5) e(1)] f(2) by simp
qed

theorem fwtool_detects_change_witness:
  "\<exists>ys. add_data x86_64 50000 None (Some [4]) (Some [1, 2, 3]) = (0, Some ([] @ 1 # ys)) \<and>
    extract_data mips_be demo_alloc (replicate 16 5) False False True False (Some ([] @ 0 # ys)) = Some (1, [], [], Some ([] @ 0 # ys))"
proof -
  have a: "add_data x86_64 50000 None (Some [4]) (Some [1, 2, 3]) = (0, Some ([] @ 1 # [2, 3] @ chunk FWIMAGE_SIGNATURE [4] [1, 2, 3]))"
    using add_data_signature [of "[4]" "[1, 2, 3]" 50000 x86_64] by simp
  have "extract_data mips_be demo_alloc (replicate 16 5) False False True False (Some ([] @ 0 # [2, 3] @ chunk FWIMAGE_SIGNATURE [4] [1, 2, 3])) =
      Some (1, [], [], Some ([] @ 0 # [2, 3] @ chunk FWIMAGE_SIGNATURE [4] [1, 2, 3]))"
    by (rule fwtool_detects_change [OF a]) (simp_all add: demo_room)
  then show ?thesis using a by blast
qed

text \<open>Trailers with arbitrary fields.\<close>

definition some_trailer :: "u32 \<Rightarrow> byte \<Rightarrow> u32 \<Rightarrow> bytes" where
  "some_trailer crc ty n = be32_enc FWIMAGE_MAGIC @ be32_enc crc @ ty # [0, 0, 0] @ be32_enc n"

lemma some_trailer_dec:
  "length (some_trailer crc ty n) = 16" "tr_magic (trailer_dec A (some_trailer crc ty n)) = htonl A FWIMAGE_MAGIC"
  "htonl A (tr_crc32 (trailer_dec A (some_trailer crc ty n))) = crc" "htonl A (tr_size (trailer_dec A (some_trailer crc ty n))) = n"
proof -
  show "length (some_trailer crc ty n) = 16" by (simp add: some_trailer_def)
  obtain a b c d e f g h i j k l where e: "be32_enc FWIMAGE_MAGIC = [a, b, c, d]" "be32_enc crc = [e, f, g, h]" "be32_enc n = [i, j, k, l]"
    by (simp add: be32_enc_def le32_enc_def)
  then have "slice 0 4 (some_trailer crc ty n) = be32_enc FWIMAGE_MAGIC" "slice 4 4 (some_trailer crc ty n) = be32_enc crc" "slice 12 4 (some_trailer crc ty n) = be32_enc n"
    by (simp_all add: some_trailer_def slice_def)
  then show "tr_magic (trailer_dec A (some_trailer crc ty n)) = htonl A FWIMAGE_MAGIC"
    "htonl A (tr_crc32 (trailer_dec A (some_trailer crc ty n))) = crc" "htonl A (tr_size (trailer_dec A (some_trailer crc ty n))) = n"
    by (simp_all add: trailer_dec_def native32_dec_be)
qed

lemma extract_tail_last:
  assumes "holds db crc f" "d_tail db = f" "d_cur db \<noteq> None" "length f = 16" "length trb = 16"
  shows "\<exists>db1. extract_tail db trb 16 = Some (0, f, db1) \<and> d_cur db1 = None"
proof -
  obtain cur where cur: "d_cur db = Some cur" "length cur = BUFLEN" "d_cur_len db \<le> BUFLEN" using assms(1,3) by (auto simp: holds_def d_wf_def)
  have "d_prev db = None"
  proof (rule ccontr)
    assume "d_prev db \<noteq> None"
    then obtain p where "d_prev db = Some p" "length p = BUFLEN" using assms(1) cur by (auto simp: holds_def d_wf_def)
    then show False using assms(2,4) cur by (auto simp: d_tail_def BUFLEN_def)
  qed
  then have n: "d_cur_len db = 16" "take 16 cur = f" using assms(2,4) cur by (auto simp: d_tail_def)
  have "remove_tail db 16 = db\<lparr>d_cur := None, d_prev := None, d_cur_len := BUFLEN, d_file_len := d_file_len db - 16\<rparr>"
    using n \<open>d_prev db = None\<close> by (simp add: remove_tail_def)
  moreover have "remove_tail (db\<lparr>d_cur := None, d_prev := None, d_cur_len := BUFLEN, d_file_len := k\<rparr>) 0 = db\<lparr>d_cur := None, d_prev := None, d_cur_len := BUFLEN, d_file_len := k\<rparr>" for k
    by (simp add: remove_tail_def)
  ultimately show ?thesis using n cur assms(4,5) by (simp add: extract_tail_def Let_def slice_def put_def)
qed

lemma extract_only_trailer:
  assumes "room alloc" "length stack = 16"
  shows "extract_data A alloc stack trunc False hs hm (Some (some_trailer crc ty n)) = None"
proof -
  let ?f = "some_trailer crc ty n"
  obtain buf where buf: "alloc 0 = Some buf" using assms(1) unfolding room_def by blast
  obtain c db where r: "read_blocks alloc 1 0xffffffff \<lparr>d_cur = None, d_prev = None, d_cur_len = 0, d_file_len = 0\<rparr> ?f = Some (c, db)"
    "holds db c ?f" "d_cur db \<noteq> None" "d_tail db = ?f \<or> BUFLEN \<le> length (d_tail db)" using read_file [OF assms(1)] by blast
  have "length (d_tail db) \<le> 16" using r(2) some_trailer_dec(1) [of crc ty n] by (auto simp: holds_def)
  then have t: "d_tail db = ?f" using r(4) by (simp add: BUFLEN_def)
  obtain db1 where "extract_tail db stack 16 = Some (0, ?f, db1)" "d_cur db1 = None"
    using extract_tail_last [OF r(2) t r(3) some_trailer_dec(1) assms(2)] by blast
  then have "extract_loop A hs hm c db stack buf = None"
    unfolding extract_loop.simps [of A hs hm c db stack buf] by (simp add: some_trailer_dec tail_crc32_def Let_def)
  then show ?thesis using buf r(1) by (simp add: extract_data_def)
qed

lemma extract_small_size:
  assumes "room alloc" "length stack = 16" "img \<noteq> []" "n < 16"
  shows "extract_data A alloc stack trunc False hs hm (Some (img @ some_trailer (crc32_block 0xffffffff img) ty (of_nat n))) = None"
proof -
  let ?t = "some_trailer (crc32_block 0xffffffff img) ty (of_nat n)"
  obtain buf where buf: "alloc 0 = Some buf" using assms(1) unfolding room_def by blast
  obtain c db where r: "read_blocks alloc 1 0xffffffff \<lparr>d_cur = None, d_prev = None, d_cur_len = 0, d_file_len = 0\<rparr> (img @ ?t) = Some (c, db)"
    "holds db c (img @ ?t)" "d_cur db \<noteq> None" "d_tail db = img @ ?t \<or> BUFLEN \<le> length (d_tail db)" using read_file [OF assms(1)] by blast
  have len: "16 < length (d_tail db)" using r(4) assms(3) by (auto simp: BUFLEN_def some_trailer_dec)
  obtain db1 where e: "extract_tail db stack 16 = Some (0, put 0 ?t stack, db1)" "holds db1 c img" "d_tail db1 = take (length (d_tail db) - 16) (d_tail db)"
    "d_tail db1 \<noteq> [] \<longrightarrow> d_cur db1 \<noteq> None" using holds_extract [of db c img ?t stack] r len assms(2) by (auto simp: BUFLEN_def some_trailer_dec)
  have cur: "d_cur db1 \<noteq> None" using e(3,4) len by auto
  have t: "put 0 ?t stack = ?t" using assms(2) by (simp add: put_def some_trailer_dec)
  have "(of_nat n - 16 :: u32) = of_int (int n - 16)" by simp
  then have neg: "sint (of_nat n - 16 :: u32) < 0" using assms(4) by (simp only: signed_of_int) (simp add: signed_take_bit_int_eq_self)
  then have "extract_tail db1 buf (sint (of_nat n - 16 :: u32)) = None" using cur by (auto simp: extract_tail_def)
  moreover have "\<not> int BUFLEN < sint (of_nat n - 16 :: u32)" using neg by simp
  ultimately have "extract_loop A hs hm c db stack buf = None"
    using e(1) tail_crc32_holds [OF e(2) cur] unfolding extract_loop.simps [of A hs hm c db stack buf] by (simp add: t some_trailer_dec Let_def)
  then show ?thesis using buf r(1) by (simp add: extract_data_def)
qed

text \<open>C17. Two kinds of images make the program access memory outside of its buffers: a file that is only a trailer, and an image whose trailer has a correct checksum and a
  size field below 16, its own size.\<close>

theorem fwtool_faults:
  assumes "room alloc" "length stack = 16" "img \<noteq> []" "n < 16"
  shows "extract_data A alloc stack trunc False hs hm (Some (some_trailer crc ty sz)) = None \<and>
    extract_data A alloc stack trunc False hs hm (Some (img @ some_trailer (crc32_block 0xffffffff img) ty (of_nat n))) = None"
  using extract_only_trailer [OF assms(1,2)] extract_small_size [OF assms] by blast

theorem fwtool_faults_witness:
  "extract_data mips_be demo_alloc (replicate 16 5) False False True False (Some ([1] @ some_trailer (crc32_block 0xffffffff [1]) 0 (of_nat 3))) = None"
  using fwtool_faults [OF demo_room, of "replicate 16 5" "[1]" 3 mips_be False True False 0 0 0] by simp
end
