(* ===== verification/Mtdsplit.thy ===== *)
theory Mtdsplit
  imports Stdio
begin

text \<open>
  The kernel's firmware partition parsers, \<^verbatim>\<open>target/linux/generic/files/drivers/mtd/mtdsplit/\<close>: where in a flash device the
  kernel and the root file system of a firmware image are.

  \<open>mtd_read\<close>, and for a partition its place in its parent, are the kernel's: a device is a record with its size, its
  erase size and its read function, an argument of every parser. A parser returns an error or the partitions.
  \<open>size_t\<close> arithmetic wraps at \<open>ulong_bits\<close>, and the products of \<open>mtd_roundup_to_eb\<close> and \<open>mtd_rounddown_to_eb\<close> are of \<open>uint32_t\<close>. The
  loops over all erase blocks of a device are lists of offsets, which do not wrap. The search for the root file system ends where its offset would not grow: there
  the kernel starts again from a lower block, and may not end. The theorems on what it finds are about devices below 4 GiB, where neither happens. Allocation succeeds.
\<close>

section \<open>Devices\<close>

record mtd_info =
  m_size :: nat
  m_erasesize :: nat
  m_read :: "nat \<Rightarrow> nat \<Rightarrow> int \<times> bytes"
  m_parent_erasesize :: nat
  m_part_offset :: nat

record mtd_partition =
  p_name :: bytes
  p_offset :: nat
  p_size :: nat

datatype mtdsplit_part_type = PART_TYPE_UNK | PART_TYPE_SQUASHFS | PART_TYPE_JFFS2 | PART_TYPE_UBI

definition KERNEL_PART_NAME :: bytes where "KERNEL_PART_NAME = lit ''kernel''"
definition ROOTFS_PART_NAME :: bytes where "ROOTFS_PART_NAME = lit ''rootfs''"
definition UBI_PART_NAME :: bytes where "UBI_PART_NAME = lit ''ubi''"
definition ROOTFS_SPLIT_NAME :: bytes where "ROOTFS_SPLIT_NAME = lit ''rootfs_data''"

definition SQUASHFS_MAGIC :: u32 where "SQUASHFS_MAGIC = 0x73717368"
definition UBI_EC_MAGIC :: u32 where "UBI_EC_MAGIC = 0x55424923"

text \<open>A read of \<open>len\<close> bytes that has to give them all: the error of \<open>mtd_read\<close>, or \<open>-EIO\<close> for a short read.\<close>

definition read_header :: "mtd_info \<Rightarrow> nat \<Rightarrow> nat \<Rightarrow> int + bytes" where
  "read_header d offset len =
     (let (ret, b) = m_read d offset len
      in if ret \<noteq> 0 then Inl ret else if length b \<noteq> len then Inl (-5) else Inr b)"

text \<open>The products are of \<open>uint32_t\<close>, in a function of \<open>uint64_t\<close>.\<close>

definition mtd_rounddown_to_eb :: "nat \<Rightarrow> nat \<Rightarrow> nat" where
  "mtd_rounddown_to_eb sz eb = (if sz mod eb = 0 then sz else (sz div eb * eb) mod 2 ^ 32)"

definition mtd_roundup_to_eb :: "nat \<Rightarrow> nat \<Rightarrow> nat" where
  "mtd_roundup_to_eb sz eb = (if sz mod eb = 0 then sz else ((sz div eb + 1) * eb) mod 2 ^ 32)"

definition mtd_next_eb :: "abi \<Rightarrow> mtd_info \<Rightarrow> nat \<Rightarrow> nat" where
  "mtd_next_eb A d offset = size_add A (mtd_rounddown_to_eb offset (m_erasesize d)) (m_erasesize d)"

definition le64_nat :: "bytes \<Rightarrow> nat" where
  "le64_nat b = unat (le32_dec (slice 0 4 b)) + 2 ^ 32 * unat (le32_dec (slice 4 4 b))"

text \<open>Subtraction of \<open>uint64_t\<close>.\<close>

definition u64_sub :: "nat \<Rightarrow> nat \<Rightarrow> nat" where
  "u64_sub x y = (x + (2 ^ 64 - y mod 2 ^ 64)) mod 2 ^ 64"

section \<open>Finding the root file system\<close>

definition mtd_get_squashfs_len :: "abi \<Rightarrow> mtd_info \<Rightarrow> nat \<Rightarrow> int + nat" where
  "mtd_get_squashfs_len A d offset =
     (let (err, b) = m_read d offset 48
      in if err \<noteq> 0 \<or> length b \<noteq> 48 then Inl (-5)
         else if le32_dec (slice 0 4 b) \<noteq> SQUASHFS_MAGIC then Inl (-22)
         else let len = le64_nat (slice 40 8 b) mod 2 ^ ulong_bits A
              in if len = 0 then Inl (-19)
                 else if size_add A offset len > m_size d then Inl (-22)
                 else Inr len)"

definition mtd_check_rootfs_magic :: "abi \<Rightarrow> mtd_info \<Rightarrow> nat \<Rightarrow> int + mtdsplit_part_type" where
  "mtd_check_rootfs_magic A d offset =
     (case read_header d offset 4 of
        Inl e \<Rightarrow> Inl e
      | Inr b \<Rightarrow>
          if le32_dec b = SQUASHFS_MAGIC then Inr PART_TYPE_SQUASHFS
          else if native32_dec A b = 0x19852003 then Inr PART_TYPE_JFFS2
          else if be32_dec b = UBI_EC_MAGIC then Inr PART_TYPE_UBI
          else Inl (-22))"

text \<open>The search, an erase block at a time; the limit is passed as a \<open>size_t\<close>. The last test is not in the code: without it the loop goes on at a lower offset when
  the arithmetic wraps.\<close>

function mtd_find_rootfs_from :: "abi \<Rightarrow> mtd_info \<Rightarrow> nat \<Rightarrow> nat \<Rightarrow> int + nat \<times> mtdsplit_part_type" where
  "mtd_find_rootfs_from A d offset limit =
     (if offset < limit mod 2 ^ ulong_bits A
      then case mtd_check_rootfs_magic A d offset of
          Inr ty \<Rightarrow> Inr (offset, ty)
        | Inl _ \<Rightarrow> if offset < mtd_next_eb A d offset then mtd_find_rootfs_from A d (mtd_next_eb A d offset) limit else Inl (-19)
      else Inl (-19))"
  by pat_completeness auto
termination
  by (relation "measure (\<lambda>(A, d, offset, limit). limit mod 2 ^ ulong_bits A - offset)") auto

declare mtd_find_rootfs_from.simps [simp del]

definition kernel_part :: "nat \<Rightarrow> nat \<Rightarrow> mtd_partition" where
  "kernel_part offset len = \<lparr>p_name = KERNEL_PART_NAME, p_offset = offset, p_size = len\<rparr>"

definition rootfs_part :: "nat \<Rightarrow> nat \<Rightarrow> mtd_partition" where
  "rootfs_part offset len = \<lparr>p_name = ROOTFS_PART_NAME, p_offset = offset, p_size = len\<rparr>"

definition typed_rootfs_part :: "mtdsplit_part_type \<Rightarrow> nat \<Rightarrow> nat \<Rightarrow> mtd_partition" where
  "typed_rootfs_part ty offset len =
     \<lparr>p_name = (if ty = PART_TYPE_UBI then UBI_PART_NAME else ROOTFS_PART_NAME), p_offset = offset, p_size = len\<rparr>"

section \<open>The squashfs splitter\<close>

text \<open>The partition after the squashfs; its arithmetic is in \<open>uint64_t\<close>.\<close>

definition mtdsplit_parse_squashfs :: "abi \<Rightarrow> mtd_info \<Rightarrow> int + mtd_partition list" where
  "mtdsplit_parse_squashfs A d =
     (case mtd_get_squashfs_len A d 0 of
        Inl e \<Rightarrow> Inl e
      | Inr len \<Rightarrow>
          let off = u64_sub (mtd_roundup_to_eb (size_add A (m_part_offset d) len) (m_parent_erasesize d)) (m_part_offset d)
          in Inr [\<lparr>p_name = ROOTFS_SPLIT_NAME, p_offset = off,
                p_size = mtd_rounddown_to_eb (u64_sub (m_size d) off) (m_erasesize d)\<rparr>])"

section \<open>TRX\<close>

definition TRX_MAGIC32 :: u32 where "TRX_MAGIC32 = 0x30524448"

text \<open>The state of a search loop: the size found, 0 at the start of every round, the offset and the header. The loop
  also ends, with the size of the last block's image, if that image exceeds the device.\<close>

record trx_scan =
  ts_size :: nat
  ts_offset :: nat
  ts_hdr :: bytes

text \<open>One round at \<open>offset\<close>: \<open>True\<close> for \<open>break\<close>.\<close>

definition trx_round :: "abi \<Rightarrow> mtd_info \<Rightarrow> nat \<Rightarrow> bytes \<Rightarrow> bool \<times> nat \<times> bytes" where
  "trx_round A d offset hdr =
     (case read_header d offset 32 of
        Inl _ \<Rightarrow> (False, 0, hdr)
      | Inr b \<Rightarrow>
          if le32_dec (slice 0 4 b) \<noteq> TRX_MAGIC32 then (False, 0, b)
          else let trx_size = unat (le32_dec (slice 4 4 b))
               in (\<not> size_add A offset trx_size > m_size d, trx_size, b))"

fun trx_scan_loop :: "abi \<Rightarrow> mtd_info \<Rightarrow> nat list \<Rightarrow> trx_scan \<Rightarrow> trx_scan" where
  "trx_scan_loop A d [] s = s\<lparr>ts_offset := (m_size d + m_erasesize d - 1) div m_erasesize d * m_erasesize d\<rparr>"
| "trx_scan_loop A d (offset # offsets) s =
     (let (brk, sz, hdr) = trx_round A d offset (ts_hdr s); s' = \<lparr>ts_size = sz, ts_offset = offset, ts_hdr = hdr\<rparr>
      in if brk then s' else trx_scan_loop A d offsets s')"

text \<open>The offsets \<open>0, erasesize, ...\<close> below the size of the device.\<close>

definition eb_offsets :: "mtd_info \<Rightarrow> nat list" where
  "eb_offsets d = map (\<lambda>i. i * m_erasesize d) [0..<(m_size d + m_erasesize d - 1) div m_erasesize d]"

definition mtdsplit_parse_trx :: "abi \<Rightarrow> mtd_info \<Rightarrow> int + mtd_partition list" where
  "mtdsplit_parse_trx A d =
     (let s = trx_scan_loop A d (eb_offsets d) \<lparr>ts_size = 0, ts_offset = 0, ts_hdr = []\<rparr>;
          off = (\<lambda>i. unat (native32_dec A (slice (16 + 4 * i) 4 (ts_hdr s))))
      in if ts_size s = 0 then Inl (-19)
         else let trx_offset = size_add A (ts_offset s) (off 0); rootfs_offset = size_add A (ts_offset s) (off 1);
                  rootfs_size = size_sub A (m_size d) rootfs_offset; trx_size = size_sub A rootfs_offset trx_offset
              in if rootfs_size = 0 then Inl (-19)
                 else Inr [kernel_part trx_offset trx_size, rootfs_part rootfs_offset rootfs_size])"

section \<open>Seama\<close>

definition SEAMA_MAGIC :: u32 where "SEAMA_MAGIC = 0x5EA3A417"
definition SEAMA_MIN_ROOTFS_OFFS :: nat where "SEAMA_MIN_ROOTFS_OFFS = 0x80000"

definition mtdsplit_parse_seama :: "abi \<Rightarrow> mtd_info \<Rightarrow> int + mtd_partition list" where
  "mtdsplit_parse_seama A d =
     (case read_header d 0 28 of
        Inl e \<Rightarrow> Inl e
      | Inr h \<Rightarrow>
          if be32_dec (slice 0 4 h) \<noteq> SEAMA_MAGIC then Inl (-22)
          else let metasize = unat (be16_dec (slice 6 2 h));
                   kernel_ent_size = size_add A (size_add A 28 (unat (be32_dec (slice 8 4 h)))) metasize
               in if kernel_ent_size > m_size d then Inl (-22)
                  else case (case mtd_check_rootfs_magic A d kernel_ent_size of
                               Inr ty \<Rightarrow> Inr (kernel_ent_size, ty)
                             | Inl _ \<Rightarrow> mtd_find_rootfs_from A d SEAMA_MIN_ROOTFS_OFFS (m_size d)) of
                      Inl e \<Rightarrow> Inl e
                    | Inr (rootfs_offset, ty) \<Rightarrow>
                        Inr [kernel_part (28 + metasize) (u64_sub rootfs_offset (28 + metasize)),
                             typed_rootfs_part ty rootfs_offset (u64_sub (m_size d) rootfs_offset)])"

section \<open>TP-Link\<close>

definition TPLINK_MIN_ROOTFS_OFFS :: nat where "TPLINK_MIN_ROOTFS_OFFS = 0x80000"

text \<open>The header is 512 bytes. The two versions have their fields at different offsets: kernel offset, kernel length,
  root file system offset.\<close>

definition tplink_fields :: "bytes \<Rightarrow> (u32 \<times> u32 \<times> u32) option" where
  "tplink_fields h =
     (let v = le32_dec (slice 0 4 h)
      in if v = 1 then Some (be32_dec (slice 128 4 h), be32_dec (slice 132 4 h), be32_dec (slice 136 4 h))
         else if v = 2 \<or> v = 3 then Some (be32_dec (slice 116 4 h), be32_dec (slice 120 4 h), be32_dec (slice 124 4 h))
         else None)"

definition mtdsplit_parse_tplink :: "abi \<Rightarrow> mtd_info \<Rightarrow> int + mtd_partition list" where
  "mtdsplit_parse_tplink A d =
     (case read_header d 0 512 of
        Inl e \<Rightarrow> Inl e
      | Inr h \<Rightarrow>
          (case tplink_fields h of
             None \<Rightarrow> Inl (-22)
           | Some (kernel_ofs, kernel_len, rootfs_ofs) \<Rightarrow>
               if unat kernel_ofs \<noteq> 512 then Inl (-22)
               else let kernel_size = size_add A 512 (unat kernel_len)
                    in if kernel_size > m_size d then Inl (-22)
                       else case (case mtd_check_rootfs_magic A d (unat rootfs_ofs) of
                                    Inr ty \<Rightarrow> Inr (unat rootfs_ofs, ty)
                                  | Inl _ \<Rightarrow> mtd_find_rootfs_from A d TPLINK_MIN_ROOTFS_OFFS (m_size d)) of
                           Inl e \<Rightarrow> Inl e
                         | Inr (rootfs_offset, ty) \<Rightarrow>
                             Inr [kernel_part 0 kernel_size, rootfs_part rootfs_offset (u64_sub (m_size d) rootfs_offset)]))"

section \<open>LZMA, minor, WRGG\<close>

definition is_power_of_2 :: "u32 \<Rightarrow> bool" where
  "is_power_of_2 n \<longleftrightarrow> n \<noteq> 0 \<and> n AND (n - 1) = 0"

definition mtdsplit_parse_lzma :: "abi \<Rightarrow> mtd_info \<Rightarrow> int + mtd_partition list" where
  "mtdsplit_parse_lzma A d =
     (case read_header d 0 13 of
        Inl e \<Rightarrow> Inl e
      | Inr h \<Rightarrow>
          if h ! 0 \<ge> 225 then Inl (-22)
          else if \<not> is_power_of_2 (le32_dec (slice 1 4 h)) then Inl (-22)
          else if le32_dec (slice 9 4 h) \<noteq> 0 then Inl (-22)
          else case mtd_find_rootfs_from A d (m_erasesize d) (m_size d) of
              Inl e \<Rightarrow> Inl e
            | Inr (rootfs_offset, ty) \<Rightarrow>
                Inr [kernel_part 0 rootfs_offset, rootfs_part rootfs_offset (u64_sub (m_size d) rootfs_offset)])"

text \<open>The header of a yaffs object: type, parent, the unused sum and the name, in the byte order of the machine; 17 bytes
  and padding.\<close>

definition mtdsplit_parse_minor :: "abi \<Rightarrow> mtd_info \<Rightarrow> int + mtd_partition list" where
  "mtdsplit_parse_minor A d =
     (case read_header d 0 20 of
        Inl e \<Rightarrow> Inl e
      | Inr h \<Rightarrow>
          if native32_dec A (slice 0 4 h) \<noteq> 1 then Inl (-22)
          else if native32_dec A (slice 4 4 h) \<noteq> 1 then Inl (-22)
          else if native16_dec A (slice 8 2 h) \<noteq> 0xFFFF then Inl (-22)
          else if slice 10 7 h \<noteq> lit ''kernel'' @ [0] then Inl (-22)
          else case mtd_find_rootfs_from A d (m_erasesize d) (m_size d) of
              Inl e \<Rightarrow> Inl e
            | Inr (rootfs_offset, ty) \<Rightarrow>
                Inr [kernel_part 0 rootfs_offset, rootfs_part rootfs_offset (u64_sub (m_size d) rootfs_offset)])"

definition WRGG_MIN_ROOTFS_OFFS :: nat where "WRGG_MIN_ROOTFS_OFFS = 0x80000"
definition WRGG03_MAGIC :: u32 where "WRGG03_MAGIC = 0x20080321"
definition WRG_MAGIC :: u32 where "WRG_MAGIC = 0x20040220"

text \<open>The two headers, of 160 and of 96 bytes, have the magic at 32 and their sizes at 104 and at 40.\<close>

definition mtdsplit_parse_wrgg :: "abi \<Rightarrow> mtd_info \<Rightarrow> int + mtd_partition list" where
  "mtdsplit_parse_wrgg A d =
     (case read_header d 0 160 of
        Inl e \<Rightarrow> Inl e
      | Inr h \<Rightarrow>
          let magic1 = le32_dec (slice 32 4 h);
              ent = (if magic1 = WRGG03_MAGIC then Some (size_add A 160 (unat (be32_dec (slice 104 4 h))))
                     else if magic1 = WRG_MAGIC then Some (size_add A 96 (unat (le32_dec (slice 40 4 h))))
                     else None)
          in case ent of
               None \<Rightarrow> Inl (-22)
             | Some kernel_ent_size \<Rightarrow>
                 if kernel_ent_size > m_size d then Inl (-22)
                 else case mtd_find_rootfs_from A d WRGG_MIN_ROOTFS_OFFS (m_size d) of
                     Inl e \<Rightarrow> Inl e
                   | Inr (rootfs_offset, ty) \<Rightarrow>
                       Inr [kernel_part 0 rootfs_offset, rootfs_part rootfs_offset (u64_sub (m_size d) rootfs_offset)])"

section \<open>EVA and brnImage\<close>

definition EVA_MAGIC :: u32 where "EVA_MAGIC = 0xfeed1281"

text \<open>\<open>le32_to_cpu(hdr.size) + EVA_FOOTER_SIZE\<close> is in 32 bits, \<open>round_up\<close> to a power of two in \<open>unsigned long\<close>.\<close>

definition mtdsplit_parse_eva :: "abi \<Rightarrow> mtd_info \<Rightarrow> int + mtd_partition list" where
  "mtdsplit_parse_eva A d =
     (case read_header d 0 8 of
        Inl e \<Rightarrow> Inl e
      | Inr h \<Rightarrow>
          if le32_dec (slice 0 4 h) \<noteq> EVA_MAGIC then Inl (-22)
          else let kernel_size = unat (le32_dec (slice 4 4 h) + 0x18);
                   rootfs_offset = size_add A ((kernel_size + 0xffff) div 0x10000 * 0x10000) 0x100
               in if rootfs_offset \<ge> m_size d then Inl (-22)
                  else case mtd_check_rootfs_magic A d rootfs_offset of
                      Inl e \<Rightarrow> Inl e
                    | Inr ty \<Rightarrow>
                        Inr [kernel_part 0 kernel_size, rootfs_part rootfs_offset (u64_sub (m_size d) rootfs_offset)])"

text \<open>The search in steps of 1 KiB: the last result and where it stopped.\<close>

fun brn_scan :: "abi \<Rightarrow> mtd_info \<Rightarrow> nat list \<Rightarrow> int \<Rightarrow> int \<times> nat" where
  "brn_scan A d [] ret = (ret, (m_size d + 0x3ff) div 0x400 * 0x400)"
| "brn_scan A d (offset # offsets) ret =
     (case mtd_check_rootfs_magic A d offset of
        Inr ty \<Rightarrow> (0, offset)
      | Inl e \<Rightarrow> brn_scan A d offsets e)"

definition mtdsplit_parse_brnimage :: "abi \<Rightarrow> mtd_info \<Rightarrow> int + mtd_partition list" where
  "mtdsplit_parse_brnimage A d =
     (let (ret, rootfs_offset) = brn_scan A d (map (\<lambda>i. i * 0x400) [0..<(m_size d + 0x3ff) div 0x400]) 0
      in if ret \<noteq> 0 then Inl ret
         else if rootfs_offset \<ge> m_size d then Inl (-22)
         else case read_header d (size_sub A rootfs_offset 12) 4 of
             Inl e \<Rightarrow> Inl e
           | Inr b \<Rightarrow>
               let kernel_size = unat (le32_dec b)
               in if kernel_size > size_sub A rootfs_offset 12 then Inl (-22)
                  else if kernel_size < size_sub A rootfs_offset 0x40c then Inl (-22)
                  else Inr [kernel_part 0 kernel_size,
                            rootfs_part rootfs_offset (size_sub A (m_size d) (rootfs_offset + 12))])"

section \<open>FIT\<close>

definition OF_DT_HEADER :: u32 where "OF_DT_HEADER = 0xd00dfeed"

text \<open>The loop over the erase blocks reads the header at offset 0 every time.\<close>

fun fit_scan :: "mtd_info \<Rightarrow> nat list \<Rightarrow> bytes \<Rightarrow> int + nat \<times> bytes" where
  "fit_scan d [] hdr = Inr ((m_size d + m_erasesize d - 1) div m_erasesize d * m_erasesize d, hdr)"
| "fit_scan d (offset # offsets) hdr =
     (case read_header d 0 40 of
        Inl e \<Rightarrow> Inl e
      | Inr b \<Rightarrow> if be32_dec (slice 0 4 b) \<noteq> OF_DT_HEADER then fit_scan d offsets b else Inr (offset, b))"

definition mtdsplit_fit_parse :: "abi \<Rightarrow> mtd_info \<Rightarrow> int + mtd_partition list" where
  "mtdsplit_fit_parse A d =
     (case fit_scan d (eb_offsets d) [] of
        Inl e \<Rightarrow> Inl e
      | Inr (fit_offset, hdr) \<Rightarrow>
          let fit_size = unat (be32_dec (slice 4 4 hdr))
          in if fit_size = 0 then Inl (-19)
             else case mtd_find_rootfs_from A d (size_add A fit_offset fit_size) (m_size d) of
                 Inl e \<Rightarrow> Inl e
               | Inr (rootfs_offset, ty) \<Rightarrow>
                   Inr [kernel_part fit_offset (mtd_rounddown_to_eb fit_size (m_erasesize d) + m_erasesize d),
                        rootfs_part rootfs_offset (size_sub A (m_size d) rootfs_offset)])"

section \<open>uImage and jImage\<close>

text \<open>\<open>find_header\<close> gives the offset of a valid header in the 84 bytes read, or an error; \<open>data_len\<close> the length field of the
  header there. The two parsers have the same loop.\<close>

type_synonym find_header = "bytes \<Rightarrow> int + nat"

definition image_round :: "abi \<Rightarrow> mtd_info \<Rightarrow> find_header \<Rightarrow> (bytes \<Rightarrow> nat \<Rightarrow> nat) \<Rightarrow> nat \<Rightarrow> nat \<Rightarrow> bool \<times> nat" where
  "image_round A d find_header image_len buf_len offset =
     (case read_header d offset buf_len of
        Inl _ \<Rightarrow> (False, 0)
      | Inr b \<Rightarrow>
          (case find_header b of
             Inl _ \<Rightarrow> (False, 0)
           | Inr ret \<Rightarrow>
               let sz = image_len b ret in (\<not> size_add A offset sz > m_size d, sz)))"

fun image_scan :: "(nat \<Rightarrow> bool \<times> nat) \<Rightarrow> nat \<Rightarrow> nat list \<Rightarrow> nat \<Rightarrow> nat \<times> nat" where
  "image_scan round e [] sz = (sz, e)"
| "image_scan round e (offset # offsets) sz =
     (let (brk, sz') = round offset in if brk then (sz', offset) else image_scan round e offsets sz')"

definition parse_image :: "abi \<Rightarrow> mtd_info \<Rightarrow> (nat \<Rightarrow> bool \<times> nat) \<Rightarrow> int + mtd_partition list" where
  "parse_image A d round =
     (let (image_size, image_offset) =
            image_scan round ((m_size d + m_erasesize d - 1) div m_erasesize d * m_erasesize d) (eb_offsets d) 0
      in if image_size = 0 then Inl (-19)
         else if image_offset = 0 then
           (case mtd_find_rootfs_from A d (size_add A image_offset image_size) (m_size d) of
              Inl e \<Rightarrow> Inl e
            | Inr (rootfs_offset, ty) \<Rightarrow>
                if size_sub A (m_size d) rootfs_offset = 0 then Inl (-19)
                else Inr [kernel_part image_offset (size_sub A rootfs_offset image_offset),
                          typed_rootfs_part ty rootfs_offset (size_sub A (m_size d) rootfs_offset)])
         else
           (case mtd_check_rootfs_magic A d 0 of
              Inl e \<Rightarrow> Inl e
            | Inr ty \<Rightarrow> Inr [typed_rootfs_part ty 0 image_offset, kernel_part image_offset image_size]))"

definition UIMAGE_MAX_HEADER_LEN :: nat where "UIMAGE_MAX_HEADER_LEN = 84"
definition IH_MAGIC :: u32 where "IH_MAGIC = 0x27051956"

definition uimage_verify_default :: "bytes \<Rightarrow> int" where
  "uimage_verify_default buf =
     (if be32_dec (slice 0 4 buf) \<noteq> IH_MAGIC then -22
      else if buf ! 28 \<noteq> 5 then -22
      else if buf ! 30 \<noteq> 2 then -22
      else 0)"

text \<open>Netgear's magics; only the WNR2000V4 marks its image as a kernel, the others as a file system.\<close>

definition netgear_magics :: "u32 list" where
  "netgear_magics = [0x32303631, 0x31303031, 0x31303030, 0x32303031, 0x32303033, 0x32323030, 0x33373030, 0x33373031, 0x31313030]"

definition uimage_verify_wndr3700 :: "bytes \<Rightarrow> int" where
  "uimage_verify_wndr3700 buf =
     (let magic = be32_dec (slice 0 4 buf)
      in if magic \<in> set netgear_magics \<or> magic = 0x32303034
         then (if buf ! 28 \<noteq> 5 \<or> buf ! 30 \<noteq> (if magic = 0x32303034 then 2 else 7) then -22 else 0)
         else -22)"

definition uimage_find_edimax :: "bytes \<Rightarrow> int + nat" where
  "uimage_find_edimax buf =
     (if length buf < 84 then Inl (-28)
      else if be32_dec (slice 0 4 buf) \<noteq> 0x43535953 then Inl (-22)
      else if uimage_verify_default (drop 20 buf) = 0 then Inr 20
      else Inl (-22))"

text \<open>\<open>sizeof(*header) + be32_to_cpu(header->ih_size) + ret\<close>\<close>

definition uimage_len :: "abi \<Rightarrow> bytes \<Rightarrow> nat \<Rightarrow> nat" where
  "uimage_len A b ret = size_add A (size_add A 64 (unat (be32_dec (slice (ret + 12) 4 b)))) ret"

definition verified :: "(bytes \<Rightarrow> int) \<Rightarrow> find_header" where
  "verified verify b = (if verify b < 0 then Inl (verify b) else Inr (nat (verify b)))"

definition mtdsplit_uimage_parse_generic :: "abi \<Rightarrow> mtd_info \<Rightarrow> int + mtd_partition list" where
  "mtdsplit_uimage_parse_generic A d =
     parse_image A d (image_round A d (verified uimage_verify_default) (uimage_len A) UIMAGE_MAX_HEADER_LEN)"

definition mtdsplit_uimage_parse_netgear :: "abi \<Rightarrow> mtd_info \<Rightarrow> int + mtd_partition list" where
  "mtdsplit_uimage_parse_netgear A d =
     parse_image A d (image_round A d (verified uimage_verify_wndr3700) (uimage_len A) UIMAGE_MAX_HEADER_LEN)"

definition mtdsplit_uimage_parse_edimax :: "abi \<Rightarrow> mtd_info \<Rightarrow> int + mtd_partition list" where
  "mtdsplit_uimage_parse_edimax A d =
     parse_image A d (image_round A d uimage_find_edimax (uimage_len A) UIMAGE_MAX_HEADER_LEN)"

text \<open>The joined stag and sch2 headers of a jImage, read in the byte order of the machine; 56 bytes.\<close>

definition JIMAGE_MAX_HEADER_LEN :: nat where "JIMAGE_MAX_HEADER_LEN = 56"

definition jimage_verify_default :: "abi \<Rightarrow> bytes \<Rightarrow> int" where
  "jimage_verify_default A buf =
     (if native16_dec A (slice 2 2 buf) \<noteq> 0x2B24 then -22
      else if native16_dec A (slice 16 2 buf) \<noteq> 0x2124 then -22
      else if buf ! 0 \<noteq> buf ! 1 then -22
      else if buf ! 1 \<noteq> 4 then -22
      else if buf ! 19 \<noteq> 2 then -22
      else 0)"

definition jimage_len :: "abi \<Rightarrow> bytes \<Rightarrow> nat \<Rightarrow> nat" where
  "jimage_len A b ret = size_add A (size_add A 56 (unat (native32_dec A (slice (ret + 24) 4 b)))) ret"

definition mtdsplit_jimage_parse_generic :: "abi \<Rightarrow> mtd_info \<Rightarrow> int + mtd_partition list" where
  "mtdsplit_jimage_parse_generic A d =
     parse_image A d (image_round A d (verified (jimage_verify_default A)) (jimage_len A) JIMAGE_MAX_HEADER_LEN)"

section \<open>A flash device\<close>

text \<open>What is relied on of \<open>mtd_read\<close>: it reads the content of the device, and refuses a range that is not inside it.\<close>

definition flash :: "mtd_info \<Rightarrow> bytes \<Rightarrow> bool" where
  "flash d img \<longleftrightarrow> length img = m_size d \<and> 0 < m_erasesize d \<and> m_size d < 2 ^ 64 \<and>
     (\<forall>off len. m_read d off len = (if off + len \<le> m_size d then (0, slice off len img) else (-22, [])))"

text \<open>Such a device, for evaluation.\<close>

definition flash_dev :: "nat \<Rightarrow> bytes \<Rightarrow> mtd_info" where
  "flash_dev eb img = \<lparr>m_size = length img, m_erasesize = eb,
     m_read = (\<lambda>off len. if off + len \<le> length img then (0, slice off len img) else (-22, [])),
     m_parent_erasesize = eb, m_part_offset = 0\<rparr>"

lemma flash_dev: "0 < eb \<Longrightarrow> length img < 2 ^ 64 \<Longrightarrow> flash (flash_dev eb img) img"
  by (simp add: flash_def flash_dev_def)

lemma read_header_flash:
  "flash d img \<Longrightarrow> read_header d off len = (if off + len \<le> m_size d then Inr (slice off len img) else Inl (-22))"
  by (simp add: flash_def read_header_def)

definition rootfs_magic :: "abi \<Rightarrow> bytes \<Rightarrow> bool" where
  "rootfs_magic A b \<longleftrightarrow> le32_dec b = SQUASHFS_MAGIC \<or> native32_dec A b = 0x19852003 \<or> be32_dec b = UBI_EC_MAGIC"

lemma check_rootfs_flash:
  assumes "flash d img"
  shows "(\<exists>ty. mtd_check_rootfs_magic A d off = Inr ty) \<longleftrightarrow> off + 4 \<le> m_size d \<and> rootfs_magic A (slice off 4 img)"
  using assms by (auto simp: mtd_check_rootfs_magic_def read_header_flash rootfs_magic_def)

lemma u64_sub_small: "y \<le> x \<Longrightarrow> x < 2 ^ 64 \<Longrightarrow> u64_sub x y = x - y"
proof -
  assume a: "y \<le> x" "x < 2 ^ 64"
  then have "x + (2 ^ 64 - y mod 2 ^ 64) = (x - y) + 2 ^ 64" by simp
  then have "u64_sub x y = (x - y) mod 2 ^ 64" by (simp only: u64_sub_def mod_add_self2)
  then show ?thesis using a by simp
qed

section \<open>The search for the root file system\<close>

text \<open>Below 4 GiB nothing wraps.\<close>

lemma rounddown: "n < 2 ^ 32 \<Longrightarrow> mtd_rounddown_to_eb n eb = n div eb * eb"
  using le_less_trans [OF div_times_less_eq_dividend [of n eb]] by (simp add: mtd_rounddown_to_eb_def dvd_div_mult_self mod_eq_0_iff_dvd)

text \<open>The next erase block is the least multiple of the erase size above the offset.\<close>

lemma next_eb:
  assumes "0 < m_erasesize d" "offset + m_erasesize d < 2 ^ 32" "32 \<le> ulong_bits A"
  shows "offset < mtd_next_eb A d offset" "m_erasesize d dvd mtd_next_eb A d offset"
    "m_erasesize d dvd n \<Longrightarrow> offset < n \<Longrightarrow> mtd_next_eb A d offset \<le> n"
proof -
  let ?e = "m_erasesize d"
  have "(2 :: nat) ^ 32 \<le> 2 ^ ulong_bits A" using assms(3) by (rule power_increasing) simp
  then have "offset div ?e * ?e + ?e < 2 ^ ulong_bits A" using assms(2) div_times_less_eq_dividend [of offset ?e] by linarith
  then have n: "mtd_next_eb A d offset = (offset div ?e + 1) * ?e" using assms(2) by (simp add: mtd_next_eb_def rounddown size_add_small)
  have "offset < offset div ?e * ?e + ?e"
    using mod_less_divisor [OF assms(1), of offset] div_mult_mod_eq [of offset ?e] by linarith
  then show "offset < mtd_next_eb A d offset" unfolding n by simp
  show "?e dvd mtd_next_eb A d offset" unfolding n by simp
  assume "?e dvd n" "offset < n"
  then obtain q where q: "n = q * ?e" by (metis dvd_def mult.commute)
  then have "offset div ?e < q" using \<open>offset < n\<close> by (simp add: less_mult_imp_div_less)
  then show "mtd_next_eb A d offset \<le> n" unfolding n q by (intro mult_le_mono1) simp
qed

lemma find_rootfs_spec:
  assumes "0 < m_erasesize d" "limit + m_erasesize d < 2 ^ 32" "32 \<le> ulong_bits A"
  shows "case mtd_find_rootfs_from A d from limit of
      Inr (o1, ty) \<Rightarrow> from \<le> o1 \<and> o1 < limit \<and> (o1 = from \<or> m_erasesize d dvd o1) \<and> mtd_check_rootfs_magic A d o1 = Inr ty \<and>
        (\<forall>p. from \<le> p \<and> p < o1 \<and> (p = from \<or> m_erasesize d dvd p) \<longrightarrow> (\<exists>e. mtd_check_rootfs_magic A d p = Inl e))
    | Inl e \<Rightarrow> e = -19 \<and>
        (\<forall>p. from \<le> p \<and> p < limit \<and> (p = from \<or> m_erasesize d dvd p) \<longrightarrow> (\<exists>e. mtd_check_rootfs_magic A d p = Inl e))"
  using assms
proof (induction A d "from" limit rule: mtd_find_rootfs_from.induct)
  case (1 A d offset limit)
  have "(2 :: nat) ^ 32 \<le> 2 ^ ulong_bits A" using "1.prems"(3) by (rule power_increasing) simp
  then have lim: "limit mod 2 ^ ulong_bits A = limit" using "1.prems"(2) by simp
  show ?case
  proof (cases "offset < limit")
    case False
    then show ?thesis by (subst mtd_find_rootfs_from.simps) (auto simp: lim)
  next
    case True
    note eb = next_eb [OF "1.prems"(1) _ "1.prems"(3), of offset]
    have small: "offset + m_erasesize d < 2 ^ 32" using True "1.prems"(2) by simp
    show ?thesis
    proof (cases "mtd_check_rootfs_magic A d offset")
      case (Inr ty)
      then show ?thesis using True by (subst mtd_find_rootfs_from.simps) (auto simp: lim)
    next
      case (Inl e)
      let ?n = "mtd_next_eb A d offset"
      have step: "mtd_find_rootfs_from A d offset limit = mtd_find_rootfs_from A d ?n limit"
        using True Inl eb(1) [OF small] by (subst mtd_find_rootfs_from.simps) (simp add: lim)
      have le: "?n \<le> p" if "offset < p" "m_erasesize d dvd p" for p using eb(3) [OF small, of p] that by simp
      have IH: "case mtd_find_rootfs_from A d ?n limit of
          Inr (o1, ty) \<Rightarrow> ?n \<le> o1 \<and> o1 < limit \<and> (o1 = ?n \<or> m_erasesize d dvd o1) \<and> mtd_check_rootfs_magic A d o1 = Inr ty \<and>
            (\<forall>p. ?n \<le> p \<and> p < o1 \<and> (p = ?n \<or> m_erasesize d dvd p) \<longrightarrow> (\<exists>e. mtd_check_rootfs_magic A d p = Inl e))
        | Inl e \<Rightarrow> e = -19 \<and>
            (\<forall>p. ?n \<le> p \<and> p < limit \<and> (p = ?n \<or> m_erasesize d dvd p) \<longrightarrow> (\<exists>e. mtd_check_rootfs_magic A d p = Inl e))"
        using "1.IH" [of e] True Inl "1.prems" eb(1) [OF small] by (simp add: lim)
      show ?thesis
      proof (cases "mtd_find_rootfs_from A d ?n limit")
        case l: (Inl e')
        have "\<exists>e. mtd_check_rootfs_magic A d p = Inl e" if "offset \<le> p" "p < limit" "p = offset \<or> m_erasesize d dvd p" for p
          using that IH l Inl le [of p] by (cases "p = offset") auto
        then show ?thesis using IH l step by simp
      next
        case r: (Inr q)
        obtain o1 ty where q: "q = (o1, ty)" by force
        have "\<exists>e. mtd_check_rootfs_magic A d p = Inl e" if "offset \<le> p" "p < o1" "p = offset \<or> m_erasesize d dvd p" for p
          using that IH r q Inl le [of p] by (cases "p = offset") auto
        then show ?thesis using IH r q step eb(1,2) [OF small] by auto
      qed
    qed
  qed
qed

lemma find_rootfs_check:
  assumes "mtd_find_rootfs_from A d from limit = Inr (o1, ty)"
  shows "mtd_check_rootfs_magic A d o1 = Inr ty" "from \<le> o1" "o1 < limit"
proof -
  have "mtd_check_rootfs_magic A d o1 = Inr ty \<and> from \<le> o1 \<and> o1 < limit mod 2 ^ ulong_bits A"
    using assms
  proof (induction A d "from" limit rule: mtd_find_rootfs_from.induct)
    case (1 A d offset limit)
    then show ?case by (subst (asm) (2) mtd_find_rootfs_from.simps) (auto split: if_splits sum.splits)
  qed
  then show "mtd_check_rootfs_magic A d o1 = Inr ty" "from \<le> o1" "o1 < limit"
    using less_le_trans [OF _ mod_less_eq_dividend [of limit "2 ^ ulong_bits A"]] by auto
qed

lemmas find_rootfs_run = mtd_find_rootfs_from.simps [of _ _ "numeral k" for k] mtd_next_eb_def mtd_rounddown_to_eb_def size_add_def

lemma find_rootfs_magic: "mtd_find_rootfs_from A d from limit = Inr (o1, ty) \<Longrightarrow> \<exists>ty. mtd_check_rootfs_magic A d o1 = Inr ty"
  by (rule exI) (rule find_rootfs_check(1))

section \<open>The contract of a parser\<close>

text \<open>A parser of firmware whose last partition is a root file system up to the end of the device: what the kernel relies on
  when it mounts it.\<close>

locale rootfs_parser =
  fixes parse :: "abi \<Rightarrow> mtd_info \<Rightarrow> int + mtd_partition list"
  assumes found: "parse A d = Inr ps \<Longrightarrow> \<exists>k r ty. ps = [k, r] \<and> p_size r = u64_sub (m_size d) (p_offset r) \<and>
    mtd_check_rootfs_magic A d (p_offset r) = Inr ty \<and> p_name k = KERNEL_PART_NAME"
begin

lemma rootfs_inside:
  assumes fl: "flash d img" and ps: "parse A d = Inr ps"
  shows "\<exists>k r. ps = [k, r] \<and> p_name k = KERNEL_PART_NAME \<and> p_offset r + p_size r = m_size d \<and> 4 \<le> p_size r \<and>
    rootfs_magic A (slice (p_offset r) 4 img)"
proof -
  from found [OF ps] obtain k r ty where r: "ps = [k, r]" "p_size r = u64_sub (m_size d) (p_offset r)"
    "mtd_check_rootfs_magic A d (p_offset r) = Inr ty" "p_name k = KERNEL_PART_NAME" by blast
  then have "p_offset r + 4 \<le> m_size d" "rootfs_magic A (slice (p_offset r) 4 img)"
    using check_rootfs_flash [OF fl, of A "p_offset r"] by auto
  moreover have "m_size d < 2 ^ 64" using fl by (simp add: flash_def)
  ultimately show ?thesis using r by (auto simp: u64_sub_small)
qed

end

lemmas part_defs = kernel_part_def rootfs_part_def typed_rootfs_part_def

interpretation lzma: rootfs_parser mtdsplit_parse_lzma
  by unfold_locales (auto simp: mtdsplit_parse_lzma_def part_defs split: sum.splits if_splits dest: find_rootfs_check)

interpretation minor: rootfs_parser mtdsplit_parse_minor
  by unfold_locales (auto simp: mtdsplit_parse_minor_def part_defs split: sum.splits if_splits dest: find_rootfs_check)

interpretation wrgg: rootfs_parser mtdsplit_parse_wrgg
  by unfold_locales (auto simp: mtdsplit_parse_wrgg_def part_defs Let_def split: sum.splits if_splits option.splits dest: find_rootfs_check)

interpretation eva: rootfs_parser mtdsplit_parse_eva
  by unfold_locales (auto simp: mtdsplit_parse_eva_def part_defs Let_def split: sum.splits if_splits)

interpretation seama: rootfs_parser mtdsplit_parse_seama
  by unfold_locales (auto simp: mtdsplit_parse_seama_def part_defs Let_def split: sum.splits if_splits dest: find_rootfs_check)

interpretation tplink: rootfs_parser mtdsplit_parse_tplink
  by unfold_locales (auto simp: mtdsplit_parse_tplink_def part_defs Let_def split: sum.splits if_splits option.splits dest!: find_rootfs_magic)

section \<open>Properties\<close>

text \<open>The offsets at which a search looks, and finds one of the three magic numbers.\<close>

definition rootfs_at :: "abi \<Rightarrow> mtd_info \<Rightarrow> bytes \<Rightarrow> nat \<Rightarrow> nat \<Rightarrow> nat \<Rightarrow> bool" where
  "rootfs_at A d img from limit p \<longleftrightarrow>
     from \<le> p \<and> p < limit \<and> (p = from \<or> m_erasesize d dvd p) \<and> p + 4 \<le> m_size d \<and> rootfs_magic A (slice p 4 img)"

lemma find_rootfs_first:
  assumes "flash d img" "limit + m_erasesize d < 2 ^ 32" "32 \<le> ulong_bits A"
  shows "case mtd_find_rootfs_from A d from limit of
      Inr (o1, ty) \<Rightarrow> rootfs_at A d img from limit o1 \<and> (\<forall>p<o1. \<not> rootfs_at A d img from limit p)
    | Inl e \<Rightarrow> e = -19 \<and> (\<forall>p. \<not> rootfs_at A d img from limit p)"
proof -
  have eb: "0 < m_erasesize d" using assms(1) by (simp add: flash_def)
  have no: "\<not> (p + 4 \<le> m_size d \<and> rootfs_magic A (slice p 4 img))" if "\<exists>e. mtd_check_rootfs_magic A d p = Inl e" for p
    using that check_rootfs_flash [OF assms(1), of A p] by auto
  have yes: "p + 4 \<le> m_size d \<and> rootfs_magic A (slice p 4 img)" if "mtd_check_rootfs_magic A d p = Inr ty" for p ty
    using that check_rootfs_flash [OF assms(1), of A p] by auto
  note spec = find_rootfs_spec [where ?from = "from", OF eb assms(2,3)]
  show ?thesis
  proof (cases "mtd_find_rootfs_from A d from limit")
    case (Inl e)
    then show ?thesis using spec no by (auto simp: rootfs_at_def)
  next
    case (Inr q)
    then show ?thesis using spec no yes by (auto simp: rootfs_at_def)
  qed
qed

text \<open>C34. Below 4 GiB, \<open>mtd_find_rootfs_from\<close> ends, and finds the first offset, among the start of the search and the erase block
  boundaries after it below the limit, that holds the magic number of a squashfs, a JFFS2 or a UBI volume; if there is none it
  returns \<open>-ENODEV\<close>.\<close>

theorem mtd_find_rootfs_first:
  assumes "flash d img" "from < 2 ^ 32" "limit + m_erasesize d < 2 ^ 32" "32 \<le> ulong_bits A"
  shows "case mtd_find_rootfs_from A d from limit of
      Inr (o1, ty) \<Rightarrow> rootfs_at A d img from limit o1 \<and> (\<forall>p<o1. \<not> rootfs_at A d img from limit p)
    | Inl e \<Rightarrow> e = -19 \<and> (\<forall>p. \<not> rootfs_at A d img from limit p)"
  using find_rootfs_first [OF assms(1,3,4)] .

text \<open>A device of four erase blocks of 8 bytes, the third a squashfs.\<close>

definition demo_flash :: bytes where
  "demo_flash = replicate 16 0 @ lit ''hsqs'' @ replicate 12 0"

lemma demo_flash_dev: "flash (flash_dev 8 demo_flash) demo_flash"
  by (rule flash_dev) (simp_all add: demo_flash_def lit_def)

theorem mtd_find_rootfs_first_witness:
  "mtd_find_rootfs_from mips_be (flash_dev 8 demo_flash) 3 32 = Inr (16, PART_TYPE_SQUASHFS) \<and> rootfs_at mips_be (flash_dev 8 demo_flash) demo_flash 3 32 16"
proof -
  let ?d = "flash_dev 8 demo_flash"
  have e: "m_erasesize ?d = 8" "ulong_bits mips_be = 32" by code_simp+
  have "mtd_check_rootfs_magic mips_be ?d 3 = Inl (-22)" "mtd_check_rootfs_magic mips_be ?d 8 = Inl (-22)"
    "mtd_check_rootfs_magic mips_be ?d 16 = Inr PART_TYPE_SQUASHFS" by code_simp+
  then have "mtd_find_rootfs_from mips_be ?d 3 32 = Inr (16, PART_TYPE_SQUASHFS)" by (simp add: find_rootfs_run e)
  then show ?thesis using mtd_find_rootfs_first [OF demo_flash_dev, of 3 32 mips_be] by (simp add: e)
qed

section \<open>Images on erase block boundaries\<close>

lemma eb_offsets_Cons: "0 < m_erasesize d \<Longrightarrow> 0 < m_size d \<Longrightarrow> \<exists>rest. eb_offsets d = 0 # rest"
  by (cases "(m_size d + m_erasesize d - 1) div m_erasesize d") (auto simp: eb_offsets_def upt_conv_Cons div_eq_0_iff simp del: upt_Suc)

lemma image_scan_none:
  "\<forall>p\<in>set ps. \<not> fst (round p) \<Longrightarrow> image_scan round e ps sz = (if ps = [] then sz else snd (round (last ps)), e)"
  by (induction ps arbitrary: sz) (auto simp: Let_def split: prod.splits)

lemma eb_end: "0 < m_erasesize d \<Longrightarrow> m_size d \<le> (m_size d + m_erasesize d - 1) div m_erasesize d * m_erasesize d"
proof -
  assume a: "0 < m_erasesize d"
  have "m_size d + m_erasesize d - 1 < (m_size d + m_erasesize d - 1) div m_erasesize d * m_erasesize d + m_erasesize d"
    using mod_less_divisor [OF a, of "m_size d + m_erasesize d - 1"] div_mult_mod_eq [of "m_size d + m_erasesize d - 1" "m_erasesize d"] by linarith
  then show ?thesis using a by linarith
qed

text \<open>An image at the start of the device.\<close>

lemma parse_image_first:
  assumes "0 < m_erasesize d" "0 < m_size d" "round 0 = (True, n)" "0 < n" "n \<le> m_size d" "m_size d < 2 ^ ulong_bits A"
  shows "parse_image A d round = (case mtd_find_rootfs_from A d n (m_size d) of
      Inl e \<Rightarrow> Inl e | Inr (r, ty) \<Rightarrow> Inr [kernel_part 0 r, typed_rootfs_part ty r (m_size d - r)])"
proof -
  obtain rest where r: "eb_offsets d = 0 # rest" using eb_offsets_Cons assms by blast
  have "size_add A 0 n = n" using assms by (simp add: size_add_small)
  moreover have "size_sub A (m_size d) r = m_size d - r" "size_sub A r 0 = r" "r < m_size d"
    if "mtd_find_rootfs_from A d n (m_size d) = Inr (r, ty)" for r ty
    using find_rootfs_check [OF that] assms by (simp_all add: size_sub_small)
  ultimately show ?thesis using assms r by (auto simp: parse_image_def split: sum.splits)
qed

text \<open>No image that fits, and one that does not in the last block: the loop runs out with that image's size.\<close>

lemma parse_image_exceeds:
  assumes "0 < m_erasesize d" "0 < m_size d" "\<forall>p\<in>set (eb_offsets d). \<not> fst (round p)"
    and "snd (round (last (eb_offsets d))) = n" "n \<noteq> 0" "mtd_check_rootfs_magic A d 0 = Inr ty"
  shows "\<exists>e. parse_image A d round = Inr [typed_rootfs_part ty 0 e, kernel_part e n] \<and> m_size d \<le> e"
proof -
  let ?e = "(m_size d + m_erasesize d - 1) div m_erasesize d * m_erasesize d"
  have "eb_offsets d \<noteq> []" using eb_offsets_Cons [OF assms(1,2)] by auto
  then have "image_scan round ?e (eb_offsets d) 0 = (n, ?e)" using assms image_scan_none [of "eb_offsets d" round ?e 0] by simp
  moreover have "m_size d \<le> ?e" using eb_end assms by blast
  ultimately show ?thesis using assms by (auto simp: parse_image_def)
qed

text \<open>A uImage header, as \<open>uimage_verify_default\<close> wants it, and the size of its image.\<close>

definition uimage_at :: "bytes \<Rightarrow> nat \<Rightarrow> bool" where
  "uimage_at img off \<longleftrightarrow> be32_dec (slice off 4 img) = IH_MAGIC \<and> img ! (off + 28) = 5 \<and> img ! (off + 30) = 2"

definition uimage_size :: "bytes \<Rightarrow> nat \<Rightarrow> nat" where
  "uimage_size img off = 64 + unat (be32_dec (slice (off + 12) 4 img))"

lemma slice_nth: "j < n \<Longrightarrow> i + n \<le> length m \<Longrightarrow> slice i n m ! j = m ! (i + j)"
  by (simp add: slice_def)

lemma uimage_round:
  assumes "flash d img" "off + 84 \<le> m_size d" "off + uimage_size img off < 2 ^ ulong_bits A"
  shows "image_round A d (verified uimage_verify_default) (uimage_len A) UIMAGE_MAX_HEADER_LEN off =
    (if uimage_at img off then (off + uimage_size img off \<le> m_size d, uimage_size img off) else (False, 0))"
proof -
  have l: "length img = m_size d" using assms(1) by (simp add: flash_def)
  have r: "read_header d off 84 = Inr (slice off 84 img)" using assms(2) read_header_flash [OF assms(1), of off 84] by simp
  have v: "uimage_verify_default (slice off 84 img) = (if uimage_at img off then 0 else -22)"
    using assms(2) l by (simp add: uimage_verify_default_def uimage_at_def slice_slice slice_nth)
  have n: "uimage_len A (slice off 84 img) 0 = uimage_size img off" "size_add A off (uimage_size img off) = off + uimage_size img off"
    using assms(3) by (simp_all add: uimage_len_def uimage_size_def slice_slice size_add_small)
  show ?thesis by (simp add: image_round_def UIMAGE_MAX_HEADER_LEN_def r v verified_def n not_less Let_def)
qed

text \<open>C36. A device below 4 GiB that starts with a uImage that fits is split into the kernel, from the start to the root file system, and
  the root file system, from there to the end of the device: the first one after the image, at its end or at an erase
  block boundary. Without one the result is \<open>-ENODEV\<close>.\<close>

theorem mtdsplit_uimage_split:
  assumes "flash d img" "84 \<le> m_size d" "m_size d + m_erasesize d < 2 ^ 32" "32 \<le> ulong_bits A" "uimage_at img 0" "uimage_size img 0 \<le> m_size d"
  shows "case mtdsplit_uimage_parse_generic A d of
      Inl e \<Rightarrow> e = -19 \<and> (\<forall>p. \<not> rootfs_at A d img (uimage_size img 0) (m_size d) p)
    | Inr ps \<Rightarrow> \<exists>r ty. ps = [kernel_part 0 r, typed_rootfs_part ty r (m_size d - r)] \<and>
        rootfs_at A d img (uimage_size img 0) (m_size d) r \<and> (\<forall>p<r. \<not> rootfs_at A d img (uimage_size img 0) (m_size d) p)"
proof -
  let ?n = "uimage_size img 0"
  have "(2 :: nat) ^ 32 \<le> 2 ^ ulong_bits A" using assms(4) by (rule power_increasing) simp
  then have small: "m_size d < 2 ^ ulong_bits A" using assms(3) by linarith
  have "image_round A d (verified uimage_verify_default) (uimage_len A) UIMAGE_MAX_HEADER_LEN 0 = (True, ?n)"
    using uimage_round [OF assms(1), of 0 A] assms small by simp
  moreover have "0 < m_erasesize d" "0 < ?n" using assms(1) by (simp_all add: flash_def uimage_size_def)
  ultimately have "mtdsplit_uimage_parse_generic A d = (case mtd_find_rootfs_from A d ?n (m_size d) of
      Inl e \<Rightarrow> Inl e | Inr (r, ty) \<Rightarrow> Inr [kernel_part 0 r, typed_rootfs_part ty r (m_size d - r)])"
    unfolding mtdsplit_uimage_parse_generic_def using assms small by (intro parse_image_first) auto
  then show ?thesis using find_rootfs_first [OF assms(1,3,4), of ?n] by (auto split: sum.splits)
qed

text \<open>A header for \<open>n\<close> bytes of data.\<close>

definition demo_uimage :: "u32 \<Rightarrow> bytes" where
  "demo_uimage n = be32_enc IH_MAGIC @ replicate 8 0 @ be32_enc n @ replicate 12 0 @ [5, 0, 2] @ replicate 33 0"

lemma demo_uimage: "length (demo_uimage n) = 64" "take 4 (demo_uimage n) = be32_enc IH_MAGIC" "slice 12 4 (demo_uimage n) = be32_enc n"
  "demo_uimage n ! 28 = 5" "demo_uimage n ! 30 = 2"
  by (simp_all add: demo_uimage_def slice_def be32_enc_def le32_enc_def nth_append numeral_eq_Suc)

lemma demo_uimage_at:
  "uimage_at (pre @ demo_uimage n @ post) (length pre)" "uimage_size (pre @ demo_uimage n @ post) (length pre) = 64 + unat n"
proof -
  have "slice (length pre) 4 (pre @ demo_uimage n @ post) = be32_enc IH_MAGIC"
    by (simp add: slice_def demo_uimage)
  moreover have "slice (length pre + 12) 4 (pre @ demo_uimage n @ post) = be32_enc n"
    using demo_uimage(3) [of n] by (simp add: slice_def demo_uimage)
  ultimately show "uimage_at (pre @ demo_uimage n @ post) (length pre)" "uimage_size (pre @ demo_uimage n @ post) (length pre) = 64 + unat n"
    by (simp_all add: uimage_at_def uimage_size_def nth_append demo_uimage)
qed

definition demo_uimage_first :: bytes where
  "demo_uimage_first = demo_uimage 16 @ replicate 32 1 @ lit ''hsqs'' @ replicate 28 0"

theorem mtdsplit_uimage_split_witness:
  "case mtdsplit_uimage_parse_generic mips_be (flash_dev 32 demo_uimage_first) of
      Inl e \<Rightarrow> False
    | Inr ps \<Rightarrow> \<exists>r ty. ps = [kernel_part 0 r, typed_rootfs_part ty r (128 - r)] \<and>
        rootfs_at mips_be (flash_dev 32 demo_uimage_first) demo_uimage_first 80 128 r"
proof -
  let ?d = "flash_dev 32 demo_uimage_first"
  have l: "length demo_uimage_first = 128" by (simp add: demo_uimage_first_def demo_uimage lit_def)
  have fl: "flash ?d demo_uimage_first" by (rule flash_dev) (simp_all add: l)
  have u: "uimage_at demo_uimage_first 0" "uimage_size demo_uimage_first 0 = 80"
    using demo_uimage_at [of "[]" 16 "replicate 32 1 @ lit ''hsqs'' @ replicate 28 0"] by (simp_all add: demo_uimage_first_def)
  have s: "m_size ?d = 128" "m_erasesize ?d = 32" by (simp_all add: flash_dev_def l)
  have "slice 96 4 demo_uimage_first = lit ''hsqs''" by (simp add: demo_uimage_first_def slice_def demo_uimage lit_def)
  then have "rootfs_at mips_be ?d demo_uimage_first 80 128 96"
    by (simp add: rootfs_at_def s rootfs_magic_def lit_def SQUASHFS_MAGIC_def)
  then show ?thesis
    using mtdsplit_uimage_split [OF fl, of mips_be] u s by (auto simp: mips_be_def split: sum.splits)
qed

text \<open>The uImage parser takes an image that does not fit as absent, but not in the last erase block: when none fits and the
  last block holds one that exceeds the device, behind a root file system at the start, the parser succeeds with a kernel
  partition that starts at or after the end of the device.\<close>

theorem mtdsplit_uimage_exceeds:
  assumes "flash d img" "0 < m_size d"
    and "\<forall>p\<in>set (eb_offsets d). \<not> fst (image_round A d (verified uimage_verify_default) (uimage_len A) UIMAGE_MAX_HEADER_LEN p)"
    and "snd (image_round A d (verified uimage_verify_default) (uimage_len A) UIMAGE_MAX_HEADER_LEN (last (eb_offsets d))) = n" "n \<noteq> 0"
    and "mtd_check_rootfs_magic A d 0 = Inr ty"
  shows "\<exists>e. mtdsplit_uimage_parse_generic A d = Inr [typed_rootfs_part ty 0 e, kernel_part e n] \<and> m_size d \<le> e"
  unfolding mtdsplit_uimage_parse_generic_def using assms by (intro parse_image_exceeds) (auto simp: flash_def)

definition demo_uimage_last :: bytes where
  "demo_uimage_last = (lit ''hsqs'' @ replicate 92 0) @ demo_uimage 1000 @ replicate 32 0"

theorem mtdsplit_uimage_exceeds_witness:
  "\<exists>e. mtdsplit_uimage_parse_generic mips_be (flash_dev 96 demo_uimage_last) =
     Inr [typed_rootfs_part PART_TYPE_SQUASHFS 0 e, kernel_part e 1064] \<and> 192 \<le> e"
proof -
  let ?d = "flash_dev 96 demo_uimage_last"
  have l: "length demo_uimage_last = 192" by (simp add: demo_uimage_last_def demo_uimage lit_def)
  have fl: "flash ?d demo_uimage_last" by (rule flash_dev) (simp_all add: l)
  have s: "m_size ?d = 192" "m_erasesize ?d = 96" by (simp_all add: flash_dev_def l)
  have u: "uimage_at demo_uimage_last 96" "uimage_size demo_uimage_last 96 = 1064"
    using demo_uimage_at [of "lit ''hsqs'' @ replicate 92 0" 1000 "replicate 32 0"] by (simp_all add: demo_uimage_last_def lit_def)
  have z: "slice 0 4 demo_uimage_last = lit ''hsqs''" "slice 12 4 demo_uimage_last = [0, 0, 0, 0]"
    by (simp_all add: demo_uimage_last_def slice_def lit_def numeral_eq_Suc)
  have u0: "\<not> uimage_at demo_uimage_last 0" "uimage_size demo_uimage_last 0 = 64"
    by (simp_all add: uimage_at_def uimage_size_def z lit_def be32_dec_def IH_MAGIC_def)
  have o: "eb_offsets ?d = [0, 96]" by (simp add: eb_offsets_def s upt_rec)
  have m: "mtd_check_rootfs_magic mips_be ?d 0 = Inr PART_TYPE_SQUASHFS"
    using read_header_flash [OF fl, of 0 4] z by (simp add: s mtd_check_rootfs_magic_def lit_def SQUASHFS_MAGIC_def)
  show ?thesis
    using mtdsplit_uimage_exceeds [OF fl, of mips_be 1064] uimage_round [OF fl, of 0 mips_be] uimage_round [OF fl, of 96 mips_be]
      u u0 m by (simp add: s o mips_be_def)
qed

text \<open>The FIT parser's loop over the erase blocks reads the start of the device every time: on a device that does not start
  with a FIT image it finds none, wherever else there is one.\<close>

theorem mtdsplit_fit_only_first:
  assumes "flash d img" "40 \<le> m_size d" "be32_dec (slice 0 4 img) \<noteq> OF_DT_HEADER"
    and "m_size d + m_erasesize d + 2 ^ 32 \<le> 2 ^ ulong_bits A"
  shows "mtdsplit_fit_parse A d = Inl (-19)"
proof -
  let ?e = "(m_size d + m_erasesize d - 1) div m_erasesize d * m_erasesize d" and ?n = "unat (be32_dec (slice 4 4 img))"
  have r: "read_header d 0 40 = Inr (slice 0 40 img)" using assms(2) read_header_flash [OF assms(1), of 0 40] by simp
  have scan: "fit_scan d ps h = Inr (?e, if ps = [] then h else slice 0 40 img)" for ps h
    using assms(3) by (induction ps arbitrary: h) (auto simp: r slice_slice)
  have eb: "0 < m_erasesize d" using assms(1) by (simp add: flash_def)
  have "eb_offsets d \<noteq> []" using eb_offsets_Cons [OF eb] assms(2) by auto
  moreover have "?n < 2 ^ 32" using unsigned_less [where ?'a = nat, of "be32_dec (slice 4 4 img)"] by simp
  moreover have "?e \<le> m_size d + m_erasesize d - 1" by simp
  ultimately have "fit_scan d (eb_offsets d) [] = Inr (?e, slice 0 40 img)" "size_add A ?e ?n = ?e + ?n"
    using assms(4) eb scan by (simp, intro size_add_small, linarith)
  moreover have "mtd_find_rootfs_from A d (?e + ?n) (m_size d) = Inl (-19)"
  proof -
    have "m_size d mod 2 ^ ulong_bits A \<le> ?e + ?n" using eb_end [OF eb] mod_less_eq_dividend [of "m_size d" "2 ^ ulong_bits A"] by linarith
    then show ?thesis unfolding mtd_find_rootfs_from.simps [of A d "?e + ?n"] by (simp only: not_less [symmetric] if_False)
  qed
  ultimately show ?thesis by (simp add: mtdsplit_fit_parse_def slice_slice Let_def)
qed

text \<open>Two blocks of which the second is a FIT image.\<close>

definition demo_fit :: bytes where
  "demo_fit = replicate 40 0 @ be32_enc OF_DT_HEADER @ be32_enc 40 @ replicate 32 0"

theorem mtdsplit_fit_only_first_witness:
  "be32_dec (slice 40 4 demo_fit) = OF_DT_HEADER \<and> mtdsplit_fit_parse x86_64 (flash_dev 40 demo_fit) = Inl (-19)"
proof -
  have fl: "flash (flash_dev 40 demo_fit) demo_fit" by (rule flash_dev) (simp_all add: demo_fit_def)
  have "slice 0 4 demo_fit = [0, 0, 0, 0]" by (simp add: demo_fit_def slice_def numeral_eq_Suc)
  then have z: "be32_dec (slice 0 4 demo_fit) \<noteq> OF_DT_HEADER" by (simp add: be32_dec_def OF_DT_HEADER_def)
  have s: "m_size (flash_dev 40 demo_fit) = 80" "m_erasesize (flash_dev 40 demo_fit) = 40" by (simp_all add: flash_dev_def demo_fit_def)
  have "slice 40 4 demo_fit = be32_enc OF_DT_HEADER" by (simp add: demo_fit_def slice_def)
  then show ?thesis using mtdsplit_fit_only_first [OF fl _ z, of x86_64] by (simp add: s x86_64_def)
qed

section \<open>The squashfs splitter\<close>

lemma roundup:
  assumes "0 < eb" "n + eb < 2 ^ 32"
  shows "n \<le> mtd_roundup_to_eb n eb" "eb dvd mtd_roundup_to_eb n eb" "mtd_roundup_to_eb n eb < n + eb"
    "eb dvd m \<Longrightarrow> n \<le> m \<Longrightarrow> mtd_roundup_to_eb n eb \<le> m"
proof -
  have d: "n div eb * eb + n mod eb = n" "n mod eb < eb" using assms by simp_all
  then have "(n div eb + 1) * eb < 2 ^ 32" using assms(2) unfolding add_mult_distrib by linarith
  then have r: "mtd_roundup_to_eb n eb = (if n mod eb = 0 then n else n div eb * eb + eb)" by (simp add: mtd_roundup_to_eb_def)
  show "n \<le> mtd_roundup_to_eb n eb" "mtd_roundup_to_eb n eb < n + eb" using d assms unfolding r by (simp, linarith)+
  show "eb dvd mtd_roundup_to_eb n eb" by (auto simp: r dvd_eq_mod_eq_0)
  assume "eb dvd m" "n \<le> m"
  then obtain q where q: "m = q * eb" by (metis dvd_def mult.commute)
  show "mtd_roundup_to_eb n eb \<le> m"
  proof (cases "n mod eb = 0")
    case False
    then have "n < m" using \<open>n \<le> m\<close> q by (metis le_neq_implies_less mod_mult_self2_is_0)
    then have "n div eb < q" using q by (simp add: less_mult_imp_div_less)
    then have "(n div eb + 1) * eb \<le> q * eb" by (intro mult_le_mono1) simp
    then show ?thesis using False q by (simp add: r)
  qed (use \<open>n \<le> m\<close> in \<open>simp add: r\<close>)
qed

text \<open>C37. Below 4 GiB of the parent, the squashfs splitter returns one partition, inside the one it splits: it starts at the first erase block boundary
  of the parent at or after the end of the squashfs and leaves less than an erase block at the end. The partition is taken to end
  on such a boundary; \<open>mtdsplit_squashfs_past_end\<close> shows a device on which it does not.\<close>

theorem mtdsplit_squashfs_inside:
  assumes "flash d img" "0 < m_parent_erasesize d" "m_parent_erasesize d dvd m_part_offset d + m_size d"
    and "m_part_offset d + m_size d + m_parent_erasesize d < 2 ^ 32" "32 \<le> ulong_bits A"
    and "mtdsplit_parse_squashfs A d = Inr ps"
  shows "\<exists>p len. ps = [p] \<and> len = le64_nat (slice 40 8 img) mod 2 ^ ulong_bits A \<and> p_name p = ROOTFS_SPLIT_NAME \<and>
    len \<le> p_offset p \<and> p_offset p < len + m_parent_erasesize d \<and> m_parent_erasesize d dvd m_part_offset d + p_offset p \<and>
    p_offset p + p_size p \<le> m_size d \<and> m_size d < p_offset p + p_size p + m_erasesize d"
proof -
  let ?o = "m_part_offset d" and ?pe = "m_parent_erasesize d"
  obtain len where len: "mtd_get_squashfs_len A d 0 = Inr len" using assms(6) by (auto simp: mtdsplit_parse_squashfs_def split: sum.splits)
  have l: "len = le64_nat (slice 40 8 img) mod 2 ^ ulong_bits A" "len \<le> m_size d"
    using len assms(1) by (auto simp: mtd_get_squashfs_len_def flash_def slice_slice size_add_def Let_def split: if_splits prod.splits)
  define r where "r = mtd_roundup_to_eb (?o + len) ?pe"
  have r: "?o + len \<le> r" "r < ?o + len + ?pe" "?pe dvd r" "r \<le> ?o + m_size d"
    unfolding r_def using roundup [OF assms(2), of "?o + len"] assms(3,4) l by auto
  obtain off where off: "r = ?o + off" using r(1) by (metis add_leD1 le_iff_add)
  have "(2 :: nat) ^ 32 \<le> 2 ^ ulong_bits A" using assms(5) by (rule power_increasing) simp
  then have pow: "m_part_offset d + m_size d < 2 ^ ulong_bits A" using assms(4) by linarith
  have r64: "r < 2 ^ 64" "m_size d < 2 ^ 64" "off \<le> m_size d" "m_size d - off < 2 ^ 32" using r off assms(4) by simp_all
  have u: "u64_sub r ?o = off" "u64_sub (m_size d) off = m_size d - off" using off r64 by (simp_all add: u64_sub_small)
  have eb: "0 < m_erasesize d" using assms(1) by (simp add: flash_def)
  let ?s = "m_size d - off"
  have s: "mtd_rounddown_to_eb ?s (m_erasesize d) \<le> ?s" "?s < mtd_rounddown_to_eb ?s (m_erasesize d) + m_erasesize d"
    unfolding rounddown [OF r64(4)] using mod_less_divisor [OF eb, of ?s] div_mult_mod_eq [of ?s "m_erasesize d"] by linarith+
  have "size_add A ?o len = ?o + len" using l pow by (intro size_add_small) linarith
  then have ps: "ps = [\<lparr>p_name = ROOTFS_SPLIT_NAME, p_offset = off, p_size = mtd_rounddown_to_eb ?s (m_erasesize d)\<rparr>]"
    using assms(6) len u by (simp add: mtdsplit_parse_squashfs_def r_def Let_def)
  have "len \<le> off" "off < len + ?pe" "off + mtd_rounddown_to_eb ?s (m_erasesize d) \<le> m_size d"
    "m_size d < off + mtd_rounddown_to_eb ?s (m_erasesize d) + m_erasesize d"
    using r s off r64(3) by linarith+
  then show ?thesis using ps l(1) r(3) off by simp
qed

definition demo_squashfs :: "nat \<Rightarrow> bytes" where
  "demo_squashfs n = lit ''hsqs'' @ replicate 36 0 @ [50, 0, 0, 0, 0, 0, 0, 0] @ replicate n 0"

lemma demo_squashfs:
  "length (demo_squashfs n) = 48 + n" "slice 0 4 (demo_squashfs n) = lit ''hsqs''" "slice 40 8 (demo_squashfs n) = [50, 0, 0, 0, 0, 0, 0, 0]"
  by (simp_all add: demo_squashfs_def slice_def lit_def)

lemma demo_squashfs_len: "le64_nat (slice 40 8 (demo_squashfs n)) = 50"
  unfolding demo_squashfs by (simp add: le64_nat_def slice_def)

lemma demo_squashfs_parse:
  assumes "2 \<le> n" "n < 1000" "0 < eb"
  shows "mtdsplit_parse_squashfs mips_be (flash_dev eb (demo_squashfs n)) =
    (let off = mtd_roundup_to_eb 50 eb in Inr [\<lparr>p_name = ROOTFS_SPLIT_NAME, p_offset = off mod 2 ^ 64,
       p_size = mtd_rounddown_to_eb (u64_sub (48 + n) (off mod 2 ^ 64)) eb\<rparr>])"
proof -
  have "mtd_get_squashfs_len mips_be (flash_dev eb (demo_squashfs n)) 0 = Inr 50"
    using assms demo_squashfs_len [of n]
    by (simp add: mtd_get_squashfs_len_def flash_dev_def demo_squashfs slice_slice length_slice Let_def size_add_def mips_be_def
        lit_def SQUASHFS_MAGIC_def)
  then show ?thesis by (simp add: mtdsplit_parse_squashfs_def flash_dev_def demo_squashfs u64_sub_def Let_def size_add_def mips_be_def)
qed

theorem mtdsplit_squashfs_inside_witness:
  "mtdsplit_parse_squashfs mips_be (flash_dev 16 (demo_squashfs 48)) = Inr [\<lparr>p_name = ROOTFS_SPLIT_NAME, p_offset = 64, p_size = 32\<rparr>] \<and>
   (64::nat) + 32 \<le> 96 \<and> (50::nat) \<le> 64"
proof -
  let ?d = "flash_dev 16 (demo_squashfs 48)"
  have fl: "flash ?d (demo_squashfs 48)" by (rule flash_dev) (simp_all add: demo_squashfs)
  have p: "mtdsplit_parse_squashfs mips_be ?d = Inr [\<lparr>p_name = ROOTFS_SPLIT_NAME, p_offset = 64, p_size = 32\<rparr>]"
    by (simp add: demo_squashfs_parse mtd_roundup_to_eb_def mtd_rounddown_to_eb_def u64_sub_small)
  have s: "m_size ?d = 96" "m_erasesize ?d = 16" "m_parent_erasesize ?d = 16" "m_part_offset ?d = 0"
    by (simp_all add: flash_dev_def demo_squashfs)
  show ?thesis using mtdsplit_squashfs_inside [OF fl _ _ _ _ p] p demo_squashfs_len [of 48] by (simp add: s mips_be_def)
qed

text \<open>A partition of 50 bytes, less than its erase block: the splitter gives one that starts behind it, and that is nearly
  4 GiB large.\<close>

lemma mtdsplit_squashfs_past_end:
  "mtdsplit_parse_squashfs mips_be (flash_dev 64 (demo_squashfs 2)) =
    Inr [\<lparr>p_name = ROOTFS_SPLIT_NAME, p_offset = 64, p_size = 2 ^ 32 - 64\<rparr>]"
  by (simp add: demo_squashfs_parse mtd_roundup_to_eb_def mtd_rounddown_to_eb_def u64_sub_def)

section \<open>Adjacent partitions\<close>

text \<open>Parsers that put the kernel from the start of the device to the root file system.\<close>

locale whole_device_parser = rootfs_parser +
  assumes adjacent: "parse A d = Inr [k, r] \<Longrightarrow> p_offset k = 0 \<and> p_size k = p_offset r"

interpretation lzma: whole_device_parser mtdsplit_parse_lzma
  by unfold_locales (auto simp: mtdsplit_parse_lzma_def part_defs split: sum.splits if_splits)

interpretation minor: whole_device_parser mtdsplit_parse_minor
  by unfold_locales (auto simp: mtdsplit_parse_minor_def part_defs split: sum.splits if_splits)

interpretation wrgg: whole_device_parser mtdsplit_parse_wrgg
  by unfold_locales (auto simp: mtdsplit_parse_wrgg_def part_defs Let_def split: sum.splits if_splits option.splits)

text \<open>C35. When one of the six parsers that end with a root file system returns, there are two partitions, the kernel and the
  root file system; the second ends where the device ends, has room for its magic number and starts with it. The LZMA, the yaffs and the WRGG parser divide the device without a gap or an
  overlap: the kernel reaches from the start of the device to the root file system.\<close>

theorem mtdsplit_rootfs_inside:
  assumes "flash d img"
    and "parse \<in> set [mtdsplit_parse_lzma, mtdsplit_parse_minor, mtdsplit_parse_wrgg, mtdsplit_parse_eva, mtdsplit_parse_seama, mtdsplit_parse_tplink]"
    and "parse A d = Inr ps"
  shows "\<exists>k r. ps = [k, r] \<and> p_name k = KERNEL_PART_NAME \<and> p_offset r + p_size r = m_size d \<and> 4 \<le> p_size r \<and>
    rootfs_magic A (slice (p_offset r) 4 img) \<and>
    (parse \<in> set [mtdsplit_parse_lzma, mtdsplit_parse_minor, mtdsplit_parse_wrgg] \<longrightarrow> p_offset k = 0 \<and> p_size k = p_offset r)"
proof -
  have "rootfs_parser parse"
    using assms(2) lzma.rootfs_parser_axioms minor.rootfs_parser_axioms wrgg.rootfs_parser_axioms eva.rootfs_parser_axioms
      seama.rootfs_parser_axioms tplink.rootfs_parser_axioms by auto
  from rootfs_parser.rootfs_inside [OF this assms(1,3)] obtain k r where r: "ps = [k, r]" "p_name k = KERNEL_PART_NAME" "p_offset r + p_size r = m_size d"
      "4 \<le> p_size r" "rootfs_magic A (slice (p_offset r) 4 img)" by blast
  have "p_offset k = 0 \<and> p_size k = p_offset r" if "parse \<in> set [mtdsplit_parse_lzma, mtdsplit_parse_minor, mtdsplit_parse_wrgg]"
  proof -
    have "whole_device_parser parse"
      using that lzma.whole_device_parser_axioms minor.whole_device_parser_axioms wrgg.whole_device_parser_axioms by auto
    then show ?thesis using assms(3) unfolding r(1) by (rule whole_device_parser.adjacent)
  qed
  then show ?thesis using r by blast
qed

definition demo_minor :: bytes where
  "demo_minor = [1, 0, 0, 0, 1, 0, 0, 0, 0xff, 0xff] @ lit ''kernel'' @ [0, 0, 0, 0] @ replicate 12 1 @ lit ''hsqs'' @ replicate 12 0"

theorem mtdsplit_rootfs_inside_witness:
  "\<exists>k r. mtdsplit_parse_minor mips_le (flash_dev 16 demo_minor) = Inr [k, r] \<and> p_offset k = 0 \<and> p_size k = 32 \<and> p_offset r + p_size r = 48 \<and> 4 \<le> p_size r \<and>
    rootfs_magic mips_le (slice (p_offset r) 4 demo_minor)"
proof -
  let ?d = "flash_dev 16 demo_minor"
  have fl: "flash ?d demo_minor" by (rule flash_dev) (simp_all add: demo_minor_def lit_def)
  have s: "m_size ?d = 48" "m_erasesize ?d = 16" by code_simp+
  have h: "read_header ?d 0 20 = Inr (take 20 demo_minor)" by code_simp
  have "mtd_check_rootfs_magic mips_le ?d 16 = Inl (-22)" "mtd_check_rootfs_magic mips_le ?d 32 = Inr PART_TYPE_SQUASHFS" "ulong_bits mips_le = 32" by code_simp+
  then have f: "mtd_find_rootfs_from mips_le ?d 16 48 = Inr (32, PART_TYPE_SQUASHFS)" using s by (simp add: find_rootfs_run)
  have p: "mtdsplit_parse_minor mips_le ?d = Inr [kernel_part 0 32, rootfs_part 32 16]"
    unfolding mtdsplit_parse_minor_def h s
    by (simp add: f u64_sub_small) (simp add: demo_minor_def slice_def native32_dec_def native16_dec_def mips_le_def lit_def)
  show ?thesis using mtdsplit_rootfs_inside [where parse = mtdsplit_parse_minor, OF fl _ p] p unfolding s by (auto simp: kernel_part_def rootfs_part_def)
qed

text \<open>The Seama parser: the kernel starts behind the header and its meta data and ends where the root file system starts,
  which is right behind the kernel entity if its magic number is there.\<close>

theorem mtdsplit_seama_layout:
  assumes "flash d img" "mtdsplit_parse_seama A d = Inr ps"
    and "meta = unat (be16_dec (slice 6 2 img))" "ent = 28 + unat (be32_dec (slice 8 4 img)) + meta" "ent < 2 ^ ulong_bits A"
  shows "\<exists>k r. ps = [k, r] \<and> p_offset k = 28 + meta \<and> p_offset k + p_size k = p_offset r \<and> p_offset r + p_size r = m_size d \<and>
    (ent + 4 \<le> m_size d \<and> rootfs_magic A (slice ent 4 img) \<longrightarrow> p_offset r = ent)"
proof -
  have sz: "28 \<le> m_size d" "m_size d < 2 ^ 64"
    using assms(1,2) read_header_flash [OF assms(1), of 0 28] by (auto simp: mtdsplit_parse_seama_def flash_def split: if_splits)
  have e: "size_add A (size_add A 28 (unat (be32_dec (slice 8 4 img)))) meta = ent" using assms(4,5) by (simp add: size_add_small)
  have meta: "meta < 65536" using unsigned_less [where ?'a = nat, of "be16_dec (slice 6 2 img)"] assms(3) by simp
  define found where "found = (case mtd_check_rootfs_magic A d ent of Inr ty \<Rightarrow> Inr (ent, ty)
      | Inl _ \<Rightarrow> mtd_find_rootfs_from A d SEAMA_MIN_ROOTFS_OFFS (m_size d))"
  have "mtdsplit_parse_seama A d = (if be32_dec (slice 0 4 img) \<noteq> SEAMA_MAGIC then Inl (-22) else if ent > m_size d then Inl (-22)
      else case found of Inl e \<Rightarrow> Inl e | Inr (ro, ty) \<Rightarrow> Inr [kernel_part (28 + meta) (u64_sub ro (28 + meta)),
        typed_rootfs_part ty ro (u64_sub (m_size d) ro)])"
    using sz read_header_flash [OF assms(1), of 0 28] assms(3) e
    by (simp add: mtdsplit_parse_seama_def slice_slice Let_def found_def split: sum.splits)
  then obtain ro ty where f: "found = Inr (ro, ty)" "ps = [kernel_part (28 + meta) (u64_sub ro (28 + meta)), typed_rootfs_part ty ro (u64_sub (m_size d) ro)]"
    using assms(2) by (auto split: if_splits sum.splits)
  have ro: "mtd_check_rootfs_magic A d ro = Inr ty \<and> 28 + meta \<le> ro"
    using f(1) find_rootfs_check [of A d SEAMA_MIN_ROOTFS_OFFS "m_size d"] meta assms(4)
    by (auto simp: found_def SEAMA_MIN_ROOTFS_OFFS_def split: sum.splits)
  then have "ro + 4 \<le> m_size d" using check_rootfs_flash [OF assms(1), of A ro] by auto
  moreover have "ro = ent" if "ent + 4 \<le> m_size d \<and> rootfs_magic A (slice ent 4 img)"
    using f(1) that check_rootfs_flash [OF assms(1), of A ent] by (auto simp: found_def)
  ultimately show ?thesis using f(2) ro sz by (auto simp: part_defs u64_sub_small)
qed

definition demo_seama :: bytes where
  "demo_seama = be32_enc SEAMA_MAGIC @ [0, 0, 0, 4] @ be32_enc 8 @ replicate 16 0 @ replicate 12 1 @ lit ''hsqs'' @ replicate 4 0"

theorem mtdsplit_seama_layout_witness:
  "\<exists>k r. mtdsplit_parse_seama mips_be (flash_dev 16 demo_seama) = Inr [k, r] \<and> p_offset k = 32 \<and> p_size k = 8 \<and> p_offset r = 40"
proof -
  let ?d = "flash_dev 16 demo_seama"
  have fl: "flash ?d demo_seama" by (rule flash_dev) (simp_all add: demo_seama_def lit_def)
  have s: "m_size ?d = 48" by (simp add: flash_dev_def demo_seama_def lit_def)
  have h: "slice 0 4 demo_seama = be32_enc SEAMA_MAGIC" "slice 6 2 demo_seama = [0, 4]" "slice 8 4 demo_seama = be32_enc 8"
    "slice 40 4 demo_seama = lit ''hsqs''"
    by (simp_all add: demo_seama_def slice_def be32_enc_def le32_enc_def lit_def numeral_eq_Suc)
  have v: "unat (be16_dec (slice 6 2 demo_seama)) = 4" "unat (be32_dec (slice 8 4 demo_seama)) = 8"
    "rootfs_magic mips_be (slice 40 4 demo_seama)"
    by (simp_all add: h be16_dec_def rootfs_magic_def lit_def SQUASHFS_MAGIC_def)
  obtain ty where ty: "mtd_check_rootfs_magic mips_be ?d 40 = Inr ty" using check_rootfs_flash [OF fl, of mips_be 40] v s by auto
  have "read_header ?d 0 28 = Inr (slice 0 28 demo_seama)" using read_header_flash [OF fl, of 0 28] by (simp add: s)
  then have "\<exists>ps. mtdsplit_parse_seama mips_be ?d = Inr ps"
    using ty by (simp add: mtdsplit_parse_seama_def slice_slice h(1) v Let_def size_add_def mips_be_def s)
  then obtain ps where ps: "mtdsplit_parse_seama mips_be ?d = Inr ps" by blast
  then show ?thesis using mtdsplit_seama_layout [OF fl ps refl refl] v by (auto simp: s mips_be_def)
qed

section \<open>brnImage\<close>

lemma check_rootfs_error: "flash d img \<Longrightarrow> mtd_check_rootfs_magic A d off = Inl e \<Longrightarrow> e = -22"
  by (auto simp: mtd_check_rootfs_magic_def read_header_flash split: if_splits)

lemma brn_scan_find:
  assumes "flash d img"
  shows "brn_scan A d ps ret = (case find (\<lambda>p. p + 4 \<le> m_size d \<and> rootfs_magic A (slice p 4 img)) ps of
      Some p \<Rightarrow> (0, p) | None \<Rightarrow> (if ps = [] then ret else -22, (m_size d + 0x3ff) div 0x400 * 0x400))"
proof (induction ps arbitrary: ret)
  case (Cons p ps)
  then show ?case using check_rootfs_flash [OF assms, of A p] check_rootfs_error [OF assms, of A p]
    by (auto split: sum.splits option.splits)
qed simp

lemma find_multiples:
  assumes "find P (map (\<lambda>i. i * k) [0..<n]) = Some p"
  shows "k dvd p \<and> P p \<and> (\<forall>q<p. k dvd q \<longrightarrow> \<not> P q)"
proof -
  from assms obtain i where i: "i < n" "p = i * k" "P p" "\<forall>j<i. \<not> P (j * k)" by (auto simp: find_Some_iff)
  have "\<not> P q" if "q < p" "k dvd q" for q
  proof -
    obtain j where j: "q = j * k" using \<open>k dvd q\<close> by (metis dvd_def mult.commute)
    then have "j < i" using that(1) i(2) by simp
    then show ?thesis using i(4) j by simp
  qed
  then show ?thesis using i by simp
qed

text \<open>The brnImage parser: the root file system is at the first KiB boundary with a magic number; the kernel, whose size is
  stored 12 bytes before, ends between 12 and 1036 bytes before it; the root file system ends 12 bytes before the device.\<close>

theorem mtdsplit_brnimage_layout:
  assumes "flash d img" "m_size d + 12 < 2 ^ ulong_bits A" "mtdsplit_parse_brnimage A d = Inr ps"
  shows "\<exists>o1. map p_offset ps = [0, o1] \<and> 0x400 dvd o1 \<and> rootfs_magic A (slice o1 4 img) \<and>
    (\<forall>q<o1. 0x400 dvd q \<longrightarrow> \<not> rootfs_magic A (slice q 4 img)) \<and>
    p_size (ps ! 0) = unat (le32_dec (slice (o1 - 12) 4 img)) \<and> p_size (ps ! 0) + 12 \<le> o1 \<and> o1 \<le> p_size (ps ! 0) + 0x40c \<and>
    (o1 + 12 \<le> m_size d \<longrightarrow> o1 + p_size (ps ! 1) + 12 = m_size d)"
proof -
  let ?P = "\<lambda>p. p + 4 \<le> m_size d \<and> rootfs_magic A (slice p 4 img)" and ?U = "(2::nat) ^ ulong_bits A"
  let ?os = "map (\<lambda>i. i * 0x400) [0..<(m_size d + 0x3ff) div 0x400]"
  obtain o1 where f: "find ?P ?os = Some o1"
    using assms(3) brn_scan_find [OF assms(1), of A ?os 0]
    by (cases "find ?P ?os") (auto simp: mtdsplit_parse_brnimage_def Let_def split: if_splits)
  then have scan: "brn_scan A d ?os 0 = (0, o1)" using brn_scan_find [OF assms(1), of A ?os 0] by simp
  from find_multiples [OF f] have o1: "0x400 dvd o1" "?P o1" "\<forall>q<o1. 0x400 dvd q \<longrightarrow> \<not> ?P q" by blast+
  let ?k = "unat (le32_dec (slice (size_sub A o1 12) 4 img))"
  have u12: "(12::nat) mod ?U = 12" "(0x40c::nat) mod ?U \<le> 0x40c" using assms(2) by simp_all
  have r: "size_sub A o1 12 + 4 \<le> m_size d" "?k \<le> size_sub A o1 12" "size_sub A o1 0x40c \<le> ?k"
    "ps = [kernel_part 0 ?k, rootfs_part o1 (size_sub A (m_size d) (o1 + 12))]"
    using assms(3) scan read_header_flash [OF assms(1), of "size_sub A o1 12" 4]
    by (auto simp: mtdsplit_parse_brnimage_def Let_def not_less split: if_splits)
  have "o1 \<noteq> 0"
  proof
    assume "o1 = 0"
    then have "size_sub A o1 12 = ?U - 12" using assms(2) u12 by (simp add: size_sub_def)
    then show False using r(1) assms(2) by linarith
  qed
  then have ge: "0x400 \<le> o1" using o1(1) dvd_imp_le by blast
  then have s12: "size_sub A o1 12 = o1 - 12" using o1(2) assms(2) by (intro size_sub_small) linarith+
  have big: "o1 \<le> ?k + 0x40c"
  proof (cases "0x40c \<le> o1")
    case True
    then have "size_sub A o1 0x40c = o1 - 0x40c" using o1(2) assms(2) by (intro size_sub_small) linarith+
    then show ?thesis using r(3) by linarith
  qed linarith
  have "rootfs_magic A (slice q 4 img) \<longrightarrow> \<not> (q < o1 \<and> 0x400 dvd q)" for q using o1(2,3) by (metis add_le_mono1 le_trans less_imp_le)
  moreover have "size_sub A (m_size d) (o1 + 12) = m_size d - (o1 + 12)" if "o1 + 12 \<le> m_size d"
    using that assms(2) by (intro size_sub_small) linarith+
  ultimately show ?thesis using r o1 s12 ge big by (auto simp: part_defs)
qed

definition demo_brn :: bytes where
  "demo_brn = replicate 2036 0 @ le32_enc 2000 @ replicate 8 0 @ lit ''hsqs'' @ replicate 28 0"

theorem mtdsplit_brnimage_layout_witness:
  "\<exists>ps. mtdsplit_parse_brnimage mips_be (flash_dev 64 demo_brn) = Inr ps \<and> map p_offset ps = [0, 2048] \<and>
     p_size (ps ! 0) = 2000 \<and> p_size (ps ! 1) = 20"
proof -
  let ?d = "flash_dev 64 demo_brn"
  have fl: "flash ?d demo_brn" by (rule flash_dev) (simp_all add: demo_brn_def lit_def)
  have s: "m_size ?d = 2080" by (simp add: flash_dev_def demo_brn_def lit_def)
  have h: "slice 0 4 demo_brn = [0, 0, 0, 0]" "slice 1024 4 demo_brn = [0, 0, 0, 0]" "slice 2048 4 demo_brn = lit ''hsqs''"
    "slice 2036 4 demo_brn = le32_enc 2000"
    by (simp_all add: demo_brn_def slice_def lit_def numeral_eq_Suc)
  have m: "\<not> rootfs_magic mips_be [0, 0, 0, 0]" "rootfs_magic mips_be (lit ''hsqs'')"
    by (simp_all add: rootfs_magic_def lit_def SQUASHFS_MAGIC_def native32_dec_def be32_dec_def UBI_EC_MAGIC_def)
  have l: "map (\<lambda>i. i * 1024) [0..<3] = [0, 1024, 2048 :: nat]" by (simp add: upt_rec)
  have "brn_scan mips_be ?d [0, 1024, 2048] 0 = (0, 2048)"
    using brn_scan_find [OF fl, of mips_be "[0, 1024, 2048]" 0] by (simp add: s h m)
  moreover have "read_header ?d 2036 4 = Inr (le32_enc 2000)" using read_header_flash [OF fl, of 2036 4] by (simp add: s h)
  ultimately have p: "mtdsplit_parse_brnimage mips_be ?d = Inr [kernel_part 0 2000, rootfs_part 2048 20]"
    by (simp add: mtdsplit_parse_brnimage_def s l size_sub_def mips_be_def)
  show ?thesis using mtdsplit_brnimage_layout [OF fl _ p] p by (auto simp: s part_defs mips_be_def)
qed


end
