(* ===== verification/Firmware.thy ===== *)
theory Firmware
  imports Otrx Mtdsplit MtdFix
begin

text \<open>
  Lemmas for the properties that follow an image through several programs: \<open>otrx create\<close>, \<open>mtd write\<close>, \<open>mtd fixtrx\<close>, \<open>mtd dump\<close> and
  \<open>otrx check\<close>, and the kernel's parser for trx images.
\<close>

section \<open>From the image tool to the flash and back into partitions\<close>

text \<open>On a device without bad blocks the image is stored in one piece.\<close>

lemma place_good:
  assumes "\<And>k. \<not> bad k"
  shows "\<lbrakk>k + length bs \<le> n; length c = n * eb; \<And>b. b \<in> set bs \<Longrightarrow> length b = eb\<rbrakk> \<Longrightarrow> place bad n eb k bs c = Some (put (k * eb) (concat bs) c)"
proof (induction bs arbitrary: k c)
  case (Cons b bs)
  have k: "k < n" "List.find (\<lambda>j. \<not> bad j) [k..<n] = Some k" using Cons.prems(1) assms by (simp_all add: upt_conv_Cons)
  have b: "length b = eb" "\<And>b. b \<in> set bs \<Longrightarrow> length b = eb" using Cons.prems(3) by auto
  have le: "k * eb + eb + length bs * eb \<le> n * eb"
    using mult_le_mono1 [OF Cons.prems(1), of eb] by (simp add: add_mult_distrib)
  have "place bad n eb (Suc k) bs (put (k * eb) b c) = Some (put (Suc k * eb) (concat bs) (put (k * eb) b c))"
    using Cons.prems(1,2) le b by (intro Cons.IH) auto
  also have "Suc k * eb = k * eb + length b" using b(1) by simp
  also have "put (k * eb + length b) (concat bs) (put (k * eb) b c) = put (k * eb) (b @ concat bs) c"
    using le b Cons.prems(2) concat_length_blocks [of bs eb] by (intro put_put_append) simp
  finally show ?case using k by simp
qed simp

lemma write_good:
  assumes "chip ops valid cells n eb nand bad" "valid d" "devs s name = Some d" "0x3a \<notin> set name"
    and "bufcap s = Some cap" "eb \<le> cap" "length (buf s) \<le> eb" "readable (image s)" "n + 2 \<le> fuel"
    and good: "\<And>k. \<not> bad k" and img: "buf s @ image_bytes (image s) = img" "length img \<le> n * eb"
  shows "\<exists>s' d'. mtd_write ops 0 False fuel name s = (Inr 0, s') \<and> devs s' name = Some d' \<and> valid d' \<and> prefix img (cells d')"
proof -
  let ?bs = "image_blocks eb img"
  have eb: "0 < eb" and l: "length (cells d) = n * eb" using chip_geometry(1,2) [OF assms(1,2)] by auto
  obtain k where k: "k < eb" "concat ?bs = img @ replicate k 0xff" using image_blocks_concat [OF eb] by blast
  have sz: "length ?bs * eb = length img + k" using concat_length_blocks [of ?bs eb, OF image_blocks_length] k(2) by simp
  then have "length ?bs * eb < Suc n * eb" using img(2) k(1) by simp
  then have le: "length ?bs \<le> n" using eb by (metis mult_less_cancel2 less_Suc_eq_le)
  have "place bad n eb 0 ?bs (cells d) = Some (put (0 * eb) (concat ?bs) (cells d))"
    using good le l by (intro place_good) (auto dest: image_blocks_length)
  moreover have "prefix img (put (0 * eb) (concat ?bs) (cells d))" by (simp add: put_def k(2))
  ultimately show ?thesis using mtd_write_place [OF assms(1-9)] img(1) by auto
qed

lemma trx_parts_parse:
  assumes fl: "flash kd m" and sz: "m_size kd < 2 ^ 31" "32 \<le> m_size kd" "32 \<le> ulong_bits A" "\<not> big_endian A"
    and img: "prefix img m" "img = put 0 (trx_enc A (final_header hdr b A)) b" "hdr_size \<le> length b" "th_length hdr = of_nat (length b)"
    and parts: "parts_at (th_offset hdr) b (kern # rootfs # rest)" "rootfs \<noteq> []"
  shows "\<exists>ko ks ro rs. mtdsplit_parse_trx A kd = Inr [kernel_part ko ks, rootfs_part ro rs] \<and> ro = ko + ks \<and> ro + rs = m_size kd \<and>
    prefix kern (slice ko ks m) \<and> prefix rootfs (slice ro rs m)"
proof -
  let ?h = "final_header hdr b A" and ?ko = "unat (th_offset hdr ! 0)" and ?ro = "unat (th_offset hdr ! 1)"
  have lm: "length m = m_size kd" "0 < m_erasesize kd" "length img = length b" "length b \<le> m_size kd"
    using fl img by (auto simp: flash_def prefix_def)
  have p: "?ko + length kern \<le> ?ro" "?ro + length rootfs \<le> length b" "hdr_size \<le> ?ko" "slice ?ko (length kern) b = kern" "slice ?ro (length rootfs) b = rootfs"
    "length (th_offset hdr) = TRX_MAX_PARTS"
    using parts by (force simp: parts_at_def)+
  have in_m: "slice i n m = slice i n img" if "i + n \<le> length b" for i n
    using img(1) that lm(3) by (auto simp: prefix_def slice_append_left)
  have hs: "slice i 4 (slice 0 32 m) = slice i 4 (trx_enc A ?h)" if "i + 4 \<le> 28" for i
    using that img(3) by (simp add: slice_slice in_m hdr_size_def) (simp add: img(2) slice_put_0 hdr_size_def)
  obtain x y z where off: "th_offset hdr = [x, y, z]" using p(6) by (auto simp: TRX_MAX_PARTS_def numeral_eq_Suc length_Suc_conv)
  have h: "th_magic ?h = TRX_MAGIC" "th_length ?h = of_nat (length b)" "th_offset ?h = [x, y, z]"
    using img(4) off sz(4) by (simp_all add: final_header_def Let_def le_native)
  have f: "le32_dec (slice 0 4 (slice 0 32 m)) = TRX_MAGIC32" "le32_dec (slice 4 4 (slice 0 32 m)) = of_nat (length b)"
    "native32_dec A (slice 16 4 (slice 0 32 m)) = x" "native32_dec A (slice 20 4 (slice 0 32 m)) = y"
    using h sz(4) by (simp_all add: hs trx_enc_slices le_native native32_dec_def TRX_MAGIC_def TRX_MAGIC32_def)
  have nb: "unat (of_nat (length b) :: u32) = length b" using lm(4) sz(1) by (simp add: unat_of_nat)
  have "(2 :: nat) ^ 31 \<le> 2 ^ ulong_bits A" using sz(3) by (intro power_increasing) auto
  then have U: "m_size kd < 2 ^ ulong_bits A" using sz(1) by linarith
  obtain rest' where ebo: "eb_offsets kd = 0 # rest'" using eb_offsets_Cons lm(2) sz(2) by (metis less_le_trans zero_less_numeral)
  have "read_header kd 0 32 = Inr (slice 0 32 m)" using read_header_flash [OF fl] sz(2) by simp
  moreover have "size_add A 0 (length b) = length b" using size_add_small [of 0 "length b" A] lm(4) U by simp
  ultimately have "trx_round A kd 0 [] = (True, length b, slice 0 32 m)" using f nb lm(4) by (simp add: trx_round_def)
  then have loop: "trx_scan_loop A kd (eb_offsets kd) \<lparr>ts_size = 0, ts_offset = 0, ts_hdr = []\<rparr> = \<lparr>ts_size = length b, ts_offset = 0, ts_hdr = slice 0 32 m\<rparr>"
    by (simp add: ebo)
  have xy: "?ko = unat x" "?ro = unat y" using off by simp_all
  have lr: "0 < length rootfs" using parts(2) by simp
  have sizes: "size_add A 0 (unat x) = unat x" "size_add A 0 (unat y) = unat y" "size_sub A (m_size kd) (unat y) = m_size kd - unat y" "size_sub A (unat y) (unat x) = unat y - unat x"
    using p(1,2) lm(4) U unfolding xy by (simp_all add: size_add_small size_sub_small)
  have ne: "b \<noteq> []" "unat y < m_size kd" using img(3) p(2) lr lm(4) unfolding xy hdr_size_def by (auto simp del: length_greater_0_conv)
  have run: "mtdsplit_parse_trx A kd = Inr [kernel_part (unat x) (unat y - unat x), rootfs_part (unat y) (m_size kd - unat y)]"
    using ne unfolding mtdsplit_parse_trx_def loop by (simp add: f sizes Let_def)
  have pre: "prefix q (slice i k m)" if q: "slice i (length q) b = q" "length q \<le> k" "i + length q \<le> length b" "hdr_size \<le> i" for q i k
  proof -
    have "slice i (length q) m = slice i (length q) b"
      using q(3,4) by (simp add: in_m img(2) put_def slice_append_right) (simp add: slice_def)
    then show ?thesis using slice_mono [OF q(2), of i m] q(1) by simp
  qed
  show ?thesis
    unfolding run using p lm(4) lr unfolding xy
    by (intro exI [of _ "unat x"] exI [of _ "unat y - unat x"] exI [of _ "unat y"] exI [of _ "m_size kd - unat y"] conjI refl) (auto intro!: pre)
qed

section \<open>The dump of a device\<close>

lemma good_data_add: "good_data bad eb off (a + b) m = good_data bad eb off a m @ good_data bad eb (off + a) b m"
proof -
  have "[off..<off + (a + b)] = [off..<off + a] @ [off + a..<off + a + b]" using upt_add_eq_append [of off "off + a" b] by (simp add: add.assoc)
  then show ?thesis by (simp only: good_data_def filter_append map_append)
qed

lemma place_own:
  assumes "length c = n * eb"
  shows "place bad n eb k (map (\<lambda>j. slice (j * eb) eb c) (filter (\<lambda>j. \<not> bad j) [k..<n])) c = Some c"
proof (induction "n - k" arbitrary: k)
  case (Suc i)
  have up: "[k..<n] = k # [Suc k..<n]" and k: "k < n" using Suc(2) by (auto simp: upt_conv_Cons)
  have IH: "place bad n eb (Suc k) (map (\<lambda>j. slice (j * eb) eb c) (filter (\<lambda>j. \<not> bad j) [Suc k..<n])) c = Some c" using Suc by simp
  have skip: "place bad n eb k bs c = place bad n eb (Suc k) bs c" if "bad k" for bs using that by (cases bs) (simp_all add: up)
  have "put (k * eb) (slice (k * eb) eb c) c = c" using block_inside [OF k, of eb] assms by (intro put_same) simp_all
  then show ?case using IH skip by (cases "bad k") (simp_all add: up)
qed simp

lemma good_blocks:
  assumes "0 < eb" "length c = n * eb"
  shows "concat (map (\<lambda>j. slice (j * eb) eb c) (filter (\<lambda>j. \<not> bad j) [k..<n])) = good_data bad eb (k * eb) ((n - k) * eb) c"
proof (induction "n - k" arbitrary: k)
  case 0
  then show ?case by (simp add: good_data_def)
next
  case (Suc i)
  have up: "[k..<n] = k # [Suc k..<n]" and k: "k < n" using Suc(2) by (auto simp: upt_conv_Cons)
  have e: "(n - k) * eb = eb + (n - Suc k) * eb" using k by (simp add: Suc_diff_Suc flip: mult_Suc)
  have le: "k * eb + (n - k) * eb = n * eb" using k by (simp flip: add_mult_distrib)
  have "good_data bad eb (k * eb) ((n - k) * eb) c =
      (if bad k then [] else slice (k * eb) eb c) @ good_data bad eb (k * eb + eb) ((n - k) * eb - eb) c"
    using good_data_split [of eb eb "(n - k) * eb" "k * eb" c bad] le assms e by simp
  also have "(n - k) * eb - eb = (n - Suc k) * eb" using e by simp
  also have "k * eb + eb = Suc k * eb" by simp
  also have "good_data bad eb (Suc k * eb) ((n - Suc k) * eb) c = concat (map (\<lambda>j. slice (j * eb) eb c) (filter (\<lambda>j. \<not> bad j) [Suc k..<n]))"
    using Suc by simp
  finally show ?case by (simp add: up)
qed

text \<open>\<open>mtd dump\<close> of a device with at least one good block, over the size of its good blocks.\<close>

lemma dump_good:
  assumes ch: "chip ops valid cells n eb nand bad" and d: "valid d" "devs s name = Some d" and fuel: "n + 1 \<le> fuel"
    and some: "k < n" "\<not> bad k"
  shows "fst (mtd_dump ops fuel name 0 (length (good_data bad eb 0 (n * eb) (cells d))) s) = (Inr 0, good_data bad eb 0 (n * eb) (cells d))"
proof -
  let ?bs = "map (\<lambda>j. slice (j * eb) eb (cells d)) (filter (\<lambda>j. \<not> bad j) [0..<n])"
  have eb: "0 < eb" and l: "length (cells d) = n * eb" using chip_geometry(1,2) [OF ch d(1)] by auto
  have c: "concat ?bs = good_data bad eb 0 (n * eb) (cells d)" using good_blocks [OF eb l, of bad 0] by simp
  have bl: "\<And>b. b \<in> set ?bs \<Longrightarrow> length b = eb" using l block_inside by fastforce
  have ne: "?bs \<noteq> []" using some by (auto simp: filter_empty_conv)
  then have sz: "length ?bs * eb = length (concat ?bs)" "0 < length ?bs * eb" using concat_length_blocks [of ?bs eb, OF bl] eb by auto
  have "dump_loop ops eb nand d fuel (0 * eb) (0 * eb) (length ?bs * eb) [] = (Inr 0, [] @ concat ?bs)"
    using fuel by (intro dump_loop_place [OF ch d(1) refl place_own [OF l] l ne bl]) auto
  moreover have "mtd_check_open ops name s = (Some d, s\<lparr>mtdsize := n * eb, erasesize := eb, mtd_nand := nand\<rparr>)"
    using d(2) chip_geometry(3) [OF ch d(1)] by (simp add: mtd_check_open_def)
  ultimately show ?thesis using sz unfolding mtd_dump_def c [symmetric] by auto
qed

lemma fixed_valid:
  assumes eb: "28 \<le> eb" "0 < n" and l: "length m = n * eb" "n * eb < 2 ^ 31" and hdr: "\<not> bad 0" "le32_dec (slice 0 4 m) = TRX_MAGIC"
    and ds: "16 \<le> ds" "12 + ds \<le> n * eb"
    and m': "m' = put 4 (trx_fields (good_data bad eb 12 ds m)) m"
  shows "valid_trx (good_data bad eb 0 (n * eb) m')"
proof -
  let ?data = "good_data bad eb 12 ds m"
  have lf: "length (trx_fields ?data) = 8" by (simp add: trx_fields_def)
  have lm: "length m' = n * eb" using lf l(1) ds(2) by (simp add: m')
  have le: "length ?data \<le> ds" unfolding good_data_def by (metis length_filter_le length_map length_upt add_diff_cancel_left')
  have "good_data bad eb 0 (n * eb) m' = slice 0 12 m' @ good_data bad eb 12 (n * eb - 12) m'"
    using good_data_split [of eb 12 "n * eb" 0 m' bad] eb lm hdr(1) ds(2) by simp
  also have "n * eb - 12 = ds + (n * eb - 12 - ds)" using ds(2) by simp
  finally have "good_data bad eb 0 (n * eb) m' = slice 0 12 m' @ good_data bad eb 12 ds m' @ good_data bad eb (12 + ds) (n * eb - 12 - ds) m'"
    by (simp only: good_data_add)
  moreover have "good_data bad eb 12 ds m' = ?data" unfolding m' using lf l(1) ds(2) by (intro good_data_put) simp_all
  moreover have "slice 0 12 m' = slice 0 4 m @ trx_fields ?data"
    using lf l(1) ds(2) by (simp add: m' put_def slice_def)
  ultimately obtain r where d: "good_data bad eb 0 (n * eb) m' = slice 0 4 m @ trx_fields ?data @ ?data @ r" by simp
  have l4: "length (slice 0 4 m) = 4" using l(1) ds(2) by simp
  have s: "slice 0 4 (slice 0 4 m @ trx_fields ?data @ ?data @ r) = slice 0 4 m" "slice 4 4 (slice 0 4 m @ trx_fields ?data @ ?data @ r) = le32_enc (of_nat (length ?data + 12))"
    "slice 8 4 (slice 0 4 m @ trx_fields ?data @ ?data @ r) = le32_enc (crc32buf ?data)" "slice 12 (length ?data) (slice 0 4 m @ trx_fields ?data @ ?data @ r) = ?data"
    using l4 by (simp_all add: trx_fields_def slice_def)
  have d16: "length (slice 12 16 m) = 16" using l(1) ds by simp
  have "?data = slice 12 16 m @ good_data bad eb 28 (ds - 16) m"
    using good_data_split [of eb 16 ds 12 m bad] eb l ds hdr(1) by simp
  then have "16 \<le> length ?data" using l(1) ds by (metis d16 le_add1 length_append)
  moreover have "unat (of_nat (length ?data + 12) :: u32) = length ?data + 12" using le l(2) ds(2) by (simp add: unat_of_nat del: of_nat_add)
  moreover have "crc_ref 0xedb88320 0xffffffff ?data = crc32buf ?data" by (simp add: crc32buf_def mtd_crc32_ref)
  ultimately show ?thesis using hdr(2) s l4 unfolding d valid_trx_def Let_def s le32_dec_enc
    by (simp add: hdr_size_def TRX_FLAGS_OFFSET_def lf s(4) del: of_nat_add)
qed

section \<open>An image of two partitions\<close>

text \<open>A kernel of three bytes and a root file system of three, and a device of four erase blocks of 1024 bytes.\<close>

definition fw_env :: otrx_env where
  "fw_env = \<lparr>files = (\<lambda>p. if p = lit ''k'' then Some [1, 2, 3] else if p = lit ''r'' then Some [4, 5, 6] else None),
     malloc_ok = (\<lambda>n. True), disk = 2 ^ 31\<rparr>"

lemma fw_options: "otrx_create_options x86_64 fw_env (otrx_create_init fw_env) [(102, lit ''k''), (102, lit ''r'')] =
    Some (Inr \<lparr>o_trx = \<lparr>content = replicate 28 0 @ [1, 2, 3, 0, 4, 5, 6, 0], fpos = 36, fcap = 2147483648\<rparr>,
      o_hdr = \<lparr>th_magic = 0, th_length = 0, th_crc32 = 0, th_flags = 0, th_version = 0, th_offset = [28, 32, 0]\<rparr>,
      curr_idx = Suc (Suc 0), curr_offset = 36\<rparr>)"
  by (simp add: otrx_create_init_def otrx_create_option_def record_part_def advance_def align_step_def otrx_create_align_def
    otrx_create_append_file_def append_loop.simps otrx_create_append_zeros_def fwrite_def fw_env_def x86_64_def hdr_size_def
    TRX_MAX_PARTS_def size_add_def size_sub_def ssize_of_def put_def Let_def fseek_def lit_def)

lemma fw_create: "\<exists>img. otrx_create x86_64 fw_env [(102, lit ''k''), (102, lit ''r'')] = Some (0, img) \<and> length img = 4096"
proof -
  let ?h = "\<lparr>th_magic = 0, th_length = 0, th_crc32 = 0, th_flags = 0, th_version = 0, th_offset = [28, 32, 0]\<rparr>"
  let ?t = "\<lparr>o_trx = \<lparr>content = replicate 28 0 @ [1, 2, 3, 0, 4, 5, 6, 0], fpos = 36, fcap = 2147483648\<rparr>, o_hdr = ?h, curr_idx = Suc (Suc 0), curr_offset = 36\<rparr>"
  let ?s = "?t\<lparr>o_trx := \<lparr>content = replicate 28 0 @ [1, 2, 3, 0, 4, 5, 6, 0] @ replicate 4060 0, fpos = 4096, fcap = 2147483648\<rparr>, curr_offset := 4096\<rparr>"
  have "align_step x86_64 fw_env 0x1000 ?t = Some ?s"
    by (simp add: advance_def align_step_def otrx_create_align_def otrx_create_append_zeros_def fwrite_def fw_env_def x86_64_def
      size_add_def size_sub_def ssize_of_def put_def Let_def)
  moreover have "length (content (snd (otrx_create_write_hdr x86_64 (o_trx ?s) ((o_hdr ?s)\<lparr>th_length := of_nat (curr_offset ?s)\<rparr>)))) = 4096"
    by (subst write_hdr_image) (simp_all add: x86_64_def hdr_size_def body_def)
  ultimately show ?thesis by (simp add: otrx_create_def Let_def fw_options del: otrx_create_options.simps)
qed

definition fw_ops :: "bytes mtd_ops" where
  "fw_ops = sim_ops 4 1024 False (\<lambda>k. False)"

definition fw_state :: "bytes \<Rightarrow> bytes mtd" where
  "fw_state img = \<lparr>devs = [lit ''firmware'' \<mapsto> replicate 4096 0], mtdsize = 0, erasesize = 0, mtd_nand = False, buf = [], bufcap = Some 1024,
     imageformat = MTD_IMAGE_FORMAT_UNKNOWN, image = [Chunk img]\<rparr>"

lemma fw_chip: "chip fw_ops (\<lambda>d. length d = 4 * 1024) (\<lambda>d. d) 4 1024 False (\<lambda>k. False)"
  unfolding fw_ops_def by (rule sim_chip) simp_all

text \<open>A NAND device of four blocks of 32 bytes whose second block is bad, with a trx header in the first block.\<close>

definition trx_ops :: "bytes mtd_ops" where
  "trx_ops = sim_ops 4 32 True demo_bad"

definition trx_cells :: bytes where
  "trx_cells = le32_enc MTD_TRX_MAGIC @ replicate 28 0 @ replicate 32 7 @ replicate 64 1"

definition trx_state :: "bytes mtd" where
  "trx_state = fix_state\<lparr>devs := [lit ''fw'' \<mapsto> trx_cells]\<rparr>"

lemma trx_chip: "chip trx_ops (\<lambda>d. length d = 4 * 32) (\<lambda>d. d) 4 32 True demo_bad"
  unfolding trx_ops_def by (rule sim_chip) simp_all

lemma trx_facts: "length trx_cells = 128" "devs trx_state (lit ''fw'') = Some trx_cells" "le32_dec (slice 0 4 trx_cells) = MTD_TRX_MAGIC" "\<not> demo_bad 0"
  by (simp_all add: trx_cells_def trx_state_def slice_def demo_bad_def)

end
