(* ===== verification/SeamaFlow.thy ===== *)
theory SeamaFlow
  imports Firmware MtdMd5 Oseama
begin

text \<open>
  Lemmas for the way of a Seama image: the entity that \<open>oseama entity\<close> creates, with a root file system behind it, in the flash of a router: \<open>mtd fixseama\<close> finds its digest
  correct, and the kernel's parser finds the kernel and the root file system.
\<close>

lemma entity_at:
  assumes "prefix (seama_entity m g @ r) c" "length m < 2 ^ 16" "length g < 2 ^ 32"
  shows "be32_dec (slice 0 4 c) = OSEAMA_MAGIC" "meta_of c = length m" "image_of c = length g" "slice 12 16 c = md5_ref g" "slice (28 + length m) (length g) c = g"
    "prefix r (drop (28 + length m + length g) c)"
proof -
  obtain x where c: "c = seama_entity m g @ r @ x" using assms(1) by (auto simp: prefix_def)
  have h: "slice at n (take 28 c) = slice at n c" if "at + n \<le> 28" for at n using that by (simp add: slice_def drop_take)
  have "take 28 c = take 28 (seama_entity m g @ (r @ x))" by (simp only: c)
  note e = entity_fields [OF assms(2,3) this]
  show "be32_dec (slice 0 4 c) = OSEAMA_MAGIC" using e(2) h [of 0 4] by simp
  show "meta_of c = length m" "image_of c = length g" using e(3,4) h [of 6 2] h [of 8 4] by (simp_all add: meta_of_def image_of_def)
  show "slice 12 16 c = md5_ref g" by (simp add: c seama_entity_def entity_hdr_def slice_def le16_enc_def)
  show "slice (28 + length m) (length g) c = g" by (simp add: c seama_entity_def entity_hdr_length slice_def)
  show "prefix r (drop (28 + length m + length g) c)" by (simp add: c seama_entity_def entity_hdr_length prefix_def)
qed

lemma fixseama_same:
  assumes ch: "chip ops valid cells n eb nand bad" "valid d" "devs s name = Some d" "\<not> bad 0" "28 \<le> eb" "n * eb < 2 ^ 31" "32 \<le> ulong_bits A" "length stack = 64"
    and e: "prefix (seama_entity m g @ r) (cells d)" "length m < 2 ^ 16" "g \<noteq> []"
  shows "\<exists>s' d'. mtd_fixseama A ops stack name 0 0 s = (Inr 0, s') \<and> devs s' name = Some d' \<and> valid d' \<and> cells d' = cells d"
proof -
  have lc: "length (cells d) = n * eb" using chip_geometry(2) [OF ch(1,2)] .
  have le: "28 + length m + length g \<le> n * eb" using e(1) lc by (auto simp: prefix_def seama_entity_length)
  then have g: "length g < 2 ^ 32" using ch(6) by simp
  note at = entity_at [OF e(1,2) g]
  have f: "h_len seama_format = 28" "h_magic_at seama_format = 0" "h_size_at seama_format = 8" "h_digest_at seama_format = 12" "h_size_dec seama_format = be32_dec"
    "h_meta seama_format (cells d) = length m" "hashed_data seama_format (cells d) x = x" for x
    using at(2) by (simp_all add: seama_format_def hashed_data_def meta_of_def)
  have "length (slice 0 4 (cells d)) = 4" using lc le by simp
  then have mg: "h_magic seama_format A (slice 0 4 (cells d))"
    using at(1) htonl_native [of "slice 0 4 (cells d)" A] by (simp add: seama_format_def OSEAMA_MAGIC_def) (metis htonl_htonl)
  have "\<exists>s' d'. mtd_fixhdr seama_format A ops stack name 0 0 s = (Inr 0, s') \<and> devs s' name = Some d' \<and> valid d' \<and>
    cells d' = fixed seama_format (slice (28 + length m) (length g) (cells d)) (cells d)"
    using le at(3) mg e(3) by (intro seama.fixhdr_run [OF ch(1-4) _ _ ch(6,7) refl]) (simp_all add: f image_of_def ch(5,8))
  moreover have "fixed seama_format (slice (28 + length m) (length g) (cells d)) (cells d) = cells d" using at(4,5) by (simp add: fixed_def f)
  ultimately show ?thesis by (simp add: mtd_fixseama_def)
qed

lemma seama_parse:
  assumes fl: "flash kd c" and e: "prefix (seama_entity m g @ r) c" "length m < 2 ^ 16" and sz: "m_size kd < 2 ^ 31" "32 \<le> ulong_bits A"
    and r: "4 \<le> length r" "rootfs_magic A (take 4 r)"
  shows "\<exists>ty. mtdsplit_parse_seama A kd = Inr [kernel_part (28 + length m) (length g), typed_rootfs_part ty (28 + length m + length g) (m_size kd - (28 + length m + length g))]"
proof -
  have lc: "length c = m_size kd" using fl by (simp add: flash_def)
  have le: "28 + length m + length g + length r \<le> m_size kd" using e(1) lc by (auto simp: prefix_def seama_entity_length)
  then have g: "length g < 2 ^ 32" using sz(1) by simp
  note at = entity_at [OF e g]
  let ?h = "slice 0 28 c" and ?o = "28 + length m + length g"
  have rd: "read_header kd 0 28 = Inr ?h" using read_header_flash [OF fl] le by simp
  have h: "be32_dec (slice 0 4 ?h) = SEAMA_MAGIC" "unat (be16_dec (slice 6 2 ?h)) = length m" "unat (be32_dec (slice 8 4 ?h)) = length g"
    using at(1-3) by (simp_all add: slice_slice meta_of_def image_of_def OSEAMA_MAGIC_def SEAMA_MAGIC_def)
  have s: "size_add A 28 (length g) = 28 + length g" "size_add A (28 + length g) (length m) = ?o" using le sz by (auto simp: size_add_31)
  obtain x where "drop ?o c = r @ x" using at(6) by (auto simp: prefix_def)
  then have "slice ?o 4 c = take 4 r" using r(1) by (simp add: slice_def)
  then obtain ty where ty: "mtd_check_rootfs_magic A kd ?o = Inr ty" using check_rootfs_flash [OF fl, of A ?o] le r by auto
  have u: "u64_sub ?o (28 + length m) = length g" "u64_sub (m_size kd) ?o = m_size kd - ?o" using le sz(1) by (simp_all add: u64_sub_small)
  show ?thesis
    using h s u ty le by (intro exI [of _ ty]) (simp add: mtdsplit_parse_seama_def rd Let_def)
qed

end
