(* ===== verification/Spec2Isabelle.thy ===== *)
theory Spec2Isabelle
  imports Ptgen Osafeloader Maccalc Fis Bootcount ImageTag NvramCli Owipcalc Fwtool SeamaFlow
begin

text \<open>
  OpenWrt is a build system with its own tools: programs that build, check, write and split firmware images, and programs for
  the network and the settings of a router. This development models those tools that are written in C for this repository and carry the
  logic an image or a setting depends on. The kernel, the C library and the imported packages are outside of it.

  \<^bold>\<open>The parts and their theories.\<close>

  \<^item> \<open>Prelude\<close>: bytes, machine descriptions (\<open>abi\<close>: byte order and the width of \<open>unsigned long\<close>), encoding of words, slices and updates of byte
    lists (\<open>slice\<close>, \<open>put\<close>), \<open>strtoul\<close>. \<open>Stdio\<close>: streams on files, \<open>size_t\<close> arithmetic.
  \<^item> \<open>Crc\<close>: the CRC-8 of \<^verbatim>\<open>package/utils/nvram/src/crc.c\<close>, the CRC-32 of \<^verbatim>\<open>package/utils/otrx/src/otrx.c\<close> and of \<^verbatim>\<open>package/system/mtd/src/crc32.c\<close>:
    the tables and loops, their equality with a bit serial reference, and that a changed byte changes the checksum. One locale states what a table
    has to satisfy; it is interpreted on the three tables of the sources.
  \<^item> \<open>Nvram\<close>, \<open>NvramCli\<close>: the settings store (\<^verbatim>\<open>package/utils/nvram/src/nvram.c\<close>, \<^verbatim>\<open>cli.c\<close>). The handle (\<open>nvram_handle\<close>) holds the mapped partition
    as bytes and the hash table as lists of tuples; \<open>nvram_get\<close>, \<open>nvram_set\<close>, \<open>nvram_unset\<close>, \<open>nvram_getall\<close>, \<open>nvram_commit\<close>, \<open>nvram_open\<close>, \<open>nvram_close\<close> and
    the program with its staging file. The hash table refines a finite map; a commit can be read back; every reachable handle is well formed.
  \<^item> \<open>Otrx\<close>: TRX images (\<^verbatim>\<open>package/utils/otrx/src/otrx.c\<close>): \<open>otrx_check\<close>, \<open>otrx_create\<close>, \<open>otrx_extract\<close> over \<open>Stdio\<close>. Check accepts exactly the valid images, created
    images pass it, extracting gives the files back.
  \<^item> \<open>Mtd\<close>, \<open>MtdFix\<close>: the flash writer (\<^verbatim>\<open>package/system/mtd/src/mtd.c\<close>, \<^verbatim>\<open>trx.c\<close>). A device is a record of the operations the kernel offers (\<open>mtd_ops\<close>), a parameter;
    \<open>chip\<close> states what is relied on of it and \<open>sim_ops\<close> satisfies it. The state \<open>mtd\<close> holds the globals of the program. Writing puts the blocks of the image into the good blocks
    in order; dumping, verifying, erasing, refusing images, and fixing a header.
  \<^item> \<open>Jffs2\<close>, \<open>Jffs2Log\<close>: the \<open>jffs2write\<close> command (\<^verbatim>\<open>package/system/mtd/src/jffs2.c\<close>, \<open>trx_fixup\<close> of \<^verbatim>\<open>trx.c\<close>). The static variables are the record \<open>jffs2\<close>, with the erase block under
    construction as bytes; the second theory has a reader of JFFS2 nodes, the writer without the device (\<open>log\<close>), and the proof that the code follows it on every device that satisfies \<open>chip\<close>
    (locale \<open>jffs2_flash\<close>): the file that was added can be read back. \<open>MtdJffs2\<close>: \<open>mtd write -j\<close> (\<open>mtd_write\<close> of \<^verbatim>\<open>mtd.c\<close> with the parts that need \<^verbatim>\<open>jffs2.c\<close>), which puts the
    file into the image on its way to the flash; without the option it is the \<open>mtd_write\<close> of \<open>Mtd\<close>. \<open>Fis\<close>: the option \<open>-F\<close> (\<^verbatim>\<open>fis.c\<close>, and the lines of \<open>mtd_write\<close> that use it), which replaces
    partitions in RedBoot's table: the new ones take the place of the old ones, and what happens if there are fewer. \<open>Bootcount\<close> (\<^verbatim>\<open>linksys_bootcount.c\<close>): \<open>mtd resetbc\<close> keeps a log of
    boot counters and brings its count to 0; the locale \<open>counter_flash\<close> states what it needs of the device. \<open>ImageTag\<close> (\<^verbatim>\<open>imagetag.c\<close>): the functions of \<^verbatim>\<open>trx.c\<close> for boards
    with image tags.
  \<^item> \<open>Md5\<close>: the two MD5 implementations, of the flash writer (\<^verbatim>\<open>package/system/mtd/src/md5.c\<close>) and of the image tools (\<^verbatim>\<open>package/utils/oseama/src/md5.c\<close>), with their contexts:
    both compute a reference digest of all they were given. \<open>MtdMd5\<close>: the header fixers that use the first one (\<^verbatim>\<open>seama.c\<close>, \<^verbatim>\<open>wrg.c\<close>, \<^verbatim>\<open>wrgg.c\<close>); one locale states what
    the common code needs of a header and is interpreted on the three formats.
  \<^item> \<open>Oseama\<close>: the Seama image tool (\<^verbatim>\<open>package/utils/oseama/src/oseama.c\<close>), over \<open>Stdio\<close> and the second MD5: the layout of created entities, extraction, what \<open>info\<close> shows, and
    whether its loops end. \<open>Osafeloader\<close>: the tool for TP-Link's images (\<^verbatim>\<open>package/utils/osafeloader/src/osafeloader.c\<close>): the table of partitions that it reads as text, \<open>info\<close> and
    \<open>extract\<close>. \<open>Ptgen\<close>: the partition table generator of the build host (\<^verbatim>\<open>tools/firmware-utils/src/ptgen.c\<close>): where the partitions of the boot sector lie, and their CHS values.
  \<^item> \<open>Mtdsplit\<close>: the kernel's partition parsers (\<^verbatim>\<open>target/linux/generic/files/drivers/mtd/mtdsplit/\<close>). A device is \<open>mtd_info\<close> with its read function; every parser is
    a function from it to an error number or a list of partitions. One locale states what the parsers that search for a root file system share.
  \<^item> \<open>Owipcalc\<close>: the address calculator (\<^verbatim>\<open>package/network/utils/owipcalc/src/owipcalc.c\<close>): every operation on IPv4 and IPv6 networks, the operation table, the
    argument loop. \<open>inet_pton\<close> and \<open>inet_ntop\<close> are parameters. \<open>Maccalc\<close>: the calculator for MAC addresses (\<^verbatim>\<open>package/network/utils/maccalc/src/main.c\<close>): \<open>add\<close> is addition on the lower half
    of the address, and texts and bytes are converted into each other.
  \<^item> \<open>Fwtool\<close>: metadata and signatures behind an image (\<^verbatim>\<open>package/system/fwtool/src/fwtool.c\<close>, \<^verbatim>\<open>crc32.h\<close>, \<^verbatim>\<open>fwimage.h\<close>): appending a chunk with its
    trailer, and the double buffer from which chunks are taken off the end of a file. Round trips through the whole program, detection of changes, and two kinds of images
    that make it leave its buffers.
  \<^item> \<open>Firmware\<close>, \<open>SeamaFlow\<close> and this theory: an image on its way through the tools.

  \<^bold>\<open>How they interact.\<close> \<open>otrx create\<close> builds an image on the host; \<open>mtd write\<close> checks and writes it into the flash of a router, \<open>mtd fixtrx\<close> corrects its
  checksum after the first boot; the kernel's parsers find the kernel and the root file system in it. The first property below follows an image along
  this way, the second compares the checksums of the two tools, the third follows a Seama image from \<open>oseama\<close> through \<open>mtd write\<close> and \<open>mtd fixseama\<close> to the kernel. The nvram tool keeps its data in a partition of the same flash, through a staging file.

  \<^bold>\<open>Errors, loops and bounds.\<close> Errors of the C code are values: negative \<open>errno\<close> numbers as \<open>Inl\<close>, \<open>None\<close> for accesses outside of an object and
  other undefined behaviour, \<open>stop\<close> for \<open>exit\<close> in the flash writer. Loops are recursive functions with termination proofs. Three loops of the flash writer depend on what
  the device answers and take fuel: with the contract \<open>chip\<close> the number of blocks plus 2 is enough for writing, plus 1 for dumping, and a number above the length of the
  image for verifying; the loops of \<open>oseama\<close> over entities, for which the length of the file is enough on 64 bit machines; and the loops of \<open>jffs2write\<close>, for which the erase size plus the number of blocks is enough; the properties state this and conclude that the result is a proper one, not \<open>Fuel\<close>. Words are kept at their width; \<open>size_t\<close> is
  computed modulo \<open>2 ^ ulong_bits\<close>. Offsets and sizes of devices and files are natural numbers where the sources have \<open>int\<close>, \<open>ssize_t\<close> or \<open>size_t\<close>; the properties have the bounds
  under which the C types hold them as hypotheses: \<open>2 ^ 31\<close> for the flash writer (\<open>n * eb\<close> is the size of a device of \<open>n\<close> erase blocks), for the file lengths of \<open>fwtool\<close> and the offsets of \<open>otrx\<close>, and \<open>2 ^ 32\<close> for
  the kernel's parsers, whose products of \<open>uint32_t\<close> wrap behind it. Shifts and additions of \<open>int\<close> in \<open>owipcalc\<close> that are undefined in C for a prefix of 1 wrap around, as on the machines OpenWrt runs on.

  \<^bold>\<open>Not modelled.\<close> In the modelled programs: messages and usage texts, failing allocation (except where \<open>otrx\<close> handles it), the search of a label in
  \<^verbatim>\<open>/proc/mtd\<close>, rebooting; failing writes of the files that \<open>otrx extract\<close> makes. Other programs: \<open>mapcalc\<close>, which asks \<open>ubus\<close> for most of what it prints, the other image builders for the build host,
  \<open>swconfig\<close> and the switch drivers, kernel modules for boards; the vendored drivers (\<^verbatim>\<open>package/mtk\<close>, \<^verbatim>\<open>package/kernel/lantiq\<close>) and imported packages, whose logic is hardware access
  or third party code; makefiles and scripts.
\<close>

section \<open>Properties that span components\<close>

text \<open>C5. From the image tool to the kernel: an image that \<open>otrx create\<close> built on a little endian machine from a kernel, a root file system
  that is not empty and perhaps a third file is written by \<open>mtd write\<close> to any device without bad blocks it fits on, and the trx parser of the
  kernel then splits that device into two adjacent partitions, up to its end: the first starts with the kernel, the second with the root file system.\<close>

theorem firmware_install_splits:
  assumes image: "otrx_create A E opts = Some (0, img)" "\<not> big_endian A" "32 \<le> ulong_bits A" "2 ^ 31 \<le> disk E" "length img < 2 ^ 31"
      "concat (map (Otrx.new_parts E) opts) = kern # rootfs # rest" "rootfs \<noteq> []"
    and device: "chip mops valid cells n eb nand bad" "valid d" "devs s name = Some d" "0x3a \<notin> set name" "\<And>k. \<not> bad k"
      "32 \<le> n * eb" "n * eb < 2 ^ 31" "length img \<le> n * eb"
    and args: "bufcap s = Some cap" "eb \<le> cap" "length (buf s) \<le> eb" "readable (image s)" "buf s @ image_bytes (image s) = img" "n + 2 \<le> fuel"
  shows "\<exists>s' d'. mtd_write mops 0 False fuel name s = (Inr 0, s') \<and> devs s' name = Some d' \<and> valid d' \<and>
    (\<forall>kd. flash kd (cells d') \<longrightarrow>
      (\<exists>ko ks ro rs. mtdsplit_parse_trx A kd = Inr [kernel_part ko ks, rootfs_part ro rs] \<and> ro = ko + ks \<and> ro + rs = m_size kd \<and>
         prefix kern (slice ko ks (cells d')) \<and> prefix rootfs (slice ro rs (cells d'))))"
proof -
  obtain s' d' where w: "mtd_write mops 0 False fuel name s = (Inr 0, s')" "devs s' name = Some d'" "valid d'" "prefix img (cells d')"
    using write_good [OF device(1-4) args(1-4,6) device(5) args(5) device(8)] by blast
  obtain hdr b where i: "img = put 0 (trx_enc A (final_header hdr b A)) b" "hdr_size \<le> length b" "th_length hdr = of_nat (length b)"
    "parts_at (th_offset hdr) b (kern # rootfs # rest)" using image(1-5) image(6) by (elim create_image) auto
  have "m_size kd = n * eb" if "flash kd (cells d')" for kd using that chip_geometry(2) [OF device(1) w(3)] by (simp add: flash_def)
  then show ?thesis using w(1-3) trx_parts_parse [OF _ _ _ image(3,2) w(4) i image(7)] device(6,7) by metis
qed

theorem firmware_install_splits_witness:
  "\<exists>img s' d' ko ks ro rs. otrx_create x86_64 fw_env [(102, lit ''k''), (102, lit ''r'')] = Some (0, img) \<and>
     mtd_write fw_ops 0 False 6 (lit ''firmware'') (fw_state img) = (Inr 0, s') \<and> devs s' (lit ''firmware'') = Some d' \<and>
     mtdsplit_parse_trx x86_64 (flash_dev 1024 d') = Inr [kernel_part ko ks, rootfs_part ro rs] \<and>
     prefix [1, 2, 3] (slice ko ks d') \<and> prefix [4, 5, 6] (slice ro rs d')"
proof -
  obtain img where i: "otrx_create x86_64 fw_env [(102, lit ''k''), (102, lit ''r'')] = Some (0, img)" "length img = 4096" using fw_create by blast
  have p: "concat (map (Otrx.new_parts fw_env) [(102, lit ''k''), (102, lit ''r'')]) = [1, 2, 3] # [4, 5, 6] # []"
    by (simp add: Otrx.new_parts_def fw_env_def lit_def)
  have s: "devs (fw_state img) (lit ''firmware'') = Some (replicate 4096 0)" "bufcap (fw_state img) = Some 1024" "buf (fw_state img) = []"
    "image (fw_state img) = [Chunk img]" by (simp_all add: fw_state_def)
  have r: "readable [Chunk img]" "(0x3a :: byte) \<notin> set (lit ''firmware'')" using i(2) by (auto simp: readable_def lit_def)
  have "\<exists>s' d'. mtd_write fw_ops 0 False 6 (lit ''firmware'') (fw_state img) = (Inr 0, s') \<and> devs s' (lit ''firmware'') = Some d' \<and> length d' = 4 * 1024 \<and>
    (\<forall>kd. flash kd d' \<longrightarrow>
      (\<exists>ko ks ro rs. mtdsplit_parse_trx x86_64 kd = Inr [kernel_part ko ks, rootfs_part ro rs] \<and> ro = ko + ks \<and> ro + rs = m_size kd \<and>
         prefix [1, 2, 3] (slice ko ks d') \<and> prefix [4, 5, 6] (slice ro rs d')))"
    by (rule firmware_install_splits [OF i(1) _ _ _ _ p _ fw_chip _ s(1) r(2) _ _ _ _ s(2)]) (use i(2) r(1) in \<open>simp_all add: x86_64_def fw_env_def s\<close>)
  then obtain s' d' where w: "mtd_write fw_ops 0 False 6 (lit ''firmware'') (fw_state img) = (Inr 0, s')" "devs s' (lit ''firmware'') = Some d'"
    "length d' = 4 * 1024" "\<forall>kd. flash kd d' \<longrightarrow> (\<exists>ko ks ro rs. mtdsplit_parse_trx x86_64 kd = Inr [kernel_part ko ks, rootfs_part ro rs] \<and>
         prefix [1, 2, 3] (slice ko ks d') \<and> prefix [4, 5, 6] (slice ro rs d'))" by blast
  moreover have "flash (flash_dev 1024 d') d'" using w(3) by (intro flash_dev) simp_all
  ultimately show ?thesis using i(1) by blast
qed

text \<open>C13. After \<open>mtd fixtrx\<close> at the start of a device, whichever of its other blocks are bad, the dump of the device's good blocks passes \<open>otrx check\<close>:
  the checksum the flash tool stores over the good blocks is the one the image tool computes over the dump.\<close>

theorem firmware_fixtrx_passes_check:
  assumes device: "chip mops valid cells n eb nand bad" "eb = 2 ^ k" "28 \<le> eb" "valid d" "devs s name = Some d" "n * eb < 2 ^ 31"
    and header: "\<not> bad 0" "le32_dec (slice 0 4 (cells d)) = MTD_TRX_MAGIC"
    and data: "32 \<le> ulong_bits A" "ds = (if data_size = 0 then eb - 12 else data_size + 16)" "12 + ds \<le> n * eb"
    and fuel: "n + 1 \<le> fuel"
  shows "\<exists>s' size dump. mtd_fixtrx A mops name 0 data_size s = (Inr 0, s') \<and>
    fst (mtd_dump mops fuel name 0 size s') = (Inr 0, dump) \<and> otrx_check B 0 (Some dump) = 0"
proof -
  have ds: "16 \<le> ds" using data(2) device(3) by auto
  have n: "0 < n" using data(3) by (cases n) auto
  have l: "length (cells d) = n * eb" using chip_geometry(2) [OF device(1,4)] .
  obtain s' d' where fx: "mtd_fixtrx A mops name 0 data_size s = (Inr 0, s')" "devs s' name = Some d'" "valid d'"
    "cells d' = put (0 + 4) (trx_fields (good_data bad eb (0 + 12) ds (cells d))) (cells d)"
    using fixtrx_run [OF device(1,2) _ device(4,5), of 0 A ds data_size] device(3,6) header data by auto
  have "valid_trx (good_data bad eb 0 (n * eb) (cells d'))"
    using fixed_valid [of eb n "cells d" bad ds "cells d'"] device(3,6) n l header(1,2) ds data(3) fx(4) by (simp add: MTD_TRX_MAGIC_def TRX_MAGIC_def)
  moreover have "fst (mtd_dump mops fuel name 0 (length (good_data bad eb 0 (n * eb) (cells d'))) s') = (Inr 0, good_data bad eb 0 (n * eb) (cells d'))"
    using dump_good [OF device(1) fx(3,2) fuel n header(1)] .
  ultimately show ?thesis using fx(1) by (auto simp: otrx_check_valid)
qed

theorem firmware_fixtrx_passes_check_witness:
  "\<exists>s' size dump. mtd_fixtrx mips_be trx_ops (lit ''fw'') 0 48 trx_state = (Inr 0, s') \<and>
    fst (mtd_dump trx_ops 5 (lit ''fw'') 0 size s') = (Inr 0, dump) \<and> otrx_check x86_64 0 (Some dump) = 0"
  by (rule firmware_fixtrx_passes_check [OF trx_chip, where k = 5 and d = trx_cells and ds = 64]) (simp_all add: trx_facts mips_be_def)

text \<open>C6. A Seama image: the entity that \<open>oseama entity\<close> creates on the build host, followed by a root file system, is written by \<open>mtd write\<close> to any device without bad blocks it fits on.
  \<open>mtd fixseama\<close> on the router, whatever its byte order, then finds the digest correct and leaves the device as it is, and the Seama parser of the kernel splits it into a partition that
  is exactly the image of the entity and one that starts with the root file system.\<close>

theorem firmware_seama_install:
  assumes entity: "oseama_entity A E stk opts = (0, ent)" "32 \<le> ulong_bits A" "\<forall>n. malloc_ok E n" "length stk = 64"
      "\<forall>opt\<in>set opts. fst opt = 98 \<longrightarrow> 0 \<le> strtol A 0 (snd opt)" "meta = entity_meta opts" "kern = entity_image A E (28 + length meta) opts"
      "kern \<noteq> []" "length meta < 2 ^ 16" "28 + length meta + length kern < 2 ^ 31" "28 + length meta + length kern \<le> disk E"
    and rootfs: "4 \<le> length rootfs" "rootfs_magic B (take 4 rootfs)"
    and device: "chip mops valid cells n eb nand bad" "valid d" "devs s name = Some d" "0x3a \<notin> set name" "\<And>k. \<not> bad k"
      "28 \<le> eb" "n * eb < 2 ^ 31" "length (ent @ rootfs) \<le> n * eb"
    and args: "bufcap s = Some cap" "eb \<le> cap" "length (buf s) \<le> eb" "readable (image s)" "buf s @ image_bytes (image s) = ent @ rootfs" "n + 2 \<le> fuel"
    and router: "32 \<le> ulong_bits B" "length stk' = 64"
  shows "\<exists>s1 d1 s2 d2. mtd_write mops 0 False fuel name s = (Inr 0, s1) \<and> devs s1 name = Some d1 \<and> valid d1 \<and>
    mtd_fixseama B mops stk' name 0 0 s1 = (Inr 0, s2) \<and> devs s2 name = Some d2 \<and> cells d2 = cells d1 \<and>
    (\<forall>kd. flash kd (cells d1) \<longrightarrow>
      (\<exists>ty ro. mtdsplit_parse_seama B kd = Inr [kernel_part (28 + length meta) (length kern), typed_rootfs_part ty ro (m_size kd - ro)] \<and>
         slice (28 + length meta) (length kern) (cells d1) = kern \<and> prefix rootfs (drop ro (cells d1))))"
proof -
  have ent: "ent = seama_entity meta kern" using oseama_entity_layout [OF entity(2) _ entity(4,6,7,5,10,11)] entity(1,3) by simp
  obtain s1 d1 where w: "mtd_write mops 0 False fuel name s = (Inr 0, s1)" "devs s1 name = Some d1" "valid d1" "prefix (ent @ rootfs) (cells d1)"
    using write_good [OF device(1-4) args(1-4,6) device(5) args(5) device(8)] by blast
  note p = w(4) [unfolded ent]
  obtain s2 d2 where f: "mtd_fixseama B mops stk' name 0 0 s1 = (Inr 0, s2)" "devs s2 name = Some d2" "cells d2 = cells d1"
    using fixseama_same [OF device(1) w(3,2) device(5,6,7) router p entity(9,8)] by blast
  have lk: "length kern < 2 ^ 32" using entity(10) by simp
  have "m_size kd < 2 ^ 31" if "flash kd (cells d1)" for kd using that chip_geometry(2) [OF device(1) w(3)] device(7) by (simp add: flash_def)
  then have "\<exists>ty. mtdsplit_parse_seama B kd = Inr [kernel_part (28 + length meta) (length kern), typed_rootfs_part ty (28 + length meta + length kern) (m_size kd - (28 + length meta + length kern))]"
    if "flash kd (cells d1)" for kd using seama_parse [OF that p entity(9) _ router(1) rootfs] that by blast
  then show ?thesis using w(1-3) f entity_at(5,6) [OF p entity(9) lk] by blast
qed

theorem firmware_seama_install_witness:
  "\<exists>ent s1 d1 s2 d2 ty ro. oseama_entity x86_64 seama_env (replicate 64 9) [(102, lit ''k''), (109, [0x78])] = (0, ent) \<and>
    mtd_write fw_ops 0 False 6 (lit ''firmware'') (fw_state (ent @ lit ''hsqs'')) = (Inr 0, s1) \<and> devs s1 (lit ''firmware'') = Some d1 \<and>
    mtd_fixseama mips_be fw_ops (replicate 64 3) (lit ''firmware'') 0 0 s1 = (Inr 0, s2) \<and> devs s2 (lit ''firmware'') = Some d2 \<and> d2 = d1 \<and>
    mtdsplit_parse_seama mips_be (flash_dev 1024 d1) = Inr [kernel_part 32 2, typed_rootfs_part ty ro (4096 - ro)] \<and>
    slice 32 2 d1 = [0x61, 0x62] \<and> prefix (lit ''hsqs'') (drop ro d1)"
proof -
  let ?opts = "[(102 :: byte, lit ''k''), (109, [0x78])]"
  obtain ent where e: "oseama_entity x86_64 seama_env (replicate 64 9) ?opts = (0, ent)" by (simp add: oseama_entity_def Let_def)
  have m: "[0x78, 0, 0, 0] = entity_meta ?opts" by code_simp
  have k: "[0x61, 0x62] = entity_image x86_64 seama_env (28 + length [0x78 :: byte, 0, 0, 0]) ?opts" by (simp add: image_part_def seama_env_def lit_def)
  have "ent = seama_entity [0x78, 0, 0, 0] [0x61, 0x62]"
    using oseama_entity_layout [OF _ _ _ m k, of "replicate 64 9"] e by (simp add: x86_64_def seama_env_def)
  then have l: "length ent = 34" by (simp add: seama_entity_length)
  have nn: "28 + length [0x78 :: byte, 0, 0, 0] = 32" "length [0x61 :: byte, 0x62] = 2" by simp_all
  let ?img = "ent @ lit ''hsqs''"
  have s: "devs (fw_state ?img) (lit ''firmware'') = Some (replicate 4096 0)" "bufcap (fw_state ?img) = Some 1024" "buf (fw_state ?img) = []"
    "image (fw_state ?img) = [Chunk ?img]" by (simp_all add: fw_state_def)
  have r: "readable [Chunk ?img]" "(0x3a :: byte) \<notin> set (lit ''firmware'')" "rootfs_magic mips_be (take 4 (lit ''hsqs''))" "length (lit ''hsqs'') = 4"
    by (auto simp: readable_def lit_def l rootfs_magic_def SQUASHFS_MAGIC_def intro: disjI1)
  have "\<exists>s1 d1 s2 d2. mtd_write fw_ops 0 False 6 (lit ''firmware'') (fw_state ?img) = (Inr 0, s1) \<and> devs s1 (lit ''firmware'') = Some d1 \<and> length d1 = 4 * 1024 \<and>
    mtd_fixseama mips_be fw_ops (replicate 64 3) (lit ''firmware'') 0 0 s1 = (Inr 0, s2) \<and> devs s2 (lit ''firmware'') = Some d2 \<and> d2 = d1 \<and>
    (\<forall>kd. flash kd d1 \<longrightarrow>
      (\<exists>ty ro. mtdsplit_parse_seama mips_be kd = Inr [kernel_part (28 + length [0x78 :: byte, 0, 0, 0]) (length [0x61 :: byte, 0x62]), typed_rootfs_part ty ro (m_size kd - ro)] \<and>
         slice (28 + length [0x78 :: byte, 0, 0, 0]) (length [0x61 :: byte, 0x62]) d1 = [0x61, 0x62] \<and> prefix (lit ''hsqs'') (drop ro d1)))"
    by (rule firmware_seama_install [OF e _ _ _ _ m k _ _ _ _ _ r(3) fw_chip _ s(1) r(2) _ _ _ _ s(2)])
      (use r l in \<open>simp_all add: x86_64_def mips_be_def seama_env_def s\<close>)
  then obtain s1 d1 s2 d2 where w: "mtd_write fw_ops 0 False 6 (lit ''firmware'') (fw_state ?img) = (Inr 0, s1)" "devs s1 (lit ''firmware'') = Some d1" "length d1 = 4 * 1024"
    "mtd_fixseama mips_be fw_ops (replicate 64 3) (lit ''firmware'') 0 0 s1 = (Inr 0, s2)" "devs s2 (lit ''firmware'') = Some d2" "d2 = d1"
    "\<forall>kd. flash kd d1 \<longrightarrow> (\<exists>ty ro. mtdsplit_parse_seama mips_be kd = Inr [kernel_part 32 2, typed_rootfs_part ty ro (m_size kd - ro)] \<and>
         slice 32 2 d1 = [0x61, 0x62] \<and> prefix (lit ''hsqs'') (drop ro d1))" unfolding nn by blast
  have "flash (flash_dev 1024 d1) d1" using w(3) by (intro flash_dev) simp_all
  moreover have "m_size (flash_dev 1024 d1) = 4096" using w(3) by (simp add: flash_dev_def)
  ultimately have "\<exists>ty ro. mtdsplit_parse_seama mips_be (flash_dev 1024 d1) = Inr [kernel_part 32 2, typed_rootfs_part ty ro (4096 - ro)] \<and>
      slice 32 2 d1 = [0x61, 0x62] \<and> prefix (lit ''hsqs'') (drop ro d1)" using w(7) by metis
  then show ?thesis using w e by blast
qed

end
